(* ===== verification/Prelude.thy ===== *)
theory Prelude
  imports Main "HOL-Library.Word"
begin

text \<open>
  Shared vocabulary of the development: names for the C integer types, the buffer
  primitives (\<^verbatim>\<open>memcpy\<close> into the middle of an array), the return codes of the base
  support layer, and the generic list and word lemmas the component theories share.
\<close>

unbundle bit_operations_syntax

named_theorems c_simps \<open>unfolding rules of the small helper functions of the code\<close>

type_synonym u8 = "8 word"
type_synonym u16 = "16 word"
type_synonym u32 = "32 word"
type_synonym u64 = "64 word"
type_synonym bytes = "8 word list"

abbreviation (input) UINT32_MAX :: nat where
  "UINT32_MAX \<equiv> 4294967295"

text \<open>Return codes of the base support layer (\<^verbatim>\<open>include/bsl/bsl_errno.h\<close>),
  as far as the modelled functions return them.\<close>

datatype bsl_ret =
    BSL_SUCCESS
  | BSL_NULL_INPUT
  | BSL_INTERNAL_EXCEPTION
  | BSL_MALLOC_FAIL
  | BSL_INVALID_ARG
  | BSL_TLV_ERR_BAD_PARAM
  | BSL_TLV_ERR_NO_WANT_TYPE
  | BSL_TLV_ERR_MEMCPY_FAIL
  | BSL_BASE64_INVALID
  | BSL_BASE64_BUF_NOT_ENOUGH
  | BSL_BASE64_DATA_AFTER_PADDING
  | BSL_BASE64_ILLEGALLY_MODIFIED
  | BSL_BASE64_DECODE_FAILED
  | BSL_BASE64_HEADER
  | BSL_BASE64_INVALID_CHARACTER
  | BSL_BASE64_INVALID_ENCODE
  | BSL_ERR_ERR_ACQUIRE_READ_LOCK_FAIL
  | BSL_ERR_ERR_ACQUIRE_WRITE_LOCK_FAIL
  | BSL_ERR_ERR_NO_STACK
  | BSL_ERR_ERR_NO_ERROR
  | BSL_ERR_ERR_NO_MARK
  | BSL_SAL_TIME_BAD_PARAM

section \<open>Unsigned arithmetic on lengths\<close>

text \<open>Subtraction of two \<^verbatim>\<open>uint32_t\<close> values kept as natural numbers, with its wrap-around.\<close>

definition u32_sub :: "nat \<Rightarrow> nat \<Rightarrow> nat" where
  "u32_sub a b = (a + (2 ^ 32 - b)) mod 2 ^ 32"

lemma u32_sub_le: "b \<le> a \<Longrightarrow> a < 2 ^ 32 \<Longrightarrow> u32_sub a b = a - b"
proof -
  assume ba: "b \<le> a" and a: "a < 2 ^ 32"
  have eq: "a + (2 ^ 32 - b) = (a - b) + 2 ^ 32" using ba a by simp
  show ?thesis unfolding u32_sub_def eq mod_add_self2 using a by simp
qed

section \<open>Arrays\<close>

text \<open>\<open>memcpy_at d off s\<close> is the array \<open>d\<close> after \<open>memcpy(&d[off], s, |s|)\<close>;
  \<open>blk off n s\<close> is the block of \<open>n\<close> elements read from \<open>&s[off]\<close>.\<close>

definition memcpy_at :: "'a list \<Rightarrow> nat \<Rightarrow> 'a list \<Rightarrow> 'a list" where
  "memcpy_at d off s = take off d @ s @ drop (off + length s) d"

definition blk :: "nat \<Rightarrow> nat \<Rightarrow> 'a list \<Rightarrow> 'a list" where
  "blk off n s = take n (drop off s)"

lemma length_memcpy_at [simp]:
  "off + length s \<le> length d \<Longrightarrow> length (memcpy_at d off s) = length d"
  by (simp add: memcpy_at_def)

lemma length_blk [simp]: "off + n \<le> length s \<Longrightarrow> length (blk off n s) = n"
  by (simp add: blk_def)

lemma nth_memcpy_at:
  assumes "off + length s \<le> length d" "i < length d"
  shows "memcpy_at d off s ! i =
         (if off \<le> i \<and> i < off + length s then s ! (i - off) else d ! i)"
  using assms by (auto simp: memcpy_at_def nth_append min_def)

lemma take_memcpy_at [simp]:
  "off + length s \<le> length d \<Longrightarrow> take (off + length s) (memcpy_at d off s) = take off d @ s"
  by (simp add: memcpy_at_def)

lemma take_memcpy_at_prefix [simp]:
  "k \<le> off \<Longrightarrow> off \<le> length d \<Longrightarrow> take k (memcpy_at d off s) = take k d"
  by (simp add: memcpy_at_def min_def)

lemma memcpy_at_full: "length s = length d \<Longrightarrow> memcpy_at d 0 s = s"
  by (simp add: memcpy_at_def)

lemma memcpy_at_Nil [simp]: "off \<le> length d \<Longrightarrow> memcpy_at d off [] = d"
  by (simp add: memcpy_at_def)

lemma blk_memcpy_at [simp]:
  "off + length s \<le> length d \<Longrightarrow> blk off (length s) (memcpy_at d off s) = s"
  by (simp add: blk_def memcpy_at_def)

lemma take_Suc_update:
  "i < length xs \<Longrightarrow> take (Suc i) (xs[i := v]) = take i xs @ [v]"
  by (simp add: take_Suc_conv_app_nth)

section \<open>Words\<close>

lemma less_8_cases:
  "(n::nat) < 8 \<Longrightarrow> n = 0 \<or> n = 1 \<or> n = 2 \<or> n = 3 \<or> n = 4 \<or> n = 5 \<or> n = 6 \<or> n = 7"
  by auto

text \<open>Equality of bytes, bit by bit.\<close>

lemma byte_eqI:
  fixes a b :: u8
  assumes "bit a 0 = bit b 0" "bit a 1 = bit b 1" "bit a 2 = bit b 2" "bit a 3 = bit b 3"
    and "bit a 4 = bit b 4" "bit a 5 = bit b 5" "bit a 6 = bit b 6" "bit a 7 = bit b 7"
  shows "a = b"
proof (rule bit_word_eqI)
  fix n assume "n < LENGTH(8)"
  then have "n < 8" by simp
  from less_8_cases [OF this] show "bit a n = bit b n" using assms by auto
qed

lemma unat_and_mask_less: "unat ((x::u8) AND 63) < 64"
proof -
  have "unat (x AND 63) \<le> unat (63 :: u8)"
    by (rule word_and_le1 [THEN word_le_nat_alt [THEN iffD1]])
  then show ?thesis by simp
qed


section \<open>Loops given by their rounds\<close>

text \<open>A loop whose round either leaves with a result or goes on with a new state; \<open>None\<close> when it
  does not end. A property kept by every round holds at the exit, and a loop whose rounds lower a
  measure returns.\<close>

partial_function (option) repeat_round :: "('c \<Rightarrow> 'r + 'c) \<Rightarrow> 'c \<Rightarrow> 'r option" where
  "repeat_round f c = (case f c of Inl r \<Rightarrow> Some r | Inr c' \<Rightarrow> repeat_round f c')"

lemma repeat_round_inv:
  assumes "repeat_round f c = Some r" and "P c"
    and "\<And>c c'. P c \<Longrightarrow> f c = Inr c' \<Longrightarrow> P c'" and "\<And>c r. P c \<Longrightarrow> f c = Inl r \<Longrightarrow> Q r"
  shows "Q r"
proof -
  have "P c \<longrightarrow> (\<forall>c c'. P c \<longrightarrow> f c = Inr c' \<longrightarrow> P c') \<longrightarrow> (\<forall>c r. P c \<longrightarrow> f c = Inl r \<longrightarrow> Q r) \<longrightarrow> Q r"
    by (rule repeat_round.raw_induct [where P = "\<lambda>f c r. P c \<longrightarrow> (\<forall>c c'. P c \<longrightarrow> f c = Inr c' \<longrightarrow> P c')
        \<longrightarrow> (\<forall>c r. P c \<longrightarrow> f c = Inl r \<longrightarrow> Q r) \<longrightarrow> Q r", OF _ assms(1)]) (auto split: sum.splits)
  then show ?thesis using assms(2-4) by blast
qed

lemma repeat_round_returns:
  fixes m :: "'c \<Rightarrow> nat"
  assumes "P c" and "\<And>c c'. P c \<Longrightarrow> f c = Inr c' \<Longrightarrow> P c' \<and> m c' < m c"
  shows "\<exists>r. repeat_round f c = Some r"
  using assms(1)
proof (induction "m c" arbitrary: c rule: less_induct)
  case less
  show ?case
  proof (cases "f c")
    case (Inr c')
    then show ?thesis using less assms(2) [OF less.prems Inr] by (subst repeat_round.simps) simp
  qed (subst repeat_round.simps, simp)
qed

end
