(* ===== verification/Bytes.thy ===== *)
theory Bytes
  imports Prelude
begin

text \<open>
  The inline helpers of \<^verbatim>\<open>bsl/include/bsl_bytes.h\<close>: conversions between
  unsigned integers and big-endian byte arrays, and the constant-time selection and
  comparison primitives on \<^verbatim>\<open>uint32_t\<close>. A byte array argument is the list of bytes
  that starts at the pointer; a conversion to bytes gives the bytes it stores.
\<close>

section \<open>Byte order conversions\<close>

definition BSL_ByteToUint16 :: "bytes \<Rightarrow> u16" where
  "BSL_ByteToUint16 d = push_bit 8 (ucast (d ! 0)) OR ucast (d ! 1)"

definition BSL_Uint16ToByte :: "u16 \<Rightarrow> bytes" where
  "BSL_Uint16ToByte n = [ucast (drop_bit 8 n), ucast (n AND 0xff)]"

definition BSL_ByteToUint24 :: "bytes \<Rightarrow> u32" where
  "BSL_ByteToUint24 d =
     push_bit 16 (ucast (d ! 0)) OR push_bit 8 (ucast (d ! 1)) OR ucast (d ! 2)"

definition BSL_Uint24ToByte :: "u32 \<Rightarrow> bytes" where
  "BSL_Uint24ToByte n = [ucast (drop_bit 16 n), ucast (drop_bit 8 n), ucast (n AND 0xff)]"

definition BSL_ByteToUint32 :: "bytes \<Rightarrow> u32" where
  "BSL_ByteToUint32 d =
     push_bit 24 (ucast (d ! 0)) OR push_bit 16 (ucast (d ! 1)) OR
     push_bit 8 (ucast (d ! 2)) OR ucast (d ! 3)"

definition BSL_Uint32ToByte :: "u32 \<Rightarrow> bytes" where
  "BSL_Uint32ToByte n =
     [ucast (drop_bit 24 n), ucast (drop_bit 16 n), ucast (drop_bit 8 n), ucast (n AND 0xff)]"

definition BSL_ByteToUint48 :: "bytes \<Rightarrow> u64" where
  "BSL_ByteToUint48 d =
     push_bit 40 (ucast (d ! 0)) OR push_bit 32 (ucast (d ! 1)) OR push_bit 24 (ucast (d ! 2)) OR
     push_bit 16 (ucast (d ! 3)) OR push_bit 8 (ucast (d ! 4)) OR ucast (d ! 5)"

definition BSL_Uint48ToByte :: "u64 \<Rightarrow> bytes" where
  "BSL_Uint48ToByte n =
     [ucast (drop_bit 40 n), ucast (drop_bit 32 n), ucast (drop_bit 24 n),
      ucast (drop_bit 16 n), ucast (drop_bit 8 n), ucast (n AND 0xff)]"

definition BSL_ByteToUint64 :: "bytes \<Rightarrow> u64" where
  "BSL_ByteToUint64 d =
     push_bit 56 (ucast (d ! 0)) OR push_bit 48 (ucast (d ! 1)) OR push_bit 40 (ucast (d ! 2)) OR
     push_bit 32 (ucast (d ! 3)) OR push_bit 24 (ucast (d ! 4)) OR push_bit 16 (ucast (d ! 5)) OR
     push_bit 8 (ucast (d ! 6)) OR ucast (d ! 7)"

definition BSL_Uint64ToByte :: "u64 \<Rightarrow> bytes" where
  "BSL_Uint64ToByte n =
     [ucast (drop_bit 56 n), ucast (drop_bit 48 n), ucast (drop_bit 40 n), ucast (drop_bit 32 n),
      ucast (drop_bit 24 n), ucast (drop_bit 16 n), ucast (drop_bit 8 n), ucast (n AND 0xff)]"

lemmas byte_conv_defs =
  BSL_ByteToUint16_def BSL_Uint16ToByte_def BSL_ByteToUint24_def BSL_Uint24ToByte_def
  BSL_ByteToUint32_def BSL_Uint32ToByte_def BSL_ByteToUint48_def BSL_Uint48ToByte_def
  BSL_ByteToUint64_def BSL_Uint64ToByte_def

lemma length_UintToByte [simp]:
  "length (BSL_Uint16ToByte a) = 2"
  "length (BSL_Uint24ToByte b) = 3"
  "length (BSL_Uint32ToByte c) = 4"
  "length (BSL_Uint48ToByte d) = 6"
  "length (BSL_Uint64ToByte e) = 8"
  by (simp_all add: byte_conv_defs)

text \<open>Equality of words of a known width, with the bits enumerated.\<close>

lemma word_eq_by_bits:
  fixes a b :: "'a::len word"
  assumes "list_all (\<lambda>i. bit a i = bit b i) [0..<LENGTH('a)]"
  shows "a = b"
  using assms by (intro bit_word_eqI) (auto simp: list_all_iff)

lemma Uint16_roundtrip [simp]: "BSL_ByteToUint16 (BSL_Uint16ToByte n @ r) = n"
  by (rule word_eq_by_bits, simp add: byte_conv_defs bit_simps upt_conv_Cons Suc_1
      del: One_nat_def flip: One_nat_def, simp?)

lemma Uint24_roundtrip: "BSL_ByteToUint24 (BSL_Uint24ToByte n @ r) = take_bit 24 n"
  by (rule word_eq_by_bits, simp add: byte_conv_defs bit_simps upt_conv_Cons Suc_1
      del: One_nat_def flip: One_nat_def, simp?)

lemma Uint32_roundtrip [simp]: "BSL_ByteToUint32 (BSL_Uint32ToByte n @ r) = n"
  by (rule word_eq_by_bits, simp add: byte_conv_defs bit_simps upt_conv_Cons Suc_1
      del: One_nat_def flip: One_nat_def, simp?)

lemma Uint48_roundtrip: "BSL_ByteToUint48 (BSL_Uint48ToByte n @ r) = take_bit 48 n"
  by (rule word_eq_by_bits, simp add: byte_conv_defs bit_simps upt_conv_Cons Suc_1
      del: One_nat_def flip: One_nat_def, simp?)

lemma Uint64_roundtrip [simp]: "BSL_ByteToUint64 (BSL_Uint64ToByte n @ r) = n"
  by (rule word_eq_by_bits, simp add: byte_conv_defs bit_simps upt_conv_Cons Suc_1
      del: One_nat_def flip: One_nat_def, simp?)

section \<open>Constant-time primitives\<close>

definition Uint32ConstTimeMsb :: "u32 \<Rightarrow> u32" where
  "Uint32ConstTimeMsb a = 0 - drop_bit 31 a"

definition Uint32ConstTimeIsZero :: "u32 \<Rightarrow> u32" where
  "Uint32ConstTimeIsZero a = Uint32ConstTimeMsb (NOT a AND (a - 1))"

definition Uint32ConstTimeEqual :: "u32 \<Rightarrow> u32 \<Rightarrow> u32" where
  "Uint32ConstTimeEqual a b = Uint32ConstTimeIsZero (a XOR b)"

definition Uint32ConstTimeSelect :: "u32 \<Rightarrow> u32 \<Rightarrow> u32 \<Rightarrow> u32" where
  "Uint32ConstTimeSelect m a b = (m AND a) OR (NOT m AND b)"

definition Uint8ConstTimeSelect :: "u32 \<Rightarrow> u8 \<Rightarrow> u8 \<Rightarrow> u8" where
  "Uint8ConstTimeSelect m a b =
     ucast (((m AND ucast a) OR (NOT m AND ucast b)) AND (0xff :: u32))"

definition Uint32ConstTimeLt :: "u32 \<Rightarrow> u32 \<Rightarrow> u32" where
  "Uint32ConstTimeLt a b = Uint32ConstTimeMsb (a XOR ((a XOR b) OR ((a - b) XOR a)))"

definition Uint32ConstTimeGe :: "u32 \<Rightarrow> u32 \<Rightarrow> u32" where
  "Uint32ConstTimeGe a b = NOT (Uint32ConstTimeLt a b)"

definition Uint32ConstTimeGt :: "u32 \<Rightarrow> u32 \<Rightarrow> u32" where
  "Uint32ConstTimeGt a b = Uint32ConstTimeLt b a"

definition Uint32ConstTimeLe :: "u32 \<Rightarrow> u32 \<Rightarrow> u32" where
  "Uint32ConstTimeLe a b = Uint32ConstTimeGe b a"

text \<open>\<open>ConstTimeMemcmp\<close> reads the first \<open>l\<close> bytes of both arrays, always all of them.\<close>

fun ConstTimeMemcmp_loop :: "u8 \<Rightarrow> bytes \<Rightarrow> bytes \<Rightarrow> u8" where
  "ConstTimeMemcmp_loop r (x # a) (y # b) = ConstTimeMemcmp_loop (r OR (x XOR y)) a b"
| "ConstTimeMemcmp_loop r _ _ = r"

definition ConstTimeMemcmp :: "bytes \<Rightarrow> bytes \<Rightarrow> nat \<Rightarrow> u32" where
  "ConstTimeMemcmp a b l =
     Uint32ConstTimeIsZero (ucast (ConstTimeMemcmp_loop 0 (take l a) (take l b)))"

text \<open>The masks the primitives return: all ones for true, zero for false.\<close>

definition ct_mask :: "bool \<Rightarrow> u32" where
  "ct_mask p = (if p then 0xffffffff else 0)"

lemma ct_mask_minus_one: "ct_mask True = - 1"
  by (simp add: ct_mask_def)

lemma xor_eq_0_iff: "a XOR b = 0 \<longleftrightarrow> a = (b :: 'a::len word)"
  by (metis xor_self_eq xor.assoc xor.left_neutral)

lemma bit_31_iff: "bit (a::u32) 31 \<longleftrightarrow> 2 ^ 31 \<le> uint a"
proof -
  have less: "uint a < 2 * 2 ^ 31" using uint_lt2p [of a] by simp
  have "odd (uint a div 2 ^ 31) \<longleftrightarrow> 2 ^ 31 \<le> uint a"
  proof (cases "2 ^ 31 \<le> uint a")
    case True
    then have "uint a div 2 ^ 31 = 1" using less by (intro int_div_pos_eq [of _ _ _ "uint a - 2 ^ 31"]) simp_all
    then show ?thesis using True by simp
  next
    case False
    then have "uint a div 2 ^ 31 = 0" by (simp add: div_pos_pos_trivial)
    then show ?thesis using False by simp
  qed
  moreover have "bit a 31 \<longleftrightarrow> bit (uint a) 31" by (simp add: bit_uint_iff)
  ultimately show ?thesis by (simp add: bit_iff_odd)
qed

lemma drop_bit_31: "drop_bit 31 (a::u32) = of_bool (bit a 31)"
proof (rule bit_word_eqI)
  fix n assume "n < LENGTH(32)"
  show "bit (drop_bit 31 a) n = bit (of_bool (bit a 31) :: u32) n"
    by (cases n) (auto simp: bit_simps dest: bit_imp_le_length)
qed

lemma Uint32ConstTimeMsb_mask: "Uint32ConstTimeMsb a = ct_mask (bit a 31)"
  by (simp add: Uint32ConstTimeMsb_def drop_bit_31 ct_mask_def)

lemma Uint32ConstTimeIsZero_mask: "Uint32ConstTimeIsZero a = ct_mask (a = 0)"
proof -
  have "bit (NOT a AND (a - 1)) 31 \<longleftrightarrow> a = 0"
  proof (cases "a = 0")
    case False
    then have "0 < uint a" by (metis uint_0_iff uint_ge_0 order_le_less)
    then have "uint (a - 1) = uint a - 1" by (simp add: uint_sub_if')
    then have "bit (a - 1) 31 \<longrightarrow> bit a 31" by (simp add: bit_31_iff)
    then show ?thesis using False by (auto simp: bit_and_iff bit_not_iff)
  qed simp
  then show ?thesis by (simp add: Uint32ConstTimeIsZero_def Uint32ConstTimeMsb_mask)
qed

lemma Uint32ConstTimeEqual_mask: "Uint32ConstTimeEqual a b = ct_mask (a = b)"
  by (simp add: Uint32ConstTimeEqual_def Uint32ConstTimeIsZero_mask xor_eq_0_iff)

lemma sign_bit_less:
  fixes x y d :: int
  assumes "0 \<le> x" "x < 4294967296" "0 \<le> y" "y < 4294967296"
    and "d = (if y \<le> x then x - y else x - y + 4294967296)"
  shows "(2147483648 \<le> x) \<noteq>
    ((2147483648 \<le> x) \<noteq> (2147483648 \<le> y) \<or> (2147483648 \<le> d) \<noteq> (2147483648 \<le> x)) \<longleftrightarrow> x < y"
  using assms by auto

lemma Uint32ConstTimeLt_mask: "Uint32ConstTimeLt a b = ct_mask (a < b)"
proof -
  have "uint (a - b) = (if uint b \<le> uint a then uint a - uint b else uint a - uint b + 4294967296)"
    by (simp add: uint_sub_if')
  then have *: "(bit a 31 \<noteq> (bit a 31 \<noteq> bit b 31 \<or> bit (a - b) 31 \<noteq> bit a 31)) \<longleftrightarrow> a < b"
    unfolding bit_31_iff word_less_def
    using sign_bit_less [of "uint a" "uint b" "uint (a - b)"] uint_lt2p [of a] uint_lt2p [of b]
    by simp
  have "bit (a XOR ((a XOR b) OR ((a - b) XOR a))) 31 \<longleftrightarrow> a < b"
    unfolding * [symmetric] by (simp add: bit_or_iff bit_xor_iff)
  then show ?thesis by (simp add: Uint32ConstTimeLt_def Uint32ConstTimeMsb_mask)
qed

lemma ConstTimeMemcmp_loop_zero:
  "length a = length b \<Longrightarrow> ConstTimeMemcmp_loop r a b = 0 \<longleftrightarrow> r = 0 \<and> a = b"
  by (induction r a b rule: ConstTimeMemcmp_loop.induct)
     (auto simp: or_eq_0_iff xor_eq_0_iff)

section \<open>Properties\<close>

text \<open>Byte order conversions round trip: reading back the big-endian bytes that a
  conversion stored, whatever follows them in the buffer, gives the number again, and for the
  24 and 48 bit conversions the number reduced to that width.\<close>

theorem byte_conversions_roundtrip:
  "BSL_ByteToUint16 (BSL_Uint16ToByte a @ r) = a \<and>
   BSL_ByteToUint24 (BSL_Uint24ToByte b @ r) = take_bit 24 b \<and>
   BSL_ByteToUint32 (BSL_Uint32ToByte b @ r) = b \<and>
   BSL_ByteToUint48 (BSL_Uint48ToByte c @ r) = take_bit 48 c \<and>
   BSL_ByteToUint64 (BSL_Uint64ToByte c @ r) = c"
  by (simp add: Uint24_roundtrip Uint48_roundtrip)

text \<open>The branch-free comparison primitives compute the masks their comments promise:
  all ones when the comparison holds and zero otherwise, for every pair of 32-bit words, and
  the selections pick the first operand under the all-ones mask and the second under zero.\<close>

lemma const_time_primitives_correct:
  "Uint32ConstTimeIsZero a = (if a = 0 then 0xffffffff else 0) \<and>
   Uint32ConstTimeEqual a b = (if a = b then 0xffffffff else 0) \<and>
   Uint32ConstTimeLt a b = (if a < b then 0xffffffff else 0) \<and>
   Uint32ConstTimeGe a b = (if a \<ge> b then 0xffffffff else 0) \<and>
   Uint32ConstTimeGt a b = (if a > b then 0xffffffff else 0) \<and>
   Uint32ConstTimeLe a b = (if a \<le> b then 0xffffffff else 0) \<and>
   Uint32ConstTimeSelect 0xffffffff a b = a \<and> Uint32ConstTimeSelect 0 a b = b \<and>
   Uint8ConstTimeSelect 0xffffffff x y = x \<and> Uint8ConstTimeSelect 0 x y = y"
proof -
  have ge: "Uint32ConstTimeGe p q = (if p \<ge> q then 0xffffffff else 0)" for p q
    by (auto simp: Uint32ConstTimeGe_def Uint32ConstTimeLt_mask ct_mask_def not_less)
  have ones: "(0xffffffff :: u32) = - 1" by simp
  have byte: "ucast ((ucast z :: u32) AND 0xff) = (z :: u8)" for z
    by (rule word_eq_by_bits, simp add: bit_simps upt_conv_Cons)
  show ?thesis
    using byte
    by (simp add: Uint32ConstTimeIsZero_mask Uint32ConstTimeEqual_mask Uint32ConstTimeLt_mask
        ge Uint32ConstTimeGt_def Uint32ConstTimeLe_def Uint32ConstTimeSelect_def
        Uint8ConstTimeSelect_def ct_mask_def ones)
qed

text \<open>Constant-time memory comparison: for two arrays of at least \<open>l\<close> bytes the result is
  the all-ones mask exactly when their first \<open>l\<close> bytes agree, and zero otherwise.\<close>

lemma ConstTimeMemcmp_correct:
  assumes "l \<le> length a" "l \<le> length b"
  shows "ConstTimeMemcmp a b l = (if take l a = take l b then 0xffffffff else 0)"
proof -
  have "length (take l a) = length (take l b)" using assms by simp
  then have "ConstTimeMemcmp_loop 0 (take l a) (take l b) = 0 \<longleftrightarrow> take l a = take l b"
    by (simp add: ConstTimeMemcmp_loop_zero)
  moreover have "(ucast w :: u32) = 0 \<longleftrightarrow> w = 0" for w :: u8
    by transfer simp
  ultimately show ?thesis
    by (simp add: ConstTimeMemcmp_def Uint32ConstTimeIsZero_mask ct_mask_def)
qed

end
