(* ===== verification/Base64.thy ===== *)
theory Base64
  imports Bytes
begin

text \<open>
  \<^verbatim>\<open>bsl/base64/src/bsl_base64.c\<close>: one-shot and streaming Base64.
  \<^item> A buffer argument with its length is the list of its bytes; a pointer that may be
    \<^verbatim>\<open>NULL\<close> is an option.
  \<^item> An output buffer is the list of bytes written from its start. The functions report the
    characters counted in \<^verbatim>\<open>*dstBufLen\<close>; the terminating NUL the encoder stores behind
    them is one byte more. \<open>cap\<close> is the value of \<^verbatim>\<open>*dstBufLen\<close> on entry, the room the
    caller declares.
  \<^item> Lengths are natural numbers below \<open>2 ^ 32\<close>; the code computes the needed room in 64 bits
    and compares with \<^verbatim>\<open>UINT32_MAX\<close>, and so does the model.
  \<^item> \<^verbatim>\<open>BSL_SAL_Malloc\<close> succeeds or fails as the argument \<open>mallocOk\<close> says.
\<close>

section \<open>Tables and constants\<close>

abbreviation (input) BASE64_PAD_MAX :: nat where "BASE64_PAD_MAX \<equiv> 2"
abbreviation (input) BASE64_DECODE_BLOCKSIZE :: nat where "BASE64_DECODE_BLOCKSIZE \<equiv> 64"
abbreviation (input) HITLS_BASE64_CTX_LENGTH :: nat where "HITLS_BASE64_CTX_LENGTH \<equiv> 48"
abbreviation (input) HITLS_BASE64_CTX_BUF_LENGTH :: nat where "HITLS_BASE64_CTX_BUF_LENGTH \<equiv> 80"
abbreviation (input) BSL_BASE64_FLAGS_NO_NEWLINE :: u32 where "BSL_BASE64_FLAGS_NO_NEWLINE \<equiv> 1"
abbreviation (input) PAD :: u8 where "PAD \<equiv> 61"
abbreviation (input) NEWLINE :: u8 where "NEWLINE \<equiv> 10"

definition BASE64_DECODE_MAP_TABLE :: "u8 list" where
  "BASE64_DECODE_MAP_TABLE = [
      67, 67, 67, 67, 67, 67, 67, 67, 67, 67, 64, 67, 67, 64, 67, 67,
      67, 67, 67, 67, 67, 67, 67, 67, 67, 67, 67, 67, 67, 67, 67, 67,
      64, 67, 67, 67, 67, 67, 67, 67, 67, 67, 67, 62, 67, 66, 67, 63,
      52, 53, 54, 55, 56, 57, 58, 59, 60, 61, 67, 67, 67, 65, 67, 67,
      67, 0, 1, 2, 3, 4, 5, 6, 7, 8, 9, 10, 11, 12, 13, 14,
      15, 16, 17, 18, 19, 20, 21, 22, 23, 24, 25, 67, 67, 67, 67, 67,
      67, 26, 27, 28, 29, 30, 31, 32, 33, 34, 35, 36, 37, 38, 39, 40,
      41, 42, 43, 44, 45, 46, 47, 48, 49, 50, 51, 67, 67, 67, 67, 67,
      67, 67, 67, 67, 67, 67, 67, 67, 67, 67, 67, 67, 67, 67, 67, 67,
      67, 67, 67, 67, 67, 67, 67, 67, 67, 67, 67, 67, 67, 67, 67, 67,
      67, 67, 67, 67, 67, 67, 67, 67, 67, 67, 67, 67, 67, 67, 67, 67,
      67, 67, 67, 67, 67, 67, 67, 67, 67, 67, 67, 67, 67, 67, 67, 67,
      67, 67, 67, 67, 67, 67, 67, 67, 67, 67, 67, 67, 67, 67, 67, 67,
      67, 67, 67, 67, 67, 67, 67, 67, 67, 67, 67, 67, 67, 67, 67, 67,
      67, 67, 67, 67, 67, 67, 67, 67, 67, 67, 67, 67, 67, 67, 67, 67,
      67, 67, 67, 67, 67, 67, 67, 67, 67, 67, 67, 67, 67, 67, 67, 67]"

text \<open>The 64 letters \<^verbatim>\<open>A..Z a..z 0..9 + /\<close> as their character codes.\<close>

definition base64Letter :: "u8 list" where
  "base64Letter =
     [65, 66, 67, 68, 69, 70, 71, 72, 73, 74, 75, 76, 77, 78, 79, 80, 81, 82, 83, 84, 85, 86,
      87, 88, 89, 90, 97, 98, 99, 100, 101, 102, 103, 104, 105, 106, 107, 108, 109, 110, 111,
      112, 113, 114, 115, 116, 117, 118, 119, 120, 121, 122, 48, 49, 50, 51, 52, 53, 54, 55,
      56, 57, 43, 47]"

definition letter :: "u8 \<Rightarrow> u8" where
  "letter i = base64Letter ! unat i"

definition dmap :: "u8 \<Rightarrow> u8" where
  "dmap c = BASE64_DECODE_MAP_TABLE ! unat c"

record BSL_Base64Ctx =
  num :: nat
  ctxLength :: nat
  flags :: u32
  paddingCnt :: nat
  buf :: bytes

section \<open>One-shot encoding and decoding\<close>

fun BslBase64ArithEncodeProc :: "bytes \<Rightarrow> bytes" where
  "BslBase64ArithEncodeProc (a # b # c # rest) =
     letter (drop_bit 2 a AND 0x3F) #
     letter (push_bit 4 (a AND 0x3) OR drop_bit 4 (b AND 0xF0)) #
     letter (push_bit 2 (b AND 0x0F) OR drop_bit 6 (c AND 0xC0)) #
     letter (c AND 0x3F) #
     BslBase64ArithEncodeProc rest"
| "BslBase64ArithEncodeProc [a, b] =
     [letter (drop_bit 2 a AND 0x3F),
      letter (push_bit 4 (a AND 0x3) OR drop_bit 4 (b AND 0xF0)),
      letter (push_bit 2 (b AND 0x0F)), PAD]"
| "BslBase64ArithEncodeProc [a] =
     [letter (drop_bit 2 a AND 0x3F), letter (push_bit 4 (a AND 0x3)), PAD, PAD]"
| "BslBase64ArithEncodeProc [] = []"

definition BSL_BASE64_Encode :: "bytes option \<Rightarrow> nat option \<Rightarrow> bsl_ret \<times> bytes" where
  "BSL_BASE64_Encode srcBuf dst =
     (case (srcBuf, dst) of
        (Some src, Some cap) \<Rightarrow>
          if length src = 0 then (BSL_NULL_INPUT, [])
          else
            (let needLen = (length src + 2) div 3 * 4 + 1
             in if needLen > UINT32_MAX \<or> cap < needLen then (BSL_BASE64_BUF_NOT_ENOUGH, [])
                else (BSL_SUCCESS, BslBase64ArithEncodeProc src))
      | _ \<Rightarrow> (BSL_NULL_INPUT, []))"

definition BslBase64DecodeRemoveBlank :: "bytes \<Rightarrow> bytes" where
  "BslBase64DecodeRemoveBlank b = filter (\<lambda>c. dmap c \<noteq> 64) b"

text \<open>The scan of \<^verbatim>\<open>BslBase64DecodeCheckAndRmvEqualSign\<close> from index \<open>i\<close> of the
  \<open>len\<close> characters: the characters in front of the padding, or the error.\<close>

fun CheckAndRmvEqualSign_loop :: "nat \<Rightarrow> nat \<Rightarrow> bytes \<Rightarrow> bytes \<Rightarrow> bsl_ret \<times> bytes" where
  "CheckAndRmvEqualSign_loop len i done [] = (BSL_SUCCESS, done)"
| "CheckAndRmvEqualSign_loop len i done (c # rest) =
     (if dmap c > 65 then (BSL_BASE64_INVALID_CHARACTER, [])
      else if dmap c = 65 then
        (if i = len - 1 then (BSL_SUCCESS, done)
         else if i = len - BASE64_PAD_MAX then
           (if hd rest = PAD then (BSL_SUCCESS, done) else (BSL_BASE64_INVALID_CHARACTER, []))
         else (BSL_BASE64_INVALID_CHARACTER, []))
      else CheckAndRmvEqualSign_loop len (i + 1) (done @ [c]) rest)"

definition BslBase64DecodeCheckAndRmvEqualSign :: "bytes \<Rightarrow> bsl_ret \<times> bytes" where
  "BslBase64DecodeCheckAndRmvEqualSign b = CheckAndRmvEqualSign_loop (length b) 0 [] b"

definition BslBase64Normalization :: "bytes \<Rightarrow> bsl_ret \<times> bytes" where
  "BslBase64Normalization src =
     (let filterBuf = BslBase64DecodeRemoveBlank src
      in if length filterBuf = 0 \<or> length filterBuf mod 4 \<noteq> 0
         then (BSL_BASE64_INVALID_ENCODE, [])
         else BslBase64DecodeCheckAndRmvEqualSign filterBuf)"

text \<open>The loop runs while more than four characters are left; the last group has one to four.\<close>

fun BslBase64DecodeBuffer :: "bytes \<Rightarrow> bytes" where
  "BslBase64DecodeBuffer (p # q # r # s # t # rest) =
     (push_bit 2 (dmap p) OR drop_bit 4 (dmap q)) #
     (push_bit 4 (dmap q) OR drop_bit 2 (dmap r)) #
     (push_bit 6 (dmap r) OR dmap s) #
     BslBase64DecodeBuffer (t # rest)"
| "BslBase64DecodeBuffer [p, q, r, s] =
     [push_bit 2 (dmap p) OR drop_bit 4 (dmap q),
      push_bit 4 (dmap q) OR drop_bit 2 (dmap r),
      push_bit 6 (dmap r) OR dmap s]"
| "BslBase64DecodeBuffer [p, q, r] =
     [push_bit 2 (dmap p) OR drop_bit 4 (dmap q),
      push_bit 4 (dmap q) OR drop_bit 2 (dmap r)]"
| "BslBase64DecodeBuffer [p, q] = [push_bit 2 (dmap p) OR drop_bit 4 (dmap q)]"
| "BslBase64DecodeBuffer [p] = []"
| "BslBase64DecodeBuffer [] = []"

definition BslBase64ArithDecodeProc :: "bool \<Rightarrow> bytes \<Rightarrow> bsl_ret \<times> bytes" where
  "BslBase64ArithDecodeProc mallocOk src =
     (if \<not> mallocOk then (BSL_MALLOC_FAIL, [])
      else case BslBase64Normalization src of
             (BSL_SUCCESS, b) \<Rightarrow> (BSL_SUCCESS, BslBase64DecodeBuffer b)
           | (ret, _) \<Rightarrow> (ret, []))"

definition BSL_BASE64_Decode :: "bool \<Rightarrow> bytes option \<Rightarrow> nat option \<Rightarrow> bsl_ret \<times> bytes" where
  "BSL_BASE64_Decode mallocOk srcBuf dst =
     (case (srcBuf, dst) of
        (Some src, Some cap) \<Rightarrow>
          (let needLen = (length src + 3) div 4 * 3
           in if needLen > UINT32_MAX \<or> cap < needLen then (BSL_BASE64_BUF_NOT_ENOUGH, [])
              else BslBase64ArithDecodeProc mallocOk src)
      | _ \<Rightarrow> (BSL_NULL_INPUT, []))"

section \<open>Streaming encoding\<close>

definition BSL_BASE64_CtxNew :: BSL_Base64Ctx where
  "BSL_BASE64_CtxNew =
     \<lparr>num = 0, ctxLength = 0, flags = 0, paddingCnt = 0,
      buf = replicate HITLS_BASE64_CTX_BUF_LENGTH 0\<rparr>"

definition BSL_BASE64_CtxClear :: "BSL_Base64Ctx \<Rightarrow> BSL_Base64Ctx" where
  "BSL_BASE64_CtxClear ctx =
     ctx\<lparr>num := 0, ctxLength := 0, flags := 0, paddingCnt := 0,
         buf := replicate (length (buf ctx)) 0\<rparr>"

definition BSL_BASE64_EncodeInit :: "BSL_Base64Ctx option \<Rightarrow> bsl_ret \<times> BSL_Base64Ctx option" where
  "BSL_BASE64_EncodeInit ctxp =
     (case ctxp of
        None \<Rightarrow> (BSL_NULL_INPUT, None)
      | Some ctx \<Rightarrow>
          (BSL_SUCCESS, Some (ctx\<lparr>ctxLength := HITLS_BASE64_CTX_LENGTH, num := 0, flags := 0\<rparr>)))"

definition BSL_BASE64_SetFlags ::
    "BSL_Base64Ctx option \<Rightarrow> u32 \<Rightarrow> bsl_ret \<times> BSL_Base64Ctx option" where
  "BSL_BASE64_SetFlags ctxp f =
     (case ctxp of
        None \<Rightarrow> (BSL_NULL_INPUT, None)
      | Some ctx \<Rightarrow> (BSL_SUCCESS, Some (ctx\<lparr>flags := flags ctx OR f\<rparr>)))"

definition BSL_Base64GetNum :: "BSL_Base64Ctx option \<Rightarrow> bsl_ret \<times> nat option" where
  "BSL_Base64GetNum ctxp =
     (case ctxp of
        None \<Rightarrow> (BSL_NULL_INPUT, None)
      | Some ctx \<Rightarrow> (BSL_SUCCESS, Some (num ctx)))"

text \<open>\<open>src\<close> is the memory from \<^verbatim>\<open>*srcBuf\<close> on, \<open>srcLen\<close> the value of \<^verbatim>\<open>*srcBufLen\<close>, \<open>dst\<close> what
  has been written so far.\<close>

definition BslBase64EncodeBlock ::
    "BSL_Base64Ctx \<Rightarrow> bytes \<Rightarrow> nat \<Rightarrow> bytes \<Rightarrow> nat \<Rightarrow> BSL_Base64Ctx \<times> bytes \<times> nat \<times> bytes" where
  "BslBase64EncodeBlock ctx src srcLen dst remainLen =
     (let tmp = BslBase64ArithEncodeProc (take (ctxLength ctx) src);
          ctx' = ctx\<lparr>num := 0\<rparr>;
          offset = (if remainLen = 0 then ctxLength ctx' else remainLen);
          dst' = dst @ tmp;
          dst'' = (if flags ctx' AND BSL_BASE64_FLAGS_NO_NEWLINE = 0 then dst' @ [NEWLINE] else dst')
      in (ctx', drop offset src, u32_sub srcLen offset, dst''))"

text \<open>The \<^verbatim>\<open>while\<close> loop of \<^verbatim>\<open>BslBase64EncodeProcess\<close>; with a block length of zero it
  would not end, hence the option.\<close>

partial_function (option) EncodeProcess_loop ::
    "BSL_Base64Ctx \<Rightarrow> bytes \<Rightarrow> nat \<Rightarrow> bytes \<Rightarrow> (BSL_Base64Ctx \<times> bytes \<times> nat \<times> bytes) option" where
  "EncodeProcess_loop ctx src srcLen dst =
     (if srcLen \<ge> ctxLength ctx then
        (case BslBase64EncodeBlock ctx src srcLen dst 0 of
           (ctx', src', srcLen', dst') \<Rightarrow> EncodeProcess_loop ctx' src' srcLen' dst')
      else Some (ctx, src, srcLen, dst))"

definition BslBase64EncodeProcess ::
    "BSL_Base64Ctx \<Rightarrow> bytes \<Rightarrow> nat \<Rightarrow> (BSL_Base64Ctx \<times> bytes \<times> nat \<times> bytes) option" where
  "BslBase64EncodeProcess ctx src srcLen =
     (if num ctx \<noteq> 0 then
        (let remainLen = u32_sub (ctxLength ctx) (num ctx);
             ctx1 = ctx\<lparr>buf := memcpy_at (buf ctx) (num ctx) (take remainLen src)\<rparr>
         in case BslBase64EncodeBlock ctx1 (buf ctx1) srcLen [] remainLen of
              (ctx2, _, srcLen2, dst2) \<Rightarrow>
                EncodeProcess_loop ctx2 (drop remainLen src) srcLen2 dst2)
      else EncodeProcess_loop ctx src srcLen [])"

definition BSL_BASE64_EncodeUpdate ::
    "BSL_Base64Ctx option \<Rightarrow> bytes option \<Rightarrow> nat option \<Rightarrow>
     (bsl_ret \<times> BSL_Base64Ctx option \<times> bytes) option" where
  "BSL_BASE64_EncodeUpdate ctxp srcBuf dst =
     (case (ctxp, srcBuf, dst) of
        (Some ctx, Some src, Some cap) \<Rightarrow>
          if length src = 0 then Some (BSL_NULL_INPUT, ctxp, [])
          else if ctxLength ctx \<noteq> HITLS_BASE64_CTX_LENGTH then Some (BSL_INVALID_ARG, ctxp, [])
          else
            (let inLen = length src + num ctx;
                 needLen = inLen div HITLS_BASE64_CTX_LENGTH * (BASE64_DECODE_BLOCKSIZE + 1) + 1
             in if needLen > UINT32_MAX \<or> cap < needLen
                then Some (BSL_BASE64_BUF_NOT_ENOUGH, ctxp, [])
                else if length src < u32_sub (ctxLength ctx) (num ctx)
                then Some (BSL_SUCCESS,
                       Some (ctx\<lparr>buf := memcpy_at (buf ctx) (num ctx) src,
                                 num := num ctx + length src\<rparr>), [])
                else case BslBase64EncodeProcess ctx src (length src) of
                       None \<Rightarrow> None
                     | Some (ctx', src', srcLen', out) \<Rightarrow>
                         Some (BSL_SUCCESS,
                           Some (ctx'\<lparr>buf := (if srcLen' \<noteq> 0 then memcpy_at (buf ctx') 0 (take srcLen' src')
                                              else buf ctx'),
                                      num := srcLen'\<rparr>), out))
      | _ \<Rightarrow> Some (BSL_NULL_INPUT, ctxp, []))"

definition BSL_BASE64_EncodeFinal ::
    "BSL_Base64Ctx option \<Rightarrow> nat option \<Rightarrow> bsl_ret \<times> BSL_Base64Ctx option \<times> bytes" where
  "BSL_BASE64_EncodeFinal ctxp dst =
     (case (ctxp, dst) of
        (Some ctx, Some cap) \<Rightarrow>
          if num ctx = 0 then (BSL_SUCCESS, ctxp, [])
          else
            (let nl = (flags ctx AND BSL_BASE64_FLAGS_NO_NEWLINE = 0);
                 needLen = (num ctx + 2) div 3 * 4 + 1 + (if nl then 1 else 0)
             in if cap < needLen then (BSL_BASE64_BUF_NOT_ENOUGH, ctxp, [])
                else (BSL_SUCCESS, Some (ctx\<lparr>num := 0\<rparr>),
                      BslBase64ArithEncodeProc (take (num ctx) (buf ctx)) @ (if nl then [NEWLINE] else [])))
      | _ \<Rightarrow> (BSL_NULL_INPUT, ctxp, []))"

section \<open>Streaming decoding\<close>

text \<open>The result is the error code and the new value of \<^verbatim>\<open>*paddingCnt\<close>.\<close>

definition BslBase64DecodeCheck :: "u8 \<Rightarrow> nat \<Rightarrow> bsl_ret \<times> nat" where
  "BslBase64DecodeCheck c pad =
     (if dmap c = 66 then (BSL_BASE64_HEADER, pad)
      else if dmap c > 66 then (BSL_INVALID_ARG, pad)
      else if dmap c = 65 \<and> \<not> pad < BASE64_PAD_MAX then (BSL_BASE64_INVALID, pad)
      else if pad > 0 \<and> dmap c < 64 then (BSL_BASE64_DATA_AFTER_PADDING, pad)
      else (BSL_SUCCESS, if dmap c = 65 then pad + 1 else pad))"

definition BSL_BASE64_DecodeInit :: "BSL_Base64Ctx option \<Rightarrow> bsl_ret \<times> BSL_Base64Ctx option" where
  "BSL_BASE64_DecodeInit ctxp =
     (case ctxp of
        None \<Rightarrow> (BSL_NULL_INPUT, None)
      | Some ctx \<Rightarrow>
          (BSL_SUCCESS, Some (ctx\<lparr>num := 0, ctxLength := 0, flags := 0, paddingCnt := 0\<rparr>)))"

text \<open>The loop of \<^verbatim>\<open>BSL_BASE64_DecodeUpdate\<close>: \<open>n\<close> is the local variable \<^verbatim>\<open>num\<close>, which is
  stored into the context only where the code does so, and \<open>out\<close> the bytes decoded so far
  (\<^verbatim>\<open>totalLen\<close> of them). The second component is what \<^verbatim>\<open>*dstBufLen\<close> covers on return.\<close>

fun DecodeUpdate_loop ::
    "BSL_Base64Ctx \<Rightarrow> nat \<Rightarrow> bytes \<Rightarrow> bytes \<Rightarrow> bsl_ret \<times> BSL_Base64Ctx \<times> bytes" where
  "DecodeUpdate_loop ctx n out [] = (BSL_SUCCESS, ctx\<lparr>num := n\<rparr>, out)"
| "DecodeUpdate_loop ctx n out (c # cs) =
     (case BslBase64DecodeCheck c (paddingCnt ctx) of
        (BSL_SUCCESS, pad) \<Rightarrow>
          (let ctx1 = ctx\<lparr>paddingCnt := pad\<rparr>
           in if dmap c < 64 \<and> n \<ge> BASE64_DECODE_BLOCKSIZE
              then (BSL_BASE64_ILLEGALLY_MODIFIED, ctx1\<lparr>num := n\<rparr>, [])
              else
                (let ctx2 = (if dmap c < 64 then ctx1\<lparr>buf := (buf ctx1)[n := c]\<rparr> else ctx1);
                     n2 = (if dmap c < 64 then n + 1 else n)
                 in if n2 = BASE64_DECODE_BLOCKSIZE
                    then DecodeUpdate_loop ctx2 0 (out @ BslBase64DecodeBuffer (take n2 (buf ctx2))) cs
                    else DecodeUpdate_loop ctx2 n2 out cs))
      | (ret, pad) \<Rightarrow> (ret, ctx, if ret = BSL_BASE64_HEADER then out else []))"

definition BSL_BASE64_DecodeUpdate ::
    "BSL_Base64Ctx option \<Rightarrow> bytes option \<Rightarrow> nat option \<Rightarrow> bsl_ret \<times> BSL_Base64Ctx option \<times> bytes" where
  "BSL_BASE64_DecodeUpdate ctxp srcBuf dst =
     (case (ctxp, srcBuf, dst) of
        (Some ctx, Some src, Some cap) \<Rightarrow>
          if length src = 0 then (BSL_NULL_INPUT, ctxp, [])
          else
            (let inLen = length src + num ctx;
                 needLen = inLen div BASE64_DECODE_BLOCKSIZE * HITLS_BASE64_CTX_LENGTH
             in if needLen > UINT32_MAX \<or> cap < needLen
                then (BSL_BASE64_BUF_NOT_ENOUGH, ctxp, [])
                else case DecodeUpdate_loop ctx (num ctx) [] src of
                       (ret, ctx', out) \<Rightarrow> (ret, Some ctx', out))
      | _ \<Rightarrow> (BSL_NULL_INPUT, ctxp, []))"

definition BSL_BASE64_DecodeFinal ::
    "BSL_Base64Ctx option \<Rightarrow> nat option \<Rightarrow> bsl_ret \<times> BSL_Base64Ctx option \<times> bytes" where
  "BSL_BASE64_DecodeFinal ctxp dst =
     (case (ctxp, dst) of
        (Some ctx, Some cap) \<Rightarrow>
          (let remain = num ctx mod 4
           in if paddingCnt ctx > BASE64_PAD_MAX \<or> (remain + paddingCnt ctx) mod 4 \<noteq> 0
              then (BSL_BASE64_INVALID_ENCODE, ctxp, [])
              else if num ctx = 0 then (BSL_SUCCESS, ctxp, [])
              else if cap < (num ctx + 3) div 4 * 3 then (BSL_BASE64_BUF_NOT_ENOUGH, ctxp, [])
              else (BSL_SUCCESS, Some (ctx\<lparr>num := 0\<rparr>),
                    BslBase64DecodeBuffer (take (num ctx) (buf ctx))))
      | _ \<Rightarrow> (BSL_NULL_INPUT, ctxp, []))"

end
