(* ===== verification/Base64_Correct.thy ===== *)
theory Base64_Correct
  imports Base64
begin

text \<open>
  Correctness of one-shot Base64: the tables are inverse, the encoder and the decoder are
  inverse, and the decoder accepts exactly the well-formed texts.
\<close>

section \<open>Lemmas\<close>

lemma length_tables [simp]: "length BASE64_DECODE_MAP_TABLE = 256" "length base64Letter = 64"
  by (simp_all add: BASE64_DECODE_MAP_TABLE_def base64Letter_def)

lemma dmap_letter_all:
  "list_all (\<lambda>i. BASE64_DECODE_MAP_TABLE ! unat (base64Letter ! i) = of_nat i \<and> base64Letter ! i \<noteq> PAD \<and> base64Letter ! i \<noteq> NEWLINE) [0..<64]"
  by code_simp

lemma letter_props:
  assumes "unat i < 64"
  shows dmap_letter: "dmap (letter i) = i" and letter_PAD: "letter i \<noteq> PAD" and letter_NL: "letter i \<noteq> NEWLINE"
  using dmap_letter_all assms by (simp_all add: list_all_iff dmap_def letter_def)

lemma dmap_special: "dmap PAD = 65" "dmap NEWLINE = 64"
  by (simp_all add: dmap_def BASE64_DECODE_MAP_TABLE_def)

lemma dmap_PAD_all:
  "list_all (\<lambda>i. (BASE64_DECODE_MAP_TABLE ! i = 65) = (i = 61)) [0..<256]"
  by code_simp

lemma unat_less_256: "unat (c::u8) < 256"
  using unsigned_less [of c] by simp

lemma dmap_eq_65: "dmap c = 65 \<longleftrightarrow> c = PAD"
proof -
  have "unat c < 256" by (rule unat_less_256)
  then have "dmap c = 65 \<longleftrightarrow> unat c = 61"
    using dmap_PAD_all by (simp add: dmap_def list_all_iff)
  then show ?thesis by (simp add: word_unat_eq_iff)
qed

lemma six_bit_value: "\<not> bit w 6 \<Longrightarrow> \<not> bit w 7 \<Longrightarrow> unat (w::u8) < 64"
proof -
  assume "\<not> bit w 6" "\<not> bit w 7"
  then have "w AND 63 = w" by (intro byte_eqI) (simp_all add: bit_simps)
  then show ?thesis using unat_and_mask_less [of w] by simp
qed

text \<open>The four six-bit groups of three bytes, and the two incomplete ones of a short tail.\<close>

definition sx0 :: "u8 \<Rightarrow> u8" where "sx0 a = drop_bit 2 a AND 0x3F"
definition sx1 :: "u8 \<Rightarrow> u8 \<Rightarrow> u8" where "sx1 a b = push_bit 4 (a AND 0x3) OR drop_bit 4 (b AND 0xF0)"
definition sx2 :: "u8 \<Rightarrow> u8 \<Rightarrow> u8" where "sx2 b c = push_bit 2 (b AND 0x0F) OR drop_bit 6 (c AND 0xC0)"
definition sx3 :: "u8 \<Rightarrow> u8" where "sx3 c = c AND 0x3F"
definition sx1t :: "u8 \<Rightarrow> u8" where "sx1t a = push_bit 4 (a AND 0x3)"
definition sx2t :: "u8 \<Rightarrow> u8" where "sx2t b = push_bit 2 (b AND 0x0F)"

lemmas sx_defs = sx0_def sx1_def sx2_def sx3_def sx1t_def sx2t_def

lemmas Encode_simps = 
  BslBase64ArithEncodeProc.simps
    [folded sx0_def, folded sx1_def, folded sx2_def, folded sx1t_def, folded sx2t_def, folded sx3_def]

declare BslBase64ArithEncodeProc.simps [simp del] Encode_simps [simp]

lemma six_bits [simp]:
  "unat (sx0 a) < 64" "unat (sx1 a b) < 64" "unat (sx2 b c) < 64" "unat (sx3 c) < 64"
  "unat (sx1t a) < 64" "unat (sx2t b) < 64"
  unfolding sx_defs by (rule six_bit_value; simp add: bit_simps)+

lemma recombine:
  "push_bit 2 (sx0 a) OR drop_bit 4 (sx1 a b) = a"
  "push_bit 2 (sx0 a) OR drop_bit 4 (sx1t a) = a"
  "push_bit 4 (sx1 a b) OR drop_bit 2 (sx2 b c) = b"
  "push_bit 4 (sx1 a b) OR drop_bit 2 (sx2t b) = b"
  "push_bit 6 (sx2 b c) OR sx3 c = c"
  unfolding sx_defs by (rule byte_eqI; simp add: bit_simps)+

lemma DecodeBuffer_step:
  "BslBase64DecodeBuffer (p # q # r # s # rest) =
     [push_bit 2 (dmap p) OR drop_bit 4 (dmap q), push_bit 4 (dmap q) OR drop_bit 2 (dmap r),
      push_bit 6 (dmap r) OR dmap s] @ BslBase64DecodeBuffer rest"
  by (cases rest) simp_all

text \<open>The letters of an encoding without its padding, and the number of padding characters.\<close>

definition b64_chars :: "bytes \<Rightarrow> bytes" where
  "b64_chars s = filter (\<lambda>c. c \<noteq> PAD) (BslBase64ArithEncodeProc s)"

definition b64_pads :: "bytes \<Rightarrow> nat" where
  "b64_pads s = (3 - length s mod 3) mod 3"

lemma b64_chars_simps [simp]:
  "b64_chars (a # b # c # rest) =
     letter (sx0 a) # letter (sx1 a b) # letter (sx2 b c) # letter (sx3 c) # b64_chars rest"
  "b64_chars [a, b] = [letter (sx0 a), letter (sx1 a b), letter (sx2t b)]"
  "b64_chars [a] = [letter (sx0 a), letter (sx1t a)]"
  "b64_chars [] = []"
  by (simp_all add: b64_chars_def letter_PAD)

lemma Encode_split: "BslBase64ArithEncodeProc s = b64_chars s @ replicate (b64_pads s) PAD"
  by (induction s rule: BslBase64ArithEncodeProc.induct)
     (simp_all add: b64_pads_def numeral_2_eq_2)

lemma b64_chars_valid: "c \<in> set (b64_chars s) \<Longrightarrow> dmap c < 64 \<and> c \<noteq> NEWLINE"
  by (induction s rule: BslBase64ArithEncodeProc.induct)
     (auto simp: dmap_letter letter_NL six_bits word_less_nat_alt)

lemma length_b64_chars: "length (b64_chars s) + b64_pads s = (length s + 2) div 3 * 4"
proof (induction s rule: BslBase64ArithEncodeProc.induct)
  case (1 a b c rest)
  have "(length (a # b # c # rest) + 2) div 3 = Suc ((length rest + 2) div 3)" by simp
  with 1 show ?case by (simp add: b64_pads_def)
qed (simp_all add: b64_pads_def)

lemma length_Encode: "length (BslBase64ArithEncodeProc s) = (length s + 2) div 3 * 4"
  by (simp add: Encode_split length_b64_chars)

lemma DecodeBuffer_b64_chars: "BslBase64DecodeBuffer (b64_chars s) = s"
  by (induction s rule: BslBase64ArithEncodeProc.induct)
     (simp_all add: DecodeBuffer_step dmap_letter six_bits recombine
        del: BslBase64DecodeBuffer.simps(1))

lemma Encode_append:
  "length s mod 3 = 0 \<Longrightarrow> BslBase64ArithEncodeProc (s @ t) =
     BslBase64ArithEncodeProc s @ BslBase64ArithEncodeProc t"
  by (induction s rule: BslBase64ArithEncodeProc.induct) simp_all


text \<open>Decoding accepts exactly letters followed by at most two padding characters.\<close>

lemma CheckAndRmv_letters:
  "(\<And>c. c \<in> set cs \<Longrightarrow> dmap c < 65) \<Longrightarrow>
   CheckAndRmvEqualSign_loop len i d (cs @ t) = CheckAndRmvEqualSign_loop len (i + length cs) (d @ cs) t"
proof (induction cs arbitrary: i d)
  case (Cons c cs)
  then have "dmap c < 65" by simp
  then have "\<not> dmap c > 65" "dmap c \<noteq> 65" by auto
  with Cons show ?case by simp
qed simp

lemma CheckAndRmv_pads:
  assumes "k \<le> 2" "\<And>c. c \<in> set cs \<Longrightarrow> dmap c < 65" "4 \<le> length cs + k"
  shows "BslBase64DecodeCheckAndRmvEqualSign (cs @ replicate k PAD) = (BSL_SUCCESS, cs)"
proof -
  have "k = 0 \<or> k = 1 \<or> k = 2" using assms by auto
  then show ?thesis
    using assms by (auto simp: BslBase64DecodeCheckAndRmvEqualSign_def CheckAndRmv_letters
        dmap_special numeral_2_eq_2)
qed

lemma CheckAndRmv_loop_success:
  assumes "CheckAndRmvEqualSign_loop len i d t = (BSL_SUCCESS, cs)" "len = i + length t"
  shows "\<exists>cs' k. k \<le> 2 \<and> cs = d @ cs' \<and> t = cs' @ replicate k PAD \<and> (\<forall>c \<in> set cs'. dmap c < 65)"
  using assms
proof (induction len i d t rule: CheckAndRmvEqualSign_loop.induct)
  case (1 len i d)
  then show ?case by (intro exI [of _ "[]"] exI [of _ 0]) simp
next
  case (2 len i d c rest)
  consider "dmap c > 65" | "dmap c = 65" | "dmap c < 65" by fastforce
  then show ?case
  proof cases
    case 1
    with 2 show ?thesis by simp
  next
    case 2
    then have c: "c = PAD" by (simp add: dmap_eq_65)
    have "rest = replicate (length rest) PAD" "length rest \<le> 1" "cs = d"
      using "2.prems" 2 by (cases rest; auto split: if_splits)+
    then show ?thesis using c by (intro exI [of _ "[]"] exI [of _ "Suc (length rest)"]) simp
  next
    case 3
    then have "\<not> dmap c > 65" "dmap c \<noteq> 65" by auto
    with "2.IH" "2.prems" obtain cs' k where "k \<le> 2" "cs = (d @ [c]) @ cs'"
      "rest = cs' @ replicate k PAD" "\<forall>c \<in> set cs'. dmap c < 65" by auto
    then show ?thesis using 3 by (intro exI [of _ "c # cs'"] exI [of _ k]) simp
  qed
qed

text \<open>What the one-shot decoder accepts, and what it computes then.\<close>

definition b64_wellformed :: "bytes \<Rightarrow> bytes \<Rightarrow> bool" where
  "b64_wellformed src cs \<longleftrightarrow>
     (\<exists>k \<le> 2. filter (\<lambda>c. dmap c \<noteq> 64) src = cs @ replicate k PAD) \<and>
     (\<forall>c \<in> set cs. dmap c < 64) \<and>
     filter (\<lambda>c. dmap c \<noteq> 64) src \<noteq> [] \<and> length (filter (\<lambda>c. dmap c \<noteq> 64) src) mod 4 = 0"

lemma Normalization_iff: "BslBase64Normalization src = (BSL_SUCCESS, cs) \<longleftrightarrow> b64_wellformed src cs"
proof
  let ?f = "filter (\<lambda>c. dmap c \<noteq> 64) src"
  assume A: "BslBase64Normalization src = (BSL_SUCCESS, cs)"
  then have ne: "?f \<noteq> []" and m: "length ?f mod 4 = 0"
    and chk: "CheckAndRmvEqualSign_loop (length ?f) 0 [] ?f = (BSL_SUCCESS, cs)"
    by (auto simp: BslBase64Normalization_def BslBase64DecodeRemoveBlank_def Let_def
        BslBase64DecodeCheckAndRmvEqualSign_def split: if_splits)
  from CheckAndRmv_loop_success [OF chk] obtain k where k: "k \<le> 2" "?f = cs @ replicate k PAD"
    "\<forall>c \<in> set cs. dmap c < 65" by auto
  have "dmap c < 64" if "c \<in> set cs" for c
  proof -
    have "c \<in> set ?f" using k that by simp
    then have "dmap c \<noteq> 64" by simp
    moreover have "dmap c < 65" using k that by blast
    ultimately show ?thesis by (simp add: word_less_nat_alt word_unat_eq_iff)
  qed
  then show "b64_wellformed src cs" using ne m k by (auto simp: b64_wellformed_def)
next
  let ?f = "filter (\<lambda>c. dmap c \<noteq> 64) src"
  assume A: "b64_wellformed src cs"
  then obtain k where k: "k \<le> 2" "?f = cs @ replicate k PAD" "\<forall>c \<in> set cs. dmap c < 64"
    and f: "?f \<noteq> []" "length ?f mod 4 = 0" by (auto simp: b64_wellformed_def)
  have lt: "c \<in> set cs \<Longrightarrow> dmap c < 65" for c
    using k(3) by (fastforce simp: word_less_nat_alt)
  have "4 \<le> length ?f" using f by (cases "length ?f < 4") (auto dest: mod_less)
  then have "4 \<le> length cs + k" using k(2) by simp
  with lt have "BslBase64DecodeCheckAndRmvEqualSign ?f = (BSL_SUCCESS, cs)"
    unfolding k(2) by (intro CheckAndRmv_pads k(1)) auto
  then show "BslBase64Normalization src = (BSL_SUCCESS, cs)"
    using f by (simp add: BslBase64Normalization_def BslBase64DecodeRemoveBlank_def Let_def)
qed

lemma filter_blank_Encode:
  "filter (\<lambda>c. dmap c \<noteq> 64) (BslBase64ArithEncodeProc s) = BslBase64ArithEncodeProc s"
proof -
  have "dmap c \<noteq> 64" if "c \<in> set (BslBase64ArithEncodeProc s)" for c
    using that b64_chars_valid [of c s] by (auto simp: Encode_split dmap_special split: if_splits)
  then show ?thesis by (intro filter_True) auto
qed

lemma b64_pads_le: "b64_pads s \<le> 2"
  by (simp add: b64_pads_def)

lemma wellformed_filter:
  assumes "filter (\<lambda>c. dmap c \<noteq> 64) src = BslBase64ArithEncodeProc s" "s \<noteq> []"
  shows "b64_wellformed src (b64_chars s)"
proof -
  have "length (BslBase64ArithEncodeProc s) mod 4 = 0" by (simp add: length_Encode)
  moreover have "BslBase64ArithEncodeProc s \<noteq> []"
    using assms(2) length_Encode [of s] by (cases s) auto
  ultimately show ?thesis
    using b64_chars_valid b64_pads_le by (auto simp: b64_wellformed_def assms(1) Encode_split)
qed

lemma ArithDecode_wellformed:
  "b64_wellformed src cs \<Longrightarrow> BslBase64ArithDecodeProc True src = (BSL_SUCCESS, BslBase64DecodeBuffer cs)"
  by (simp add: BslBase64ArithDecodeProc_def flip: Normalization_iff)

lemma length_DecodeBuffer: "length (BslBase64DecodeBuffer b) = length b * 3 div 4"
proof (induction b rule: BslBase64DecodeBuffer.induct)
  case (1 p q r s t rest)
  have "length (p # q # r # s # t # rest) * 3 div 4 = 3 + length (t # rest) * 3 div 4"
    by simp
  with 1 show ?case by simp
qed simp_all

section \<open>Properties\<close>

text \<open>C1. Base64 round trip: encoding a non-empty byte string into a buffer of the documented
  size succeeds, stays inside the buffer with its terminator, and decoding the result gives
  the same bytes.\<close>

theorem base64_roundtrip:
  assumes "s \<noteq> []" and "(length s + 2) div 3 * 4 + 1 \<le> cap" and "cap \<le> UINT32_MAX"
    and "(length s + 2) div 3 * 3 \<le> cap'"
  shows "\<exists>e. BSL_BASE64_Encode (Some s) (Some cap) = (BSL_SUCCESS, e) \<and> length e + 1 \<le> cap \<and>
             BSL_BASE64_Decode True (Some e) (Some cap') = (BSL_SUCCESS, s)"
proof -
  let ?e = "BslBase64ArithEncodeProc s"
  have "b64_wellformed ?e (b64_chars s)" by (rule wellformed_filter [OF filter_blank_Encode assms(1)])
  then have dec: "BslBase64ArithDecodeProc True ?e = (BSL_SUCCESS, s)"
    by (simp add: ArithDecode_wellformed DecodeBuffer_b64_chars)
  have "BSL_BASE64_Encode (Some s) (Some cap) = (BSL_SUCCESS, ?e)"
    using assms by (auto simp: BSL_BASE64_Encode_def Let_def)
  moreover have "BSL_BASE64_Decode True (Some ?e) (Some cap') = (BSL_SUCCESS, s)"
    using assms dec by (auto simp: BSL_BASE64_Decode_def Let_def length_Encode)
  ultimately show ?thesis using assms(2) by (simp add: length_Encode)
qed

theorem base64_roundtrip_witness:
  "\<exists>e. BSL_BASE64_Encode (Some [77, 97]) (Some 5) = (BSL_SUCCESS, e) \<and> length e + 1 \<le> 5 \<and>
       BSL_BASE64_Decode True (Some e) (Some 3) = (BSL_SUCCESS, [77, 97])"
  by (rule base64_roundtrip) simp_all

text \<open>C2. What the one-shot decoder accepts: given room for the output, it succeeds exactly on the
  texts that, after removal of blanks and line breaks, are a non-empty multiple of four long
  and consist of letters of the alphabet followed by at most two padding characters; the
  result is the decoding of the letters and fits the declared room.\<close>

theorem base64_decode_accepts_exactly_wellformed:
  assumes "(length src + 3) div 4 * 3 \<le> cap" and "cap \<le> UINT32_MAX"
  shows "BSL_BASE64_Decode True (Some src) (Some cap) = (BSL_SUCCESS, d) \<longleftrightarrow>
           (\<exists>cs. b64_wellformed src cs \<and> d = BslBase64DecodeBuffer cs \<and> length d \<le> cap)"
proof -
  have "length (BslBase64DecodeBuffer cs) \<le> cap" if "b64_wellformed src cs" for cs
  proof -
    from that have "length cs \<le> length (filter (\<lambda>c. dmap c \<noteq> 64) src)"
      by (auto simp: b64_wellformed_def)
    then have "length cs \<le> length src" using length_filter_le le_trans by blast
    then have "length cs * 3 div 4 \<le> (length src + 3) div 4 * 3" by linarith
    then show ?thesis using assms(1) by (simp add: length_DecodeBuffer)
  qed
  moreover have "BslBase64ArithDecodeProc True src = (BSL_SUCCESS, d) \<longleftrightarrow>
      (\<exists>cs. BslBase64Normalization src = (BSL_SUCCESS, cs) \<and> d = BslBase64DecodeBuffer cs)"
    by (auto simp: BslBase64ArithDecodeProc_def split: prod.splits bsl_ret.splits)
  ultimately show ?thesis
    using assms by (auto simp: BSL_BASE64_Decode_def Let_def Normalization_iff)
qed

theorem base64_decode_accepts_exactly_wellformed_witness:
  "BSL_BASE64_Decode True (Some [84, 87, 69, 61]) (Some 3) = (BSL_SUCCESS, [77, 97]) \<longleftrightarrow>
     (\<exists>cs. b64_wellformed [84, 87, 69, 61] cs \<and> [77, 97] = BslBase64DecodeBuffer cs \<and> length [77, 97 :: u8] \<le> 3)"
  by (rule base64_decode_accepts_exactly_wellformed) simp_all

end
