(* ===== verification/Base64_Stream.thy ===== *)
theory Base64_Stream
  imports Base64_Correct
begin

text \<open>
  Correctness of streaming Base64: the invariants of an encoding and of a decoding context, the
  effect of each update as a function of the pending bytes, the equality with the one-shot
  functions for every way of cutting the data into chunks, and the bound on what a call writes.
\<close>

section \<open>Streaming encoding\<close>

definition enc_inv :: "BSL_Base64Ctx \<Rightarrow> bool" where
  "enc_inv ctx \<longleftrightarrow> ctxLength ctx = 48 \<and> num ctx < 48 \<and> length (buf ctx) = 80"

definition pending :: "BSL_Base64Ctx \<Rightarrow> bytes" where
  "pending ctx = take (num ctx) (buf ctx)"

definition newline :: "BSL_Base64Ctx \<Rightarrow> bytes" where
  "newline ctx = (if flags ctx AND BSL_BASE64_FLAGS_NO_NEWLINE = 0 then [NEWLINE] else [])"

text \<open>The reference output: each full block of 48 bytes as one line.\<close>

function enc_lines :: "bytes \<Rightarrow> bytes \<Rightarrow> bytes" where
  "enc_lines nl xs =
     (if length xs \<ge> 48 then BslBase64ArithEncodeProc (take 48 xs) @ nl @ enc_lines nl (drop 48 xs) else [])"
  by pat_completeness auto
termination by (relation "measure (length o snd)") auto

declare enc_lines.simps [simp del]

definition full_part :: "nat \<Rightarrow> bytes \<Rightarrow> nat" where
  "full_part m xs = length xs div m * m"

lemma enc_lines_short [simp]: "length xs < 48 \<Longrightarrow> enc_lines nl xs = []"
  by (simp add: enc_lines.simps)

lemma enc_lines_block: "length b = 48 \<Longrightarrow> enc_lines nl (b @ xs) = BslBase64ArithEncodeProc b @ nl @ enc_lines nl xs"
  by (subst enc_lines.simps) simp

lemma length_enc_lines: "length (enc_lines nl xs) = length xs div 48 * (64 + length nl)"
proof (induction nl xs rule: enc_lines.induct)
  case (1 nl xs)
  show ?case
  proof (cases "length xs \<ge> 48")
    case True
    then have "length xs div 48 = Suc ((length xs - 48) div 48)" by (simp add: le_div_geq)
    then show ?thesis using 1 True by (subst enc_lines.simps) (simp add: length_Encode)
  qed simp
qed

lemma EncodeBlock_full:
  assumes "ctxLength ctx = 48" "length src = srcLen" "48 \<le> srcLen" "srcLen < 2 ^ 32"
  shows "BslBase64EncodeBlock ctx src srcLen dst 0 =
    (ctx\<lparr>num := 0\<rparr>, drop 48 src, srcLen - 48,
     dst @ BslBase64ArithEncodeProc (take 48 src) @ newline ctx)"
  using assms by (simp add: BslBase64EncodeBlock_def Let_def newline_def u32_sub_le)

lemma EncodeProcess_loop_correct:
  assumes "ctxLength ctx = 48" "length src < 2 ^ 32" "num ctx = 0"
  shows "EncodeProcess_loop ctx src (length src) dst =
    Some (ctx, drop (full_part 48 src) src, length src mod 48, dst @ enc_lines (newline ctx) src)"
  using assms
proof (induction "length src" arbitrary: src dst rule: less_induct)
  case less
  show ?case
  proof (cases "48 \<le> length src")
    case True
    let ?r = "drop 48 src"
    have ctx: "ctx\<lparr>num := 0\<rparr> = ctx" using less.prems by (cases ctx) simp
    have "EncodeProcess_loop ctx src (length src) dst =
      EncodeProcess_loop ctx ?r (length ?r) (dst @ BslBase64ArithEncodeProc (take 48 src) @ newline ctx)"
      using True less.prems by (subst EncodeProcess_loop.simps) (simp add: EncodeBlock_full ctx)
    also have "\<dots> = Some (ctx, drop (full_part 48 ?r) ?r, length ?r mod 48,
        (dst @ BslBase64ArithEncodeProc (take 48 src) @ newline ctx) @ enc_lines (newline ctx) ?r)"
      using True less.prems by (intro less.hyps) auto
    also have "full_part 48 src = full_part 48 ?r + 48"
      using True by (simp add: full_part_def le_div_geq)
    moreover have "length ?r mod 48 = length src mod 48" using True by (simp add: le_mod_geq)
    moreover have "enc_lines (newline ctx) src =
        BslBase64ArithEncodeProc (take 48 src) @ newline ctx @ enc_lines (newline ctx) ?r"
      using True by (subst enc_lines.simps) simp
    ultimately show ?thesis by (simp add: add.commute)
  next
    case False
    then show ?thesis using less.prems by (subst EncodeProcess_loop.simps) (simp add: full_part_def)
  qed
qed


lemma full_part_rest: "length (drop (full_part 48 xs) xs) = length xs mod 48"
  by (simp add: full_part_def minus_div_mult_eq_mod)

lemma full_part_block: "length b = 48 \<Longrightarrow> full_part 48 (b @ xs) = 48 + full_part 48 xs"
proof -
  assume "length b = 48"
  then have "length (b @ xs) div 48 = Suc (length xs div 48)" by simp
  then show ?thesis by (simp add: full_part_def)
qed

lemma take_store_rest:
  "length r = n \<Longrightarrow> n \<le> length b \<Longrightarrow> take n (if n \<noteq> 0 then memcpy_at b 0 (take n r) else b) = r"
  using take_memcpy_at [of 0 r b] by auto

lemma length_store_rest:
  "length r = n \<Longrightarrow> n \<le> length b \<Longrightarrow>
   length (if n \<noteq> 0 then memcpy_at b 0 (take n r) else b) = length b"
  by simp

lemma enc_lines_append:
  "length xs mod 48 = 0 \<Longrightarrow> enc_lines nl (xs @ ys) = enc_lines nl xs @ enc_lines nl ys"
proof (induction nl xs rule: enc_lines.induct)
  case (1 nl xs)
  show ?case
  proof (cases "length xs \<ge> 48")
    case True
    have "enc_lines nl (xs @ ys) = enc_lines nl (take 48 xs @ (drop 48 xs @ ys))"
      by (simp flip: append_assoc)
    also have "\<dots> = BslBase64ArithEncodeProc (take 48 xs) @ nl @ enc_lines nl (drop 48 xs @ ys)"
      using True by (intro enc_lines_block) simp
    also have "enc_lines nl (drop 48 xs @ ys) = enc_lines nl (drop 48 xs) @ enc_lines nl ys"
      using True 1 by (simp add: le_mod_geq)
    finally show ?thesis using True by (subst (2) enc_lines.simps) simp
  next
    case False
    then show ?thesis using 1 by simp
  qed
qed

lemma EncodeProcess_correct:
  assumes inv: "enc_inv ctx" and len: "length src < 2 ^ 32" and fill: "48 \<le> num ctx + length src"
  shows "\<exists>b'. length b' = 80 \<and> BslBase64EncodeProcess ctx src (length src) =
    Some (ctx\<lparr>buf := b', num := 0\<rparr>,
      drop (full_part 48 (pending ctx @ src)) (pending ctx @ src),
      (num ctx + length src) mod 48, enc_lines (newline ctx) (pending ctx @ src))"
proof (cases "num ctx = 0")
  case True
  then have "ctx\<lparr>buf := buf ctx, num := 0\<rparr> = ctx" by (cases ctx) simp
  then show ?thesis
    using True inv len
    by (intro exI [of _ "buf ctx"])
       (simp add: BslBase64EncodeProcess_def EncodeProcess_loop_correct enc_inv_def pending_def)
next
  case False
  let ?m = "48 - num ctx"
  let ?b = "memcpy_at (buf ctx) (num ctx) (take ?m src)"
  let ?src = "drop ?m src"
  let ?ctx = "ctx\<lparr>buf := ?b, num := 0\<rparr>"
  have m: "?m \<le> length src" "num ctx < 48" "u32_sub 48 (num ctx) = ?m"
    using inv fill by (auto simp: enc_inv_def u32_sub_le)
  have all: "pending ctx @ src = (pending ctx @ take ?m src) @ ?src" by simp
  have len48: "length (pending ctx @ take ?m src) = 48"
    using m inv by (simp add: pending_def enc_inv_def)
  have "take (num ctx + length (take ?m src)) ?b = pending ctx @ take ?m src"
    unfolding pending_def using m inv by (intro take_memcpy_at) (auto simp: enc_inv_def)
  then have take48: "take 48 ?b = pending ctx @ take ?m src" using m by simp
  have "BslBase64EncodeProcess ctx src (length src) =
     EncodeProcess_loop ?ctx ?src (length ?src)
       (BslBase64ArithEncodeProc (pending ctx @ take ?m src) @ newline ctx)"
    using False inv m len
    by (simp add: BslBase64EncodeProcess_def Let_def enc_inv_def BslBase64EncodeBlock_def
        take48 newline_def u32_sub_le)
  also have "\<dots> = Some (?ctx, drop (full_part 48 ?src) ?src, length ?src mod 48,
      (BslBase64ArithEncodeProc (pending ctx @ take ?m src) @ newline ctx)
        @ enc_lines (newline ?ctx) ?src)"
    using inv len by (intro EncodeProcess_loop_correct) (auto simp: enc_inv_def)
  moreover have "enc_lines (newline ctx) (pending ctx @ src) =
      BslBase64ArithEncodeProc (pending ctx @ take ?m src) @ newline ctx @ enc_lines (newline ctx) ?src"
    unfolding all using len48 by (intro enc_lines_block)
  moreover have "full_part 48 (pending ctx @ src) = 48 + full_part 48 ?src"
    unfolding all by (rule full_part_block [OF len48])
  moreover have "drop (48 + full_part 48 ?src) (pending ctx @ src) = drop (full_part 48 ?src) ?src"
    unfolding all using len48 by (simp del: append_take_drop_id)
  moreover have "(num ctx + length src) mod 48 = length ?src mod 48"
  proof -
    have "num ctx + length src = length ?src + 48" using m by simp
    then show ?thesis by (metis mod_add_self2)
  qed
  moreover have "newline ?ctx = newline ctx" by (simp add: newline_def)
  moreover have "length ?b = 80" using m inv by (simp add: enc_inv_def)
  ultimately show ?thesis by (intro exI [of _ ?b]) simp
qed


lemma EncodeUpdate_correct:
  assumes inv: "enc_inv ctx" and ne: "src \<noteq> []" and len: "length src < 2 ^ 32"
    and cap: "(length src + num ctx) div 48 * 65 + 1 \<le> cap" "cap \<le> UINT32_MAX"
  shows "\<exists>ctx'. BSL_BASE64_EncodeUpdate (Some ctx) (Some src) (Some cap) =
      Some (BSL_SUCCESS, Some ctx', enc_lines (newline ctx) (pending ctx @ src)) \<and>
      enc_inv ctx' \<and> newline ctx' = newline ctx \<and>
      pending ctx' = drop (full_part 48 (pending ctx @ src)) (pending ctx @ src)"
proof (cases "length src < 48 - num ctx")
  case True
  let ?b = "memcpy_at (buf ctx) (num ctx) src"
  let ?c = "ctx\<lparr>buf := ?b, num := num ctx + length src\<rparr>"
  have sub: "u32_sub 48 (num ctx) = 48 - num ctx"
    using inv by (simp add: enc_inv_def u32_sub_le)
  have short: "length (pending ctx @ src) < 48"
    using True inv by (simp add: pending_def enc_inv_def)
  have "take (num ctx + length src) ?b = pending ctx @ src"
    unfolding pending_def using True inv by (intro take_memcpy_at) (simp add: enc_inv_def)
  moreover have "length ?b = 80" using True inv by (simp add: enc_inv_def)
  moreover have "full_part 48 (pending ctx @ src) = 0" using short by (simp add: full_part_def)
  moreover have "BSL_BASE64_EncodeUpdate (Some ctx) (Some src) (Some cap) = Some (BSL_SUCCESS, Some ?c, [])"
    using True inv ne cap sub by (simp add: BSL_BASE64_EncodeUpdate_def Let_def enc_inv_def)
  ultimately show ?thesis
    using short True by (intro exI [of _ ?c]) (auto simp: pending_def newline_def enc_inv_def inv [unfolded enc_inv_def])
next
  case False
  then have fill: "48 \<le> num ctx + length src" by simp
  from EncodeProcess_correct [OF inv len fill] obtain b' where b': "length b' = 80"
    and P: "BslBase64EncodeProcess ctx src (length src) =
      Some (ctx\<lparr>buf := b', num := 0\<rparr>,
        drop (full_part 48 (pending ctx @ src)) (pending ctx @ src),
        (num ctx + length src) mod 48, enc_lines (newline ctx) (pending ctx @ src))" by blast
  let ?rest = "drop (full_part 48 (pending ctx @ src)) (pending ctx @ src)"
  let ?n = "(num ctx + length src) mod 48"
  let ?c = "ctx\<lparr>buf := (if ?n \<noteq> 0 then memcpy_at b' 0 (take ?n ?rest) else b'), num := ?n\<rparr>"
  have rest: "length ?rest = ?n"
    using inv by (simp only: full_part_rest) (simp add: pending_def enc_inv_def)
  have sub: "u32_sub 48 (num ctx) = 48 - num ctx"
    using inv by (simp add: enc_inv_def u32_sub_le)
  have "BSL_BASE64_EncodeUpdate (Some ctx) (Some src) (Some cap) =
      Some (BSL_SUCCESS, Some ?c, enc_lines (newline ctx) (pending ctx @ src))"
    using False inv ne cap sub P by (simp add: BSL_BASE64_EncodeUpdate_def Let_def enc_inv_def)
  moreover have "pending ?c = ?rest"
  proof -
    have "take ?n (if ?n \<noteq> 0 then memcpy_at b' 0 (take ?n ?rest) else b') = ?rest"
      using b' by (intro take_store_rest rest) (simp add: less_imp_le_nat)
    then show ?thesis unfolding pending_def [of ?c] by simp
  qed
  moreover have "enc_inv ?c"
  proof -
    have "length (if ?n \<noteq> 0 then memcpy_at b' 0 (take ?n ?rest) else b') = length b'"
      using b' by (intro length_store_rest rest) (simp add: less_imp_le_nat)
    then show ?thesis using inv b' unfolding enc_inv_def by simp
  qed
  ultimately show ?thesis by (intro exI [of _ ?c]) (simp add: newline_def)
qed

lemma EncodeFinal_correct:
  assumes "enc_inv ctx" "(num ctx + 2) div 3 * 4 + 2 \<le> cap"
  shows "\<exists>ctx'. BSL_BASE64_EncodeFinal (Some ctx) (Some cap) =
    (BSL_SUCCESS, Some ctx',
     if pending ctx = [] then [] else BslBase64ArithEncodeProc (pending ctx) @ newline ctx)"
  using assms
  by (cases "num ctx = 0")
     (auto simp: BSL_BASE64_EncodeFinal_def Let_def enc_inv_def pending_def newline_def)

text \<open>A caller of the streaming encoder: one update per chunk and the final call, all output
  collected. \<open>None\<close> stands for a call that fails.\<close>

fun encode_updates :: "BSL_Base64Ctx \<Rightarrow> nat \<Rightarrow> bytes list \<Rightarrow> (BSL_Base64Ctx \<times> bytes) option" where
  "encode_updates ctx cap [] = Some (ctx, [])"
| "encode_updates ctx cap (c # cs) =
     (case BSL_BASE64_EncodeUpdate (Some ctx) (Some c) (Some cap) of
        Some (BSL_SUCCESS, Some ctx', out) \<Rightarrow>
          map_option (\<lambda>(ctx'', out'). (ctx'', out @ out')) (encode_updates ctx' cap cs)
      | _ \<Rightarrow> None)"

definition encode_stream :: "u32 \<Rightarrow> nat \<Rightarrow> bytes list \<Rightarrow> bytes option" where
  "encode_stream fl cap chunks =
     (case BSL_BASE64_SetFlags (snd (BSL_BASE64_EncodeInit (Some BSL_BASE64_CtxNew))) fl of
        (BSL_SUCCESS, Some ctx) \<Rightarrow>
          (case encode_updates ctx cap chunks of
             Some (ctx', out) \<Rightarrow>
               (case BSL_BASE64_EncodeFinal (Some ctx') (Some cap) of
                  (BSL_SUCCESS, _, out') \<Rightarrow> Some (out @ out')
                | _ \<Rightarrow> None)
           | None \<Rightarrow> None)
      | _ \<Rightarrow> None)"

text \<open>Room for the largest chunk and for the last line.\<close>

definition chunks_fit :: "nat \<Rightarrow> bytes list \<Rightarrow> bool" where
  "chunks_fit cap chunks \<longleftrightarrow> 66 \<le> cap \<and> cap \<le> UINT32_MAX \<and>
     list_all (\<lambda>c. c \<noteq> [] \<and> (length c + 47) div 48 * 65 + 1 \<le> cap) chunks"

lemma take_full_part:
  "length (take (full_part 48 xs) xs) = full_part 48 xs" "full_part 48 xs mod 48 = 0"
  by (simp_all add: full_part_def)

lemma enc_lines_full:
  "enc_lines nl (xs @ ys) = enc_lines nl xs @ enc_lines nl (drop (full_part 48 xs) xs @ ys)"
proof -
  let ?t = "take (full_part 48 xs) xs" and ?d = "drop (full_part 48 xs) xs"
  have t: "enc_lines nl (?t @ zs) = enc_lines nl ?t @ enc_lines nl zs" for zs
    by (intro enc_lines_append) (simp only: take_full_part)
  have "enc_lines nl xs = enc_lines nl ?t"
    using t [of ?d] full_part_rest [of xs] by simp
  then show ?thesis using t [of "?d @ ys"] by (simp flip: append_assoc)
qed

lemma full_part_append: "full_part m (xs @ ys) = full_part m xs + full_part m (drop (full_part m xs) xs @ ys)"
proof -
  have "length (xs @ ys) = full_part m xs + length (drop (full_part m xs) xs @ ys)"
    using div_times_less_eq_dividend [of "length xs" m] unfolding full_part_def
    by (simp only: length_append length_drop)
  moreover have "(full_part m xs + n) div m = full_part m xs div m + n div m" for n
    by (rule div_plus_div_distrib_dvd_left) (simp add: full_part_def)
  ultimately show ?thesis
    unfolding full_part_def [of m "xs @ ys"] full_part_def [of m "drop (full_part m xs) xs @ ys"]
    by (simp only: distrib_right) (simp add: full_part_def)
qed

lemma drop_full_part_append:
  "drop (full_part m (xs @ ys)) (xs @ ys) =
   drop (full_part m (drop (full_part m xs) xs @ ys)) (drop (full_part m xs) xs @ ys)"
proof -
  have le: "full_part m xs \<le> length xs" by (simp add: full_part_def)
  have *: "drop (full_part m xs + n) (xs @ ys) = drop n (drop (full_part m xs) xs @ ys)" for n
  proof -
    have "drop (full_part m xs + n) (xs @ ys) = drop n (drop (full_part m xs) (xs @ ys))"
      by (simp only: drop_drop add.commute)
    then show ?thesis using le by simp
  qed
  show ?thesis by (subst full_part_append) (rule *)
qed

lemma encode_updates_correct:
  assumes "enc_inv ctx" "chunks_fit cap chunks"
  shows "\<exists>ctx'. encode_updates ctx cap chunks =
      Some (ctx', enc_lines (newline ctx) (pending ctx @ concat chunks)) \<and>
      enc_inv ctx' \<and> newline ctx' = newline ctx \<and>
      pending ctx' = drop (full_part 48 (pending ctx @ concat chunks)) (pending ctx @ concat chunks)"
  using assms
proof (induction chunks arbitrary: ctx)
  case Nil
  then have "length (pending ctx) < 48" by (simp add: enc_inv_def pending_def)
  then show ?case using Nil by (simp add: full_part_def)
next
  case (Cons c cs)
  let ?xs = "pending ctx @ c"
  let ?F = "full_part 48 ?xs"
  have c: "c \<noteq> []" "(length c + 47) div 48 * 65 + 1 \<le> cap" "cap \<le> UINT32_MAX"
    using Cons.prems(2) by (auto simp: chunks_fit_def)
  have "(length c + num ctx) div 48 * 65 + 1 \<le> cap"
    using c(2) Cons.prems(1) div_le_mono [of "length c + num ctx" "length c + 47" 48]
    by (simp add: enc_inv_def)
  moreover have "length c < 2 ^ 32" using c by auto
  ultimately obtain ctx1 where u: "BSL_BASE64_EncodeUpdate (Some ctx) (Some c) (Some cap) =
      Some (BSL_SUCCESS, Some ctx1, enc_lines (newline ctx) ?xs)"
    and i1: "enc_inv ctx1" "newline ctx1 = newline ctx" "pending ctx1 = drop ?F ?xs"
    using EncodeUpdate_correct [OF Cons.prems(1) c(1)] c(3) by blast
  have "chunks_fit cap cs" using Cons.prems(2) by (simp add: chunks_fit_def)
  from Cons.IH [OF i1(1) this] obtain ctx' where
    r: "encode_updates ctx1 cap cs = Some (ctx', enc_lines (newline ctx) (drop ?F ?xs @ concat cs))"
      "enc_inv ctx'" "newline ctx' = newline ctx"
      "pending ctx' = drop (full_part 48 (drop ?F ?xs @ concat cs)) (drop ?F ?xs @ concat cs)"
    using i1 by auto
  then show ?case
    using u enc_lines_full [of "newline ctx" ?xs "concat cs"] drop_full_part_append [of 48 ?xs "concat cs"]
    by (intro exI [of _ ctx']) simp
qed

lemma enc_lines_no_newline:
  "enc_lines [] xs @ BslBase64ArithEncodeProc (drop (full_part 48 xs) xs) = BslBase64ArithEncodeProc xs"
proof (induction "length xs" arbitrary: xs rule: less_induct)
  case less
  show ?case
  proof (cases "48 \<le> length xs")
    case True
    have fp: "full_part 48 xs = 48 + full_part 48 (drop 48 xs)"
      using full_part_block [of "take 48 xs" "drop 48 xs"] True by simp
    have "enc_lines [] (drop 48 xs) @ BslBase64ArithEncodeProc (drop (full_part 48 (drop 48 xs)) (drop 48 xs)) =
        BslBase64ArithEncodeProc (drop 48 xs)"
      using True by (intro less.hyps) simp
    moreover have "BslBase64ArithEncodeProc xs =
        BslBase64ArithEncodeProc (take 48 xs) @ BslBase64ArithEncodeProc (drop 48 xs)"
      using Encode_append [of "take 48 xs" "drop 48 xs"] True by simp
    ultimately show ?thesis
      using True fp by (subst enc_lines.simps) (simp add: add.commute)
  next
    case False
    then show ?thesis by (simp add: full_part_def)
  qed
qed

lemma filter_NL_Encode: "filter (\<lambda>c. c \<noteq> NEWLINE) (BslBase64ArithEncodeProc s) = BslBase64ArithEncodeProc s"
proof -
  have "c \<noteq> NEWLINE" if "c \<in> set (BslBase64ArithEncodeProc s)" for c
    using that b64_chars_valid [of c s] by (auto simp: Encode_split split: if_splits)
  then show ?thesis by (intro filter_True) auto
qed

lemma filter_NL_enc_lines: "filter (\<lambda>c. c \<noteq> NEWLINE) (enc_lines [NEWLINE] xs) = enc_lines [] xs"
proof (induction "length xs" arbitrary: xs rule: less_induct)
  case less
  then show ?case
    by (cases "48 \<le> length xs") (subst (1 2) enc_lines.simps, simp add: filter_NL_Encode)+
qed


lemma encode_stream_lines:
  assumes "chunks_fit cap chunks"
  shows "encode_stream fl cap chunks =
    (let nl = (if fl AND BSL_BASE64_FLAGS_NO_NEWLINE = 0 then [NEWLINE] else []);
         xs = concat chunks; rest = drop (full_part 48 xs) xs
     in Some (enc_lines nl xs @ (if rest = [] then [] else BslBase64ArithEncodeProc rest @ nl)))"
proof -
  let ?ctx = "BSL_BASE64_CtxNew\<lparr>ctxLength := 48, num := 0, flags := fl\<rparr>"
  have inv: "enc_inv ?ctx" and nl: "newline ?ctx = (if fl AND BSL_BASE64_FLAGS_NO_NEWLINE = 0 then [NEWLINE] else [])"
    and pend: "pending ?ctx = []"
    by (simp_all add: enc_inv_def newline_def pending_def BSL_BASE64_CtxNew_def)
  from encode_updates_correct [OF inv assms] pend obtain ctx' where
    u: "encode_updates ?ctx cap chunks = Some (ctx', enc_lines (newline ?ctx) (concat chunks))"
    and i: "enc_inv ctx'" "newline ctx' = newline ?ctx"
      "pending ctx' = drop (full_part 48 (concat chunks)) (concat chunks)" by auto
  have "(num ctx' + 2) div 3 * 4 + 2 \<le> cap"
  proof -
    have "(num ctx' + 2) div 3 \<le> 49 div 3" using i(1) by (intro div_le_mono) (simp add: enc_inv_def)
    then show ?thesis using assms by (simp add: chunks_fit_def)
  qed
  from EncodeFinal_correct [OF i(1) this] u i nl show ?thesis
    by (auto simp: encode_stream_def BSL_BASE64_SetFlags_def BSL_BASE64_EncodeInit_def Let_def
        BSL_BASE64_CtxNew_def)
qed

lemma encode_stream_filter:
  assumes "chunks_fit cap chunks"
  shows "\<exists>out. encode_stream fl cap chunks = Some out \<and>
    filter (\<lambda>c. c \<noteq> NEWLINE) out = BslBase64ArithEncodeProc (concat chunks) \<and>
    (fl AND BSL_BASE64_FLAGS_NO_NEWLINE \<noteq> 0 \<longrightarrow> out = BslBase64ArithEncodeProc (concat chunks))"
proof -
  let ?xs = "concat chunks"
  have tail: "(if r = [] then [] else BslBase64ArithEncodeProc r) = BslBase64ArithEncodeProc r" for r
    by simp
  have nonl: "enc_lines [] ?xs @ (if drop (full_part 48 ?xs) ?xs = [] then []
      else BslBase64ArithEncodeProc (drop (full_part 48 ?xs) ?xs)) = BslBase64ArithEncodeProc ?xs"
    unfolding tail by (rule enc_lines_no_newline)
  have "filter (\<lambda>c. c \<noteq> NEWLINE) (enc_lines [] ?xs) = enc_lines [] ?xs"
    using filter_NL_enc_lines [of ?xs] by (metis (no_types, lifting) filter_filter filter_cong)
  then show ?thesis
    using nonl encode_stream_lines [OF assms, of fl]
    by (cases "fl AND BSL_BASE64_FLAGS_NO_NEWLINE = 0")
       (auto simp: Let_def filter_NL_enc_lines filter_NL_Encode enc_lines_no_newline)
qed

section \<open>Streaming decoding\<close>

definition dec_inv :: "BSL_Base64Ctx \<Rightarrow> bool" where
  "dec_inv ctx \<longleftrightarrow> num ctx < 64 \<and> length (buf ctx) = 80"

lemma DecodeBuffer_append:
  "length a mod 4 = 0 \<Longrightarrow> BslBase64DecodeBuffer (a @ b) = BslBase64DecodeBuffer a @ BslBase64DecodeBuffer b"
proof (induction a rule: BslBase64DecodeBuffer.induct)
  case (1 p q r s t rest)
  have "length (t # rest) mod 4 = 0" using "1.prems" by simp presburger
  with "1.IH" show ?case
    unfolding append_Cons by (simp add: DecodeBuffer_step del: BslBase64DecodeBuffer.simps(1))
next
  case (2 p q r s)
  then show ?case
    unfolding append_Cons by (simp add: DecodeBuffer_step del: BslBase64DecodeBuffer.simps(1))
qed simp_all

lemma full64_snoc_block: "length b = 64 \<Longrightarrow> full_part 64 (b @ xs) = 64 + full_part 64 xs"
proof -
  assume "length b = 64"
  then have "length (b @ xs) div 64 = Suc (length xs div 64)" by simp
  then show ?thesis by (simp add: full_part_def)
qed

text \<open>The characters that matter to the decoder.\<close>

abbreviation nonblank :: "bytes \<Rightarrow> bytes" where
  "nonblank \<equiv> filter (\<lambda>c. dmap c \<noteq> 64)"

lemma DecodeCheck_blank: "dmap c = 64 \<Longrightarrow> BslBase64DecodeCheck c pad = (BSL_SUCCESS, pad)"
  by (simp add: BslBase64DecodeCheck_def)

lemma DecodeCheck_letter: "dmap c < 64 \<Longrightarrow> BslBase64DecodeCheck c 0 = (BSL_SUCCESS, 0)"
  using order.strict_trans [of "dmap c" 64 66] by (auto simp: BslBase64DecodeCheck_def)

lemma DecodeCheck_pad: "pad < 2 \<Longrightarrow> BslBase64DecodeCheck PAD pad = (BSL_SUCCESS, pad + 1)"
  by (simp add: BslBase64DecodeCheck_def dmap_special)


text \<open>One scan over the input: the letters are collected in blocks of 64, the padding is counted.\<close>

lemma DecodeUpdate_loop_correct:
  assumes "n < 64" "length (buf ctx) = 80" "take n (buf ctx) = p"
    and "nonblank xs = ls @ replicate k PAD" "\<forall>c \<in> set ls. dmap c < 64"
    and "paddingCnt ctx = 0 \<or> ls = []" "paddingCnt ctx + k \<le> 2"
  shows "\<exists>b. DecodeUpdate_loop ctx n out xs =
      (BSL_SUCCESS, ctx\<lparr>buf := b, num := length (p @ ls) mod 64, paddingCnt := paddingCnt ctx + k\<rparr>,
       out @ BslBase64DecodeBuffer (take (full_part 64 (p @ ls)) (p @ ls))) \<and>
      length b = 80 \<and> take (length (p @ ls) mod 64) b = drop (full_part 64 (p @ ls)) (p @ ls)"
  using assms
proof (induction xs arbitrary: ctx n p out ls k)
  case Nil
  then have "ctx\<lparr>buf := buf ctx, num := n, paddingCnt := paddingCnt ctx\<rparr> = ctx\<lparr>num := n\<rparr>" by simp
  then show ?case using Nil by (intro exI [of _ "buf ctx"]) (auto simp: full_part_def)
next
  case (Cons c xs)
  consider (blank) "dmap c = 64" | (pad) "ls = []" "k > 0" "c = PAD"
    | (letter) ls' where "ls = c # ls'" "dmap c < 64"
    using Cons.prems(4,5) by (cases ls; cases k) (auto split: if_splits simp: dmap_special)
  then show ?case
  proof cases
    case blank
    then have "\<not> dmap c < 64" by simp
    have upd: "ctx\<lparr>paddingCnt := paddingCnt ctx\<rparr> = ctx" by simp
    show ?thesis
      using Cons.IH [OF Cons.prems(1-3) _ Cons.prems(5-7), of out] Cons.prems(1,4) blank
        \<open>\<not> dmap c < 64\<close> upd
      by (simp add: DecodeCheck_blank)
  next
    case pad
    let ?ctx = "ctx\<lparr>paddingCnt := paddingCnt ctx + 1\<rparr>"
    have step: "DecodeUpdate_loop ctx n out (c # xs) = DecodeUpdate_loop ?ctx n out xs"
      using pad Cons.prems(1,7) by (simp add: DecodeCheck_pad dmap_special)
    have "nonblank xs = [] @ replicate (k - 1) PAD"
      using Cons.prems(4) pad by (cases k) (auto simp: dmap_special)
    then show ?thesis
      unfolding step
      using Cons.IH [of n ?ctx p "[]" "k - 1" out] Cons.prems pad by auto
  next
    case letter
    then have ndm: "\<not> dmap c = 64" by auto
    have pc: "paddingCnt ctx = 0" using Cons.prems(6) letter by simp
    let ?b = "(buf ctx)[n := c]"
    let ?ctx = "ctx\<lparr>paddingCnt := 0, buf := ?b\<rparr>"
    have tk: "take (Suc n) ?b = p @ [c]" and lb: "length ?b = 80"
      using Cons.prems(1-3) by (auto simp: take_Suc_update)
    have nb: "nonblank xs = ls' @ replicate k PAD" "\<forall>c \<in> set ls'. dmap c < 64"
      using Cons.prems(4,5) letter ndm by auto
    have lp: "length p = n" using Cons.prems(1-3) by auto
    show ?thesis
    proof (cases "Suc n = 64")
      case True
      have step: "DecodeUpdate_loop ctx n out (c # xs) =
          DecodeUpdate_loop ?ctx 0 (out @ BslBase64DecodeBuffer (p @ [c])) xs"
        using True letter pc tk by (simp add: DecodeCheck_letter)
      have "length (p @ [c]) = 64" using lp True by simp
      then have fp: "full_part 64 (p @ ls) = 64 + full_part 64 ls'" "length (p @ ls) mod 64 = length ls' mod 64"
        using full64_snoc_block [of "p @ [c]" ls'] letter(1) by auto
      have tp: "take (64 + m) (p @ ls) = (p @ [c]) @ take m ls'" "drop (64 + m) (p @ ls) = drop m ls'" for m
        using lp True letter(1) by (auto simp: add.commute)
      have "BslBase64DecodeBuffer ((p @ [c]) @ take m ls') =
          BslBase64DecodeBuffer (p @ [c]) @ BslBase64DecodeBuffer (take m ls')" for m
        using lp True by (intro DecodeBuffer_append) simp
      then show ?thesis
        unfolding step fp tp
        using Cons.IH [of 0 ?ctx "[]" ls' k "out @ BslBase64DecodeBuffer (p @ [c])"] lb nb pc Cons.prems(7)
        by auto
    next
      case False
      have step: "DecodeUpdate_loop ctx n out (c # xs) = DecodeUpdate_loop ?ctx (Suc n) out xs"
        using False Cons.prems(1) letter pc by (simp add: DecodeCheck_letter)
      show ?thesis
        unfolding step
        using Cons.IH [of "Suc n" ?ctx "p @ [c]" ls' k out] lb tk nb pc False Cons.prems(1,7) letter(1)
        by auto
    qed
  qed
qed


text \<open>A caller of the streaming decoder, like the one of the encoder.\<close>

fun decode_updates :: "BSL_Base64Ctx \<Rightarrow> nat \<Rightarrow> bytes list \<Rightarrow> (BSL_Base64Ctx \<times> bytes) option" where
  "decode_updates ctx cap [] = Some (ctx, [])"
| "decode_updates ctx cap (c # cs) =
     (case BSL_BASE64_DecodeUpdate (Some ctx) (Some c) (Some cap) of
        (BSL_SUCCESS, Some ctx', out) \<Rightarrow>
          map_option (\<lambda>(ctx'', out'). (ctx'', out @ out')) (decode_updates ctx' cap cs)
      | _ \<Rightarrow> None)"

definition decode_stream :: "nat \<Rightarrow> bytes list \<Rightarrow> bytes option" where
  "decode_stream cap chunks =
     (case BSL_BASE64_DecodeInit (Some BSL_BASE64_CtxNew) of
        (BSL_SUCCESS, Some ctx) \<Rightarrow>
          (case decode_updates ctx cap chunks of
             Some (ctx', out) \<Rightarrow>
               (case BSL_BASE64_DecodeFinal (Some ctx') (Some cap) of
                  (BSL_SUCCESS, _, out') \<Rightarrow> Some (out @ out')
                | _ \<Rightarrow> None)
           | None \<Rightarrow> None)
      | _ \<Rightarrow> None)"

definition dec_chunks_fit :: "nat \<Rightarrow> bytes list \<Rightarrow> bool" where
  "dec_chunks_fit cap chunks \<longleftrightarrow> 48 \<le> cap \<and> cap \<le> UINT32_MAX \<and>
     list_all (\<lambda>c. c \<noteq> [] \<and> (length c + 63) div 64 * 48 \<le> cap) chunks"

lemma split_letters_pads:
  assumes "a @ b = ls @ replicate k (x::u8)"
  obtains ls1 ls2 k1 k2 where "a = ls1 @ replicate k1 x" "b = ls2 @ replicate k2 x"
    "ls = ls1 @ ls2" "k = k1 + k2" "k1 = 0 \<or> ls2 = []"
proof (cases "length a \<le> length ls")
  case True
  with assms obtain ls2 where "ls = a @ ls2" "b = ls2 @ replicate k x"
    by (metis append_eq_append_conv_if append_take_drop_id)
  then show ?thesis using that [of a 0 ls2 k] by simp
next
  case False
  with assms obtain r where r: "a = ls @ r" "r @ b = replicate k x"
    by (auto simp: append_eq_append_conv2)
  then have "r = replicate (length r) x" "b = replicate (length b) x" "k = length r + length b"
    by (metis append_eq_conv_conj take_replicate length_replicate min.commute length_append
        le_add1 min_def, metis append_eq_conv_conj drop_replicate length_replicate,
        metis length_append length_replicate)
  then show ?thesis using that [of ls "length r" "[]" "length b"] r by simp
qed

lemma DecodeBuffer_full:
  "BslBase64DecodeBuffer (take (full_part 64 xs) xs) @
   BslBase64DecodeBuffer (take (full_part 64 (drop (full_part 64 xs) xs @ ys)) (drop (full_part 64 xs) xs @ ys)) =
   BslBase64DecodeBuffer (take (full_part 64 (xs @ ys)) (xs @ ys))"
proof -
  let ?F = "full_part 64 xs"
  have le: "?F \<le> length xs" by (simp add: full_part_def)
  have "take (?F + m) (xs @ ys) = take ?F xs @ take m (drop ?F xs @ ys)" for m
    using le by (subst take_add) simp
  moreover have "BslBase64DecodeBuffer (take ?F xs @ zs) =
      BslBase64DecodeBuffer (take ?F xs) @ BslBase64DecodeBuffer zs" for zs
    using le by (intro DecodeBuffer_append) (simp add: full_part_def mod_mult_left_eq)
  ultimately show ?thesis by (simp only: full_part_append [of 64 xs ys])
qed

lemma decode_updates_correct:
  assumes "dec_inv ctx" "dec_chunks_fit cap chunks"
    and "nonblank (concat chunks) = ls @ replicate k PAD" "\<forall>c \<in> set ls. dmap c < 64"
    and "paddingCnt ctx = 0 \<or> ls = []" "paddingCnt ctx + k \<le> 2"
  shows "\<exists>ctx'. decode_updates ctx cap chunks =
      Some (ctx', BslBase64DecodeBuffer (take (full_part 64 (pending ctx @ ls)) (pending ctx @ ls))) \<and>
      dec_inv ctx' \<and> paddingCnt ctx' = paddingCnt ctx + k \<and>
      pending ctx' = drop (full_part 64 (pending ctx @ ls)) (pending ctx @ ls)"
  using assms
proof (induction chunks arbitrary: ctx ls k)
  case Nil
  then have "ls = []" "k = 0" by auto
  moreover have "full_part 64 (pending ctx) = 0"
    using Nil.prems(1) by (simp add: full_part_def dec_inv_def pending_def)
  ultimately show ?case using Nil by simp
next
  case (Cons c cs)
  have "nonblank c @ nonblank (concat cs) = ls @ replicate k PAD" using Cons.prems(3) by simp
  then obtain ls1 ls2 k1 k2 where s: "nonblank c = ls1 @ replicate k1 PAD"
    "nonblank (concat cs) = ls2 @ replicate k2 PAD" "ls = ls1 @ ls2" "k = k1 + k2" "k1 = 0 \<or> ls2 = []"
    by (rule split_letters_pads)
  have fit: "c \<noteq> []" "(length c + 63) div 64 * 48 \<le> cap" "cap \<le> UINT32_MAX"
    using Cons.prems(2) by (auto simp: dec_chunks_fit_def)
  have "(length c + num ctx) div 64 * 48 \<le> cap"
    using fit(2) Cons.prems(1) div_le_mono [of "length c + num ctx" "length c + 63" 64]
    by (simp add: dec_inv_def)
  then have upd: "BSL_BASE64_DecodeUpdate (Some ctx) (Some c) (Some cap) =
      (case DecodeUpdate_loop ctx (num ctx) [] c of (ret, ctx', out) \<Rightarrow> (ret, Some ctx', out))"
    using fit by (simp add: BSL_BASE64_DecodeUpdate_def Let_def)
  let ?p = "pending ctx @ ls1"
  from DecodeUpdate_loop_correct [of "num ctx" ctx "pending ctx" c ls1 k1 "[]"] s Cons.prems
  obtain b where b: "DecodeUpdate_loop ctx (num ctx) [] c =
      (BSL_SUCCESS, ctx\<lparr>buf := b, num := length ?p mod 64, paddingCnt := paddingCnt ctx + k1\<rparr>,
       BslBase64DecodeBuffer (take (full_part 64 ?p) ?p))" "length b = 80"
      "take (length ?p mod 64) b = drop (full_part 64 ?p) ?p"
    by (auto simp: dec_inv_def pending_def)
  let ?ctx = "ctx\<lparr>buf := b, num := length ?p mod 64, paddingCnt := paddingCnt ctx + k1\<rparr>"
  have i1: "dec_inv ?ctx" "pending ?ctx = drop (full_part 64 ?p) ?p"
    using b by (simp_all add: dec_inv_def pending_def)
  have "paddingCnt ?ctx = 0 \<or> ls2 = []" "paddingCnt ?ctx + k2 \<le> 2" "\<forall>c \<in> set ls2. dmap c < 64"
    using Cons.prems(4-6) s by auto
  moreover have "dec_chunks_fit cap cs" using Cons.prems(2) by (simp add: dec_chunks_fit_def)
  ultimately obtain ctx' where r: "decode_updates ?ctx cap cs =
      Some (ctx', BslBase64DecodeBuffer (take (full_part 64 (pending ?ctx @ ls2)) (pending ?ctx @ ls2)))"
      "dec_inv ctx'" "paddingCnt ctx' = paddingCnt ?ctx + k2"
      "pending ctx' = drop (full_part 64 (pending ?ctx @ ls2)) (pending ?ctx @ ls2)"
    using Cons.IH [OF i1(1)] s(2) by blast
  have "BslBase64DecodeBuffer (take (full_part 64 ?p) ?p) @
      BslBase64DecodeBuffer (take (full_part 64 (pending ?ctx @ ls2)) (pending ?ctx @ ls2)) =
      BslBase64DecodeBuffer (take (full_part 64 (?p @ ls2)) (?p @ ls2))"
    unfolding i1(2) by (rule DecodeBuffer_full)
  then show ?case
    using upd b(1) r s(3,4) i1(2) drop_full_part_append [of 64 ?p ls2]
    by (intro exI [of _ ctx']) simp
qed


lemma decode_stream_correct:
  assumes fit: "dec_chunks_fit cap chunks" and wf: "b64_wellformed (concat chunks) cs"
  shows "decode_stream cap chunks = Some (BslBase64DecodeBuffer cs)"
proof -
  let ?ctx = "BSL_BASE64_CtxNew\<lparr>num := 0, ctxLength := 0, flags := 0, paddingCnt := 0\<rparr>"
  from wf obtain k where k: "k \<le> 2" "nonblank (concat chunks) = cs @ replicate k PAD"
    "\<forall>c \<in> set cs. dmap c < 64" "(length cs + k) mod 4 = 0"
    unfolding b64_wellformed_def by (metis length_append length_replicate)
  have inv: "dec_inv ?ctx" "pending ?ctx = []" "paddingCnt ?ctx = 0"
    by (simp_all add: dec_inv_def pending_def BSL_BASE64_CtxNew_def)
  from decode_updates_correct [OF inv(1) fit k(2,3)] inv k(1) obtain ctx' where
    u: "decode_updates ?ctx cap chunks =
        Some (ctx', BslBase64DecodeBuffer (take (full_part 64 cs) cs))"
    and i: "dec_inv ctx'" "paddingCnt ctx' = k" "pending ctx' = drop (full_part 64 cs) cs" by auto
  have n: "num ctx' = length cs mod 64"
    using i(1) arg_cong [OF i(3), of length]
    by (simp add: dec_inv_def pending_def full_part_def minus_div_mult_eq_mod)
  have "length cs mod 64 mod 4 = length cs mod 4" by (rule mod_mod_cancel) simp
  then have "(num ctx' mod 4 + k) mod 4 = 0" using k(4) n by (simp add: mod_add_left_eq)
  moreover have "(num ctx' + 3) div 4 * 3 \<le> cap"
  proof -
    have "(num ctx' + 3) div 4 \<le> 66 div 4" using i(1) by (intro div_le_mono) (simp add: dec_inv_def)
    then show ?thesis using fit by (simp add: dec_chunks_fit_def)
  qed
  ultimately have fin: "\<exists>c''. BSL_BASE64_DecodeFinal (Some ctx') (Some cap) =
      (BSL_SUCCESS, c'', BslBase64DecodeBuffer (pending ctx'))"
    using i k(1) by (cases "num ctx' = 0") (auto simp: BSL_BASE64_DecodeFinal_def Let_def pending_def)
  have "BslBase64DecodeBuffer (take (full_part 64 cs) cs) @ BslBase64DecodeBuffer (drop (full_part 64 cs) cs) =
      BslBase64DecodeBuffer cs"
    using DecodeBuffer_append [of "take (full_part 64 cs) cs" "drop (full_part 64 cs) cs"]
    by (simp add: full_part_def mod_mult_left_eq)
  then show ?thesis
    using u i fin by (auto simp: decode_stream_def BSL_BASE64_DecodeInit_def)
qed

section \<open>Bounds\<close>

lemma length_EncodeUpdate:
  assumes "enc_inv ctx" "src \<noteq> []" "length src < 2 ^ 32" "cap \<le> UINT32_MAX"
  shows "\<exists>ret ctx' out. BSL_BASE64_EncodeUpdate (Some ctx) (Some src) (Some cap) = Some (ret, ctx', out) \<and>
    (out \<noteq> [] \<longrightarrow> length out + 1 \<le> cap)"
proof (cases "(length src + num ctx) div 48 * 65 + 1 \<le> cap")
  case True
  have "length (newline ctx) \<le> 1" by (simp add: newline_def)
  moreover have "length (pending ctx @ src) = length src + num ctx"
    using assms(1) by (simp add: pending_def enc_inv_def)
  ultimately have "length (enc_lines (newline ctx) (pending ctx @ src)) + 1 \<le> (length src + num ctx) div 48 * 65 + 1"
    by (simp only: length_enc_lines) simp
  then show ?thesis
    using EncodeUpdate_correct [OF assms(1-3) True assms(4)] True by fastforce
next
  case False
  then show ?thesis using assms by (simp add: BSL_BASE64_EncodeUpdate_def Let_def enc_inv_def)
qed

lemma length_DecodeUpdate_loop:
  "DecodeUpdate_loop ctx n out xs = (ret, ctx', out') \<Longrightarrow> n < 64 \<Longrightarrow> length (buf ctx) = 80 \<Longrightarrow>
   length out' \<le> length out + (length xs + n) div 64 * 48"
proof (induction xs arbitrary: ctx n out)
  case (Cons c xs)
  have mono: "(length xs + m) div 64 * 48 \<le> (length (c # xs) + n) div 64 * 48" if "m \<le> Suc n" for m
    using that by (intro mult_le_mono1 div_le_mono) simp
  show ?case
  proof (cases "fst (BslBase64DecodeCheck c (paddingCnt ctx)) = BSL_SUCCESS")
    case True
    then obtain pad where chk: "BslBase64DecodeCheck c (paddingCnt ctx) = (BSL_SUCCESS, pad)"
      by (metis prod.collapse)
    let ?n = "if dmap c < 64 then n + 1 else n"
    define ctx2 where "ctx2 = (if dmap c < 64 then ctx\<lparr>paddingCnt := pad, buf := (buf ctx)[n := c]\<rparr>
      else ctx\<lparr>paddingCnt := pad\<rparr>)"
    have b2: "length (buf ctx2) = 80" using Cons.prems(3) by (simp add: ctx2_def)
    have step: "DecodeUpdate_loop ctx n out (c # xs) =
        (if ?n = 64 then DecodeUpdate_loop ctx2 0 (out @ BslBase64DecodeBuffer (take 64 (buf ctx2))) xs
         else DecodeUpdate_loop ctx2 ?n out xs)"
      using Cons.prems(2) chk by (cases "dmap c < 64") (auto simp: Let_def ctx2_def)
    show ?thesis
    proof (cases "?n = 64")
      case True
      then have "n = 63" using Cons.prems(2) by (auto split: if_splits)
      have "length (BslBase64DecodeBuffer (take 64 (buf ctx2))) = 48"
        using b2 by (simp add: length_DecodeBuffer)
      moreover have "(length (c # xs) + n) div 64 = Suc (length xs div 64)"
        using \<open>n = 63\<close> by simp
      ultimately show ?thesis
        using True step Cons.prems(1) Cons.IH [of ctx2 0] b2 by simp fastforce
    next
      case False
      then have "?n < 64" using Cons.prems(2) by (auto split: if_splits)
      then have "length out' \<le> length out + (length xs + ?n) div 64 * 48"
        using False step Cons.prems(1) b2 by (intro Cons.IH [of ctx2 ?n]) auto
      moreover have "(length xs + ?n) div 64 * 48 \<le> (length (c # xs) + n) div 64 * 48"
        by (rule mono) simp
      ultimately show ?thesis by (rule order_trans [OF _ add_left_mono])
    qed
  next
    case False
    then show ?thesis using Cons.prems(1) by (auto split: prod.splits bsl_ret.splits if_splits)
  qed
qed simp

lemma length_DecodeBuffer_le: "length (BslBase64DecodeBuffer (take n b)) \<le> (n + 3) div 4 * 3"
proof -
  have "length (take n b) * 3 div 4 \<le> n * 3 div 4" by (intro div_le_mono) simp
  also have "\<dots> \<le> (n + 3) div 4 * 3" by linarith
  finally show ?thesis by (simp add: length_DecodeBuffer)
qed

lemma length_DecodeFinal:
  assumes "BSL_BASE64_DecodeFinal (Some ctx) (Some cap) = (ret, ctx', out)"
  shows "length out \<le> cap"
proof (cases "out = []")
  case False
  then have "out = BslBase64DecodeBuffer (take (num ctx) (buf ctx))" "\<not> cap < (num ctx + 3) div 4 * 3"
    using assms by (auto simp: BSL_BASE64_DecodeFinal_def Let_def split: if_splits)
  then show ?thesis using length_DecodeBuffer_le [of "num ctx" "buf ctx"] by simp
qed simp

section \<open>Properties of the streaming interface\<close>

text \<open>C3. Streaming encoding: for every way of cutting the data into non-empty chunks that fit the
  output buffer, initialising, updating with each chunk and finishing always returns success,
  and the collected output is the one-shot encoding of the whole data, with a line feed
  after each line unless the flag forbids it.\<close>

theorem base64_encode_stream_is_oneshot:
  assumes "chunks_fit cap chunks" and "concat chunks \<noteq> []"
    and "(length (concat chunks) + 2) div 3 * 4 + 1 \<le> UINT32_MAX"
  shows "\<exists>out. encode_stream fl cap chunks = Some out \<and>
    BSL_BASE64_Encode (Some (concat chunks)) (Some UINT32_MAX) =
      (BSL_SUCCESS, filter (\<lambda>c. c \<noteq> NEWLINE) out) \<and>
    (fl AND BSL_BASE64_FLAGS_NO_NEWLINE \<noteq> 0 \<longrightarrow> NEWLINE \<notin> set out)"
proof -
  from encode_stream_filter [OF assms(1), of fl] obtain out where
    out: "encode_stream fl cap chunks = Some out"
      "filter (\<lambda>c. c \<noteq> NEWLINE) out = BslBase64ArithEncodeProc (concat chunks)"
      "fl AND BSL_BASE64_FLAGS_NO_NEWLINE \<noteq> 0 \<longrightarrow> out = BslBase64ArithEncodeProc (concat chunks)" by blast
  have "NEWLINE \<notin> set (filter (\<lambda>c. c \<noteq> NEWLINE) out)" by simp
  then have "NEWLINE \<notin> set (BslBase64ArithEncodeProc (concat chunks))" unfolding out(2) .
  then show ?thesis using out assms(2,3) by (auto simp: BSL_BASE64_Encode_def Let_def)
qed

theorem base64_encode_stream_is_oneshot_witness:
  "\<exists>out. encode_stream 0 66 [[77], [97, 110]] = Some out \<and>
    BSL_BASE64_Encode (Some [77, 97, 110]) (Some UINT32_MAX) =
      (BSL_SUCCESS, filter (\<lambda>c. c \<noteq> NEWLINE) out) \<and>
    ((0 :: u32) AND BSL_BASE64_FLAGS_NO_NEWLINE \<noteq> 0 \<longrightarrow> NEWLINE \<notin> set out)"
  using base64_encode_stream_is_oneshot [of 66 "[[77], [97, 110]]" 0]
  by (simp add: chunks_fit_def)

text \<open>C4. Streaming decoding: whenever the whole text is one the one-shot decoder accepts, the
  streaming decoder succeeds for every way of cutting the text into chunks, inside groups and
  between padding characters too, and gives the same bytes.\<close>

theorem base64_decode_stream_is_oneshot:
  assumes "dec_chunks_fit cap chunks"
    and "BSL_BASE64_Decode True (Some (concat chunks)) (Some cap') = (BSL_SUCCESS, d)"
  shows "decode_stream cap chunks = Some d"
proof -
  from assms(2) obtain cs where "BslBase64Normalization (concat chunks) = (BSL_SUCCESS, cs)"
    "d = BslBase64DecodeBuffer cs"
    by (auto simp: BSL_BASE64_Decode_def BslBase64ArithDecodeProc_def Let_def
        split: prod.splits bsl_ret.splits if_splits)
  then show ?thesis using decode_stream_correct [OF assms(1)] by (simp add: Normalization_iff)
qed

theorem base64_decode_stream_is_oneshot_witness:
  "decode_stream 48 [[84], [87, 10, 69], [61]] = Some [77, 97]"
proof (rule base64_decode_stream_is_oneshot [where cap' = 6])
  show "dec_chunks_fit 48 [[84], [87, 10, 69], [61]]" by (simp add: dec_chunks_fit_def)
  show "BSL_BASE64_Decode True (Some (concat [[84], [87, 10, 69], [61]])) (Some 6) = (BSL_SUCCESS, [77, 97])"
    by (simp add: BSL_BASE64_Decode_def Let_def BslBase64ArithDecodeProc_def BslBase64Normalization_def
        BslBase64DecodeRemoveBlank_def BslBase64DecodeCheckAndRmvEqualSign_def
        dmap_def BASE64_DECODE_MAP_TABLE_def)
qed

lemma stream_output_bounded:
  assumes "enc_inv ctx" "src \<noteq> []" "length src < 2 ^ 32" "cap \<le> UINT32_MAX"
    and "dec_inv dctx"
  shows "(\<exists>ret ctx' out. BSL_BASE64_EncodeUpdate (Some ctx) (Some src) (Some cap) = Some (ret, ctx', out) \<and>
            (out \<noteq> [] \<longrightarrow> length out + 1 \<le> cap)) \<and>
         (\<forall>ret ctx' out. BSL_BASE64_EncodeFinal (Some ctx) (Some cap) = (ret, ctx', out) \<longrightarrow>
            (out \<noteq> [] \<longrightarrow> length out + 1 \<le> cap)) \<and>
         (\<forall>ret ctx' out. BSL_BASE64_DecodeUpdate (Some dctx) (Some src) (Some cap) = (ret, ctx', out) \<longrightarrow>
            length out \<le> cap) \<and>
         (\<forall>ret ctx' out. BSL_BASE64_DecodeFinal (Some dctx) (Some cap) = (ret, ctx', out) \<longrightarrow>
            length out \<le> cap)"
proof (intro conjI allI impI)
  show "\<exists>ret ctx' out. BSL_BASE64_EncodeUpdate (Some ctx) (Some src) (Some cap) = Some (ret, ctx', out) \<and>
            (out \<noteq> [] \<longrightarrow> length out + 1 \<le> cap)"
    by (rule length_EncodeUpdate [OF assms(1-4)])
next
  fix ret ctx' out
  assume "BSL_BASE64_EncodeFinal (Some ctx) (Some cap) = (ret, ctx', out)" "out \<noteq> []"
  then show "length out + 1 \<le> cap"
    using assms(1) by (auto simp: BSL_BASE64_EncodeFinal_def Let_def length_Encode enc_inv_def split: if_splits)
next
  fix ret ctx' out
  assume A: "BSL_BASE64_DecodeUpdate (Some dctx) (Some src) (Some cap) = (ret, ctx', out)"
  show "length out \<le> cap"
  proof (cases "(length src + num dctx) div 64 * 48 \<le> cap")
    case True
    then show ?thesis
      using A assms(2,4,5) length_DecodeUpdate_loop [of dctx "num dctx" "[]" src]
      by (fastforce simp: BSL_BASE64_DecodeUpdate_def Let_def dec_inv_def split: prod.splits if_splits)
  next
    case False
    then show ?thesis using A by (auto simp: BSL_BASE64_DecodeUpdate_def Let_def split: if_splits)
  qed
next
  fix ret ctx' out
  assume "BSL_BASE64_DecodeFinal (Some dctx) (Some cap) = (ret, ctx', out)"
  then show "length out \<le> cap" by (rule length_DecodeFinal)
qed



end
