(* ===== verification/Tlv.thy ===== *)
theory Tlv
  imports Bytes
begin

text \<open>
  \<^verbatim>\<open>bsl/tlv/src/tlv.c\<close>: packing, parsing and searching type-length-value records.
  A record's header is the type and the length, four big-endian bytes each. Lengths are
  natural numbers; the subtractions of the code are guarded, so none of them wraps. The value
  buffer of a record that is parsed into has the room \<open>cap\<close> (\<^verbatim>\<open>tlv->length\<close> on entry).
\<close>

abbreviation (input) TLV_HEADER_LENGTH :: nat where "TLV_HEADER_LENGTH \<equiv> 8"

record BSL_Tlv =
  tlvType :: u32
  tlvLength :: nat
  tlvValue :: bytes

text \<open>The bytes written to the buffer; \<^verbatim>\<open>*usedLen\<close> is their number.\<close>

definition BSL_TLV_Pack :: "BSL_Tlv \<Rightarrow> nat \<Rightarrow> bsl_ret + bytes" where
  "BSL_TLV_Pack tlv bufLen =
     (if bufLen < TLV_HEADER_LENGTH \<or> tlvLength tlv > bufLen - TLV_HEADER_LENGTH
      then Inl BSL_TLV_ERR_BAD_PARAM
      else Inr (BSL_Uint32ToByte (tlvType tlv) @ BSL_Uint32ToByte (of_nat (tlvLength tlv)) @
                take (tlvLength tlv) (tlvValue tlv)))"

definition TLV_ParseHeader :: "bytes \<Rightarrow> bsl_ret + (u32 \<times> nat)" where
  "TLV_ParseHeader data =
     (let tlvTyp = BSL_ByteToUint32 data;
          tlvLen = unat (BSL_ByteToUint32 (drop 4 data))
      in if tlvLen > length data - TLV_HEADER_LENGTH then Inl BSL_TLV_ERR_BAD_PARAM
         else Inr (tlvTyp, tlvLen))"

text \<open>\<open>data\<close> is what lies from \<^verbatim>\<open>curPos\<close> to the end (\<^verbatim>\<open>remainLen\<close> bytes), \<open>dataLen\<close> the length of the whole
  input. A success gives the record and \<^verbatim>\<open>*readLen\<close>.\<close>

function TLV_Parse_loop :: "u32 \<Rightarrow> nat \<Rightarrow> nat \<Rightarrow> bytes \<Rightarrow> bsl_ret + (BSL_Tlv \<times> nat)" where
  "TLV_Parse_loop wantType dataLen cap data =
     (if length data \<ge> TLV_HEADER_LENGTH then
        (case TLV_ParseHeader data of
           Inl ret \<Rightarrow> Inl ret
         | Inr (type, len) \<Rightarrow>
             (let remainLen = length data - (TLV_HEADER_LENGTH + len)
              in if wantType = type then
                   (if len > cap then Inl BSL_TLV_ERR_MEMCPY_FAIL
                    else Inr (\<lparr>tlvType = type, tlvLength = len, tlvValue = blk TLV_HEADER_LENGTH len data\<rparr>,
                              dataLen - remainLen))
                 else TLV_Parse_loop wantType dataLen cap (drop (TLV_HEADER_LENGTH + len) data)))
      else Inl BSL_TLV_ERR_NO_WANT_TYPE)"
  by pat_completeness auto
termination by (relation "measure (\<lambda>(_, _, _, data). length data)") auto

definition BSL_TLV_Parse :: "u32 \<Rightarrow> bytes \<Rightarrow> nat \<Rightarrow> bsl_ret + (BSL_Tlv \<times> nat)" where
  "BSL_TLV_Parse wantType data cap = TLV_Parse_loop wantType (length data) cap data"

text \<open>A success of the search gives \<^verbatim>\<open>*offset\<close> and \<^verbatim>\<open>*length\<close>.\<close>

function TLV_Find_loop :: "u32 \<Rightarrow> nat \<Rightarrow> bytes \<Rightarrow> bsl_ret + (nat \<times> nat)" where
  "TLV_Find_loop wantType dataLen data =
     (if length data > TLV_HEADER_LENGTH then
        (case TLV_ParseHeader data of
           Inl ret \<Rightarrow> Inl ret
         | Inr (type, len) \<Rightarrow>
             (if wantType = type then Inr (dataLen - length data + TLV_HEADER_LENGTH, len)
              else TLV_Find_loop wantType dataLen (drop (TLV_HEADER_LENGTH + len) data)))
      else Inl BSL_TLV_ERR_NO_WANT_TYPE)"
  by pat_completeness auto
termination by (relation "measure (\<lambda>(_, _, data). length data)") auto

definition BSL_TLV_FindValuePos :: "u32 \<Rightarrow> bytes \<Rightarrow> bsl_ret + (nat \<times> nat)" where
  "BSL_TLV_FindValuePos wantType data = TLV_Find_loop wantType (length data) data"

declare TLV_Parse_loop.simps [simp del] TLV_Find_loop.simps [simp del]

section \<open>Lemmas\<close>

text \<open>A record that can be packed: its length field is the length of its value and fits 32 bits.\<close>

definition tlv_wf :: "BSL_Tlv \<Rightarrow> bool" where
  "tlv_wf t \<longleftrightarrow> tlvLength t = length (tlvValue t) \<and> tlvLength t < 2 ^ 32"

definition tlv_bytes :: "BSL_Tlv \<Rightarrow> bytes" where
  "tlv_bytes t = BSL_Uint32ToByte (tlvType t) @ BSL_Uint32ToByte (of_nat (tlvLength t)) @ tlvValue t"

lemma length_tlv_bytes: "tlv_wf t \<Longrightarrow> length (tlv_bytes t) = 8 + tlvLength t"
  by (simp add: tlv_bytes_def tlv_wf_def)

lemma Pack_tlv_bytes: "tlv_wf t \<Longrightarrow> 8 + tlvLength t \<le> bufLen \<Longrightarrow> BSL_TLV_Pack t bufLen = Inr (tlv_bytes t)"
  by (simp add: BSL_TLV_Pack_def tlv_bytes_def tlv_wf_def)

lemma ParseHeader_tlv_bytes: "tlv_wf t \<Longrightarrow> TLV_ParseHeader (tlv_bytes t @ r) = Inr (tlvType t, tlvLength t)"
  by (simp add: TLV_ParseHeader_def tlv_bytes_def tlv_wf_def Let_def unat_of_nat)

lemma ParseHeader_bounds:
  "TLV_ParseHeader data = Inr (type, len) \<Longrightarrow> 8 \<le> length data \<Longrightarrow> 8 + len \<le> length data"
  by (auto simp: TLV_ParseHeader_def Let_def split: if_splits)

lemma blk_tlv_bytes: "tlv_wf t \<Longrightarrow> blk 8 (tlvLength t) (tlv_bytes t @ r) = tlvValue t"
  by (simp add: blk_def tlv_bytes_def tlv_wf_def)

lemma Parse_loop_step:
  assumes "tlv_wf t"
  shows "TLV_Parse_loop w n cap (tlv_bytes t @ r) =
    (if w = tlvType t then
       if tlvLength t > cap then Inl BSL_TLV_ERR_MEMCPY_FAIL
       else Inr (\<lparr>tlvType = tlvType t, tlvLength = tlvLength t, tlvValue = tlvValue t\<rparr>, n - length r)
     else TLV_Parse_loop w n cap r)"
  using assms
  by (subst TLV_Parse_loop.simps)
     (simp add: ParseHeader_tlv_bytes length_tlv_bytes blk_tlv_bytes Let_def)

lemma Find_loop_step:
  assumes "tlv_wf t" "tlvValue t \<noteq> [] \<or> r \<noteq> []" "length (tlv_bytes t @ r) \<le> n"
  shows "TLV_Find_loop w n (tlv_bytes t @ r) =
    (if w = tlvType t then Inr (n - length r - tlvLength t, tlvLength t)
     else TLV_Find_loop w n r)"
proof -
  have "0 < tlvLength t + length r" using assms by (auto simp: tlv_wf_def)
  then show ?thesis
    using assms(1,3)
    by (subst TLV_Find_loop.simps) (auto simp: ParseHeader_tlv_bytes length_tlv_bytes)
qed

text \<open>The first record of a given type, with the number of bytes in front of its end.\<close>

fun first_of :: "u32 \<Rightarrow> nat \<Rightarrow> BSL_Tlv list \<Rightarrow> (BSL_Tlv \<times> nat) option" where
  "first_of w pos [] = None"
| "first_of w pos (t # ts) =
     (let pos' = pos + 8 + tlvLength t in if tlvType t = w then Some (t, pos') else first_of w pos' ts)"

definition stream :: "BSL_Tlv list \<Rightarrow> bytes" where
  "stream ts = concat (map tlv_bytes ts)"

lemma Parse_loop_stream:
  assumes "list_all tlv_wf ts"
  shows "TLV_Parse_loop w (pos + length (stream ts)) cap (stream ts) =
    (case first_of w pos ts of
       None \<Rightarrow> Inl BSL_TLV_ERR_NO_WANT_TYPE
     | Some (t, n) \<Rightarrow> if tlvLength t > cap then Inl BSL_TLV_ERR_MEMCPY_FAIL else Inr (t, n))"
  using assms
proof (induction ts arbitrary: pos)
  case Nil
  then show ?case by (subst TLV_Parse_loop.simps) (simp add: stream_def)
next
  case (Cons t ts)
  then have t: "tlv_wf t" by simp
  have s: "stream (t # ts) = tlv_bytes t @ stream ts" by (simp add: stream_def)
  show ?case
    unfolding s Parse_loop_step [OF t] using Cons.IH [of "pos + 8 + tlvLength t"] Cons.prems t
    by (simp add: Let_def length_tlv_bytes add.assoc)
qed

lemma split_header:
  assumes "8 + l \<le> length data"
  shows "data = take 8 data @ blk 8 l data @ drop (8 + l) data"
  by (metis append_take_drop_id blk_def drop_drop add.commute)

lemma Parse_loop_inside:
  assumes "TLV_Parse_loop w n cap data = Inr (t, readLen)" "length data \<le> n"
  shows "\<exists>pre hdr post. data = pre @ hdr @ tlvValue t @ post \<and> length hdr = 8 \<and>
    BSL_ByteToUint32 hdr = w \<and> tlvType t = w \<and> tlvLength t = length (tlvValue t) \<and>
    tlvLength t \<le> cap \<and> readLen + length post = n"
  using assms
proof (induction w n cap data rule: TLV_Parse_loop.induct)
  case (1 w n cap data)
  from "1.prems"(1) have len: "8 \<le> length data"
    by (subst (asm) TLV_Parse_loop.simps) (simp split: if_splits)
  obtain ty l where h: "TLV_ParseHeader data = Inr (ty, l)"
    using "1.prems"(1) len by (subst (asm) TLV_Parse_loop.simps) (auto split: sum.splits)
  have b: "8 + l \<le> length data" by (rule ParseHeader_bounds [OF h len])
  have d: "data = take 8 data @ blk 8 l data @ drop (8 + l) data" by (rule split_header [OF b])
  show ?case
  proof (cases "w = ty")
    case True
    have "BSL_ByteToUint32 (take 8 data) = BSL_ByteToUint32 data"
      by (simp add: BSL_ByteToUint32_def)
    then have "BSL_ByteToUint32 (take 8 data) = w"
      using h True by (auto simp: TLV_ParseHeader_def Let_def split: if_splits)
    moreover have "t = \<lparr>tlvType = w, tlvLength = l, tlvValue = blk 8 l data\<rparr>" "l \<le> cap"
      "readLen = n - (length data - (8 + l))"
      using "1.prems"(1) len h True
      by (subst (asm) TLV_Parse_loop.simps, force simp: Let_def split: if_splits)+
    ultimately show ?thesis
      using d b "1.prems"(2)
      by (intro exI [of _ "[]"] exI [of _ "take 8 data"] exI [of _ "drop (8 + l) data"]) simp
  next
    case False
    let ?d = "drop (8 + l) data"
    have rec: "TLV_Parse_loop w n cap ?d = Inr (t, readLen)"
      using "1.prems"(1) len h False by (subst (asm) TLV_Parse_loop.simps) (simp add: Let_def)
    obtain pre hdr post where "?d = pre @ hdr @ tlvValue t @ post" and r: "length hdr = 8"
      "BSL_ByteToUint32 hdr = w" "tlvType t = w" "tlvLength t = length (tlvValue t)"
      "tlvLength t \<le> cap" "readLen + length post = n"
      using "1.IH" [OF len h refl refl False rec] "1.prems"(2) by fastforce
    then have "data = (take (8 + l) data @ pre) @ hdr @ tlvValue t @ post"
      by (metis append.assoc append_take_drop_id)
    then show ?thesis using r by blast
  qed
qed

section \<open>Properties\<close>

text \<open>C6. Packing and parsing are inverse on streams: in the concatenation of packed records the
  parser finds the first one of the wanted type with its value and reports how many bytes it
  consumed; it reports that the type is missing exactly when no record has it, and a value buffer
  that is too small exactly when the first such record does not fit.\<close>

theorem tlv_parse_packed_stream:
  assumes "list_all tlv_wf ts"
  shows "list_all (\<lambda>t. BSL_TLV_Pack t (8 + tlvLength t) = Inr (tlv_bytes t)) ts \<and>
    BSL_TLV_Parse w (concat (map tlv_bytes ts)) cap =
      (case first_of w 0 ts of
         None \<Rightarrow> Inl BSL_TLV_ERR_NO_WANT_TYPE
       | Some (t, n) \<Rightarrow> if tlvLength t > cap then Inl BSL_TLV_ERR_MEMCPY_FAIL else Inr (t, n))"
  using assms Parse_loop_stream [OF assms, of w 0 cap] Pack_tlv_bytes
  by (auto simp: BSL_TLV_Parse_def stream_def list_all_iff)

theorem tlv_parse_packed_stream_witness:
  "list_all (\<lambda>t. BSL_TLV_Pack t (8 + tlvLength t) = Inr (tlv_bytes t))
     [\<lparr>tlvType = 1, tlvLength = 1, tlvValue = [7]\<rparr>, \<lparr>tlvType = 2, tlvLength = 0, tlvValue = []\<rparr>] \<and>
   BSL_TLV_Parse 2 (concat (map tlv_bytes
       [\<lparr>tlvType = 1, tlvLength = 1, tlvValue = [7]\<rparr>, \<lparr>tlvType = 2, tlvLength = 0, tlvValue = []\<rparr>])) 5 =
     Inr (\<lparr>tlvType = 2, tlvLength = 0, tlvValue = []\<rparr>, 17)"
  using tlv_parse_packed_stream [of
      "[\<lparr>tlvType = 1, tlvLength = 1, tlvValue = [7]\<rparr>, \<lparr>tlvType = 2, tlvLength = 0, tlvValue = []\<rparr>]" 2 5]
  by (simp add: tlv_wf_def)



lemma Find_loop_stream:
  assumes "list_all tlv_wf ts" "ts \<noteq> [] \<Longrightarrow> tlvValue (last ts) \<noteq> []"
  shows "TLV_Find_loop w (pos + length (stream ts)) (stream ts) =
    (case first_of w pos ts of
       None \<Rightarrow> Inl BSL_TLV_ERR_NO_WANT_TYPE | Some (t, n) \<Rightarrow> Inr (n - tlvLength t, tlvLength t))"
  using assms
proof (induction ts arbitrary: pos)
  case Nil
  then show ?case by (subst TLV_Find_loop.simps) (simp add: stream_def)
next
  case (Cons t ts)
  then have t: "tlv_wf t" by simp
  have s: "stream (t # ts) = tlv_bytes t @ stream ts" by (simp add: stream_def)
  have ne: "tlvValue t \<noteq> [] \<or> stream ts \<noteq> []"
  proof (cases ts)
    case Nil
    then show ?thesis using Cons.prems(2) by simp
  next
    case (Cons t' ts')
    then show ?thesis by (simp add: stream_def tlv_bytes_def BSL_Uint32ToByte_def)
  qed
  show ?case
    unfolding s
    using Find_loop_step [OF t ne, of "pos + length (tlv_bytes t @ stream ts)" w]
      Cons.IH [of "pos + 8 + tlvLength t"] Cons.prems t
    by (cases "ts = []") (auto simp: Let_def length_tlv_bytes add.assoc)
qed

text \<open>The search agrees with the parser on streams of packed records whose last value is not
  empty: it gives the offset and the length of the value of the first record of the wanted type.\<close>

theorem tlv_find_value_pos:
  assumes "list_all tlv_wf ts" and "ts \<noteq> []" and "tlvValue (last ts) \<noteq> []"
  shows "BSL_TLV_FindValuePos w (concat (map tlv_bytes ts)) =
    (case first_of w 0 ts of
       None \<Rightarrow> Inl BSL_TLV_ERR_NO_WANT_TYPE
     | Some (t, n) \<Rightarrow> Inr (n - tlvLength t, tlvLength t))"
  using Find_loop_stream [OF assms(1), of w 0] assms(3) by (simp add: BSL_TLV_FindValuePos_def stream_def)


end
