(* ===== verification/Avl.thy ===== *)
theory Avl
  imports Prelude "HOL-Library.Monad_Syntax" "HOL-Library.Sublist" "HOL-Library.Multiset"
begin

text \<open>
  The balanced search tree of the error module (\<^verbatim>\<open>bsl/err/src/avl.c\<close>). A tree is the value
  reachable from its root pointer, \<open>NULL\<close> the null pointer; a dereference of a null pointer
  is the value \<open>None\<close> of the option type, so that a theorem giving \<open>Some\<close> also
  shows the memory safety of the call. Data released through the caller's function are
  returned as a list in the order of the calls. The heights are 32-bit words and the cap of
  64 on them is kept.
\<close>

datatype 'd BSL_AvlTree =
    NULL
  | AvlNode (height: u32) (nodeId: u64) (leftNode: "'d BSL_AvlTree") (data: 'd) (rightNode: "'d BSL_AvlTree")

abbreviation (input) AVL_MAX_HEIGHT :: u32 where
  "AVL_MAX_HEIGHT \<equiv> 64"

section \<open>Heights and rotations\<close>

definition GetMaxHeight :: "u32 \<Rightarrow> u32 \<Rightarrow> u32" where
  "GetMaxHeight a b = (if a \<ge> b then a else b)"

fun GetAvlTreeHeight :: "'d BSL_AvlTree \<Rightarrow> u32" where
  "GetAvlTreeHeight NULL = 0"
| "GetAvlTreeHeight (AvlNode h k l d r) = h"

fun UpdateAvlTreeHeight :: "'d BSL_AvlTree \<Rightarrow> 'd BSL_AvlTree option" where
  "UpdateAvlTreeHeight NULL = None"
| "UpdateAvlTreeHeight (AvlNode h k l d r) =
     (if h \<ge> AVL_MAX_HEIGHT then Some (AvlNode h k l d r)
      else Some (AvlNode (GetMaxHeight (GetAvlTreeHeight l) (GetAvlTreeHeight r) + 1) k l d r))"

text \<open>The flag stands for the result of the allocation.\<close>

definition BSL_AVL_MakeLeafNode :: "bool \<Rightarrow> 'd \<Rightarrow> 'd BSL_AvlTree" where
  "BSL_AVL_MakeLeafNode mallocOk d = (if \<not> mallocOk then NULL else AvlNode 1 0 NULL d NULL)"

fun AVL_RotateLeft :: "'d BSL_AvlTree \<Rightarrow> 'd BSL_AvlTree option" where
  "AVL_RotateLeft (AvlNode h k l d (AvlNode rh rk rl rd rr)) =
     do { root \<leftarrow> UpdateAvlTreeHeight (AvlNode h k l d rl);
          UpdateAvlTreeHeight (AvlNode rh rk root rd rr) }"
| "AVL_RotateLeft _ = None"

fun AVL_RotateRight :: "'d BSL_AvlTree \<Rightarrow> 'd BSL_AvlTree option" where
  "AVL_RotateRight (AvlNode h k (AvlNode lh lk ll ld lr) d r) =
     do { root \<leftarrow> UpdateAvlTreeHeight (AvlNode h k lr d r);
          UpdateAvlTreeHeight (AvlNode lh lk ll ld root) }"
| "AVL_RotateRight _ = None"

fun AVL_RebalanceRight :: "'d BSL_AvlTree \<Rightarrow> 'd BSL_AvlTree option" where
  "AVL_RebalanceRight NULL = None"
| "AVL_RebalanceRight (AvlNode h k l d r) =
     (if GetAvlTreeHeight l + 1 \<ge> GetAvlTreeHeight r then UpdateAvlTreeHeight (AvlNode h k l d r)
      else case r of
        NULL \<Rightarrow> None
      | AvlNode ch ck cl cd cr \<Rightarrow>
          do { r' \<leftarrow> if GetAvlTreeHeight cl > GetAvlTreeHeight cr then AVL_RotateRight r else Some r;
               AVL_RotateLeft (AvlNode h k l d r') })"

fun AVL_RebalanceLeft :: "'d BSL_AvlTree \<Rightarrow> 'd BSL_AvlTree option" where
  "AVL_RebalanceLeft NULL = None"
| "AVL_RebalanceLeft (AvlNode h k l d r) =
     (if GetAvlTreeHeight r + 1 \<ge> GetAvlTreeHeight l then UpdateAvlTreeHeight (AvlNode h k l d r)
      else case l of
        NULL \<Rightarrow> None
      | AvlNode ch ck cl cd cr \<Rightarrow>
          do { l' \<leftarrow> if GetAvlTreeHeight cr > GetAvlTreeHeight cl then AVL_RotateLeft l else Some l;
               AVL_RotateRight (AvlNode h k l' d r) })"

section \<open>Operations\<close>

text \<open>\<open>func\<close> tells whether the caller passed a release function.\<close>

definition AVL_FreeData :: "'d \<Rightarrow> bool \<Rightarrow> 'd list" where
  "AVL_FreeData d func = (if func then [d] else [])"

fun BSL_AVL_InsertNode :: "'d BSL_AvlTree \<Rightarrow> u64 \<Rightarrow> 'd BSL_AvlTree \<Rightarrow> 'd BSL_AvlTree option" where
  "BSL_AVL_InsertNode NULL i node =
     (case node of NULL \<Rightarrow> None | AvlNode h k l d r \<Rightarrow> Some (AvlNode h i l d r))"
| "BSL_AVL_InsertNode (AvlNode h k l d r) i node =
     (if k > i then
        do { l' \<leftarrow> BSL_AVL_InsertNode l i node; AVL_RebalanceLeft (AvlNode h k l' d r) }
      else if k < i then
        do { r' \<leftarrow> BSL_AVL_InsertNode r i node; AVL_RebalanceRight (AvlNode h k l d r') }
      else Some NULL)"

fun BSL_AVL_SearchNode :: "'d BSL_AvlTree \<Rightarrow> u64 \<Rightarrow> 'd BSL_AvlTree" where
  "BSL_AVL_SearchNode NULL i = NULL"
| "BSL_AVL_SearchNode (AvlNode h k l d r) i =
     (if k = i then AvlNode h k l d r
      else if k > i then BSL_AVL_SearchNode l i
      else BSL_AVL_SearchNode r i)"

text \<open>The second component is the pair of \<open>nodeId\<close> and \<open>data\<close> of \<open>removeNode\<close>, which the
  function overwrites with those of the last node of the subtree.\<close>

fun AVL_DeleteNodeWithTwoChilds :: "'d BSL_AvlTree \<Rightarrow> u64 \<times> 'd \<Rightarrow> ('d BSL_AvlTree \<times> u64 \<times> 'd) option" where
  "AVL_DeleteNodeWithTwoChilds NULL rm = Some (NULL, rm)"
| "AVL_DeleteNodeWithTwoChilds (AvlNode h k l d r) rm =
     (if r = NULL then Some (l, k, d)
      else do { (r', rm') \<leftarrow> AVL_DeleteNodeWithTwoChilds r rm;
                t \<leftarrow> AVL_RebalanceLeft (AvlNode h k l d r');
                Some (t, rm') })"

fun BSL_AVL_DeleteNode :: "'d BSL_AvlTree \<Rightarrow> u64 \<Rightarrow> bool \<Rightarrow> ('d BSL_AvlTree \<times> 'd list) option" where
  "BSL_AVL_DeleteNode NULL i func = Some (NULL, [])"
| "BSL_AVL_DeleteNode (AvlNode h k l d r) i func =
     (if k = i then
        if l = NULL then
          if r = NULL then Some (NULL, AVL_FreeData d func)
          else Some (r, AVL_FreeData d func)
        else if r = NULL then Some (l, AVL_FreeData d func)
        else do { (l', k', d') \<leftarrow> AVL_DeleteNodeWithTwoChilds l (k, d);
                  t \<leftarrow> AVL_RebalanceRight (AvlNode h k' l' d' r);
                  Some (t, AVL_FreeData d func) }
      else if k > i then
        do { (l', fr) \<leftarrow> BSL_AVL_DeleteNode l i func;
             t \<leftarrow> AVL_RebalanceRight (AvlNode h k l' d r);
             Some (t, fr) }
      else
        do { (r', fr) \<leftarrow> BSL_AVL_DeleteNode r i func;
             t \<leftarrow> AVL_RebalanceLeft (AvlNode h k l d r');
             Some (t, fr) })"

fun BSL_AVL_DeleteTree :: "'d BSL_AvlTree \<Rightarrow> bool \<Rightarrow> 'd list" where
  "BSL_AVL_DeleteTree NULL func = []"
| "BSL_AVL_DeleteTree (AvlNode h k l d r) func =
     BSL_AVL_DeleteTree l func @ BSL_AVL_DeleteTree r func @ AVL_FreeData d func"

text \<open>A store through the node pointer that \<^const>\<open>BSL_AVL_SearchNode\<close> returns, as the error
  module performs it on \<open>curNode->data\<close>.\<close>

fun AVL_StoreData :: "'d BSL_AvlTree \<Rightarrow> u64 \<Rightarrow> 'd \<Rightarrow> 'd BSL_AvlTree" where
  "AVL_StoreData NULL i v = NULL"
| "AVL_StoreData (AvlNode h k l d r) i v =
     (if k = i then AvlNode h k l v r
      else if k > i then AvlNode h k (AVL_StoreData l i v) d r
      else AvlNode h k l d (AVL_StoreData r i v))"

section \<open>Invariant and abstraction\<close>

fun inorder :: "'d BSL_AvlTree \<Rightarrow> (u64 \<times> 'd) list" where
  "inorder NULL = []"
| "inorder (AvlNode h k l d r) = inorder l @ (k, d) # inorder r"

abbreviation ht :: "'d BSL_AvlTree \<Rightarrow> nat" where
  "ht t \<equiv> unat (GetAvlTreeHeight t)"

fun avl :: "'d BSL_AvlTree \<Rightarrow> bool" where
  "avl NULL = True"
| "avl (AvlNode h k l d r) =
     (avl l \<and> avl r \<and> unat h = max (ht l) (ht r) + 1 \<and> ht l \<le> ht r + 1 \<and> ht r \<le> ht l + 1)"

abbreviation sorted_keys :: "(u64 \<times> 'd) list \<Rightarrow> bool" where
  "sorted_keys xs \<equiv> sorted_wrt (<) (map fst xs)"

definition avl_inv :: "'d BSL_AvlTree \<Rightarrow> bool" where
  "avl_inv t = (avl t \<and> sorted_keys (inorder t))"

definition avl_size :: "'d BSL_AvlTree \<Rightarrow> nat" where
  "avl_size t = length (inorder t)"

definition avl_lookup :: "'d BSL_AvlTree \<Rightarrow> u64 \<Rightarrow> 'd option" where
  "avl_lookup t i = (case BSL_AVL_SearchNode t i of NULL \<Rightarrow> None | AvlNode h k l d r \<Rightarrow> Some d)"

section \<open>Rebalancing\<close>

lemma unat_height_Suc:
  fixes a b :: u32
  assumes "unat a < 2 ^ 31" and "unat b < 2 ^ 31"
  shows "unat (GetMaxHeight a b + 1) = max (unat a) (unat b) + 1" and "unat (a + 1) = unat a + 1"
proof -
  have *: "unat (c + 1) = unat c + 1" if "unat c < 2 ^ 31" for c :: u32
    using that by (simp add: unat_word_ariths)
  show "unat (a + 1) = unat a + 1" using assms by (simp add: *)
  show "unat (GetMaxHeight a b + 1) = max (unat a) (unat b) + 1"
    using assms by (auto simp: GetMaxHeight_def * max_def word_le_nat_alt)
qed

lemma unat_MaxHeight_Suc:
  fixes a b :: u32
  shows "unat a < 64 \<Longrightarrow> unat b < 64 \<Longrightarrow> unat (GetMaxHeight a b + 1) = max (unat a) (unat b) + 1"
  using unat_height_Suc(1) [of a b] by simp

lemma Update_eq:
  "unat h < 64 \<Longrightarrow> UpdateAvlTreeHeight (AvlNode h k l d r) =
     Some (AvlNode (GetMaxHeight (GetAvlTreeHeight l) (GetAvlTreeHeight r) + 1) k l d r)"
  by (simp add: word_le_nat_alt)

lemma height_le_Suc:
  fixes a b :: u32
  shows "unat a < 64 \<Longrightarrow> b \<le> a + 1 \<longleftrightarrow> unat b \<le> unat a + 1"
  using unat_height_Suc(2) [of a a] by (simp add: word_le_nat_alt)

text \<open>A node whose height field was just brought up to date.\<close>

definition mk :: "'d BSL_AvlTree \<Rightarrow> u64 \<Rightarrow> 'd \<Rightarrow> 'd BSL_AvlTree \<Rightarrow> 'd BSL_AvlTree" where
  "mk l k d r = AvlNode (GetMaxHeight (GetAvlTreeHeight l) (GetAvlTreeHeight r) + 1) k l d r"

lemma Update_mk: "unat h < 64 \<Longrightarrow> UpdateAvlTreeHeight (AvlNode h k l d r) = Some (mk l k d r)"
  by (simp add: Update_eq mk_def del: UpdateAvlTreeHeight.simps)

lemma ht_mk: "ht l < 64 \<Longrightarrow> ht r < 64 \<Longrightarrow> ht (mk l k d r) = max (ht l) (ht r) + 1"
  by (simp add: mk_def unat_MaxHeight_Suc)

lemma avl_mk:
  "avl l \<Longrightarrow> avl r \<Longrightarrow> ht l < 64 \<Longrightarrow> ht r < 64 \<Longrightarrow> ht l \<le> ht r + 1 \<Longrightarrow> ht r \<le> ht l + 1 \<Longrightarrow> avl (mk l k d r)"
  by (simp add: mk_def unat_MaxHeight_Suc)

lemma inorder_mk [simp]: "inorder (mk l k d r) = inorder l @ (k, d) # inorder r"
  and mk_not_NULL [simp]: "mk l k d r \<noteq> NULL"
  by (simp_all add: mk_def)

lemma RotateLeft_mk:
  "unat h < 64 \<Longrightarrow> unat rh < 64 \<Longrightarrow>
   AVL_RotateLeft (AvlNode h k l d (AvlNode rh rk rl rd rr)) = Some (mk (mk l k d rl) rk rd rr)"
  by (simp add: Update_mk del: UpdateAvlTreeHeight.simps)

lemma RotateRight_mk:
  "unat h < 64 \<Longrightarrow> unat lh < 64 \<Longrightarrow>
   AVL_RotateRight (AvlNode h k (AvlNode lh lk ll ld lr) d r) = Some (mk ll lk ld (mk lr k d r))"
  by (simp add: Update_mk del: UpdateAvlTreeHeight.simps)

lemma RotateLeft_mk2:
  "unat h < 64 \<Longrightarrow> ht (mk rl rk rd rr) < 64 \<Longrightarrow>
   AVL_RotateLeft (AvlNode h k l d (mk rl rk rd rr)) = Some (mk (mk l k d rl) rk rd rr)"
  by (simp add: mk_def [of rl] RotateLeft_mk del: AVL_RotateLeft.simps)

lemma RotateRight_mk2:
  "unat h < 64 \<Longrightarrow> ht (mk ll lk ld lr) < 64 \<Longrightarrow>
   AVL_RotateRight (AvlNode h k (mk ll lk ld lr) d r) = Some (mk ll lk ld (mk lr k d r))"
  by (simp add: mk_def [of ll] RotateRight_mk del: AVL_RotateRight.simps)

text \<open>What a rebalancing of a node with the children \<open>l\<close> and \<open>r\<close> returns.\<close>

definition rebal_spec :: "'d BSL_AvlTree option \<Rightarrow> 'd BSL_AvlTree \<Rightarrow> u64 \<Rightarrow> 'd \<Rightarrow> 'd BSL_AvlTree \<Rightarrow> bool" where
  "rebal_spec res l k d r = (\<exists>t. res = Some t \<and> t \<noteq> NULL \<and> avl t \<and> inorder t = inorder l @ (k, d) # inorder r
     \<and> (if ht l \<le> ht r + 1 \<and> ht r \<le> ht l + 1 then ht t = max (ht l) (ht r) + 1
        else ht t = max (ht l) (ht r) \<or> ht t = max (ht l) (ht r) + 1))"

lemma rebal_specI:
  assumes "res = Some t" "t \<noteq> NULL" "avl t" "inorder t = inorder l @ (k, d) # inorder r"
    and "ht l \<le> ht r + 1 \<Longrightarrow> ht r \<le> ht l + 1 \<Longrightarrow> ht t = max (ht l) (ht r) + 1"
    and "ht t = max (ht l) (ht r) \<or> ht t = max (ht l) (ht r) + 1"
  shows "rebal_spec res l k d r"
  using assms unfolding rebal_spec_def by auto

lemma rebal_specE:
  assumes "rebal_spec res l k d r"
  obtains t where "res = Some t" "avl t" "inorder t = inorder l @ (k, d) # inorder r"
    and "ht l \<le> ht r + 1 \<and> ht r \<le> ht l + 1 \<longrightarrow> ht t = max (ht l) (ht r) + 1"
    and "ht t = max (ht l) (ht r) \<or> ht t = max (ht l) (ht r) + 1"
  using assms unfolding rebal_spec_def by (auto split: if_splits)

lemma Rebalance_balanced:
  assumes "avl l" "avl r" "unat h < 64" "ht l < 64" "ht r < 64" "ht r \<le> ht l + 1" "ht l \<le> ht r + 1"
  shows "rebal_spec (AVL_RebalanceRight (AvlNode h k l d r)) l k d r"
    and "rebal_spec (AVL_RebalanceLeft (AvlNode h k l d r)) l k d r"
  by (rule rebal_specI [of _ "mk l k d r"]; use assms in
    \<open>simp add: Update_mk height_le_Suc ht_mk avl_mk del: UpdateAvlTreeHeight.simps\<close>)+

lemma RebalanceRight_ok:
  assumes "avl l" "avl r" "unat h < 64" "ht l < 64" "ht r < 64" "ht r \<le> ht l + 2" "ht l \<le> ht r + 1"
  shows "rebal_spec (AVL_RebalanceRight (AvlNode h k l d r)) l k d r"
proof (cases "ht r \<le> ht l + 1")
  case True
  then show ?thesis by (intro Rebalance_balanced(1)) (use assms in simp_all)
next
  case False
  then have hx: "ht r = ht l + 2" using assms by simp
  then obtain ch ck cl cd cr where r: "r = AvlNode ch ck cl cd cr" by (cases r) auto
  have c: "unat ch = ht l + 2" "unat ch < 64" "avl cl" "avl cr" "max (ht cl) (ht cr) = ht l + 1"
    "ht cl \<le> ht cr + 1" "ht cr \<le> ht cl + 1"
    using hx assms by (auto simp: r)
  then have c64: "ht cl < 64" "ht cr < 64" by simp_all
  have nb: "\<not> GetAvlTreeHeight r \<le> GetAvlTreeHeight l + 1" using hx assms by (simp add: height_le_Suc)
  show ?thesis
  proof (cases "ht cl > ht cr")
    case False
    then have e: "ht cr = ht l + 1" "ht l \<le> ht cl + 1" "ht cl \<le> ht l + 1" "ht l \<le> ht cl"
      using c by auto
    have u: "ht (mk l k d cl) = ht cl + 1" using e c64 assms by (simp add: ht_mk)
    have a: "avl (mk l k d cl)" using e c64 c assms by (simp add: avl_mk)
    have s: "ht (mk (mk l k d cl) ck cd cr) = max (ht (mk l k d cl)) (ht cr) + 1" "avl (mk (mk l k d cl) ck cd cr)"
      using e u a c c64 by (simp_all add: ht_mk avl_mk)
    show ?thesis
      by (rule rebal_specI [of _ "(mk (mk l k d cl) ck cd cr)"])
        (use False nb c c64 e s u hx assms(3) in \<open>auto simp: r word_less_nat_alt RotateLeft_mk simp del: AVL_RotateLeft.simps AVL_RotateRight.simps\<close>)
  next
    case True
    then obtain gh gk gl gd gr where cn: "cl = AvlNode gh gk gl gd gr" by (cases cl) auto
    have g: "avl gl" "avl gr" "ht gl \<le> ht gr + 1" "ht gr \<le> ht gl + 1" "ht cr = ht l" "unat gh = ht l + 1"
      "max (ht gl) (ht gr) = ht l"
      using c True by (auto simp: cn)
    then have g64: "unat gh < 64" "ht gl < 64" "ht gr < 64" using c by simp_all
    have r1: "AVL_RotateRight r = Some (mk gl gk gd (mk gr ck cd cr))" using g64 c by (simp add: r cn RotateRight_mk del: AVL_RotateLeft.simps AVL_RotateRight.simps)
    have i: "ht (mk gr ck cd cr) = ht l + 1" "ht (mk l k d gl) = ht l + 1" "avl (mk gr ck cd cr)" "avl (mk l k d gl)"
      using g g64 c c64 assms by (auto simp: ht_mk avl_mk)
    have m: "ht (mk gl gk gd (mk gr ck cd cr)) < 64" using i g g64 c by (simp add: ht_mk)
    have s: "ht (mk (mk l k d gl) gk gd (mk gr ck cd cr)) = ht l + 2" "avl (mk (mk l k d gl) gk gd (mk gr ck cd cr))"
      using i c by (simp_all add: ht_mk avl_mk)
    show ?thesis
      by (rule rebal_specI [of _ "(mk (mk l k d gl) gk gd (mk gr ck cd cr))"])
        (use True nb s hx r1 m assms(3) in \<open>auto simp: r cn word_less_nat_alt RotateLeft_mk2 simp del: AVL_RotateLeft.simps AVL_RotateRight.simps\<close>)
  qed
qed

lemma RebalanceLeft_ok:
  assumes "avl l" "avl r" "unat h < 64" "ht l < 64" "ht r < 64" "ht l \<le> ht r + 2" "ht r \<le> ht l + 1"
  shows "rebal_spec (AVL_RebalanceLeft (AvlNode h k l d r)) l k d r"
proof (cases "ht l \<le> ht r + 1")
  case True
  then show ?thesis by (intro Rebalance_balanced(2)) (use assms in simp_all)
next
  case False
  then have hx: "ht l = ht r + 2" using assms by simp
  then obtain ch ck cl cd cr where l: "l = AvlNode ch ck cl cd cr" by (cases l) auto
  have c: "unat ch = ht r + 2" "unat ch < 64" "avl cl" "avl cr" "max (ht cl) (ht cr) = ht r + 1"
    "ht cl \<le> ht cr + 1" "ht cr \<le> ht cl + 1"
    using hx assms by (auto simp: l)
  then have c64: "ht cl < 64" "ht cr < 64" by simp_all
  have nb: "\<not> GetAvlTreeHeight l \<le> GetAvlTreeHeight r + 1" using hx assms by (simp add: height_le_Suc)
  show ?thesis
  proof (cases "ht cr > ht cl")
    case False
    then have e: "ht cl = ht r + 1" "ht r \<le> ht cr + 1" "ht cr \<le> ht r + 1" "ht r \<le> ht cr"
      using c by auto
    have u: "ht (mk cr k d r) = ht cr + 1" using e c64 assms by (simp add: ht_mk)
    have a: "avl (mk cr k d r)" using e c64 c assms by (simp add: avl_mk)
    have s: "ht (mk cl ck cd (mk cr k d r)) = max (ht (mk cr k d r)) (ht cl) + 1" "avl (mk cl ck cd (mk cr k d r))"
      using e u a c c64 by (simp_all add: ht_mk avl_mk)
    show ?thesis
      by (rule rebal_specI [of _ "(mk cl ck cd (mk cr k d r))"])
        (use False nb c c64 e s u hx assms(3) in \<open>auto simp: l word_less_nat_alt RotateRight_mk simp del: AVL_RotateLeft.simps AVL_RotateRight.simps\<close>)
  next
    case True
    then obtain gh gk gl gd gr where cn: "cr = AvlNode gh gk gl gd gr" by (cases cr) auto
    have g: "avl gl" "avl gr" "ht gl \<le> ht gr + 1" "ht gr \<le> ht gl + 1" "ht cl = ht r" "unat gh = ht r + 1"
      "max (ht gl) (ht gr) = ht r"
      using c True by (auto simp: cn)
    then have g64: "unat gh < 64" "ht gl < 64" "ht gr < 64" using c by simp_all
    have r1: "AVL_RotateLeft l = Some (mk (mk cl ck cd gl) gk gd gr)" using g64 c by (simp add: l cn RotateLeft_mk del: AVL_RotateLeft.simps AVL_RotateRight.simps)
    have i: "ht (mk cl ck cd gl) = ht r + 1" "ht (mk gr k d r) = ht r + 1" "avl (mk cl ck cd gl)" "avl (mk gr k d r)"
      using g g64 c c64 assms by (auto simp: ht_mk avl_mk)
    have m: "ht (mk (mk cl ck cd gl) gk gd gr) < 64" using i g g64 c by (simp add: ht_mk)
    have s: "ht (mk (mk cl ck cd gl) gk gd (mk gr k d r)) = ht r + 2" "avl (mk (mk cl ck cd gl) gk gd (mk gr k d r))"
      using i c by (simp_all add: ht_mk avl_mk)
    show ?thesis
      by (rule rebal_specI [of _ "(mk (mk cl ck cd gl) gk gd (mk gr k d r))"])
        (use True nb s hx r1 m assms(3) in \<open>auto simp: l cn word_less_nat_alt RotateRight_mk2 simp del: AVL_RotateLeft.simps AVL_RotateRight.simps\<close>)
  qed
qed


lemmas avl_eval = UpdateAvlTreeHeight.simps AVL_RotateLeft.simps AVL_RotateRight.simps
  AVL_RebalanceRight.simps AVL_RebalanceLeft.simps

declare avl_eval [simp del]

section \<open>Search, insertion and deletion on the inorder list\<close>

lemma sorted_keys_node:
  assumes "sorted_keys (inorder (AvlNode h k l d r))"
  shows "sorted_keys (inorder l)" "sorted_keys (inorder r)" "\<forall>x\<in>set (inorder l). fst x < k"
    "\<forall>x\<in>set (inorder r). k < fst x"
  using assms by (simp_all add: sorted_wrt_append)

lemma filter_keys_empty:
  "\<forall>x\<in>set xs. \<not> P (fst x) \<Longrightarrow> [x\<leftarrow>xs. P (fst x)] = []"
  "\<forall>x\<in>set xs. P (fst x) \<Longrightarrow> [x\<leftarrow>xs. P (fst x)] = xs"
  by (simp_all add: filter_empty_conv)

lemma map_of_notin_keys: "\<forall>x\<in>set xs. fst x \<noteq> i \<Longrightarrow> map_of xs i = None"
  by (auto simp: map_of_eq_None_iff)

lemma avl_lookup_simps [simp]:
  "avl_lookup NULL i = None"
  "avl_lookup (AvlNode h k l d r) i = (if k = i then Some d else if k > i then avl_lookup l i else avl_lookup r i)"
  by (simp_all add: avl_lookup_def)

lemma avl_lookup_map_of:
  "sorted_keys (inorder t) \<Longrightarrow> avl_lookup t i = map_of (inorder t) i"
proof (induction t)
  case (AvlNode h k l d r)
  have s: "sorted_keys (inorder l)" "sorted_keys (inorder r)" "\<forall>x\<in>set (inorder l). fst x < k"
    "\<forall>x\<in>set (inorder r). k < fst x"
    using sorted_keys_node [OF AvlNode.prems] by simp_all
  have L: "map_of (inorder l) i = None" if "k \<le> i" using s that by (intro map_of_notin_keys) force
  have R: "map_of (inorder r) i = None" if "i \<le> k" using s that by (intro map_of_notin_keys) force
  have "avl_lookup (AvlNode h k l d r) i =
      (if k = i then Some d else if k > i then avl_lookup l i else avl_lookup r i)"
    by (simp add: avl_lookup_def)
  then show ?case using AvlNode.IH s L R by (auto simp: map_add_def split: option.split)
qed (simp add: avl_lookup_def)

lemma Insert_ok:
  assumes "avl t" "sorted_keys (inorder t)" "\<forall>x\<in>set (inorder t). fst x \<noteq> i" "ht t < 64"
  shows "\<exists>t'. BSL_AVL_InsertNode t i (AvlNode 1 k0 NULL v NULL) = Some t' \<and> avl t'
    \<and> inorder t' = [x\<leftarrow>inorder t. fst x < i] @ (i, v) # [x\<leftarrow>inorder t. fst x > i]
    \<and> (ht t' = ht t \<or> ht t' = ht t + 1)"
  using assms
proof (induction t)
  case (AvlNode h k l d r)
  have s: "sorted_keys (inorder l)" "sorted_keys (inorder r)" "\<forall>x\<in>set (inorder l). fst x < k"
    "\<forall>x\<in>set (inorder r). k < fst x" "k \<noteq> i"
    using sorted_keys_node [OF AvlNode.prems(2)] AvlNode.prems(3) by simp_all
  have b: "avl l" "avl r" "unat h < 64" "ht l < 63" "ht r < 63" "ht l \<le> ht r + 1" "ht r \<le> ht l + 1"
    "unat h = max (ht l) (ht r) + 1"
    using AvlNode.prems by simp_all
  show ?case
  proof (cases "k > i")
    case True
    obtain l' where l': "BSL_AVL_InsertNode l i (AvlNode 1 k0 NULL v NULL) = Some l'" "avl l'"
      "inorder l' = [x\<leftarrow>inorder l. fst x < i] @ (i, v) # [x\<leftarrow>inorder l. fst x > i]"
      "ht l' = ht l \<or> ht l' = ht l + 1"
      using AvlNode.IH(1) AvlNode.prems b s by auto
    have "rebal_spec (AVL_RebalanceLeft (AvlNode h k l' d r)) l' k d r"
      by (intro RebalanceLeft_ok) (use l' b in auto)
    then obtain t where t: "AVL_RebalanceLeft (AvlNode h k l' d r) = Some t" "avl t"
      "inorder t = inorder l' @ (k, d) # inorder r"
      and th: "ht l' \<le> ht r + 1 \<and> ht r \<le> ht l' + 1 \<longrightarrow> ht t = max (ht l') (ht r) + 1"
        "ht t = max (ht l') (ht r) \<or> ht t = max (ht l') (ht r) + 1"
      by (rule rebal_specE)
    have f: "[x\<leftarrow>inorder r. fst x < i] = []" "[x\<leftarrow>inorder r. fst x > i] = inorder r"
      using s True by (intro filter_keys_empty; force)+
    have "ht t = unat h \<or> ht t = unat h + 1" using th l'(4) b by (auto simp: max_def split: if_splits)
    then show ?thesis using True t l' f by simp
  next
    case False
    then have ki: "k < i" using s by simp
    obtain r' where r': "BSL_AVL_InsertNode r i (AvlNode 1 k0 NULL v NULL) = Some r'" "avl r'"
      "inorder r' = [x\<leftarrow>inorder r. fst x < i] @ (i, v) # [x\<leftarrow>inorder r. fst x > i]"
      "ht r' = ht r \<or> ht r' = ht r + 1"
      using AvlNode.IH(2) AvlNode.prems b s by auto
    have "rebal_spec (AVL_RebalanceRight (AvlNode h k l d r')) l k d r'"
      by (intro RebalanceRight_ok) (use r' b in auto)
    then obtain t where t: "AVL_RebalanceRight (AvlNode h k l d r') = Some t" "avl t"
      "inorder t = inorder l @ (k, d) # inorder r'"
      and th: "ht l \<le> ht r' + 1 \<and> ht r' \<le> ht l + 1 \<longrightarrow> ht t = max (ht l) (ht r') + 1"
        "ht t = max (ht l) (ht r') \<or> ht t = max (ht l) (ht r') + 1"
      by (rule rebal_specE)
    have f: "[x\<leftarrow>inorder l. fst x < i] = inorder l" "[x\<leftarrow>inorder l. fst x > i] = []"
      using s ki by (intro filter_keys_empty; force)+
    have "ht t = unat h \<or> ht t = unat h + 1" using th r'(4) b by (auto simp: max_def split: if_splits)
    then show ?thesis using False ki t r' f by simp
  qed
qed simp

lemma DeleteTwo_ok:
  assumes "t \<noteq> NULL" "avl t" "ht t < 64"
  shows "\<exists>t' k d. AVL_DeleteNodeWithTwoChilds t rm = Some (t', k, d) \<and> avl t'
    \<and> inorder t = inorder t' @ [(k, d)] \<and> (ht t' = ht t \<or> ht t' + 1 = ht t)"
  using assms
proof (induction t rm rule: AVL_DeleteNodeWithTwoChilds.induct)
  case (2 h k l d r rm)
  have b: "avl l" "avl r" "unat h < 64" "ht l < 63" "ht r < 63" "ht l \<le> ht r + 1" "ht r \<le> ht l + 1"
    "unat h = max (ht l) (ht r) + 1"
    using "2.prems" by simp_all
  show ?case
  proof (cases "r = NULL")
    case True
    then show ?thesis using b by auto
  next
    case False
    obtain r' k' d' where r': "AVL_DeleteNodeWithTwoChilds r rm = Some (r', k', d')" "avl r'"
      "inorder r = inorder r' @ [(k', d')]" "ht r' = ht r \<or> ht r' + 1 = ht r"
      using "2.IH" False b by auto
    have "rebal_spec (AVL_RebalanceLeft (AvlNode h k l d r')) l k d r'"
      by (intro RebalanceLeft_ok) (use r' b in auto)
    then obtain t where t: "AVL_RebalanceLeft (AvlNode h k l d r') = Some t" "avl t"
      "inorder t = inorder l @ (k, d) # inorder r'"
      and th: "ht l \<le> ht r' + 1 \<and> ht r' \<le> ht l + 1 \<longrightarrow> ht t = max (ht l) (ht r') + 1"
        "ht t = max (ht l) (ht r') \<or> ht t = max (ht l) (ht r') + 1"
      by (rule rebal_specE)
    have "ht t = unat h \<or> ht t + 1 = unat h" using th r'(4) b by (auto simp: max_def split: if_splits)
    then show ?thesis using False t r' by simp
  qed
qed simp


lemma Delete_ok:
  assumes "avl t" "sorted_keys (inorder t)" "ht t < 64"
  shows "\<exists>t'. BSL_AVL_DeleteNode t i func
      = Some (t', if func then map snd [x\<leftarrow>inorder t. fst x = i] else []) \<and> avl t'
    \<and> inorder t' = [x\<leftarrow>inorder t. fst x \<noteq> i] \<and> (ht t' = ht t \<or> ht t' + 1 = ht t)"
  using assms
proof (induction t)
  case (AvlNode h k l d r)
  have s: "sorted_keys (inorder l)" "sorted_keys (inorder r)" "\<forall>x\<in>set (inorder l). fst x < k"
    "\<forall>x\<in>set (inorder r). k < fst x"
    using sorted_keys_node [OF AvlNode.prems(2)] by simp_all
  have b: "avl l" "avl r" "unat h < 64" "ht l < 63" "ht r < 63" "ht l \<le> ht r + 1" "ht r \<le> ht l + 1"
    "unat h = max (ht l) (ht r) + 1"
    using AvlNode.prems by simp_all
  have fl: "[x\<leftarrow>inorder l. fst x \<noteq> i] = inorder l" "[x\<leftarrow>inorder l. fst x = i] = []" if "k \<le> i"
    using s that by (intro filter_keys_empty; force)+
  have fr: "[x\<leftarrow>inorder r. fst x \<noteq> i] = inorder r" "[x\<leftarrow>inorder r. fst x = i] = []" if "i \<le> k"
    using s that by (intro filter_keys_empty; force)+
  consider "k = i" "l = NULL \<or> r = NULL" | "k = i" "l \<noteq> NULL" "r \<noteq> NULL" | "i < k" | "k < i" by force
  then show ?case
  proof cases
    case 1
    then show ?thesis using b fl fr by (auto simp: AVL_FreeData_def)
  next
    case 2
    obtain l' k' d' where l': "AVL_DeleteNodeWithTwoChilds l (k, d) = Some (l', k', d')" "avl l'"
      "inorder l = inorder l' @ [(k', d')]" "ht l' = ht l \<or> ht l' + 1 = ht l"
      using DeleteTwo_ok [of l "(k, d)"] 2 b by auto
    have "rebal_spec (AVL_RebalanceRight (AvlNode h k' l' d' r)) l' k' d' r"
      by (intro RebalanceRight_ok) (use l' b in auto)
    then obtain t where t: "AVL_RebalanceRight (AvlNode h k' l' d' r) = Some t" "avl t"
      "inorder t = inorder l' @ (k', d') # inorder r"
      and th: "ht l' \<le> ht r + 1 \<and> ht r \<le> ht l' + 1 \<longrightarrow> ht t = max (ht l') (ht r) + 1"
        "ht t = max (ht l') (ht r) \<or> ht t = max (ht l') (ht r) + 1"
      by (rule rebal_specE)
    have "ht t = unat h \<or> ht t + 1 = unat h" using th l'(4) b by (auto simp: max_def split: if_splits)
    then show ?thesis using 2 t l' fl fr by (auto simp: AVL_FreeData_def)
  next
    case 3
    obtain l' where l': "BSL_AVL_DeleteNode l i func
        = Some (l', if func then map snd [x\<leftarrow>inorder l. fst x = i] else [])" "avl l'"
      "inorder l' = [x\<leftarrow>inorder l. fst x \<noteq> i]" "ht l' = ht l \<or> ht l' + 1 = ht l"
      using AvlNode.IH(1) b s by auto
    have "rebal_spec (AVL_RebalanceRight (AvlNode h k l' d r)) l' k d r"
      by (intro RebalanceRight_ok) (use l' b in auto)
    then obtain t where t: "AVL_RebalanceRight (AvlNode h k l' d r) = Some t" "avl t"
      "inorder t = inorder l' @ (k, d) # inorder r"
      and th: "ht l' \<le> ht r + 1 \<and> ht r \<le> ht l' + 1 \<longrightarrow> ht t = max (ht l') (ht r) + 1"
        "ht t = max (ht l') (ht r) \<or> ht t = max (ht l') (ht r) + 1"
      by (rule rebal_specE)
    have "ht t = unat h \<or> ht t + 1 = unat h" using th l'(4) b by (auto simp: max_def split: if_splits)
    then show ?thesis using 3 t l' fr by auto
  next
    case 4
    obtain r' where r': "BSL_AVL_DeleteNode r i func
        = Some (r', if func then map snd [x\<leftarrow>inorder r. fst x = i] else [])" "avl r'"
      "inorder r' = [x\<leftarrow>inorder r. fst x \<noteq> i]" "ht r' = ht r \<or> ht r' + 1 = ht r"
      using AvlNode.IH(2) b s by auto
    have "rebal_spec (AVL_RebalanceLeft (AvlNode h k l d r')) l k d r'"
      by (intro RebalanceLeft_ok) (use r' b in auto)
    then obtain t where t: "AVL_RebalanceLeft (AvlNode h k l d r') = Some t" "avl t"
      "inorder t = inorder l @ (k, d) # inorder r'"
      and th: "ht l \<le> ht r' + 1 \<and> ht r' \<le> ht l + 1 \<longrightarrow> ht t = max (ht l) (ht r') + 1"
        "ht t = max (ht l) (ht r') \<or> ht t = max (ht l) (ht r') + 1"
      by (rule rebal_specE)
    have "ht t = unat h \<or> ht t + 1 = unat h" using th r'(4) b by (auto simp: max_def split: if_splits)
    then show ?thesis using 4 t r' fl by auto
  qed
qed simp

lemma StoreData_inorder:
  "sorted_keys (inorder t) \<Longrightarrow>
   inorder (AVL_StoreData t i v) = map (\<lambda>(k, d). (k, if k = i then v else d)) (inorder t)"
proof (induction t)
  case (AvlNode h k l d r)
  let ?f = "\<lambda>(k, d). (k, if k = i then v else d)"
  have s: "sorted_keys (inorder l)" "sorted_keys (inorder r)" "\<forall>x\<in>set (inorder l). fst x < k"
    "\<forall>x\<in>set (inorder r). k < fst x"
    using sorted_keys_node [OF AvlNode.prems] by simp_all
  have id: "map ?f xs = xs" if "\<forall>x\<in>set xs. fst x \<noteq> i" for xs
    using that by (intro map_idI) auto
  have "map ?f (inorder l) = inorder l" if "k \<le> i" using s that by (intro id) force
  moreover have "map ?f (inorder r) = inorder r" if "i \<le> k" using s that by (intro id) force
  ultimately show ?case using AvlNode.IH s by auto
qed simp

lemma StoreData_height [simp]: "GetAvlTreeHeight (AVL_StoreData t i v) = GetAvlTreeHeight t"
  by (cases t) auto

lemma StoreData_avl: "avl t \<Longrightarrow> avl (AVL_StoreData t i v)"
  by (induction t) auto

section \<open>The height bound\<close>

lemma avl_size_exp: "avl t \<Longrightarrow> 2 ^ (ht t div 2) \<le> avl_size t + 1"
proof (induction t)
  case (AvlNode h k l d r)
  let ?n = "unat h"
  have IH: "2 ^ (ht l div 2) \<le> avl_size l + 1" "2 ^ (ht r div 2) \<le> avl_size r + 1"
    using AvlNode by simp_all
  have sz: "avl_size (AvlNode h k l d r) = avl_size l + avl_size r + 1" by (simp add: avl_size_def)
  show ?case
  proof (cases "?n \<le> 1")
    case True
    then show ?thesis by (auto simp: sz le_Suc_eq)
  next
    case False
    have "?n - 2 \<le> ht l" "?n - 2 \<le> ht r" using AvlNode.prems by auto
    then have "(2::nat) ^ ((?n - 2) div 2) \<le> 2 ^ (ht l div 2)" "(2::nat) ^ ((?n - 2) div 2) \<le> 2 ^ (ht r div 2)"
      by (intro power_increasing div_le_mono; simp)+
    moreover have "(2::nat) ^ (?n div 2) = 2 * 2 ^ ((?n - 2) div 2)"
      using False by (simp flip: power_Suc add: div_if)
    ultimately have "2 ^ (?n div 2) \<le> avl_size l + avl_size r + 1 + 1" using IH by linarith
    then show ?thesis by (simp add: sz)
  qed
qed (simp add: avl_size_def)

lemma avl_height_less_64: "avl t \<Longrightarrow> avl_size t < 2 ^ 32 - 1 \<Longrightarrow> ht t < 64"
proof (rule ccontr)
  assume a: "avl t" "avl_size t < 2 ^ 32 - 1" "\<not> ht t < 64"
  then have "(2::nat) ^ 32 \<le> 2 ^ (ht t div 2)" by (intro power_increasing) auto
  with avl_size_exp [OF a(1)] a(2) show False by simp
qed


section \<open>Memory safety on arbitrary trees\<close>

text \<open>The guards of the rebalancing functions rule out the dereference of a null child, whatever
  the heights are; no node is lost.\<close>

lemma Update_total: "\<exists>h'. UpdateAvlTreeHeight (AvlNode h k l d r) = Some (AvlNode h' k l d r)"
  by (simp add: avl_eval)

lemma RotateLeft_total:
  "r \<noteq> NULL \<Longrightarrow> \<exists>t. AVL_RotateLeft (AvlNode h k l d r) = Some t \<and> t \<noteq> NULL
     \<and> inorder t = inorder l @ (k, d) # inorder r"
  by (cases r) (simp_all add: avl_eval)

lemma RotateRight_total:
  "l \<noteq> NULL \<Longrightarrow> \<exists>t. AVL_RotateRight (AvlNode h k l d r) = Some t \<and> t \<noteq> NULL
     \<and> inorder t = inorder l @ (k, d) # inorder r"
  by (cases l) (simp_all add: avl_eval)

lemma RebalanceRight_total:
  "\<exists>t. AVL_RebalanceRight (AvlNode h k l d r) = Some t \<and> inorder t = inorder l @ (k, d) # inorder r"
proof (cases "GetAvlTreeHeight r \<le> GetAvlTreeHeight l + 1")
  case True
  then show ?thesis using Update_total [of h k l d r] by (auto simp: AVL_RebalanceRight.simps)
next
  case False
  then obtain ch ck cl cd cr where r: "r = AvlNode ch ck cl cd cr" by (cases r) auto
  have "cl \<noteq> NULL" if "GetAvlTreeHeight cr < GetAvlTreeHeight cl" using that by auto
  then obtain r' where r': "(if GetAvlTreeHeight cr < GetAvlTreeHeight cl then AVL_RotateRight r else Some r) = Some r'"
    "r' \<noteq> NULL" "inorder r' = inorder r"
    using RotateRight_total [of cl ch ck cd cr] by (cases "GetAvlTreeHeight cr < GetAvlTreeHeight cl") (auto simp: r)
  then show ?thesis using RotateLeft_total [OF r'(2), of h k l d] False
    by (auto simp: AVL_RebalanceRight.simps r split: if_splits)
qed

lemma RebalanceLeft_total:
  "\<exists>t. AVL_RebalanceLeft (AvlNode h k l d r) = Some t \<and> inorder t = inorder l @ (k, d) # inorder r"
proof (cases "GetAvlTreeHeight l \<le> GetAvlTreeHeight r + 1")
  case True
  then show ?thesis using Update_total [of h k l d r] by (auto simp: AVL_RebalanceLeft.simps)
next
  case False
  then obtain ch ck cl cd cr where l: "l = AvlNode ch ck cl cd cr" by (cases l) auto
  have "cr \<noteq> NULL" if "GetAvlTreeHeight cl < GetAvlTreeHeight cr" using that by auto
  then obtain l' where l': "(if GetAvlTreeHeight cl < GetAvlTreeHeight cr then AVL_RotateLeft l else Some l) = Some l'"
    "l' \<noteq> NULL" "inorder l' = inorder l"
    using RotateLeft_total [of cr ch ck cl cd] by (cases "GetAvlTreeHeight cl < GetAvlTreeHeight cr") (auto simp: l)
  then show ?thesis using RotateRight_total [OF l'(2), of h k d r] False
    by (auto simp: AVL_RebalanceLeft.simps l split: if_splits)
qed

lemma Insert_duplicate:
  "sorted_keys (inorder t) \<Longrightarrow> map_of (inorder t) i \<noteq> None \<Longrightarrow>
   \<exists>t'. BSL_AVL_InsertNode t i node = Some t' \<and> subseq (inorder t') (inorder t) \<and> i \<notin> fst ` set (inorder t')"
proof (induction t)
  case (AvlNode h k l d r)
  have s: "sorted_keys (inorder l)" "sorted_keys (inorder r)" "\<forall>x\<in>set (inorder l). fst x < k"
    "\<forall>x\<in>set (inorder r). k < fst x"
    using sorted_keys_node [OF AvlNode.prems(1)] by simp_all
  have L: "map_of (inorder l) i = None" if "k \<le> i" using s that by (intro map_of_notin_keys) force
  have R: "map_of (inorder r) i = None" if "i \<le> k" using s that by (intro map_of_notin_keys) force
  have keys: "i \<notin> fst ` set xs \<longleftrightarrow> map_of xs i = None" for xs :: "(u64 \<times> 'a) list"
    by (simp add: map_of_eq_None_iff)
  consider "k = i" | "i < k" | "k < i" by force
  then show ?case
  proof cases
    case 1
    then show ?thesis by simp
  next
    case 2
    then have "map_of (inorder l) i \<noteq> None" using AvlNode.prems(2) R by (auto simp: map_add_def split: option.splits if_splits)
    then obtain l' where l': "BSL_AVL_InsertNode l i node = Some l'" "subseq (inorder l') (inorder l)"
      "i \<notin> fst ` set (inorder l')" using AvlNode.IH(1) s by blast
    obtain t where "AVL_RebalanceLeft (AvlNode h k l' d r) = Some t" "inorder t = inorder l' @ (k, d) # inorder r"
      using RebalanceLeft_total [of h k l' d r] by blast
    then show ?thesis using 2 l' R by (auto simp: keys intro!: list_emb_append_mono)
  next
    case 3
    then have "map_of (inorder r) i \<noteq> None" using AvlNode.prems(2) L by (auto simp: map_add_def split: option.splits if_splits)
    then obtain r' where r': "BSL_AVL_InsertNode r i node = Some r'" "subseq (inorder r') (inorder r)"
      "i \<notin> fst ` set (inorder r')" using AvlNode.IH(2) s by blast
    obtain t where "AVL_RebalanceRight (AvlNode h k l d r') = Some t" "inorder t = inorder l @ (k, d) # inorder r'"
      using RebalanceRight_total [of h k l d r'] by blast
    then show ?thesis using 3 r' L by (auto simp: keys intro!: list_emb_append_mono)
  qed
qed simp


section \<open>The interface the error module relies on\<close>

text \<open>A store of data under 64-bit identifiers that can hold fewer than \<open>limit\<close> entries when it
  is changed: \<open>create\<close> for an absent identifier, \<open>assign\<close> and \<open>remove\<close> for a present one.\<close>

locale keyed_store =
  fixes inv :: "'t \<Rightarrow> bool"
    and lookup :: "'t \<Rightarrow> u64 \<Rightarrow> 'd option"
    and entries :: "'t \<Rightarrow> nat"
    and create :: "'t \<Rightarrow> u64 \<Rightarrow> 'd \<Rightarrow> 't option"
    and assign :: "'t \<Rightarrow> u64 \<Rightarrow> 'd \<Rightarrow> 't"
    and remove :: "'t \<Rightarrow> u64 \<Rightarrow> 't option"
    and limit :: nat
  assumes create_law: "inv t \<Longrightarrow> lookup t i = None \<Longrightarrow> entries t < limit \<Longrightarrow>
      \<exists>t'. create t i v = Some t' \<and> inv t' \<and> lookup t' = (lookup t)(i \<mapsto> v) \<and> entries t' = entries t + 1"
    and assign_law: "inv t \<Longrightarrow> lookup t i \<noteq> None \<Longrightarrow>
      inv (assign t i v) \<and> lookup (assign t i v) = (lookup t)(i \<mapsto> v) \<and> entries (assign t i v) = entries t"
    and remove_law: "inv t \<Longrightarrow> lookup t i \<noteq> None \<Longrightarrow> entries t < limit \<Longrightarrow>
      \<exists>t'. remove t i = Some t' \<and> inv t' \<and> lookup t' = (lookup t)(i := None) \<and> entries t' + 1 = entries t"
begin

lemma assign_or_create:
  assumes "inv t" "entries t < limit"
  shows "\<exists>t'. (if lookup t i \<noteq> None then Some (assign t i v) else create t i v) = Some t' \<and> inv t'
    \<and> lookup t' = (lookup t)(i \<mapsto> v) \<and> entries t' = (if lookup t i = None then entries t + 1 else entries t)"
  using assms create_law [of t i v] assign_law [of t i v] by auto

text \<open>A batch of registrations under keys from a set small enough for the store updates the map by
  the whole list, a later entry winning over an earlier one.\<close>

lemma batch:
  assumes "inv t" "\<forall>i. lookup t i \<noteq> None \<longrightarrow> K i" "\<forall>x\<in>set xs. K (key x)"
    and small: "\<And>t. inv t \<Longrightarrow> \<forall>i. lookup t i \<noteq> None \<longrightarrow> K i \<Longrightarrow> entries t < limit"
    and step: "\<And>t x. inv t \<Longrightarrow> x \<in> set xs \<Longrightarrow>
      step t x = (if lookup t (key x) \<noteq> None then Some (assign t (key x) (val x)) else create t (key x) (val x))"
  shows "\<exists>t'. fold (\<lambda>x t. Option.bind t (\<lambda>t. step t x)) xs (Some t) = Some t' \<and> inv t'
    \<and> lookup t' = lookup t ++ map_of (map (\<lambda>x. (key x, val x)) (rev xs)) \<and> (\<forall>i. lookup t' i \<noteq> None \<longrightarrow> K i)"
  using assms(1-3) step
proof (induction xs arbitrary: t)
  case (Cons x xs)
  have "entries t < limit" using small Cons.prems by blast
  then obtain t1 where t1: "step t x = Some t1" "inv t1" "lookup t1 = (lookup t)(key x \<mapsto> val x)"
    using assign_or_create [of t "key x" "val x"] Cons.prems by (auto split: if_splits)
  have "\<exists>t'. fold (\<lambda>x t. Option.bind t (\<lambda>t. step t x)) xs (Some t1) = Some t' \<and> inv t'
    \<and> lookup t' = lookup t1 ++ map_of (map (\<lambda>x. (key x, val x)) (rev xs)) \<and> (\<forall>i. lookup t' i \<noteq> None \<longrightarrow> K i)"
    by (rule Cons.IH) (use t1 Cons.prems in auto)
  then show ?case using t1 by (auto simp: map_add_assoc [symmetric])
qed simp

end

text \<open>The operations as the error module composes them: a leaf is made and inserted, and the
  release function is passed to the deletion.\<close>

definition avl_create :: "'d BSL_AvlTree \<Rightarrow> u64 \<Rightarrow> 'd \<Rightarrow> 'd BSL_AvlTree option" where
  "avl_create t i v = BSL_AVL_InsertNode t i (BSL_AVL_MakeLeafNode True v)"

definition avl_remove :: "'d BSL_AvlTree \<Rightarrow> u64 \<Rightarrow> 'd BSL_AvlTree option" where
  "avl_remove t i = map_option fst (BSL_AVL_DeleteNode t i True)"

lemma map_of_filter_fst: "map_of [x\<leftarrow>xs. P (fst x)] k = (if P k then map_of xs k else None)"
  by (induction xs) auto

lemma map_of_filter_split:
  fixes xs :: "(u64 \<times> 'd) list"
  shows "map_of ([x\<leftarrow>xs. fst x < i] @ (i, v) # [x\<leftarrow>xs. fst x > i]) = (map_of xs)(i \<mapsto> v)"
  by (rule ext) (auto simp: map_add_def map_of_filter_fst [where P = "\<lambda>k. k < i"]
    map_of_filter_fst [where P = "\<lambda>k. i < k"] split: option.split)

lemma length_filter_split:
  fixes xs :: "(u64 \<times> 'd) list"
  shows "map_of xs i = None \<Longrightarrow> length [x\<leftarrow>xs. fst x < i] + length [x\<leftarrow>xs. fst x > i] = length xs"
  by (induction xs) (auto split: if_splits)

lemma sorted_keys_filter: "sorted_keys xs \<Longrightarrow> sorted_keys [x\<leftarrow>xs. P x]"
  by (simp add: sorted_wrt_map sorted_wrt_filter)

lemma sorted_filter_split:
  fixes xs :: "(u64 \<times> 'd) list"
  shows "sorted_keys xs \<Longrightarrow> sorted_keys ([x\<leftarrow>xs. fst x < i] @ (i, v) # [x\<leftarrow>xs. fst x > i])"
  using sorted_keys_filter [of xs "\<lambda>x. fst x < i"] sorted_keys_filter [of xs "\<lambda>x. i < fst x"]
  by (auto simp: sorted_wrt_append)

lemma avl_create_law:
  assumes "avl_inv t" "avl_lookup t i = None" "avl_size t < 2 ^ 32 - 1"
  shows "\<exists>t'. avl_create t i v = Some t' \<and> avl_inv t' \<and> avl_lookup t' = (avl_lookup t)(i \<mapsto> v)
    \<and> avl_size t' = avl_size t + 1"
proof -
  have a: "avl t" "sorted_keys (inorder t)" and none: "map_of (inorder t) i = None"
    using assms avl_lookup_map_of [of t i] by (auto simp: avl_inv_def)
  then have "\<forall>x\<in>set (inorder t). fst x \<noteq> i" by (auto simp: map_of_eq_None_iff)
  from Insert_ok [OF a this avl_height_less_64 [OF a(1) assms(3)]]
  obtain t' where t': "avl_create t i v = Some t'" "avl t'"
    "inorder t' = [x\<leftarrow>inorder t. fst x < i] @ (i, v) # [x\<leftarrow>inorder t. fst x > i]"
    by (auto simp: avl_create_def BSL_AVL_MakeLeafNode_def)
  have st: "sorted_keys (inorder t')" unfolding t'(3) by (rule sorted_filter_split [OF a(2)])
  have "avl_lookup t' = (avl_lookup t)(i \<mapsto> v)"
    using map_of_filter_split [of i "inorder t" v]
    by (rule_tac ext) (simp add: avl_lookup_map_of [OF st] avl_lookup_map_of [OF a(2)] t'(3) fun_eq_iff del: map_of_append)
  then show ?thesis using t' st length_filter_split [OF none] by (auto simp: avl_inv_def avl_size_def)
qed

lemma avl_assign_law:
  assumes "avl_inv t" "avl_lookup t i \<noteq> None"
  shows "avl_inv (AVL_StoreData t i v) \<and> avl_lookup (AVL_StoreData t i v) = (avl_lookup t)(i \<mapsto> v)
    \<and> avl_size (AVL_StoreData t i v) = avl_size t"
proof -
  let ?f = "\<lambda>(k, d). (k, if k = i then v else d)"
  have a: "avl t" "sorted_keys (inorder t)" and io: "inorder (AVL_StoreData t i v) = map ?f (inorder t)"
    using assms StoreData_inorder by (auto simp: avl_inv_def)
  have f: "fst \<circ> ?f = fst" by auto
  have st: "sorted_keys (inorder (AVL_StoreData t i v))" using a by (simp add: io f)
  have m: "map_of (map ?f xs) j = (if j = i then map_option (\<lambda>_. v) (map_of xs i) else map_of xs j)" for xs j
    by (induction xs) auto
  have "avl_lookup (AVL_StoreData t i v) = (avl_lookup t)(i \<mapsto> v)"
    using assms(2) by (rule_tac ext) (auto simp: avl_lookup_map_of [OF st] avl_lookup_map_of [OF a(2)] io m)
  then show ?thesis using st a by (simp add: avl_inv_def avl_size_def io StoreData_avl)
qed

lemma avl_remove_law:
  assumes "avl_inv t" "avl_lookup t i \<noteq> None" "avl_size t < 2 ^ 32 - 1"
  shows "\<exists>t'. avl_remove t i = Some t' \<and> avl_inv t' \<and> avl_lookup t' = (avl_lookup t)(i := None)
    \<and> avl_size t' + 1 = avl_size t"
proof -
  have a: "avl t" "sorted_keys (inorder t)" and ex: "i \<in> fst ` set (inorder t)"
    using assms avl_lookup_map_of [of t i] by (auto simp: avl_inv_def map_of_eq_None_iff)
  from Delete_ok [OF a avl_height_less_64 [OF a(1) assms(3)], of i True]
  obtain t' where t': "avl_remove t i = Some t'" "avl t'" "inorder t' = [x\<leftarrow>inorder t. fst x \<noteq> i]"
    by (auto simp: avl_remove_def)
  have st: "sorted_keys (inorder t')" unfolding t'(3) by (rule sorted_keys_filter [OF a(2)])
  have lk: "avl_lookup t' = (avl_lookup t)(i := None)"
    by (rule ext) (simp add: avl_lookup_map_of [OF st] avl_lookup_map_of [OF a(2)] t'(3) map_of_filter_fst [where P = "\<lambda>k. k \<noteq> i"])
  have d: "distinct (map fst (inorder t))" using a(2) by (auto simp: strict_sorted_iff)
  have "length [x\<leftarrow>xs. fst x \<noteq> i] + 1 = length xs" if "distinct (map fst xs)" "i \<in> fst ` set xs" for xs :: "(u64 \<times> 'a) list"
    using that by (induction xs) (auto simp: image_iff intro!: arg_cong [of _ _ length] filter_True)
  from this [OF d ex] show ?thesis using t' st lk by (simp add: avl_inv_def avl_size_def)
qed

interpretation avlmap: keyed_store avl_inv avl_lookup avl_size avl_create AVL_StoreData avl_remove "2 ^ 32 - 1"
  proof unfold_locales
qed (rule avl_create_law avl_assign_law avl_remove_law; assumption)+


section \<open>Properties\<close>

lemma subseq_sorted_wrt: "subseq xs ys \<Longrightarrow> sorted_wrt P ys \<Longrightarrow> sorted_wrt P xs"
  by (induction rule: list_emb.induct) (auto dest: list_emb_set)

lemma DeleteTree_frees_all: "mset (BSL_AVL_DeleteTree t True) = mset (map snd (inorder t))"
  by (induction t) (auto simp: AVL_FreeData_def)

lemma Delete_frees:
  assumes "sorted_keys (inorder t)"
  shows "map snd [x\<leftarrow>inorder t. fst x = i] = (case avl_lookup t i of None \<Rightarrow> [] | Some d \<Rightarrow> [d])"
proof -
  have "map snd [x\<leftarrow>xs. fst x = i] = (case map_of xs i of None \<Rightarrow> [] | Some d \<Rightarrow> [d])"
    if "sorted_keys xs" for xs :: "(u64 \<times> 'a) list"
    using that by (induction xs) (auto simp: filter_empty_conv split: option.splits)
  then show ?thesis using assms by (simp add: avl_lookup_map_of)
qed

text \<open>C9. Inserting a new key into a well-formed tree of fewer than 2^32 - 1 nodes never dereferences
  a null pointer and returns a well-formed tree (ordered, balanced, with every stored height equal to
  the true one, so the height cap of 64 is never reached) that maps the new key to the new datum and
  every other key to what it had before.\<close>

theorem avl_insert_correct:
  assumes "avl_inv t" and "avl_lookup t i = None" and "avl_size t < 2 ^ 32 - 1"
  shows "\<exists>t'. BSL_AVL_InsertNode t i (BSL_AVL_MakeLeafNode True v) = Some t' \<and> avl_inv t'
    \<and> avl_lookup t' = (avl_lookup t)(i \<mapsto> v) \<and> avl_size t' = avl_size t + 1"
  using avlmap.create_law [OF assms] by (simp add: avl_create_def)

theorem avl_insert_correct_witness:
  "\<exists>t'. BSL_AVL_InsertNode (AvlNode 2 1 NULL ''a'' (AvlNode 1 2 NULL ''b'' NULL)) 3 (BSL_AVL_MakeLeafNode True ''c'') = Some t'
     \<and> avl_inv t' \<and> avl_lookup t' 3 = Some ''c'' \<and> avl_lookup t' 1 = Some ''a'' \<and> avl_size t' = 3"
  using avl_insert_correct [of "AvlNode 2 1 NULL ''a'' (AvlNode 1 2 NULL ''b'' NULL)" 3 "''c''"]
  by (auto simp: avl_inv_def avl_size_def)

text \<open>C10. Deleting a key from a well-formed tree of fewer than 2^32 - 1 nodes succeeds without a null
  dereference, calls the release function exactly on the datum of that key (and on nothing when the key
  is absent), and returns a well-formed tree without the key in which every other key is unchanged.\<close>

theorem avl_delete_correct:
  assumes "avl_inv t" and "avl_size t < 2 ^ 32 - 1"
  shows "\<exists>t'. BSL_AVL_DeleteNode t i True
      = Some (t', case avl_lookup t i of None \<Rightarrow> [] | Some d \<Rightarrow> [d])
    \<and> avl_inv t' \<and> avl_lookup t' = (avl_lookup t)(i := None)"
proof -
  have a: "avl t" "sorted_keys (inorder t)" using assms by (auto simp: avl_inv_def)
  from Delete_ok [OF a avl_height_less_64 [OF a(1) assms(2)], of i True]
  obtain t' where t': "BSL_AVL_DeleteNode t i True = Some (t', map snd [x\<leftarrow>inorder t. fst x = i])"
    "avl t'" "inorder t' = [x\<leftarrow>inorder t. fst x \<noteq> i]" by auto
  have st: "sorted_keys (inorder t')" unfolding t'(3) by (rule sorted_keys_filter [OF a(2)])
  have "avl_lookup t' = (avl_lookup t)(i := None)"
    by (rule ext) (simp add: avl_lookup_map_of [OF st] avl_lookup_map_of [OF a(2)] t'(3)
        map_of_filter_fst [where P = "\<lambda>k. k \<noteq> i"])
  then show ?thesis using t' st Delete_frees [OF a(2), of i] by (simp add: avl_inv_def)
qed

theorem avl_delete_correct_witness:
  "\<exists>t'. BSL_AVL_DeleteNode (AvlNode 2 2 (AvlNode 1 1 NULL ''a'' NULL) ''b'' (AvlNode 1 3 NULL ''c'' NULL)) 2 True
      = Some (t', [''b'']) \<and> avl_inv t' \<and> avl_lookup t' 2 = None \<and> avl_lookup t' 3 = Some ''c''"
  using avl_delete_correct [of "AvlNode 2 2 (AvlNode 1 1 NULL ''a'' NULL) ''b'' (AvlNode 1 3 NULL ''c'' NULL)" 2]
  by (auto simp: avl_inv_def avl_size_def)

text \<open>Inserting a key that is already present does not leave the tree as it was: the null pointer
  that signals the failure is stored into the parent's link, so the existing node and its subtree are
  dropped and the key can no longer be found.\<close>

lemma avl_insert_duplicate_loses_entry:
  assumes "avl_inv t" and "avl_lookup t i \<noteq> None"
  shows "\<exists>t'. BSL_AVL_InsertNode t i node = Some t' \<and> avl_lookup t' i = None \<and> avl_size t' < avl_size t"
proof -
  have st: "sorted_keys (inorder t)" using assms by (simp add: avl_inv_def)
  have ex: "map_of (inorder t) i \<noteq> None" using assms avl_lookup_map_of [OF st] by simp
  obtain t' where t': "BSL_AVL_InsertNode t i node = Some t'" "subseq (inorder t') (inorder t)"
    "i \<notin> fst ` set (inorder t')" using Insert_duplicate [OF st ex] by blast
  have st': "sorted_keys (inorder t')" by (rule subseq_sorted_wrt [OF subseq_map [OF t'(2)] st])
  have "avl_lookup t' i = None" using t'(3) by (simp add: avl_lookup_map_of [OF st'] map_of_eq_None_iff)
  moreover have "length (inorder t') \<noteq> length (inorder t)"
    using subseq_same_length [OF t'(2)] t'(3) ex by (auto simp: map_of_eq_None_iff)
  ultimately show ?thesis using t'(1) list_emb_length [OF t'(2)] by (auto simp: avl_size_def)
qed

end
