(* ===== verification/Err_Stack.thy ===== *)
theory Err_Stack
  imports Avl
begin

text \<open>
  The per-thread error stacks of \<^verbatim>\<open>bsl/err/src/err.c\<close>: a ring of twenty entries in four parallel
  arrays, one ring per thread in a balanced tree, and a second tree with the error descriptions.
  Every operation runs under the module's lock, so an execution of several threads is a sequence
  of operations, each with the identifier of its thread. What the operation gets from the system
  (the thread identifier, whether the lock and the allocations succeed) is the record
  \<open>err_env\<close>. \<open>None\<close> is undefined behaviour, as in the theory of the tree.
\<close>

section \<open>State\<close>

abbreviation (input) SAL_MAX_ERROR_STACK :: nat where
  "SAL_MAX_ERROR_STACK \<equiv> 20"

abbreviation (input) ERR_FLAG_POP_MARK :: u32 where
  "ERR_FLAG_POP_MARK \<equiv> 1"

record ErrorCodeStack =
  bottom :: nat
  top :: nat
  flag :: nat
  errorStack :: "int list"
  errorFlags :: "u32 list"
  filename :: "string option list"
  line :: "nat list"

text \<open>The result of \<^verbatim>\<open>calloc\<close> or of the \<^verbatim>\<open>memset\<close> to zero.\<close>

definition zero_stack :: ErrorCodeStack where
  "zero_stack = \<lparr>bottom = 0, top = 0, flag = 0, errorStack = replicate SAL_MAX_ERROR_STACK 0,
     errorFlags = replicate SAL_MAX_ERROR_STACK 0, filename = replicate SAL_MAX_ERROR_STACK None,
     line = replicate SAL_MAX_ERROR_STACK 0\<rparr>"

record err_state =
  g_avlRoot :: "ErrorCodeStack BSL_AvlTree"
  g_descRoot :: "string option BSL_AvlTree"
  g_avlNodeCount :: nat
  g_outputFunc :: bool

abbreviation (input) g_maxAvlNodes :: nat where
  "g_maxAvlNodes \<equiv> 65535"

record err_env =
  ThreadGetId :: u64
  lockRet :: bsl_ret
  callocOk :: bool
  mallocOk :: bool

section \<open>Pushing, clearing and removing\<close>

definition StackResetIndex :: "ErrorCodeStack \<Rightarrow> nat \<Rightarrow> ErrorCodeStack" where
  "StackResetIndex st i =
     (if i < SAL_MAX_ERROR_STACK
      then st\<lparr>errorStack := (errorStack st)[i := 0], line := (line st)[i := 0],
              filename := (filename st)[i := None], errorFlags := (errorFlags st)[i := 0]\<rparr>
      else st)"

definition GetStack :: "err_env \<Rightarrow> err_state \<Rightarrow> (err_state \<times> ErrorCodeStack option) option" where
  "GetStack e s =
     (case BSL_AVL_SearchNode (g_avlRoot s) (ThreadGetId e) of
        AvlNode h k l stack r \<Rightarrow> Some (s, Some stack)
      | NULL \<Rightarrow>
          if g_avlNodeCount s \<ge> g_maxAvlNodes then Some (s, None)
          else if \<not> callocOk e then Some (s, None)
          else let node = BSL_AVL_MakeLeafNode (mallocOk e) zero_stack in
            if node = NULL then Some (s, None)
            else do { root \<leftarrow> BSL_AVL_InsertNode (g_avlRoot s) (ThreadGetId e) node;
                      Some (s\<lparr>g_avlNodeCount := (g_avlNodeCount s + 1) mod 2 ^ 32, g_avlRoot := root\<rparr>,
                            Some zero_stack) })"

text \<open>The stack is reached through the pointer in its node; the new contents go back there.\<close>

definition PutStack :: "err_env \<Rightarrow> err_state \<Rightarrow> ErrorCodeStack \<Rightarrow> err_state" where
  "PutStack e s st = s\<lparr>g_avlRoot := AVL_StoreData (g_avlRoot s) (ThreadGetId e) st\<rparr>"

definition push_entry :: "int \<Rightarrow> string option \<Rightarrow> nat \<Rightarrow> ErrorCodeStack \<Rightarrow> ErrorCodeStack" where
  "push_entry err file lineNo st0 =
     (let st = (if top st0 = bottom st0 \<and> errorStack st0 ! top st0 \<noteq> 0
                then st0\<lparr>bottom := (bottom st0 + 1) mod SAL_MAX_ERROR_STACK\<rparr> else st0)
      in st\<lparr>errorFlags := (errorFlags st)[top st := 0], errorStack := (errorStack st)[top st := err],
            filename := (filename st)[top st := file], line := (line st)[top st := lineNo],
            top := (top st + 1) mod SAL_MAX_ERROR_STACK\<rparr>)"

definition BSL_ERR_PushError :: "err_env \<Rightarrow> int \<Rightarrow> string option \<Rightarrow> nat \<Rightarrow> err_state \<Rightarrow> err_state option" where
  "BSL_ERR_PushError e err file lineNo s =
     (if err = 0 then Some s
      else if lockRet e \<noteq> BSL_SUCCESS then Some s
      else do { (s1, stack) \<leftarrow> GetStack e s;
                Some (case stack of None \<Rightarrow> s1 | Some st \<Rightarrow> PutStack e s1 (push_entry err file lineNo st)) })"

definition BSL_ERR_ClearError :: "err_env \<Rightarrow> err_state \<Rightarrow> err_state" where
  "BSL_ERR_ClearError e s =
     (if lockRet e \<noteq> BSL_SUCCESS then s
      else case BSL_AVL_SearchNode (g_avlRoot s) (ThreadGetId e) of
        NULL \<Rightarrow> s
      | AvlNode h k l st r \<Rightarrow> if flag st = 0 then PutStack e s zero_stack else s)"

text \<open>The second component of the result lists the stacks that were released.\<close>

definition BSL_ERR_RemoveErrorStack :: "err_env \<Rightarrow> bool \<Rightarrow> err_state \<Rightarrow> (err_state \<times> ErrorCodeStack list) option" where
  "BSL_ERR_RemoveErrorStack e isRemoveAll s =
     (if lockRet e \<noteq> BSL_SUCCESS then Some (s, [])
      else if g_avlRoot s \<noteq> NULL then
        if isRemoveAll then
          Some (s\<lparr>g_avlNodeCount := 0, g_avlRoot := NULL\<rparr>, BSL_AVL_DeleteTree (g_avlRoot s) True)
        else if BSL_AVL_SearchNode (g_avlRoot s) (ThreadGetId e) \<noteq> NULL then
          do { (root, freed) \<leftarrow> BSL_AVL_DeleteNode (g_avlRoot s) (ThreadGetId e) True;
               Some (s\<lparr>g_avlNodeCount := u32_sub (g_avlNodeCount s) 1, g_avlRoot := root\<rparr>, freed) }
        else Some (s, [])
      else Some (s, []))"

section \<open>Reading errors\<close>

definition GetIndex :: "ErrorCodeStack \<Rightarrow> bool \<Rightarrow> nat" where
  "GetIndex st lst =
     (if lst then
        let idx = (top st + (2 ^ 16 - 1)) mod 2 ^ 16
        in if idx \<ge> SAL_MAX_ERROR_STACK then SAL_MAX_ERROR_STACK - 1 else idx
      else bottom st)"

text \<open>The value returned is a status of the module (\<open>Inl\<close>) or the stored error code (\<open>Inr\<close>).
  The outputs are written only when the caller passes both pointers (\<open>want\<close>).\<close>

definition GetErrorInfo :: "err_env \<Rightarrow> bool \<Rightarrow> bool \<Rightarrow> bool \<Rightarrow> err_state
    \<Rightarrow> err_state \<times> (bsl_ret + int) \<times> (string \<times> nat) option" where
  "GetErrorInfo e want clr lst s =
     (if lockRet e \<noteq> BSL_SUCCESS then (s, Inl BSL_ERR_ERR_ACQUIRE_READ_LOCK_FAIL, None)
      else if g_avlRoot s = NULL then (s, Inl BSL_SUCCESS, None)
      else case BSL_AVL_SearchNode (g_avlRoot s) (ThreadGetId e) of
        NULL \<Rightarrow> (s, Inl BSL_SUCCESS, None)
      | AvlNode h k l st r \<Rightarrow>
          let idx = GetIndex st lst in
          if errorStack st ! idx = 0 then (s, Inl BSL_SUCCESS, None)
          else
            let errorCode = errorStack st ! idx; fileLine = line st ! idx; f = filename st ! idx;
                st1 = (if clr then
                         let st' = StackResetIndex st idx in
                         if lst then st'\<lparr>top := idx\<rparr>
                         else st'\<lparr>bottom := (idx + 1) mod SAL_MAX_ERROR_STACK\<rparr>
                       else st)
            in (PutStack e s st1, Inr errorCode,
                if want then Some (case f of None \<Rightarrow> (''NA'', 0) | Some f' \<Rightarrow> (f', fileLine)) else None))"

definition GetLastErrorInfo where "GetLastErrorInfo e want clr s = GetErrorInfo e want clr True s"
definition GetFirstErrorInfo where "GetFirstErrorInfo e want clr s = GetErrorInfo e want clr False s"
definition BSL_ERR_GetLastErrorFileLine where "BSL_ERR_GetLastErrorFileLine e s = GetLastErrorInfo e True True s"
definition BSL_ERR_PeekLastErrorFileLine where "BSL_ERR_PeekLastErrorFileLine e s = GetLastErrorInfo e True False s"
definition BSL_ERR_GetLastError where "BSL_ERR_GetLastError e s = GetLastErrorInfo e False True s"
definition BSL_ERR_PeekLastError where "BSL_ERR_PeekLastError e s = GetLastErrorInfo e False False s"
definition BSL_ERR_GetErrorFileLine where "BSL_ERR_GetErrorFileLine e s = GetFirstErrorInfo e True True s"
definition BSL_ERR_PeekErrorFileLine where "BSL_ERR_PeekErrorFileLine e s = GetFirstErrorInfo e True False s"
definition BSL_ERR_GetError where "BSL_ERR_GetError e s = GetFirstErrorInfo e False True s"
definition BSL_ERR_PeekError where "BSL_ERR_PeekError e s = GetFirstErrorInfo e False False s"

section \<open>Descriptions\<close>

text \<open>A registration is an error code with its string; the flag is the result of the allocation.
  The conversion to \<^verbatim>\<open>uint64_t\<close> is \<open>of_int\<close>.\<close>

definition AddErrDesc :: "bool \<Rightarrow> int \<times> string option \<Rightarrow> string option BSL_AvlTree
    \<Rightarrow> (bsl_ret \<times> string option BSL_AvlTree) option" where
  "AddErrDesc ok desc root =
     (if fst desc < 0 then Some (BSL_INTERNAL_EXCEPTION, root)
      else if BSL_AVL_SearchNode root (of_int (fst desc)) \<noteq> NULL then
        Some (BSL_SUCCESS, AVL_StoreData root (of_int (fst desc)) (snd desc))
      else let node = BSL_AVL_MakeLeafNode ok (snd desc) in
        if node = NULL then Some (BSL_INTERNAL_EXCEPTION, root)
        else do { root' \<leftarrow> BSL_AVL_InsertNode root (of_int (fst desc)) node; Some (BSL_SUCCESS, root') })"

fun AddErrStringBatch_loop :: "bool \<Rightarrow> (int \<times> string option) list \<Rightarrow> string option BSL_AvlTree
    \<Rightarrow> (bsl_ret \<times> string option BSL_AvlTree) option" where
  "AddErrStringBatch_loop ok [] root = Some (BSL_SUCCESS, root)"
| "AddErrStringBatch_loop ok (d # ds) root =
     do { (ret, root') \<leftarrow> AddErrDesc ok d root;
          if ret \<noteq> BSL_SUCCESS then Some (ret, root') else AddErrStringBatch_loop ok ds root' }"

definition BSL_ERR_AddErrStringBatch :: "err_env \<Rightarrow> (int \<times> string option) list option \<Rightarrow> nat \<Rightarrow> err_state
    \<Rightarrow> (bsl_ret \<times> err_state) option" where
  "BSL_ERR_AddErrStringBatch e descList num s =
     (case descList of
        None \<Rightarrow> Some (BSL_NULL_INPUT, s)
      | Some ds \<Rightarrow>
          if num = 0 then Some (BSL_NULL_INPUT, s)
          else if lockRet e \<noteq> BSL_SUCCESS then Some (lockRet e, s)
          else do { (ret, root) \<leftarrow> AddErrStringBatch_loop (mallocOk e) (take num ds) (g_descRoot s);
                    Some (ret, s\<lparr>g_descRoot := root\<rparr>) })"

definition BSL_ERR_RemoveErrStringBatch :: "err_env \<Rightarrow> err_state \<Rightarrow> err_state" where
  "BSL_ERR_RemoveErrStringBatch e s =
     (if lockRet e \<noteq> BSL_SUCCESS then s
      else if g_descRoot s \<noteq> NULL then s\<lparr>g_descRoot := NULL\<rparr> else s)"

definition BSL_ERR_GetString :: "err_env \<Rightarrow> int \<Rightarrow> err_state \<Rightarrow> string option" where
  "BSL_ERR_GetString e error s =
     (if error < 0 then None
      else if lockRet e \<noteq> BSL_SUCCESS then None
      else if g_descRoot s = NULL then None
      else case BSL_AVL_SearchNode (g_descRoot s) (of_int error) of
        NULL \<Rightarrow> None
      | AvlNode h k l str r \<Rightarrow> str)"

definition BSL_ERR_GetErrAll :: "err_env \<Rightarrow> bool \<Rightarrow> bool \<Rightarrow> err_state
    \<Rightarrow> err_state \<times> (bsl_ret + int) \<times> (string \<times> nat) option \<times> string option option" where
  "BSL_ERR_GetErrAll e want wantDesc s =
     (case GetFirstErrorInfo e want True s of
        (s1, Inr err, out) \<Rightarrow> (s1, Inr err, out, if wantDesc then Some (BSL_ERR_GetString e err s1) else None)
      | (s1, Inl ret, out) \<Rightarrow> (s1, Inl ret, out, None))"

section \<open>Marks\<close>

text \<open>On success the lock is held and the stack and the index of its last entry are returned.\<close>

definition BSL_LIST_WriteLockCreate :: "err_env \<Rightarrow> err_state \<Rightarrow> bsl_ret + ErrorCodeStack \<times> nat" where
  "BSL_LIST_WriteLockCreate e s =
     (if lockRet e \<noteq> BSL_SUCCESS then Inl BSL_ERR_ERR_ACQUIRE_WRITE_LOCK_FAIL
      else if g_avlRoot s = NULL then Inl BSL_ERR_ERR_NO_STACK
      else case BSL_AVL_SearchNode (g_avlRoot s) (ThreadGetId e) of
        NULL \<Rightarrow> Inl BSL_ERR_ERR_NO_STACK
      | AvlNode h k l st r \<Rightarrow>
          let t = (top st + (2 ^ 32 - 1)) mod 2 ^ 32
          in Inr (st, if t \<ge> SAL_MAX_ERROR_STACK then SAL_MAX_ERROR_STACK - 1 else t))"

definition BSL_ERR_SetMark :: "err_env \<Rightarrow> err_state \<Rightarrow> bsl_ret \<times> err_state" where
  "BSL_ERR_SetMark e s =
     (case BSL_LIST_WriteLockCreate e s of
        Inl ret \<Rightarrow> (ret, s)
      | Inr (st, t) \<Rightarrow>
          if errorStack st ! t = 0 then (BSL_ERR_ERR_NO_ERROR, s)
          else (BSL_SUCCESS, PutStack e s (st\<lparr>errorFlags := (errorFlags st)[t := errorFlags st ! t OR ERR_FLAG_POP_MARK]\<rparr>)))"

text \<open>The index before \<open>top\<close> in the ring, with the wrap-around of the unsigned decrement.\<close>

definition prev_index :: "nat \<Rightarrow> nat" where
  "prev_index t = (let t' = u32_sub t 1 in if t' \<ge> SAL_MAX_ERROR_STACK then SAL_MAX_ERROR_STACK - 1 else t')"

definition unmarked :: "ErrorCodeStack \<Rightarrow> nat \<Rightarrow> bool" where
  "unmarked st t = (errorStack st ! t \<noteq> 0 \<and> errorFlags st ! t AND ERR_FLAG_POP_MARK = 0)"

partial_function (option) PopToMark_loop :: "ErrorCodeStack \<Rightarrow> nat \<Rightarrow> (ErrorCodeStack \<times> nat) option" where
  "PopToMark_loop st t =
     (if unmarked st t then PopToMark_loop (StackResetIndex st t) (prev_index t) else Some (st, t))"

definition BSL_ERR_PopToMark :: "err_env \<Rightarrow> err_state \<Rightarrow> (bsl_ret \<times> err_state) option" where
  "BSL_ERR_PopToMark e s =
     (case BSL_LIST_WriteLockCreate e s of
        Inl ret \<Rightarrow> Some (ret, s)
      | Inr (st0, t0) \<Rightarrow>
          do { (st1, t) \<leftarrow> PopToMark_loop st0 t0;
               let st = st1\<lparr>top := (t + 1) mod SAL_MAX_ERROR_STACK\<rparr> in
               if errorStack st ! t = 0 then Some (BSL_ERR_ERR_NO_MARK, PutStack e s st)
               else Some (BSL_SUCCESS, PutStack e s
                 (st\<lparr>errorFlags := (errorFlags st)[t := errorFlags st ! t AND NOT ERR_FLAG_POP_MARK]\<rparr>)) })"

partial_function (option) ClearLastMark_loop :: "ErrorCodeStack \<Rightarrow> nat \<Rightarrow> nat option" where
  "ClearLastMark_loop st t =
     (if unmarked st t then ClearLastMark_loop st (prev_index t) else Some t)"

definition BSL_ERR_ClearLastMark :: "err_env \<Rightarrow> err_state \<Rightarrow> (bsl_ret \<times> err_state) option" where
  "BSL_ERR_ClearLastMark e s =
     (case BSL_LIST_WriteLockCreate e s of
        Inl ret \<Rightarrow> Some (ret, s)
      | Inr (st, t0) \<Rightarrow>
          do { t \<leftarrow> ClearLastMark_loop st t0;
               Some (BSL_SUCCESS, PutStack e s
                 (st\<lparr>errorFlags := (errorFlags st)[t := errorFlags st ! t AND NOT ERR_FLAG_POP_MARK]\<rparr>)) })"

section \<open>Output\<close>

record ErrorOutputItem =
  item_threadId :: u64
  item_file :: string
  item_lineNo :: nat
  item_errCode :: int
  item_mark :: bool

definition output_item :: "u64 \<Rightarrow> ErrorCodeStack \<Rightarrow> nat \<Rightarrow> ErrorOutputItem" where
  "output_item tid st idx = \<lparr>item_threadId = tid,
     item_file = (case filename st ! idx of None \<Rightarrow> ''NA'' | Some f \<Rightarrow> f),
     item_lineNo = (case filename st ! idx of None \<Rightarrow> 0 | Some f \<Rightarrow> line st ! idx),
     item_errCode = errorStack st ! idx,
     item_mark = (errorFlags st ! idx AND ERR_FLAG_POP_MARK \<noteq> 0)\<rparr>"

function OutputErrorStack_loop :: "u64 \<Rightarrow> ErrorCodeStack \<Rightarrow> nat \<Rightarrow> nat \<Rightarrow> ErrorOutputItem list" where
  "OutputErrorStack_loop tid st idx cnt =
     (if errorStack st ! idx \<noteq> 0 \<and> cnt < SAL_MAX_ERROR_STACK
      then output_item tid st idx # OutputErrorStack_loop tid st ((idx + 1) mod SAL_MAX_ERROR_STACK) (cnt + 1)
      else [])"
  by pat_completeness auto
termination by (relation "measure (\<lambda>(tid, st, idx, cnt). SAL_MAX_ERROR_STACK - cnt)") auto

declare OutputErrorStack_loop.simps [simp del]

text \<open>The calls of the registered output function, in order.\<close>

definition BSL_ERR_OutputErrorStack :: "err_env \<Rightarrow> err_state \<Rightarrow> ErrorOutputItem list" where
  "BSL_ERR_OutputErrorStack e s =
     (if lockRet e \<noteq> BSL_SUCCESS then []
      else if \<not> g_outputFunc s \<or> g_avlRoot s = NULL then []
      else case BSL_AVL_SearchNode (g_avlRoot s) (ThreadGetId e) of
        NULL \<Rightarrow> []
      | AvlNode h k l st r \<Rightarrow> OutputErrorStack_loop (ThreadGetId e) st (bottom st) 0)"

definition BSL_ERR_RegErrStackLog :: "err_env \<Rightarrow> bool \<Rightarrow> err_state \<Rightarrow> err_state" where
  "BSL_ERR_RegErrStackLog e func s = (if lockRet e \<noteq> BSL_SUCCESS then s else s\<lparr>g_outputFunc := func\<rparr>)"


section \<open>The ring as a bounded list\<close>

text \<open>An entry is an error code with its flags, file and line; the abstract stack is the list of
  the entries from the oldest to the newest.\<close>

type_synonym entry = "int \<times> u32 \<times> string option \<times> nat"

definition slot :: "ErrorCodeStack \<Rightarrow> nat \<Rightarrow> entry" where
  "slot st i = (errorStack st ! i, errorFlags st ! i, filename st ! i, line st ! i)"

definition err_list :: "ErrorCodeStack \<Rightarrow> entry list" where
  "err_list st = takeWhile (\<lambda>x. fst x \<noteq> 0) (map (\<lambda>j. slot st ((bottom st + j) mod 20)) [0..<20])"

definition arrays_ok :: "ErrorCodeStack \<Rightarrow> bool" where
  "arrays_ok st = (length (errorStack st) = 20 \<and> length (errorFlags st) = 20
     \<and> length (filename st) = 20 \<and> length (line st) = 20 \<and> bottom st < 20)"

definition ring_rel :: "ErrorCodeStack \<Rightarrow> entry list \<Rightarrow> bool" where
  "ring_rel st xs = (arrays_ok st \<and> length xs \<le> 20 \<and> top st = (bottom st + length xs) mod 20
     \<and> (\<forall>j<length xs. slot st ((bottom st + j) mod 20) = xs ! j \<and> fst (xs ! j) \<noteq> 0)
     \<and> (\<forall>j<20. length xs \<le> j \<longrightarrow> errorStack st ! ((bottom st + j) mod 20) = 0))"

definition ring_inv :: "ErrorCodeStack \<Rightarrow> bool" where
  "ring_inv st = ring_rel st (err_list st)"

lemma fst_slot [simp]: "fst (slot st i) = errorStack st ! i"
  by (simp add: slot_def)

lemma ring_rel_err_list: "ring_rel st xs \<Longrightarrow> err_list st = xs"
proof -
  assume r: "ring_rel st xs"
  let ?ys = "map (\<lambda>j. slot st ((bottom st + j) mod 20)) [0..<20]"
  have "xs = take (length xs) ?ys"
    using r by (intro nth_equalityI) (auto simp: ring_rel_def)
  moreover have "takeWhile (\<lambda>x. fst x \<noteq> 0) ?ys = take (length xs) ?ys"
    by (rule takeWhile_eq_take_P_nth) (use r in \<open>auto simp: ring_rel_def\<close>)
  ultimately show ?thesis by (simp add: err_list_def)
qed

lemma ring_inv_iff: "ring_inv st \<longleftrightarrow> (\<exists>xs. ring_rel st xs)"
  using ring_rel_err_list by (auto simp: ring_inv_def)

lemma ring_index_cancel: "((b + j) mod 20 + (20 - b mod 20)) mod 20 = j mod 20" for b j :: nat
proof -
  obtain q r where b: "b = r + 20 * q" and r: "r < 20"
    using that [of "b mod 20" "b div 20"] by simp
  have "b + j + (20 - r) = j + 20 * (q + 1)" using r by (simp add: b)
  then have "(b + j + (20 - r)) mod 20 = j mod 20" by (metis mod_mult_self2)
  moreover have "b mod 20 = r" using r by (simp add: b)
  ultimately show ?thesis by (simp only: mod_add_left_eq)
qed

lemma ring_index_inj:
  fixes b j n :: nat
  assumes "j < 20" "n < 20"
  shows "(b + j) mod 20 = (b + n) mod 20 \<longleftrightarrow> j = n"
  using ring_index_cancel [of b j] ring_index_cancel [of b n] assms by (metis mod_less)

lemma ring_index_Suc: "((b + 1) mod 20 + j) mod 20 = (b + (j + 1)) mod 20" for b j :: nat
  by presburger

lemma prev_index_Suc: "prev_index (Suc m mod 20) = m mod 20"
proof -
  have p: "prev_index t = (if t = 0 then 19 else t - 1)" if "t < 20" for t
    using that u32_sub_le [of 1 t] by (auto simp: prev_index_def Let_def u32_sub_def)
  show ?thesis by (subst p) (auto simp: mod_Suc)
qed

lemma zero_stack_rel: "ring_rel zero_stack []"
  by (simp add: ring_rel_def arrays_ok_def zero_stack_def)


lemma ring_relD:
  assumes "ring_rel st xs"
  shows "arrays_ok st" "length xs \<le> 20" "top st = (bottom st + length xs) mod 20"
    "j < length xs \<Longrightarrow> slot st ((bottom st + j) mod 20) = xs ! j"
    "j < length xs \<Longrightarrow> errorStack st ! ((bottom st + j) mod 20) \<noteq> 0"
    "j < 20 \<Longrightarrow> length xs \<le> j \<Longrightarrow> errorStack st ! ((bottom st + j) mod 20) = 0"
    "j < length xs \<Longrightarrow> fst (xs ! j) \<noteq> 0"
  using assms by (auto simp: ring_rel_def) (metis fst_slot)

lemma ring_relI:
  assumes "arrays_ok st" "length xs \<le> 20" "top st = (bottom st + length xs) mod 20"
    and "\<And>j. j < length xs \<Longrightarrow> slot st ((bottom st + j) mod 20) = xs ! j"
    and "\<And>j. j < length xs \<Longrightarrow> fst (xs ! j) \<noteq> 0"
    and "\<And>j. j < 20 \<Longrightarrow> length xs \<le> j \<Longrightarrow> errorStack st ! ((bottom st + j) mod 20) = 0"
  shows "ring_rel st xs"
  using assms by (auto simp: ring_rel_def)

lemma ring_full_iff:
  assumes "ring_rel st xs"
  shows "top st = bottom st \<and> errorStack st ! top st \<noteq> 0 \<longleftrightarrow> length xs = 20"
proof (cases "length xs = 20")
  case True
  then have "top st = bottom st" using ring_relD(1,3) [OF assms] by (simp add: arrays_ok_def)
  moreover have "errorStack st ! bottom st \<noteq> 0"
    using ring_relD(5) [OF assms, of 0] True ring_relD(1) [OF assms] by (simp add: arrays_ok_def)
  ultimately show ?thesis using True by simp
next
  case False
  then show ?thesis using ring_relD(2,3) [OF assms] ring_relD(6) [OF assms, of "length xs"] by simp
qed

definition spec_push :: "entry \<Rightarrow> entry list \<Rightarrow> entry list" where
  "spec_push x xs = (if length xs = 20 then tl xs else xs) @ [x]"

lemma push_entry_fields:
  assumes "arrays_ok st" "top st < 20"
  shows "slot (push_entry err fl ln st) i = (if i = top st then (err, 0, fl, ln) else slot st i)"
    and "bottom (push_entry err fl ln st) =
      (if top st = bottom st \<and> errorStack st ! top st \<noteq> 0 then (bottom st + 1) mod 20 else bottom st)"
    and "top (push_entry err fl ln st) = (top st + 1) mod 20"
    and "arrays_ok (push_entry err fl ln st)"
    and "flag (push_entry err fl ln st) = flag st"
  using assms by (auto simp: push_entry_def slot_def arrays_ok_def Let_def)

lemma push_entry_rel:
  assumes r: "ring_rel st xs" and err: "err \<noteq> 0"
  shows "ring_rel (push_entry err fl ln st) (spec_push (err, 0, fl, ln) xs)"
proof -
  let ?st = "push_entry err fl ln st"
  note a = ring_relD(1) [OF r] and t = ring_relD(3) [OF r]
  have t20: "top st < 20" using t by simp
  note f = push_entry_fields [OF a t20, where err = err and fl = fl and ln = ln]
  note full = ring_full_iff [OF r]
  have e: "errorStack ?st ! i = (if i = top st then err else errorStack st ! i)" for i
    using f(1) [of i] by (auto simp: slot_def)
  show ?thesis
  proof (cases "length xs = 20")
    case True
    have b: "bottom ?st = (bottom st + 1) mod 20" using f(2) full True by simp
    have idx: "(bottom ?st + j) mod 20 = (bottom st + (j + 1)) mod 20" for j
      unfolding b by (rule ring_index_Suc)
    have ne: "(bottom st + (j + 1)) mod 20 \<noteq> top st" if "j < 19" for j
      using ring_index_inj [of "j + 1" 0 "bottom st"] that t True a by (auto simp: arrays_ok_def)
    show ?thesis
    proof (rule ring_relI)
      show "top ?st = (bottom ?st + length (spec_push (err, 0, fl, ln) xs)) mod 20"
        using f(3) full True b by (simp add: spec_push_def)
      fix j assume j: "j < length (spec_push (err, 0, fl, ln) xs)"
      show "slot ?st ((bottom ?st + j) mod 20) = spec_push (err, 0, fl, ln) xs ! j"
      proof (cases "j < 19")
        case j19: True
        then show ?thesis using True ne [OF j19] ring_relD(4) [OF r, of "j + 1"]
          by (simp add: idx f(1) spec_push_def nth_append nth_tl)
      next
        case False
        then have "j = 19" using j True by (simp add: spec_push_def)
        then show ?thesis using True t a by (simp add: idx f(1) spec_push_def nth_append)
      qed
      show "fst (spec_push (err, 0, fl, ln) xs ! j) \<noteq> 0"
        using j True err ring_relD(7) [OF r, of "j + 1"] by (auto simp: spec_push_def nth_append nth_tl)
    qed (use f True in \<open>auto simp: spec_push_def\<close>)
  next
    case False
    then have n: "length xs < 20" using ring_relD(2) [OF r] by simp
    have b: "bottom ?st = bottom st" using f(2) full False by simp
    have eq: "(bottom st + j) mod 20 = top st \<longleftrightarrow> j = length xs" if "j < 20" for j
      unfolding t by (rule ring_index_inj [OF that n])
    show ?thesis
    proof (rule ring_relI)
      show "top ?st = (bottom ?st + length (spec_push (err, 0, fl, ln) xs)) mod 20"
        using f(3) t n b by (simp add: spec_push_def mod_Suc_eq)
      fix j
      show "slot ?st ((bottom ?st + j) mod 20) = spec_push (err, 0, fl, ln) xs ! j"
        if "j < length (spec_push (err, 0, fl, ln) xs)"
        using that n eq [of j] ring_relD(4) [OF r, of j] by (auto simp: b f(1) spec_push_def nth_append)
      show "errorStack ?st ! ((bottom ?st + j) mod 20) = 0"
        if "j < 20" "length (spec_push (err, 0, fl, ln) xs) \<le> j"
        using that eq [of j] ring_relD(6) [OF r, of j] n by (auto simp: b e spec_push_def)
      show "fst (spec_push (err, 0, fl, ln) xs ! j) \<noteq> 0" if "j < length (spec_push (err, 0, fl, ln) xs)"
        using that n err ring_relD(7) [OF r, of j] by (auto simp: spec_push_def nth_append)
    qed (use f n in \<open>auto simp: spec_push_def\<close>)
  qed
qed

lemma StackReset_fields:
  assumes "arrays_ok st" "i < 20"
  shows "slot (StackResetIndex st i) j = (if j = i then (0, 0, None, 0) else slot st j)"
    and "bottom (StackResetIndex st i) = bottom st" and "top (StackResetIndex st i) = top st"
    and "arrays_ok (StackResetIndex st i)" and "flag (StackResetIndex st i) = flag st"
    and "errorStack (StackResetIndex st i) ! j = (if j = i then 0 else errorStack st ! j)"
  using assms by (simp_all add: StackResetIndex_def slot_def arrays_ok_def)

lemma pop_last_rel:
  assumes r: "ring_rel st xs" and ne: "xs \<noteq> []"
    and p: "p = (bottom st + (length xs - 1)) mod 20"
  shows "ring_rel ((StackResetIndex st p)\<lparr>top := p\<rparr>) (butlast xs)"
proof -
  note a = ring_relD(1) [OF r] and n = ring_relD(2) [OF r]
  have p20: "p < 20" by (simp add: p)
  note f = StackReset_fields [OF a p20]
  have eq: "(bottom st + j) mod 20 = p \<longleftrightarrow> j = length xs - 1" if "j < 20" for j
    unfolding p using ne n that by (intro ring_index_inj) (auto simp flip: length_greater_0_conv)
  show ?thesis
  proof (rule ring_relI)
    fix j
    show "slot ((StackResetIndex st p)\<lparr>top := p\<rparr>) ((bottom ((StackResetIndex st p)\<lparr>top := p\<rparr>) + j) mod 20) = butlast xs ! j"
      if "j < length (butlast xs)"
      using that n eq [of j] f(1) ring_relD(4) [OF r, of j] by (auto simp: f(2) slot_def nth_butlast)
    show "errorStack ((StackResetIndex st p)\<lparr>top := p\<rparr>) ! ((bottom ((StackResetIndex st p)\<lparr>top := p\<rparr>) + j) mod 20) = 0"
      if "j < 20" "length (butlast xs) \<le> j"
      using that eq [of j] ring_relD(6) [OF r, of j] by (auto simp: f)
    show "fst (butlast xs ! j) \<noteq> 0" if "j < length (butlast xs)"
      using that ring_relD(7) [OF r, of j] by (simp add: nth_butlast)
  qed (use f n p in \<open>auto simp: arrays_ok_def\<close>)
qed


lemma pop_first_rel:
  assumes r: "ring_rel st xs" and ne: "xs \<noteq> []"
  shows "ring_rel ((StackResetIndex st (bottom st))\<lparr>bottom := (bottom st + 1) mod 20\<rparr>) (tl xs)"
proof -
  let ?p = "bottom st" and ?st = "(StackResetIndex st (bottom st))\<lparr>bottom := (bottom st + 1) mod 20\<rparr>"
  note a = ring_relD(1) [OF r] and n = ring_relD(2) [OF r]
  have p20: "?p < 20" using a by (simp add: arrays_ok_def)
  note f = StackReset_fields [OF a p20]
  have n0: "0 < length xs" using ne by simp
  have idx: "(bottom ?st + j) mod 20 = (bottom st + (j + 1)) mod 20" for j
    using ring_index_Suc [of "bottom st" j] by simp
  have eq: "(bottom st + (j + 1)) mod 20 = bottom st \<longleftrightarrow> j = 19" if "j < 20" for j
  proof (cases "j = 19")
    case True
    then show ?thesis using p20 by simp
  next
    case False
    then show ?thesis using ring_index_inj [of "j + 1" 0 "bottom st"] p20 that by simp
  qed
  have eS: "errorStack ?st = errorStack (StackResetIndex st ?p)" by simp
  show ?thesis
  proof (rule ring_relI)
    show "top ?st = (bottom ?st + length (tl xs)) mod 20"
      using idx [of "length (tl xs)"] n0 ring_relD(3) [OF r] by (cases xs) (simp_all add: f(3))
    fix j
    have sl: "slot ?st i = slot (StackResetIndex st ?p) i" for i by (simp add: slot_def)
    show "slot ?st ((bottom ?st + j) mod 20) = tl xs ! j" if "j < length (tl xs)"
      unfolding idx sl f(1) using that n eq [of j] ring_relD(4) [OF r, of "j + 1"] by (auto simp: nth_tl)
    show "errorStack ?st ! ((bottom ?st + j) mod 20) = 0" if "j < 20" "length (tl xs) \<le> j"
      unfolding idx eS using that n eq [of j] ring_relD(6) [OF r, of "j + 1"] by (auto simp: f(6))
    show "fst (tl xs ! j) \<noteq> 0" if "j < length (tl xs)"
      using that ring_relD(7) [OF r, of "j + 1"] by (simp add: nth_tl)
  qed (use f n in \<open>auto simp: arrays_ok_def\<close>)
qed

lemma prev_top: "t < 20 \<Longrightarrow> (if t = 0 then 19 else t - 1) = (t + 19) mod 20" for t :: nat
  by (cases t) auto

lemma GetIndex_eq:
  assumes "ring_rel st xs"
  shows "GetIndex st True = (bottom st + (length xs + 19)) mod 20" "GetIndex st False = bottom st"
proof -
  have t: "top st < 20" "top st = (bottom st + length xs) mod 20" using ring_relD(3) [OF assms] by simp_all
  have "GetIndex st True = (if top st = 0 then 19 else top st - 1)"
    using t(1) by (cases "top st") (auto simp: GetIndex_def Let_def)
  then show "GetIndex st True = (bottom st + (length xs + 19)) mod 20"
    using prev_top [OF t(1)] t(2) by (simp add: mod_add_left_eq add.assoc)
qed (simp add: GetIndex_def)

lemma top_entry:
  assumes r: "ring_rel st xs"
  shows "xs = [] \<Longrightarrow> errorStack st ! ((bottom st + (length xs + 19)) mod 20) = 0"
    and "xs \<noteq> [] \<Longrightarrow> (bottom st + (length xs + 19)) mod 20 = (bottom st + (length xs - 1)) mod 20"
proof -
  show "xs = [] \<Longrightarrow> errorStack st ! ((bottom st + (length xs + 19)) mod 20) = 0"
    using ring_relD(6) [OF r, of 19] by simp
  assume "xs \<noteq> []"
  then have "bottom st + (length xs + 19) = bottom st + (length xs - 1) + 20"
    by (cases xs) auto
  then show "(bottom st + (length xs + 19)) mod 20 = (bottom st + (length xs - 1)) mod 20"
    by (metis mod_add_self2)
qed

lemma read_entry:
  assumes r: "ring_rel st xs" and idx: "idx = GetIndex st lst"
  shows "errorStack st ! idx = 0 \<longleftrightarrow> xs = []"
    and "xs \<noteq> [] \<Longrightarrow> slot st idx = (if lst then last xs else hd xs)"
    and "xs \<noteq> [] \<Longrightarrow> ring_rel (let st' = StackResetIndex st idx in
           if lst then st'\<lparr>top := idx\<rparr> else st'\<lparr>bottom := (idx + 1) mod 20\<rparr>) (if lst then butlast xs else tl xs)"
proof -
  have b: "bottom st < 20" using ring_relD(1) [OF r] by (simp add: arrays_ok_def)
  have i: "xs \<noteq> [] \<Longrightarrow> idx = (bottom st + (if lst then length xs - 1 else 0)) mod 20"
    using idx GetIndex_eq [OF r] top_entry(2) [OF r] b by (cases lst) simp_all
  have pos: "xs \<noteq> [] \<Longrightarrow> (if lst then length xs - 1 else 0) < length xs" by (cases xs) auto
  show "errorStack st ! idx = 0 \<longleftrightarrow> xs = []"
  proof (cases "xs = []")
    case True
    then show ?thesis using idx GetIndex_eq [OF r] top_entry(1) [OF r] ring_relD(6) [OF r, of 0] b
      by (cases lst) simp_all
  next
    case False
    then show ?thesis using i ring_relD(5) [OF r pos] by simp
  qed
  show "xs \<noteq> [] \<Longrightarrow> slot st idx = (if lst then last xs else hd xs)"
    using i ring_relD(4) [OF r pos] by (simp add: last_conv_nth hd_conv_nth)
  show "xs \<noteq> [] \<Longrightarrow> ring_rel (let st' = StackResetIndex st idx in
           if lst then st'\<lparr>top := idx\<rparr> else st'\<lparr>bottom := (idx + 1) mod 20\<rparr>) (if lst then butlast xs else tl xs)"
    using pop_last_rel [OF r, of idx] pop_first_rel [OF r] i b by (cases lst) (simp_all add: Let_def)
qed


section \<open>Marks on the list\<close>

definition marked :: "entry \<Rightarrow> bool" where
  "marked x = (fst (snd x) AND ERR_FLAG_POP_MARK \<noteq> 0)"

definition set_flags :: "(u32 \<Rightarrow> u32) \<Rightarrow> entry \<Rightarrow> entry" where
  "set_flags f x = (fst x, f (fst (snd x)), snd (snd x))"

definition update_last :: "('a \<Rightarrow> 'a) \<Rightarrow> 'a list \<Rightarrow> 'a list" where
  "update_last f xs = (if xs = [] then [] else butlast xs @ [f (last xs)])"

text \<open>The entries up to and including the last marked one.\<close>

definition spec_pop :: "entry list \<Rightarrow> entry list" where
  "spec_pop xs = rev (dropWhile (\<lambda>x. \<not> marked x) (rev xs))"

lemma spec_pop_snoc: "spec_pop (xs @ [x]) = (if marked x then xs @ [x] else spec_pop xs)"
  and spec_pop_Nil: "spec_pop [] = []"
  by (simp_all add: spec_pop_def)

lemma set_flags_rel:
  assumes r: "ring_rel st xs" and j: "j < length xs"
  shows "ring_rel (st\<lparr>errorFlags := (errorFlags st)[(bottom st + j) mod 20 := f (errorFlags st ! ((bottom st + j) mod 20))]\<rparr>)
           (xs[j := set_flags f (xs ! j)])"
proof -
  let ?p = "(bottom st + j) mod 20"
  note a = ring_relD(1) [OF r] and n = ring_relD(2) [OF r]
  have eq: "(bottom st + i) mod 20 = ?p \<longleftrightarrow> i = j" if "i < 20" for i
    using j n that by (intro ring_index_inj) auto
  have sj: "xs ! j = (errorStack st ! ?p, errorFlags st ! ?p, filename st ! ?p, line st ! ?p)"
    using ring_relD(4) [OF r j] by (simp add: slot_def)
  show ?thesis
  proof (rule ring_relI)
    fix i
    let ?st = "st\<lparr>errorFlags := (errorFlags st)[?p := f (errorFlags st ! ?p)]\<rparr>"
    show "slot ?st ((bottom ?st + i) mod 20) = xs[j := set_flags f (xs ! j)] ! i"
      if "i < length (xs[j := set_flags f (xs ! j)])"
      using that n j eq [of i] a ring_relD(4) [OF r, of i] sj
      by (cases "i = j") (simp_all add: slot_def set_flags_def arrays_ok_def)
    show "fst (xs[j := set_flags f (xs ! j)] ! i) \<noteq> 0" if "i < length (xs[j := set_flags f (xs ! j)])"
      using that j ring_relD(7) [OF r, of i] by (cases "i = j") (simp_all add: set_flags_def)
  qed (use r in \<open>auto simp: ring_rel_def arrays_ok_def\<close>)
qed

lemma update_last_nth: "xs \<noteq> [] \<Longrightarrow> xs[length xs - 1 := f (xs ! (length xs - 1))] = update_last f xs"
  by (cases xs rule: rev_cases) (auto simp: update_last_def)

lemma set_last_flags_rel:
  assumes "ring_rel st xs" "xs \<noteq> []" "t = (bottom st + (length xs + 19)) mod 20"
  shows "ring_rel (st\<lparr>errorFlags := (errorFlags st)[t := f (errorFlags st ! t)]\<rparr>) (update_last (set_flags f) xs)"
  using set_flags_rel [OF assms(1), of "length xs - 1" f] top_entry(2) [OF assms(1,2)]
    update_last_nth [OF assms(2), of "set_flags f"] assms(2,3)
  by simp

lemma unmarked_top:
  assumes r: "ring_rel st xs" and t: "t = (bottom st + (length xs + 19)) mod 20"
  shows "unmarked st t \<longleftrightarrow> xs \<noteq> [] \<and> \<not> marked (last xs)"
proof (cases "xs = []")
  case True
  then show ?thesis using top_entry(1) [OF r] t by (simp add: unmarked_def)
next
  case False
  then have l: "length xs - 1 < length xs" and te: "t = (bottom st + (length xs - 1)) mod 20"
    using top_entry(2) [OF r False] t by simp_all
  have "last xs = slot st t" using ring_relD(4) [OF r l] te False by (simp add: last_conv_nth)
  then show ?thesis using ring_relD(5) [OF r l] te False by (simp add: unmarked_def marked_def slot_def)
qed

lemma prev_index_top:
  assumes "xs \<noteq> []"
  shows "prev_index ((b + (length xs + 19)) mod 20) = (b + (length (butlast xs) + 19)) mod 20"
proof -
  have "b + (length xs + 19) = Suc (b + (length xs + 18))" "length (butlast xs) + 19 = length xs + 18"
    using assms by (cases xs; simp)+
  then show ?thesis by (simp only: prev_index_Suc)
qed

text \<open>The loop keeps \<open>top\<close> as it was and sets it only at the end, so the relation is stated with
  the index the loop has reached.\<close>

lemma PopToMark_loop_ok:
  "ring_rel (st\<lparr>top := (bottom st + length xs) mod 20\<rparr>) xs \<Longrightarrow>
   \<exists>st' t. PopToMark_loop st ((bottom st + (length xs + 19)) mod 20) = Some (st', t)
     \<and> ring_rel (st'\<lparr>top := (t + 1) mod 20\<rparr>) (spec_pop xs)
     \<and> bottom st' = bottom st \<and> t = (bottom st + (length (spec_pop xs) + 19)) mod 20"
proof (induction xs arbitrary: st rule: rev_induct)
  case Nil
  let ?t = "(bottom st + 19) mod 20"
  have b: "bottom st < 20" using ring_relD(1) [OF Nil] by (simp add: arrays_ok_def)
  have "\<not> unmarked st ?t" using unmarked_top [OF Nil, of ?t] by (simp add: unmarked_def)
  moreover have "(?t + 1) mod 20 = bottom st" using b by (simp add: mod_Suc_eq)
  ultimately show ?case using Nil by (simp add: PopToMark_loop.simps [of st ?t] spec_pop_Nil)
next
  case (snoc x xs)
  let ?s = "st\<lparr>top := (bottom st + length (xs @ [x])) mod 20\<rparr>"
  let ?t = "(bottom st + (length (xs @ [x]) + 19)) mod 20"
  have um: "unmarked st ?t \<longleftrightarrow> \<not> marked x"
    using unmarked_top [OF snoc.prems, of ?t] by (simp add: unmarked_def)
  have te: "?t = (bottom st + length xs) mod 20"
    using top_entry(2) [OF snoc.prems] by simp
  show ?case
  proof (cases "marked x")
    case True
    have "(?t + 1) mod 20 = (bottom st + length (xs @ [x])) mod 20" unfolding te by (simp add: mod_Suc_eq)
    moreover have "PopToMark_loop st ?t = Some (st, ?t)"
      using True um by (subst PopToMark_loop.simps) simp
    ultimately show ?thesis using True snoc.prems by (simp add: spec_pop_snoc)
  next
    case False
    let ?st1 = "StackResetIndex st ?t"
    have "ring_rel ((StackResetIndex ?s ?t)\<lparr>top := ?t\<rparr>) (butlast (xs @ [x]))"
      by (rule pop_last_rel [OF snoc.prems]) (use te in simp_all)
    moreover have "(StackResetIndex ?s ?t)\<lparr>top := ?t\<rparr> = ?st1\<lparr>top := ?t\<rparr>" "bottom ?st1 = bottom st"
      by (simp_all add: StackResetIndex_def)
    ultimately have r1: "ring_rel (?st1\<lparr>top := (bottom ?st1 + length xs) mod 20\<rparr>) xs"
      unfolding te by simp
    have "PopToMark_loop st ?t = PopToMark_loop ?st1 ((bottom ?st1 + (length xs + 19)) mod 20)"
      using False um prev_index_top [of "xs @ [x]" "bottom st"] \<open>bottom ?st1 = bottom st\<close>
      by (subst PopToMark_loop.simps) simp
    then show ?thesis using snoc.IH [OF r1] False \<open>bottom ?st1 = bottom st\<close> by (simp add: spec_pop_snoc)
  qed
qed


lemma ClearLastMark_loop_ok:
  assumes r: "ring_rel st xs" and "ys @ zs = xs" and "\<forall>z\<in>set zs. \<not> marked z"
    and "length xs < 20 \<or> (\<exists>y\<in>set ys. marked y)"
  shows "ClearLastMark_loop st ((bottom st + (length ys + 19)) mod 20)
    = Some ((bottom st + (length (spec_pop ys) + 19)) mod 20)"
  using assms
proof (induction ys arbitrary: zs rule: rev_induct)
  case Nil
  have "\<not> unmarked st ((bottom st + 19) mod 20)"
    using ring_relD(6) [OF r, of 19] Nil by (auto simp: unmarked_def)
  then show ?case by (subst ClearLastMark_loop.simps) (simp add: spec_pop_Nil)
next
  case (snoc y ys)
  let ?t = "(bottom st + (length (ys @ [y]) + 19)) mod 20"
  have xs: "xs = ys @ y # zs" using snoc.prems by simp
  have "bottom st + (length (ys @ [y]) + 19) = bottom st + length ys + 20" by simp
  then have te: "?t = (bottom st + length ys) mod 20" by (metis mod_add_self2)
  have "slot st ?t = y" "errorStack st ! ?t \<noteq> 0"
    unfolding te using ring_relD(4,5) [OF r, of "length ys"] by (simp_all add: xs)
  then have um: "unmarked st ?t \<longleftrightarrow> \<not> marked y" by (auto simp: unmarked_def marked_def slot_def)
  show ?case
  proof (cases "marked y")
    case True
    then show ?thesis using um by (subst ClearLastMark_loop.simps) (simp add: spec_pop_snoc)
  next
    case False
    have "ClearLastMark_loop st ?t = ClearLastMark_loop st ((bottom st + (length ys + 19)) mod 20)"
      using False um prev_index_top [of "ys @ [y]" "bottom st"] by (subst ClearLastMark_loop.simps) simp
    also have "\<dots> = Some ((bottom st + (length (spec_pop ys) + 19)) mod 20)"
      by (rule snoc.IH [of "y # zs"]) (use snoc.prems False r in auto)
    finally show ?thesis using False by (simp add: spec_pop_snoc)
  qed
qed

lemma ClearLastMark_loop_diverges:
  assumes "ClearLastMark_loop st t = Some y"
  shows "t < 20 \<Longrightarrow> \<forall>i<20. unmarked st i \<Longrightarrow> False"
  using assms
proof (induction rule: ClearLastMark_loop.raw_induct [rotated, consumes 1])
  case (1 loop st t y)
  have "prev_index t < 20" by (simp add: prev_index_def Let_def)
  then show ?case using 1 by (auto split: if_splits)
qed

end
