(* ===== verification/Err_Correct.thy ===== *)
theory Err_Correct
  imports Err_Stack
begin

text \<open>
  Correctness of the error module. Seen from outside, the module keeps one bounded list of entries
  per thread (\<open>thread_errors\<close>) and a map from codes to descriptions (\<open>descriptions\<close>);
  every operation of the model is shown to act on these as its contract says and to keep the
  invariant of the concrete state (\<open>err_inv\<close>). The laws of the tree are used only through
  the interpretation of its interface.
\<close>

section \<open>Invariant and abstraction\<close>

definition desc_inv :: "string option BSL_AvlTree \<Rightarrow> bool" where
  "desc_inv t = (avl_inv t \<and> (\<forall>i. avl_lookup t i \<noteq> None \<longrightarrow> unat i < 2 ^ 31))"

definition err_inv :: "err_state \<Rightarrow> bool" where
  "err_inv s = (avl_inv (g_avlRoot s) \<and> (\<forall>i st. avl_lookup (g_avlRoot s) i = Some st \<longrightarrow> ring_inv st)
     \<and> g_avlNodeCount s = avl_size (g_avlRoot s) \<and> g_avlNodeCount s \<le> g_maxAvlNodes
     \<and> desc_inv (g_descRoot s))"

definition thread_errors :: "err_state \<Rightarrow> u64 \<Rightarrow> entry list" where
  "thread_errors s i = (case avl_lookup (g_avlRoot s) i of None \<Rightarrow> [] | Some st \<Rightarrow> err_list st)"

definition descriptions :: "err_state \<Rightarrow> u64 \<Rightarrow> string option option" where
  "descriptions s = avl_lookup (g_descRoot s)"

definition err_init :: err_state where
  "err_init = \<lparr>g_avlRoot = NULL, g_descRoot = NULL, g_avlNodeCount = 0, g_outputFunc = False\<rparr>"

lemma search_case:
  "(case BSL_AVL_SearchNode t i of NULL \<Rightarrow> a | AvlNode h k l d r \<Rightarrow> f d)
     = (case avl_lookup t i of None \<Rightarrow> a | Some d \<Rightarrow> f d)"
  by (simp add: avl_lookup_def split: BSL_AvlTree.split)

lemma search_NULL: "BSL_AVL_SearchNode t i = NULL \<longleftrightarrow> avl_lookup t i = None"
  by (simp add: avl_lookup_def split: BSL_AvlTree.split)

lemmas search_lookup = search_case search_NULL

lemma err_inv_init: "err_inv err_init"
  by (simp add: err_inv_def err_init_def desc_inv_def avl_inv_def avl_size_def)

lemma err_invD:
  assumes "err_inv s"
  shows "avl_inv (g_avlRoot s)" "avl_size (g_avlRoot s) \<le> 65535" "g_avlNodeCount s = avl_size (g_avlRoot s)"
    "desc_inv (g_descRoot s)" "avl_lookup (g_avlRoot s) i = Some st \<Longrightarrow> ring_rel st (thread_errors s i)"
  using assms by (auto simp: err_inv_def thread_errors_def ring_inv_def)

lemma PutStack_ok:
  assumes "err_inv s" "avl_lookup (g_avlRoot s) (ThreadGetId e) \<noteq> None" "ring_rel st xs"
  shows "err_inv (PutStack e s st)" "thread_errors (PutStack e s st) = (thread_errors s)(ThreadGetId e := xs)"
    "descriptions (PutStack e s st) = descriptions s"
proof -
  let ?t = "AVL_StoreData (g_avlRoot s) (ThreadGetId e) st"
  note L = avlmap.assign_law [OF err_invD(1) [OF assms(1)] assms(2), of st]
  then show "err_inv (PutStack e s st)"
    using assms ring_inv_iff by (auto simp: err_inv_def PutStack_def)
  show "thread_errors (PutStack e s st) = (thread_errors s)(ThreadGetId e := xs)"
    using L ring_rel_err_list [OF assms(3)] by (auto simp: thread_errors_def PutStack_def fun_eq_iff)
  show "descriptions (PutStack e s st) = descriptions s" by (simp add: descriptions_def PutStack_def)
qed

section \<open>Pushing\<close>

text \<open>Whether the call finds or creates the stack of its thread.\<close>

definition has_stack :: "err_env \<Rightarrow> err_state \<Rightarrow> bool" where
  "has_stack e s = (avl_lookup (g_avlRoot s) (ThreadGetId e) \<noteq> None
     \<or> g_avlNodeCount s < g_maxAvlNodes \<and> callocOk e \<and> mallocOk e)"

lemma GetStack_fails: "\<not> has_stack e s \<Longrightarrow> GetStack e s = Some (s, None)"
  by (auto simp: GetStack_def has_stack_def search_case BSL_AVL_MakeLeafNode_def Let_def)

lemma GetStack_ok:
  assumes inv: "err_inv s" and h: "has_stack e s"
  shows "\<exists>s1 st. GetStack e s = Some (s1, Some st) \<and> err_inv s1
     \<and> avl_lookup (g_avlRoot s1) (ThreadGetId e) = Some st \<and> ring_rel st (thread_errors s (ThreadGetId e))
     \<and> thread_errors s1 = thread_errors s \<and> descriptions s1 = descriptions s"
proof (cases "avl_lookup (g_avlRoot s) (ThreadGetId e)")
  case (Some st)
  then show ?thesis using inv err_invD(5) [OF inv Some] by (simp add: GetStack_def search_case)
next
  case None
  have n: "g_avlNodeCount s < 65535" "callocOk e" "mallocOk e" using h None by (simp_all add: has_stack_def)
  have size: "avl_size (g_avlRoot s) < 2 ^ 32 - 1" using err_invD(2) [OF inv] by simp
  obtain t where t: "avl_create (g_avlRoot s) (ThreadGetId e) zero_stack = Some t" "avl_inv t"
    "avl_lookup t = (avl_lookup (g_avlRoot s))(ThreadGetId e \<mapsto> zero_stack)" "avl_size t = avl_size (g_avlRoot s) + 1"
    using avlmap.create_law [OF err_invD(1) [OF inv] None size] by blast
  let ?s1 = "s\<lparr>g_avlNodeCount := g_avlNodeCount s + 1, g_avlRoot := t\<rparr>"
  have "BSL_AVL_MakeLeafNode True zero_stack \<noteq> NULL" by (simp add: BSL_AVL_MakeLeafNode_def)
  then have "GetStack e s = Some (?s1, Some zero_stack)"
    using n None t(1) by (simp add: GetStack_def search_case avl_create_def Let_def)
  moreover have "err_inv ?s1"
    using inv n t zero_stack_rel ring_inv_iff by (auto simp: err_inv_def)
  moreover have "thread_errors ?s1 = thread_errors s"
    using t(3) None ring_rel_err_list [OF zero_stack_rel] by (auto simp: thread_errors_def fun_eq_iff)
  ultimately show ?thesis using t(3) None zero_stack_rel by (simp add: descriptions_def thread_errors_def)
qed

lemma thread_errors_init [simp]: "thread_errors err_init i = []"
  by (simp add: thread_errors_def err_init_def)

lemma has_stack_init: "has_stack e err_init \<longleftrightarrow> callocOk e \<and> mallocOk e"
  by (simp add: has_stack_def err_init_def)

lemma push_safe:
  assumes "err_inv s"
  shows "\<exists>s'. BSL_ERR_PushError e err file lineNo s = Some s' \<and> err_inv s' \<and> descriptions s' = descriptions s
    \<and> thread_errors s' = (if err \<noteq> 0 \<and> lockRet e = BSL_SUCCESS \<and> has_stack e s
        then (thread_errors s)(ThreadGetId e := spec_push (err, 0, file, lineNo) (thread_errors s (ThreadGetId e)))
        else thread_errors s)"
proof (cases "err \<noteq> 0 \<and> lockRet e = BSL_SUCCESS \<and> has_stack e s")
  case True
  then obtain s1 st where g: "GetStack e s = Some (s1, Some st)" "err_inv s1"
    "avl_lookup (g_avlRoot s1) (ThreadGetId e) = Some st" "ring_rel st (thread_errors s (ThreadGetId e))"
    "thread_errors s1 = thread_errors s" "descriptions s1 = descriptions s"
    using GetStack_ok [OF assms] by blast
  have "ring_rel (push_entry err file lineNo st)
      (spec_push (err, 0, file, lineNo) (thread_errors s (ThreadGetId e)))"
    using push_entry_rel [OF g(4)] True by blast
  from PutStack_ok [OF g(2) _ this] show ?thesis using g True by (simp add: BSL_ERR_PushError_def)
next
  case False
  then show ?thesis using assms GetStack_fails [of e s] by (auto simp: BSL_ERR_PushError_def)
qed

text \<open>C11. Pushing an error appends it to the stack of the calling thread, dropping the oldest entry
  exactly when the stack already holds twenty; no other thread's stack changes. The call has no effect
  on the stacks when the code is zero, the lock fails or no stack can be made. In every case the call
  has defined behaviour and keeps the invariant of the module.\<close>

theorem err_push_refines:
  assumes "err_inv s"
  shows "\<exists>s'. BSL_ERR_PushError e err file lineNo s = Some s' \<and> err_inv s' \<and> descriptions s' = descriptions s
    \<and> thread_errors s' = (if err \<noteq> 0 \<and> lockRet e = BSL_SUCCESS \<and> has_stack e s
        then (thread_errors s)(ThreadGetId e := spec_push (err, 0, file, lineNo) (thread_errors s (ThreadGetId e)))
        else thread_errors s)"
  by (rule push_safe [OF assms])

theorem err_push_refines_witness:
  "\<exists>s'. BSL_ERR_PushError \<lparr>ThreadGetId = 7, lockRet = BSL_SUCCESS, callocOk = True, mallocOk = True\<rparr>
          5 (Some ''a.c'') 12 err_init = Some s' \<and> err_inv s'
     \<and> thread_errors s' 7 = [(5, 0, Some ''a.c'', 12)] \<and> thread_errors s' 8 = []"
  using err_push_refines [OF err_inv_init, of "\<lparr>ThreadGetId = 7, lockRet = BSL_SUCCESS, callocOk = True, mallocOk = True\<rparr>"
      5 "Some ''a.c''" 12]
  by (auto simp: has_stack_init spec_push_def)


section \<open>Reading\<close>

lemma thread_errors_None: "avl_lookup (g_avlRoot s) i = None \<Longrightarrow> thread_errors s i = []"
  by (simp add: thread_errors_def)

text \<open>What reading one end of a stack returns and leaves: the newest entry (\<open>lst\<close>) or the oldest.\<close>

definition read_code :: "bool \<Rightarrow> entry list \<Rightarrow> bsl_ret + int" where
  "read_code lst xs = (if xs = [] then Inl BSL_SUCCESS else Inr (fst (if lst then last xs else hd xs)))"

definition read_rest :: "bool \<Rightarrow> bool \<Rightarrow> entry list \<Rightarrow> entry list" where
  "read_rest clr lst xs = (if \<not> clr then xs else if lst then butlast xs else tl xs)"

definition read_pos :: "bool \<Rightarrow> bool \<Rightarrow> entry list \<Rightarrow> (string \<times> nat) option" where
  "read_pos want lst xs = (if xs = [] \<or> \<not> want then None
     else case snd (snd (if lst then last xs else hd xs)) of
       (None, _) \<Rightarrow> Some (''NA'', 0) | (Some f, ln) \<Rightarrow> Some (f, ln))"

lemma slot_proj:
  "slot st i = (c, fl, f, ln) \<Longrightarrow> errorStack st ! i = c \<and> filename st ! i = f \<and> line st ! i = ln"
  by (simp add: slot_def)

text \<open>A state with a single error of a single thread.\<close>

definition one_error :: "u64 \<Rightarrow> int \<Rightarrow> string option \<Rightarrow> nat \<Rightarrow> err_state" where
  "one_error i err file lineNo = \<lparr>g_avlRoot = AvlNode 1 i NULL (push_entry err file lineNo zero_stack) NULL,
     g_descRoot = NULL, g_avlNodeCount = 1, g_outputFunc = True\<rparr>"

lemma one_error_inv:
  assumes "err \<noteq> 0"
  shows "err_inv (one_error i err file lineNo)"
    and "thread_errors (one_error i err file lineNo) i = [(err, 0, file, lineNo)]"
proof -
  have r: "ring_rel (push_entry err file lineNo zero_stack) [(err, 0, file, lineNo)]"
    using push_entry_rel [OF zero_stack_rel assms] by (simp add: spec_push_def)
  then show "err_inv (one_error i err file lineNo)"
    using ring_inv_iff by (auto simp: err_inv_def one_error_def avl_inv_def avl_size_def desc_inv_def split: if_splits)
  show "thread_errors (one_error i err file lineNo) i = [(err, 0, file, lineNo)]"
    using ring_rel_err_list [OF r] by (simp add: thread_errors_def one_error_def)
qed

lemma get_ok:
  assumes "err_inv s" and "lockRet e = BSL_SUCCESS"
  shows "\<exists>s'. GetErrorInfo e want clr lst s = (s', read_code lst (thread_errors s (ThreadGetId e)),
        read_pos want lst (thread_errors s (ThreadGetId e)))
    \<and> err_inv s' \<and> descriptions s' = descriptions s
    \<and> thread_errors s' = (thread_errors s)(ThreadGetId e := read_rest clr lst (thread_errors s (ThreadGetId e)))"
proof (cases "avl_lookup (g_avlRoot s) (ThreadGetId e)")
  case None
  then show ?thesis using assms thread_errors_None [OF None]
    by (auto simp: GetErrorInfo_def search_case read_code_def read_pos_def read_rest_def fun_eq_iff)
next
  case (Some st)
  let ?xs = "thread_errors s (ThreadGetId e)" and ?i = "GetIndex st lst"
  have nn: "g_avlRoot s \<noteq> NULL" using Some by auto
  have r: "ring_rel st ?xs" by (rule err_invD(5) [OF assms(1) Some])
  note rd = read_entry [OF r refl, of lst]
  show ?thesis
  proof (cases "?xs = []")
    case True
    then show ?thesis using assms nn Some rd(1)
      by (simp add: GetErrorInfo_def search_case read_code_def read_pos_def read_rest_def Let_def)
        (auto simp: fun_eq_iff)
  next
    case False
    obtain c fl f ln where x: "(if lst then last ?xs else hd ?xs) = (c, fl, f, ln)"
      by (cases "if lst then last ?xs else hd ?xs") auto
    have sl: "slot st ?i = (c, fl, f, ln)" using rd(2) [OF False] x by simp
    define st1 where "st1 = (if clr then (let st' = StackResetIndex st ?i in
           if lst then st'\<lparr>top := ?i\<rparr> else st'\<lparr>bottom := (?i + 1) mod 20\<rparr>) else st)"
    have r1: "ring_rel st1 (read_rest clr lst ?xs)"
      using rd(3) [OF False] r by (simp add: st1_def read_rest_def)
    have "GetErrorInfo e want clr lst s = (PutStack e s st1, read_code lst ?xs, read_pos want lst ?xs)"
      using assms(2) nn Some rd(1) False slot_proj [OF sl] x
      by (simp add: GetErrorInfo_def search_case st1_def read_code_def read_pos_def Let_def split: option.split)
    then show ?thesis using PutStack_ok [OF assms(1) _ r1] Some by simp
  qed
qed

text \<open>C12. Every read of the module (get or peek, newest or oldest, with or without the position)
  returns the code at the corresponding end of the calling thread's stack, or success when it is
  empty, and the file and line stored with it (or the placeholder when no file was stored). A get
  removes exactly that entry, a peek nothing; the other threads' stacks and the descriptions are
  unchanged and the invariant is kept.\<close>

theorem err_get_refines:
  assumes "err_inv s" and "lockRet e = BSL_SUCCESS"
  shows "\<exists>s'. GetErrorInfo e want clr lst s = (s', read_code lst (thread_errors s (ThreadGetId e)),
        read_pos want lst (thread_errors s (ThreadGetId e)))
    \<and> err_inv s' \<and> descriptions s' = descriptions s
    \<and> thread_errors s' = (thread_errors s)(ThreadGetId e := read_rest clr lst (thread_errors s (ThreadGetId e)))"
  by (rule get_ok [OF assms])

theorem err_get_refines_witness:
  "\<exists>s'. GetErrorInfo \<lparr>ThreadGetId = 7, lockRet = BSL_SUCCESS, callocOk = True, mallocOk = True\<rparr> True True False
      (one_error 7 5 (Some ''a.c'') 12) = (s', Inr 5, Some (''a.c'', 12)) \<and> err_inv s' \<and> thread_errors s' 7 = []"
  using err_get_refines [of "one_error 7 5 (Some ''a.c'') 12"
      "\<lparr>ThreadGetId = 7, lockRet = BSL_SUCCESS, callocOk = True, mallocOk = True\<rparr>" True True False]
  by (auto simp: one_error_inv read_code_def read_pos_def read_rest_def)

section \<open>Marks\<close>

lemma WriteLockCreate_None:
  "lockRet e = BSL_SUCCESS \<Longrightarrow> avl_lookup (g_avlRoot s) (ThreadGetId e) = None \<Longrightarrow>
   BSL_LIST_WriteLockCreate e s = Inl BSL_ERR_ERR_NO_STACK"
  by (simp add: BSL_LIST_WriteLockCreate_def search_case)

lemma WriteLockCreate_Some:
  assumes "err_inv s" "lockRet e = BSL_SUCCESS" "avl_lookup (g_avlRoot s) (ThreadGetId e) = Some st"
  shows "BSL_LIST_WriteLockCreate e s
    = Inr (st, (bottom st + (length (thread_errors s (ThreadGetId e)) + 19)) mod 20)"
proof -
  note r = err_invD(5) [OF assms(1,3)]
  have t: "top st < 20" using ring_relD(3) [OF r] by simp
  have "BSL_LIST_WriteLockCreate e s = Inr (st, if top st = 0 then 19 else top st - 1)"
    using assms t by (cases "top st") (auto simp: BSL_LIST_WriteLockCreate_def search_case Let_def)
  also have "(if top st = 0 then 19 else top st - 1) = (bottom st + (length (thread_errors s (ThreadGetId e)) + 19)) mod 20"
    using prev_top [OF t] ring_relD(3) [OF r] by (simp add: mod_add_left_eq add.assoc)
  finally show ?thesis .
qed

definition set_mark :: "entry \<Rightarrow> entry" where
  "set_mark = set_flags (\<lambda>w. w OR ERR_FLAG_POP_MARK)"

definition clear_mark :: "entry \<Rightarrow> entry" where
  "clear_mark = set_flags (\<lambda>w. w AND NOT ERR_FLAG_POP_MARK)"

lemma SetMark_ok:
  assumes "err_inv s" "lockRet e = BSL_SUCCESS" "avl_lookup (g_avlRoot s) (ThreadGetId e) \<noteq> None"
  shows "\<exists>s'. BSL_ERR_SetMark e s
      = (if thread_errors s (ThreadGetId e) = [] then BSL_ERR_ERR_NO_ERROR else BSL_SUCCESS, s')
    \<and> err_inv s' \<and> descriptions s' = descriptions s
    \<and> thread_errors s' = (thread_errors s)(ThreadGetId e := update_last set_mark (thread_errors s (ThreadGetId e)))"
proof -
  let ?xs = "thread_errors s (ThreadGetId e)"
  obtain st where st: "avl_lookup (g_avlRoot s) (ThreadGetId e) = Some st" using assms(3) by auto
  note r = err_invD(5) [OF assms(1) st] and w = WriteLockCreate_Some [OF assms(1,2) st]
  show ?thesis
  proof (cases "?xs = []")
    case True
    have "errorStack st ! ((bottom st + 19) mod 20) = 0" using top_entry(1) [OF r True] True by simp
    with True w assms show ?thesis
      by (auto simp: BSL_ERR_SetMark_def update_last_def fun_eq_iff)
  next
    case False
    have nz: "errorStack st ! ((bottom st + (length ?xs + 19)) mod 20) \<noteq> 0"
      using ring_relD(5) [OF r, of "length ?xs - 1"] top_entry(2) [OF r False] False by simp
    show ?thesis
      using PutStack_ok [OF assms(1,3) set_last_flags_rel [OF r False refl, of "\<lambda>w. w OR ERR_FLAG_POP_MARK"]]
        nz w False by (simp add: BSL_ERR_SetMark_def set_mark_def)
  qed
qed

lemma PopToMark_ok:
  assumes "err_inv s" "lockRet e = BSL_SUCCESS" "avl_lookup (g_avlRoot s) (ThreadGetId e) \<noteq> None"
  shows "\<exists>s'. BSL_ERR_PopToMark e s
      = Some (if spec_pop (thread_errors s (ThreadGetId e)) = [] then BSL_ERR_ERR_NO_MARK else BSL_SUCCESS, s')
    \<and> err_inv s' \<and> descriptions s' = descriptions s
    \<and> thread_errors s' = (thread_errors s)(ThreadGetId e :=
          update_last clear_mark (spec_pop (thread_errors s (ThreadGetId e))))"
proof -
  let ?xs = "thread_errors s (ThreadGetId e)"
  let ?ys = "spec_pop ?xs"
  obtain st where st: "avl_lookup (g_avlRoot s) (ThreadGetId e) = Some st" using assms(3) by auto
  note r = err_invD(5) [OF assms(1) st] and w = WriteLockCreate_Some [OF assms(1,2) st]
  have "st\<lparr>top := (bottom st + length ?xs) mod 20\<rparr> = st" using ring_relD(3) [OF r] by simp
  then obtain st1 t where l: "PopToMark_loop st ((bottom st + (length ?xs + 19)) mod 20) = Some (st1, t)"
    "ring_rel (st1\<lparr>top := (t + 1) mod 20\<rparr>) ?ys" "bottom st1 = bottom st"
    "t = (bottom st + (length ?ys + 19)) mod 20"
    using PopToMark_loop_ok [of st ?xs] r by auto
  let ?st = "st1\<lparr>top := (t + 1) mod 20\<rparr>"
  show ?thesis
  proof (cases "?ys = []")
    case True
    have "errorStack ?st ! t = 0" using top_entry(1) [OF l(2) True] l(3,4) True by simp
    then show ?thesis using PutStack_ok [OF assms(1,3) l(2)] True w l(1)
      by (simp add: BSL_ERR_PopToMark_def Let_def update_last_def)
  next
    case False
    have t: "t = (bottom ?st + (length ?ys + 19)) mod 20" using l(3,4) by simp
    have nz: "errorStack ?st ! t \<noteq> 0"
      using ring_relD(5) [OF l(2), of "length ?ys - 1"] top_entry(2) [OF l(2) False] False t by simp
    show ?thesis
      using PutStack_ok [OF assms(1,3) set_last_flags_rel [OF l(2) False t, of "\<lambda>w. w AND NOT ERR_FLAG_POP_MARK"]]
        nz w False l(1) by (simp add: BSL_ERR_PopToMark_def Let_def clear_mark_def)
  qed
qed


lemma spec_pop_prefix: "\<exists>zs. xs = spec_pop xs @ zs \<and> (\<forall>z\<in>set zs. \<not> marked z)"
proof -
  have "xs = spec_pop xs @ rev (takeWhile (\<lambda>x. \<not> marked x) (rev xs))"
    unfolding spec_pop_def by (metis rev_append rev_rev_ident takeWhile_dropWhile_id)
  then show ?thesis by (metis set_rev set_takeWhileD)
qed

lemma spec_pop_Nil_iff: "spec_pop xs = [] \<longleftrightarrow> (\<forall>x\<in>set xs. \<not> marked x)"
  by (simp add: spec_pop_def)

text \<open>The list with the mark of its last marked entry cleared.\<close>

definition spec_clear :: "entry list \<Rightarrow> entry list" where
  "spec_clear xs = update_last clear_mark (spec_pop xs) @ drop (length (spec_pop xs)) xs"

lemma ClearLastMark_ok:
  assumes "err_inv s" "lockRet e = BSL_SUCCESS" "avl_lookup (g_avlRoot s) (ThreadGetId e) \<noteq> None"
    and "length (thread_errors s (ThreadGetId e)) < 20 \<or> (\<exists>x\<in>set (thread_errors s (ThreadGetId e)). marked x)"
  shows "\<exists>s'. BSL_ERR_ClearLastMark e s = Some (BSL_SUCCESS, s')
    \<and> err_inv s' \<and> descriptions s' = descriptions s
    \<and> thread_errors s' = (thread_errors s)(ThreadGetId e := spec_clear (thread_errors s (ThreadGetId e)))"
proof -
  let ?xs = "thread_errors s (ThreadGetId e)" and ?f = "\<lambda>w::u32. w AND NOT ERR_FLAG_POP_MARK"
  let ?ys = "spec_pop ?xs"
  obtain st where st: "avl_lookup (g_avlRoot s) (ThreadGetId e) = Some st" using assms(3) by auto
  note r = err_invD(5) [OF assms(1) st] and w = WriteLockCreate_Some [OF assms(1,2) st]
  let ?t = "(bottom st + (length ?ys + 19)) mod 20"
  let ?st = "st\<lparr>errorFlags := (errorFlags st)[?t := ?f (errorFlags st ! ?t)]\<rparr>"
  have l: "ClearLastMark_loop st ((bottom st + (length ?xs + 19)) mod 20) = Some ?t"
    by (rule ClearLastMark_loop_ok [OF r, of _ "[]"]) (use assms(4) in auto)
  have run: "BSL_ERR_ClearLastMark e s = Some (BSL_SUCCESS, PutStack e s ?st)"
    using w l by (simp add: BSL_ERR_ClearLastMark_def)
  have "ring_rel ?st (spec_clear ?xs)"
  proof (cases "?ys = []")
    case True
    then have "length ?xs < 20" using assms(4) by (auto simp: spec_pop_Nil_iff)
    then have z: "errorStack st ! ?t = 0" using ring_relD(6) [OF r, of 19] True by simp
    have "slot ?st i = slot st i" if "errorStack st ! i \<noteq> 0" for i
      using that z by (auto simp: slot_def nth_list_update split: if_splits) (metis nth_list_update_neq z)
    then show ?thesis using r True ring_relD(5) [OF r]
      by (simp add: ring_rel_def arrays_ok_def spec_clear_def update_last_def)
  next
    case False
    obtain zs where zs: "?xs = ?ys @ zs" using spec_pop_prefix by blast
    let ?j = "length ?ys - 1"
    have j: "?j < length ?xs" and jy: "?j < length ?ys" using False zs by (metis length_append trans_less_add1 diff_less length_greater_0_conv zero_less_one)+
    have te: "?t = (bottom st + ?j) mod 20"
    proof -
      have "bottom st + (length ?ys + 19) = bottom st + ?j + 20" using jy by simp
      then show ?thesis by (metis mod_add_self2)
    qed
    have "?xs ! ?j = ?ys ! ?j" using jy zs by (metis nth_append)
    then have "?xs[?j := set_flags ?f (?xs ! ?j)] = ?ys[?j := set_flags ?f (?ys ! ?j)] @ zs"
      using jy zs by (metis list_update_append1)
    also have "\<dots> = spec_clear ?xs"
      using update_last_nth [OF False, of "set_flags ?f"] zs
      by (simp add: spec_clear_def clear_mark_def) (metis append_eq_conv_conj)
    finally show ?thesis using set_flags_rel [OF r j, of ?f] unfolding te by simp
  qed
  from PutStack_ok [OF assms(1,3) this] run show ?thesis by simp
qed

lemma ClearLastMark_stuck:
  assumes "err_inv s" "lockRet e = BSL_SUCCESS" "length (thread_errors s (ThreadGetId e)) = 20"
    and "\<forall>x\<in>set (thread_errors s (ThreadGetId e)). \<not> marked x"
  shows "BSL_ERR_ClearLastMark e s = None"
proof -
  let ?xs = "thread_errors s (ThreadGetId e)"
  obtain st where st: "avl_lookup (g_avlRoot s) (ThreadGetId e) = Some st"
    using assms(3) thread_errors_None by fastforce
  note r = err_invD(5) [OF assms(1) st] and w = WriteLockCreate_Some [OF assms(1,2) st]
  have "unmarked st i" if i: "i < 20" for i
  proof -
    have b: "bottom st < 20" using ring_relD(1) [OF r] by (simp add: arrays_ok_def)
    define j where "j = (if bottom st \<le> i then i - bottom st else i + 20 - bottom st)"
    have j: "j < 20" and e: "(bottom st + j) mod 20 = i" using b i by (auto simp: j_def)
    have "slot st i = ?xs ! j" "errorStack st ! i \<noteq> 0" "?xs ! j \<in> set ?xs"
      using ring_relD(4,5) [OF r, of j] j e assms(3) by auto
    then show ?thesis using assms(4) by (auto simp: unmarked_def marked_def slot_def) (metis fst_conv snd_conv)
  qed
  then have "ClearLastMark_loop st ((bottom st + (length ?xs + 19)) mod 20) = None"
    using ClearLastMark_loop_diverges [of st "(bottom st + (length ?xs + 19)) mod 20"] by (metis mod_less_divisor not_Some_eq zero_less_numeral)
  then show ?thesis using w by (simp add: BSL_ERR_ClearLastMark_def)
qed


section \<open>Descriptions\<close>

lemma desc_inv_size:
  assumes "avl_inv t" "\<forall>i. avl_lookup t i \<noteq> None \<longrightarrow> unat i < 2 ^ 31"
  shows "avl_size t < 2 ^ 32 - 1"
proof -
  have so: "sorted_keys (inorder t)" using assms(1) by (simp add: avl_inv_def)
  have d: "distinct (map fst (inorder t))" using so by (auto simp: strict_sorted_iff)
  have "unat i < 2 ^ 31" if "i \<in> fst ` set (inorder t)" for i
    using that assms(2) avl_lookup_map_of [OF so] by (metis map_of_eq_None_iff)
  then have sub: "unat ` fst ` set (inorder t) \<subseteq> {..<2 ^ 31}" by auto
  have inj: "inj_on unat (fst ` set (inorder t))" by (rule inj_onI) (erule unsigned_word_eqI)
  have "avl_size t = card (set (map fst (inorder t)))" using distinct_card [OF d] by (simp add: avl_size_def)
  also have "\<dots> = card (unat ` fst ` set (inorder t))"
    using card_image [OF inj] by simp
  also have "\<dots> \<le> 2 ^ 31" using card_mono [OF _ sub] by simp
  finally show ?thesis by simp
qed

definition desc_key :: "int \<times> string option \<Rightarrow> u64" where
  "desc_key d = of_int (fst d)"

lemma desc_key_less: "0 \<le> fst d \<Longrightarrow> fst d < 2 ^ 31 \<Longrightarrow> unat (desc_key d) < 2 ^ 31"
  by (simp add: desc_key_def unat_eq_nat_uint uint_word_of_int)

lemma AddErrDesc_step:
  assumes "0 \<le> fst d"
  shows "AddErrDesc True d t = map_option (Pair BSL_SUCCESS)
    (if avl_lookup t (desc_key d) \<noteq> None then Some (AVL_StoreData t (desc_key d) (snd d))
     else avl_create t (desc_key d) (snd d))"
  using assms by (auto simp: AddErrDesc_def desc_key_def search_NULL avl_create_def BSL_AVL_MakeLeafNode_def
      Let_def map_option_case split: option.split)

lemma AddErrStringBatch_loop_fold:
  assumes "\<forall>d\<in>set ds. 0 \<le> fst d"
  shows "AddErrStringBatch_loop True ds t = map_option (Pair BSL_SUCCESS)
    (fold (\<lambda>d t. Option.bind t (\<lambda>t. map_option snd (AddErrDesc True d t))) ds (Some t))"
  using assms
proof (induction ds arbitrary: t)
  case (Cons d ds)
  have n: "fold (\<lambda>d t. Option.bind t (\<lambda>t. map_option snd (AddErrDesc True d t))) ds None = None"
    by (induction ds) auto
  have "0 \<le> fst d" using Cons.prems by simp
  then show ?case using Cons.IH Cons.prems n
    by (cases "if avl_lookup t (desc_key d) \<noteq> None then Some (AVL_StoreData t (desc_key d) (snd d))
     else avl_create t (desc_key d) (snd d)") (simp_all add: AddErrDesc_step)
qed simp

lemma AddErrStringBatch_ok:
  assumes inv: "err_inv s" and e: "lockRet e = BSL_SUCCESS" "mallocOk e"
    and ds: "\<forall>d\<in>set ds. 0 \<le> fst d \<and> fst d < 2 ^ 31" "ds \<noteq> []"
  shows "\<exists>s'. BSL_ERR_AddErrStringBatch e (Some ds) (length ds) s = Some (BSL_SUCCESS, s') \<and> err_inv s'
    \<and> thread_errors s' = thread_errors s
    \<and> descriptions s' = descriptions s ++ map_of (map (\<lambda>d. (desc_key d, snd d)) (rev ds))"
proof -
  note di = err_invD(4) [OF inv]
  have "\<exists>t'. fold (\<lambda>d t. Option.bind t (\<lambda>t. map_option snd (AddErrDesc True d t))) ds (Some (g_descRoot s)) = Some t'
    \<and> avl_inv t' \<and> avl_lookup t' = avl_lookup (g_descRoot s) ++ map_of (map (\<lambda>d. (desc_key d, snd d)) (rev ds))
    \<and> (\<forall>i. avl_lookup t' i \<noteq> None \<longrightarrow> unat i < 2 ^ 31)"
    by (rule avlmap.batch) (use di ds desc_key_less desc_inv_size in
        \<open>auto simp: desc_inv_def AddErrDesc_step option.map_comp comp_def option.map_ident\<close>)
  then obtain t' where t': "fold (\<lambda>d t. Option.bind t (\<lambda>t. map_option snd (AddErrDesc True d t))) ds (Some (g_descRoot s)) = Some t'"
    "desc_inv t'" "avl_lookup t' = avl_lookup (g_descRoot s) ++ map_of (map (\<lambda>d. (desc_key d, snd d)) (rev ds))"
    unfolding desc_inv_def by blast
  have "AddErrStringBatch_loop True ds (g_descRoot s) = Some (BSL_SUCCESS, t')"
    using AddErrStringBatch_loop_fold [of ds "g_descRoot s"] t'(1) ds by simp
  then have "BSL_ERR_AddErrStringBatch e (Some ds) (length ds) s = Some (BSL_SUCCESS, s\<lparr>g_descRoot := t'\<rparr>)"
    using e ds by (simp add: BSL_ERR_AddErrStringBatch_def)
  moreover have "err_inv (s\<lparr>g_descRoot := t'\<rparr>)" using inv t' by (auto simp: err_inv_def)
  ultimately show ?thesis using t' by (simp add: descriptions_def thread_errors_def fun_eq_iff)
qed

lemma GetString_lookup:
  assumes "lockRet e = BSL_SUCCESS" "0 \<le> c"
  shows "BSL_ERR_GetString e c s = (case descriptions s (of_int c) of None \<Rightarrow> None | Some str \<Rightarrow> str)"
  using assms by (auto simp: BSL_ERR_GetString_def descriptions_def search_case)


lemma AddErrDesc_safe:
  assumes "desc_inv t" "fst d < 2 ^ 31"
  shows "\<exists>ret t'. AddErrDesc ok d t = Some (ret, t') \<and> desc_inv t'"
proof (cases "0 \<le> fst d \<and> ok")
  case True
  have t: "avl_inv t" "avl_size t < 2 ^ 32 - 1" using assms(1) desc_inv_size by (auto simp: desc_inv_def)
  have k: "unat (desc_key d) < 2 ^ 31" using desc_key_less True assms(2) by blast
  obtain t' where "(if avl_lookup t (desc_key d) \<noteq> None then Some (AVL_StoreData t (desc_key d) (snd d))
     else avl_create t (desc_key d) (snd d)) = Some t'" "avl_inv t'" "avl_lookup t' = (avl_lookup t)(desc_key d \<mapsto> snd d)"
    using avlmap.assign_or_create [OF t, of "desc_key d" "snd d"] by metis
  then show ?thesis using True AddErrDesc_step [of d t] assms(1) k by (auto simp: desc_inv_def)
next
  case False
  have "desc_inv (AVL_StoreData t (of_int (fst d)) (snd d))" if "avl_lookup t (of_int (fst d)) \<noteq> None"
    using avlmap.assign_law [OF _ that, of "snd d"] assms(1) that by (auto simp: desc_inv_def)
  then show ?thesis using False assms(1)
    by (auto simp: AddErrDesc_def search_NULL BSL_AVL_MakeLeafNode_def Let_def)
qed

lemma AddErrStringBatch_loop_safe:
  "desc_inv t \<Longrightarrow> \<forall>d\<in>set ds. fst d < 2 ^ 31 \<Longrightarrow>
   \<exists>ret t'. AddErrStringBatch_loop ok ds t = Some (ret, t') \<and> desc_inv t'"
proof (induction ds arbitrary: t)
  case (Cons d ds)
  obtain ret t1 where "AddErrDesc ok d t = Some (ret, t1)" "desc_inv t1"
    using AddErrDesc_safe [of t d ok] Cons.prems by auto
  then show ?case using Cons.IH [of t1] Cons.prems by auto
qed simp

section \<open>Removal and reachable states\<close>

lemma ClearError_ok:
  assumes "err_inv s"
  shows "err_inv (BSL_ERR_ClearError e s)"
    and "\<exists>xs. thread_errors (BSL_ERR_ClearError e s) = (thread_errors s)(ThreadGetId e := xs)"
proof -
  have "err_inv (BSL_ERR_ClearError e s) \<and>
    (\<exists>xs. thread_errors (BSL_ERR_ClearError e s) = (thread_errors s)(ThreadGetId e := xs))"
    using assms PutStack_ok [OF assms _ zero_stack_rel, of e]
    by (auto simp: BSL_ERR_ClearError_def search_case split: option.split) (metis fun_upd_triv)+
  then show "err_inv (BSL_ERR_ClearError e s)"
    and "\<exists>xs. thread_errors (BSL_ERR_ClearError e s) = (thread_errors s)(ThreadGetId e := xs)" by auto
qed

lemma RemoveErrorStack_ok:
  assumes inv: "err_inv s"
  shows "\<exists>s' freed. BSL_ERR_RemoveErrorStack e all s = Some (s', freed) \<and> err_inv s'
    \<and> (lockRet e = BSL_SUCCESS \<longrightarrow> thread_errors s' = (if all then \<lambda>_. [] else (thread_errors s)(ThreadGetId e := [])))"
proof -
  let ?i = "ThreadGetId e" and ?t = "g_avlRoot s"
  have a: "avl_inv ?t" "avl_size ?t < 2 ^ 32 - 1" using err_invD(1,2) [OF inv] by auto
  consider "lockRet e \<noteq> BSL_SUCCESS" | "lockRet e = BSL_SUCCESS" "all" | "lockRet e = BSL_SUCCESS" "\<not> all" "avl_lookup ?t ?i = None"
    | "lockRet e = BSL_SUCCESS" "\<not> all" "avl_lookup ?t ?i \<noteq> None" by blast
  then show ?thesis
  proof cases
    case 2
    have "err_inv (s\<lparr>g_avlNodeCount := 0, g_avlRoot := NULL\<rparr>)"
      using inv by (simp add: err_inv_def avl_inv_def avl_size_def)
    moreover have "thread_errors s = (\<lambda>_. [])" if "g_avlRoot s = NULL" using that by (simp add: thread_errors_def fun_eq_iff)
    ultimately show ?thesis using 2 inv
      by (simp add: BSL_ERR_RemoveErrorStack_def) (auto simp: thread_errors_def fun_eq_iff)
  next
    case 4
    obtain root where d: "avl_remove ?t ?i = Some root" "avl_inv root" "avl_lookup root = (avl_lookup ?t)(?i := None)"
      "avl_size root + 1 = avl_size ?t"
      using avlmap.remove_law [OF a(1) 4(3) a(2)] by blast
    obtain freed where f: "BSL_AVL_DeleteNode ?t ?i True = Some (root, freed)"
      using d(1) by (auto simp: avl_remove_def)
    let ?s = "s\<lparr>g_avlNodeCount := u32_sub (g_avlNodeCount s) 1, g_avlRoot := root\<rparr>"
    have c: "g_avlNodeCount s \<le> 65535" "g_avlNodeCount s = avl_size root + 1" using err_invD(2,3) [OF inv] d(4) by auto
    then have "u32_sub (g_avlNodeCount s) 1 = avl_size root" using u32_sub_le [of 1 "g_avlNodeCount s"] by simp
    then have "err_inv ?s" using inv d c by (auto simp: err_inv_def split: if_splits)
    moreover have "BSL_ERR_RemoveErrorStack e all s = Some (?s, freed)"
      using 4 f by (auto simp: BSL_ERR_RemoveErrorStack_def search_NULL)
    moreover have "thread_errors ?s = (thread_errors s)(?i := [])" using d(3) by (auto simp: thread_errors_def fun_eq_iff)
    ultimately show ?thesis using 4 by simp
  qed (use inv thread_errors_None [of s ?i] in \<open>auto simp: BSL_ERR_RemoveErrorStack_def search_NULL fun_eq_iff\<close>)
qed

text \<open>One call of the module by some thread. A batch of descriptions holds 32-bit codes.\<close>

inductive err_step :: "err_state \<Rightarrow> err_state \<Rightarrow> bool" where
  push: "BSL_ERR_PushError e err file lineNo s = Some s' \<Longrightarrow> err_step s s'"
| clear: "err_step s (BSL_ERR_ClearError e s)"
| remove: "BSL_ERR_RemoveErrorStack e all s = Some (s', freed) \<Longrightarrow> err_step s s'"
| get: "GetErrorInfo e want clr lst s = (s', ret, out) \<Longrightarrow> err_step s s'"
| set_mark: "BSL_ERR_SetMark e s = (ret, s') \<Longrightarrow> err_step s s'"
| pop_mark: "BSL_ERR_PopToMark e s = Some (ret, s') \<Longrightarrow> err_step s s'"
| clear_mark: "BSL_ERR_ClearLastMark e s = Some (ret, s') \<Longrightarrow> err_step s s'"
| add_desc: "BSL_ERR_AddErrStringBatch e (Some ds) num s = Some (ret, s') \<Longrightarrow>
    \<forall>d\<in>set ds. fst d < 2 ^ 31 \<Longrightarrow> err_step s s'"
| remove_desc: "err_step s (BSL_ERR_RemoveErrStringBatch e s)"
| reg: "err_step s (BSL_ERR_RegErrStackLog e f s)"

inductive_cases err_stepE: "err_step s s'"


lemma no_stack_lock:
  "avl_lookup (g_avlRoot s) (ThreadGetId e) = None \<or> lockRet e \<noteq> BSL_SUCCESS \<Longrightarrow>
   \<exists>r. BSL_LIST_WriteLockCreate e s = Inl r"
  using WriteLockCreate_None [of e s] by (auto simp: BSL_LIST_WriteLockCreate_def)

lemma no_stack_marks:
  assumes "avl_lookup (g_avlRoot s) (ThreadGetId e) = None \<or> lockRet e \<noteq> BSL_SUCCESS"
  shows "\<exists>r. BSL_ERR_SetMark e s = (r, s)" "\<exists>r. BSL_ERR_PopToMark e s = Some (r, s)"
    "\<exists>r. BSL_ERR_ClearLastMark e s = Some (r, s)"
proof -
  obtain r where "BSL_LIST_WriteLockCreate e s = Inl r"
    using no_stack_lock [OF assms] by blast
  then show "\<exists>r. BSL_ERR_SetMark e s = (r, s)" "\<exists>r. BSL_ERR_PopToMark e s = Some (r, s)"
    "\<exists>r. BSL_ERR_ClearLastMark e s = Some (r, s)"
    by (simp_all add: BSL_ERR_SetMark_def BSL_ERR_PopToMark_def BSL_ERR_ClearLastMark_def)
qed

lemma get_inv: "err_inv s \<Longrightarrow> GetErrorInfo e want clr lst s = (s', ret, out) \<Longrightarrow> err_inv s'"
  using get_ok [of s e want clr lst] by (cases "lockRet e = BSL_SUCCESS") (auto simp: GetErrorInfo_def)

lemma set_mark_inv: "err_inv s \<Longrightarrow> BSL_ERR_SetMark e s = (ret, s') \<Longrightarrow> err_inv s'"
  using SetMark_ok [of s e] no_stack_marks(1) [of s e] by fastforce

lemma pop_mark_safe: "err_inv s \<Longrightarrow> \<exists>ret s'. BSL_ERR_PopToMark e s = Some (ret, s') \<and> err_inv s'"
  using PopToMark_ok [of s e] no_stack_marks(2) [of s e] by metis

lemma clear_mark_inv: "err_inv s \<Longrightarrow> BSL_ERR_ClearLastMark e s = Some (ret, s') \<Longrightarrow> err_inv s'"
proof (cases "avl_lookup (g_avlRoot s) (ThreadGetId e) = None \<or> lockRet e \<noteq> BSL_SUCCESS")
  case False
  assume a: "err_inv s" "BSL_ERR_ClearLastMark e s = Some (ret, s')"
  have "length (thread_errors s (ThreadGetId e)) \<le> 20"
    using False err_invD(5) [OF a(1), of "ThreadGetId e"] ring_relD(2) by (metis not_None_eq)
  then have "length (thread_errors s (ThreadGetId e)) < 20 \<or> (\<exists>x\<in>set (thread_errors s (ThreadGetId e)). marked x)"
    using ClearLastMark_stuck [OF a(1), of e] a(2) False by fastforce
  then show ?thesis using ClearLastMark_ok [OF a(1), of e] False a(2) by auto
qed (use no_stack_marks(3) [of s e] in auto)

lemma AddErrStringBatch_safe:
  assumes "err_inv s" "\<forall>d\<in>set ds. fst d < 2 ^ 31"
  shows "\<exists>ret s'. BSL_ERR_AddErrStringBatch e (Some ds) num s = Some (ret, s') \<and> err_inv s'"
proof -
  obtain ret t where "AddErrStringBatch_loop (mallocOk e) (take num ds) (g_descRoot s) = Some (ret, t)" "desc_inv t"
    using AddErrStringBatch_loop_safe [OF err_invD(4) [OF assms(1)], of "take num ds"] assms(2)
    by (meson in_set_takeD)
  then show ?thesis using assms(1) by (auto simp: BSL_ERR_AddErrStringBatch_def err_inv_def)
qed

lemma err_step_inv: "err_step s s' \<Longrightarrow> err_inv s \<Longrightarrow> err_inv s'"
proof (induction rule: err_step.induct)
  case (push e err fl ln s s')
  then show ?case using push_safe [of s e err fl ln] by auto
next
  case (remove e all s s' freed)
  then show ?case using RemoveErrorStack_ok [of s e all] by auto
next
  case (pop_mark e s ret s')
  then show ?case using pop_mark_safe [of s e] by auto
next
  case (add_desc e ds num s ret s')
  then show ?case using AddErrStringBatch_safe [of s ds e num] by auto
next
  case (remove_desc s e)
  then show ?case by (simp add: BSL_ERR_RemoveErrStringBatch_def err_inv_def desc_inv_def avl_inv_def)
next
  case (reg s e f)
  then show ?case by (simp add: BSL_ERR_RegErrStackLog_def err_inv_def)
qed (use ClearError_ok get_inv set_mark_inv clear_mark_inv in blast)+

section \<open>Properties\<close>

lemma marked_set_mark: "marked (set_mark x)"
proof -
  have "bit ((fst (snd x) OR 1) AND 1) 0" by (simp add: bit_simps)
  then show ?thesis by (auto simp: marked_def set_mark_def set_flags_def)
qed

lemma clear_set_mark: "clear_mark (set_mark x) = clear_mark x"
  by (auto simp: clear_mark_def set_mark_def set_flags_def bit_eq_iff bit_simps)

lemma spec_pop_marked: "marked y \<Longrightarrow> \<forall>z\<in>set zs. \<not> marked z \<Longrightarrow> spec_pop (xs @ [y] @ zs) = xs @ [y]"
proof (induction zs rule: rev_induct)
  case (snoc z zs)
  then show ?case using spec_pop_snoc [of "xs @ [y] @ zs" z] by simp
qed (use spec_pop_snoc [of xs y] in simp)

lemma pushes_append:
  assumes "err_inv s" "lockRet e = BSL_SUCCESS" "avl_lookup (g_avlRoot s) (ThreadGetId e) \<noteq> None"
    and "length (thread_errors s (ThreadGetId e)) + length pushes \<le> 20" "\<forall>p\<in>set pushes. fst p \<noteq> 0"
  shows "\<exists>s'. fold (\<lambda>(err, file, lineNo) t. Option.bind t (BSL_ERR_PushError e err file lineNo)) pushes (Some s) = Some s'
    \<and> err_inv s' \<and> avl_lookup (g_avlRoot s') (ThreadGetId e) \<noteq> None
    \<and> thread_errors s' = (thread_errors s)(ThreadGetId e := thread_errors s (ThreadGetId e)
        @ map (\<lambda>(err, file, lineNo). (err, 0, file, lineNo)) pushes)"
  using assms
proof (induction pushes arbitrary: s)
  case (Cons p pushes)
  obtain err fl ln where p: "p = (err, fl, ln)" by (cases p) auto
  have "has_stack e s" using Cons.prems by (simp add: has_stack_def)
  then obtain s1 where s1: "BSL_ERR_PushError e err fl ln s = Some s1" "err_inv s1"
    "thread_errors s1 = (thread_errors s)(ThreadGetId e := thread_errors s (ThreadGetId e) @ [(err, 0, fl, ln)])"
    using push_safe [OF Cons.prems(1), of e err fl ln] Cons.prems by (auto simp: p spec_push_def)
  have "avl_lookup (g_avlRoot s1) (ThreadGetId e) \<noteq> None"
    using s1(3) thread_errors_None [of s1 "ThreadGetId e"] by auto
  then show ?case using Cons.IH [OF s1(2)] s1 Cons.prems by (auto simp: p fun_eq_iff)
qed auto

text \<open>C13. In every state the module can reach, by any sequence of calls from any threads with any
  lock and allocation failures, the invariant holds (balanced ordered trees, well-formed rings, the
  node counter equal to the number of stacks and at most 65535), and every call that changes the trees
  has defined behaviour: pushing, removing, popping to a mark and registering descriptions return.\<close>

theorem err_reachable_safe:
  assumes "err_step\<^sup>*\<^sup>* err_init s"
  shows "err_inv s \<and> (\<forall>e err file lineNo. BSL_ERR_PushError e err file lineNo s \<noteq> None)
    \<and> (\<forall>e all. BSL_ERR_RemoveErrorStack e all s \<noteq> None) \<and> (\<forall>e. BSL_ERR_PopToMark e s \<noteq> None)
    \<and> (\<forall>e ds num. (\<forall>d\<in>set ds. fst d < 2 ^ 31) \<longrightarrow> BSL_ERR_AddErrStringBatch e (Some ds) num s \<noteq> None)"
proof -
  have inv: "err_inv s" using assms by (induction rule: rtranclp_induct) (auto intro: err_inv_init err_step_inv)
  then show ?thesis
    using push_safe [OF inv] RemoveErrorStack_ok [OF inv] pop_mark_safe [OF inv] AddErrStringBatch_safe [OF inv]
    by (metis option.distinct(1))
qed

theorem err_reachable_safe_witness:
  "err_inv (BSL_ERR_ClearError \<lparr>ThreadGetId = 1, lockRet = BSL_SUCCESS, callocOk = True, mallocOk = True\<rparr> err_init)"
  using err_reachable_safe [OF r_into_rtranclp [of err_step, OF err_step.clear]] by blast

text \<open>Marks work as save points: after a mark is set on the newest error of a thread, any
  sequence of further errors that still fits in the stack is removed by popping to the mark, which
  succeeds and leaves exactly the stack before, with the mark cleared.\<close>

lemma err_mark_pop_restores:
  assumes "err_inv s" and "lockRet e = BSL_SUCCESS"
    and "thread_errors s (ThreadGetId e) = xs @ [x]"
    and "length xs + length pushes < 20" and "\<forall>p\<in>set pushes. fst p \<noteq> 0"
  shows "\<exists>s1 s2 s3. BSL_ERR_SetMark e s = (BSL_SUCCESS, s1)
    \<and> fold (\<lambda>(err, file, lineNo) t. Option.bind t (BSL_ERR_PushError e err file lineNo)) pushes (Some s1) = Some s2
    \<and> BSL_ERR_PopToMark e s2 = Some (BSL_SUCCESS, s3) \<and> err_inv s3
    \<and> thread_errors s3 = (thread_errors s)(ThreadGetId e := xs @ [clear_mark x])"
proof -
  have lk: "avl_lookup (g_avlRoot s) (ThreadGetId e) \<noteq> None" using assms(3) thread_errors_None by fastforce
  obtain s1 where s1: "BSL_ERR_SetMark e s = (BSL_SUCCESS, s1)" "err_inv s1"
    "thread_errors s1 = (thread_errors s)(ThreadGetId e := xs @ [set_mark x])"
    using SetMark_ok [OF assms(1,2) lk] assms(3) by (auto simp: update_last_def)
  have lk1: "avl_lookup (g_avlRoot s1) (ThreadGetId e) \<noteq> None"
    using s1(3) thread_errors_None [of s1 "ThreadGetId e"] by auto
  obtain s2 where s2: "fold (\<lambda>(err, file, lineNo) t. Option.bind t (BSL_ERR_PushError e err file lineNo)) pushes (Some s1) = Some s2"
    "err_inv s2" "thread_errors s2 = (thread_errors s)(ThreadGetId e := xs @ [set_mark x] @ map (\<lambda>(err, file, lineNo). (err, 0, file, lineNo)) pushes)"
    "avl_lookup (g_avlRoot s2) (ThreadGetId e) \<noteq> None"
    using pushes_append [OF s1(2) assms(2) lk1, of pushes] assms(4,5) s1(3) by auto
  have "spec_pop (xs @ [set_mark x] @ map (\<lambda>(err, file, lineNo). (err, 0, file, lineNo)) pushes) = xs @ [set_mark x]"
    by (rule spec_pop_marked [OF marked_set_mark]) (auto simp: marked_def)
  then show ?thesis using PopToMark_ok [OF s2(2) assms(2) s2(4)] s1(1) s2 by (auto simp: update_last_def clear_set_mark)
qed


text \<open>C14. Clearing the last mark does not return when the calling thread's stack is full and none of
  its entries is marked: the search for a mark runs around the ring for ever, with the write lock of
  the module held. Twenty errors pushed by one thread reach such a state.\<close>

theorem err_clear_last_mark_hangs:
  assumes "err_inv s" and "lockRet e = BSL_SUCCESS"
    and "length (thread_errors s (ThreadGetId e)) = 20"
    and "\<forall>x\<in>set (thread_errors s (ThreadGetId e)). \<not> marked x"
  shows "BSL_ERR_ClearLastMark e s = None"
  by (rule ClearLastMark_stuck [OF assms])

lemma full_stack:
  "\<exists>s. err_inv s \<and> thread_errors s 7 = replicate 20 (5, 0, None, 12)"
proof -
  let ?e = "\<lparr>ThreadGetId = 7, lockRet = BSL_SUCCESS, callocOk = True, mallocOk = True\<rparr>"
  have "avl_lookup (g_avlRoot (one_error 7 5 None 12)) 7 \<noteq> None" by (simp add: one_error_def)
  then obtain s' where "err_inv s'" "thread_errors s' = (thread_errors (one_error 7 5 None 12))(7 :=
      [(5, 0, None, 12)] @ map (\<lambda>(err, file, lineNo). (err, 0, file, lineNo)) (replicate 19 (5, None, 12)))"
    using pushes_append [OF one_error_inv(1), of 5 ?e 7 None 12 "replicate 19 (5, None, 12)"]
    by (auto simp: one_error_inv)
  then show ?thesis by (intro exI [of _ s']) (simp add: numeral_eq_Suc)
qed

theorem err_clear_last_mark_hangs_witness:
  "\<exists>s. err_inv s \<and>
     BSL_ERR_ClearLastMark \<lparr>ThreadGetId = 7, lockRet = BSL_SUCCESS, callocOk = True, mallocOk = True\<rparr> s = None"
proof -
  obtain s where s: "err_inv s" "thread_errors s 7 = replicate 20 (5, 0, None, 12)" using full_stack by blast
  show ?thesis
    using err_clear_last_mark_hangs [of s "\<lparr>ThreadGetId = 7, lockRet = BSL_SUCCESS, callocOk = True, mallocOk = True\<rparr>"] s
    by (auto simp: marked_def)
qed

text \<open>Otherwise clearing the last mark returns success and clears the mark of the last marked
  entry only, leaving every entry and every other thread's stack in place.\<close>

theorem err_clear_last_mark_returns:
  assumes "err_inv s" and "lockRet e = BSL_SUCCESS" and "thread_errors s (ThreadGetId e) = xs @ x # zs"
    and "marked x" and "\<forall>z\<in>set zs. \<not> marked z"
  shows "\<exists>s'. BSL_ERR_ClearLastMark e s = Some (BSL_SUCCESS, s') \<and> err_inv s'
    \<and> thread_errors s' = (thread_errors s)(ThreadGetId e := xs @ clear_mark x # zs)"
proof -
  have lk: "avl_lookup (g_avlRoot s) (ThreadGetId e) \<noteq> None" using assms(3) thread_errors_None by fastforce
  have sp: "spec_pop (xs @ x # zs) = xs @ [x]" using spec_pop_marked [OF assms(4,5), of xs] by simp
  have "\<exists>y\<in>set (thread_errors s (ThreadGetId e)). marked y" using assms(3,4) by simp
  then show ?thesis using ClearLastMark_ok [OF assms(1,2) lk] sp assms(3)
    by (auto simp: spec_clear_def update_last_def)
qed

text \<open>A registered description is found again: after a batch of descriptions with non-negative
  32-bit codes is added, the string of a code is the last one the batch gives for it, and the strings
  of codes outside the batch are what they were; the error stacks are untouched.\<close>

lemma err_descriptions_roundtrip:
  assumes "err_inv s" and "lockRet e = BSL_SUCCESS" and "mallocOk e"
    and "\<forall>d\<in>set ds. 0 \<le> fst d \<and> fst d < 2 ^ 31" and "ds \<noteq> []"
  shows "\<exists>s'. BSL_ERR_AddErrStringBatch e (Some ds) (length ds) s = Some (BSL_SUCCESS, s') \<and> err_inv s'
    \<and> thread_errors s' = thread_errors s
    \<and> (\<forall>c. 0 \<le> c \<and> c < 2 ^ 31 \<longrightarrow> BSL_ERR_GetString e c s'
        = (case map_of (rev ds) c of Some str \<Rightarrow> str | None \<Rightarrow> BSL_ERR_GetString e c s))"
proof -
  obtain s' where s': "BSL_ERR_AddErrStringBatch e (Some ds) (length ds) s = Some (BSL_SUCCESS, s')" "err_inv s'"
    "thread_errors s' = thread_errors s"
    "descriptions s' = descriptions s ++ map_of (map (\<lambda>d. (desc_key d, snd d)) (rev ds))"
    using AddErrStringBatch_ok [OF assms] by blast
  have "map_of (map (\<lambda>d. (desc_key d, snd d)) xs) (of_int c) = map_of xs c"
    if "0 \<le> c" "c < 2 ^ 31" "set xs \<subseteq> set ds" for c xs
    using that(3)
  proof (induction xs)
    case (Cons d xs)
    then have "0 \<le> fst d" "fst d < 2 ^ 31" using assms(4) by auto
    then have "(of_int c :: u64) = of_int (fst d) \<longleftrightarrow> c = fst d"
      using that(1,2) by (auto simp: word_of_int_eq_iff take_bit_int_eq_self)
    then show ?case using Cons by (cases d) (auto simp: desc_key_def)
  qed simp
  from this [of _ "rev ds"] show ?thesis
    using s' assms(2) by (auto simp: GetString_lookup map_add_def split: option.split)
qed

section \<open>Output\<close>

definition entry_item :: "u64 \<Rightarrow> entry \<Rightarrow> ErrorOutputItem" where
  "entry_item tid x = (case x of (c, fl, f, ln) \<Rightarrow> \<lparr>item_threadId = tid,
     item_file = (case f of None \<Rightarrow> ''NA'' | Some n \<Rightarrow> n), item_lineNo = (case f of None \<Rightarrow> 0 | Some n \<Rightarrow> ln),
     item_errCode = c, item_mark = marked x\<rparr>)"

lemma OutputErrorStack_loop_eq:
  assumes r: "ring_rel st xs"
  shows "j \<le> length xs \<Longrightarrow>
    OutputErrorStack_loop tid st ((bottom st + j) mod 20) j = map (entry_item tid) (drop j xs)"
proof (induction "length xs - j" arbitrary: j)
  case 0
  then show ?case using ring_relD(2) [OF r] ring_relD(6) [OF r, of j] by (auto simp: OutputErrorStack_loop.simps)
next
  case (Suc n)
  then have j: "j < length xs" by simp
  have "OutputErrorStack_loop tid st ((bottom st + j) mod 20) j
      = entry_item tid (xs ! j) # OutputErrorStack_loop tid st ((bottom st + (j + 1)) mod 20) (j + 1)"
    using ring_relD(2) [OF r] ring_relD(5) [OF r j] ring_relD(4) [OF r j, symmetric] j
    by (subst OutputErrorStack_loop.simps) (simp add: output_item_def entry_item_def slot_def marked_def mod_Suc_eq)
  then show ?case using Suc.hyps(1) [of "j + 1"] Suc.hyps(2) j by (simp flip: Cons_nth_drop_Suc)
qed

text \<open>With an output function registered, printing the stack calls it once for every entry of
  the calling thread's stack, from the oldest to the newest, with the stored code, position and mark,
  and makes no other call.\<close>

lemma err_output_lists_stack:
  assumes "err_inv s" and "lockRet e = BSL_SUCCESS" and "g_outputFunc s"
  shows "BSL_ERR_OutputErrorStack e s = map (entry_item (ThreadGetId e)) (thread_errors s (ThreadGetId e))"
proof (cases "avl_lookup (g_avlRoot s) (ThreadGetId e)")
  case None
  then show ?thesis using thread_errors_None [OF None] by (simp add: BSL_ERR_OutputErrorStack_def search_case)
next
  case (Some st)
  note r = err_invD(5) [OF assms(1) Some]
  have "bottom st < 20" using ring_relD(1) [OF r] by (simp add: arrays_ok_def)
  then show ?thesis using OutputErrorStack_loop_eq [OF r, of 0 "ThreadGetId e"] assms Some
    by (auto simp: BSL_ERR_OutputErrorStack_def search_case)
qed

end
