(* ===== verification/Tls_Base.thy ===== *)
theory Tls_Base
  imports Bytes
begin

text \<open>
  Vocabulary of the TLS layer: return codes (\<^verbatim>\<open>include/tls/hitls_error.h\<close>), versions, alert levels and
  descriptions and the connection states (\<^verbatim>\<open>tls/include/tls.h\<close>), and the connection context as far as
  the modelled modules read or write it. The functions of the record and handshake layers that these
  modules call are the fields of the record \<open>tls_ops\<close>: each takes the whole context and may change
  it, and what is needed of them is a named hypothesis of the theorems that need it. The features
  selected by the default build (TLS 1.3, DTLS over UDP, flight transmission, close state, alert
  counting, renegotiation, sessions) are taken as compiled in.
\<close>

datatype hitls_ret =
    HITLS_SUCCESS
  | HITLS_NULL_INPUT
  | HITLS_MEMALLOC_FAIL
  | HITLS_INTERNAL_EXCEPTION
  | HITLS_UIO_FAIL
  | HITLS_CCS_INVALID_CMD
  | HITLS_ALERT_NO_WANT_SEND
  | HITLS_CM_LINK_UNESTABLISHED
  | HITLS_CM_LINK_FATAL_ALERTED
  | HITLS_CM_LINK_CLOSED
  | HITLS_REC_NORMAL_IO_BUSY
  | HITLS_REC_NORMAL_RECV_BUF_EMPTY
  | HITLS_REC_NORMAL_RECV_UNEXPECT_MSG
  | HITLS_REC_ERR_RECV_UNEXPECTED_MSG
  | HITLS_REC_BAD_RECORD_MAC
  | HITLS_MSG_HANDLE_STATE_ILLEGAL
  | HITLS_PARSE_INVALID_MSG_LEN
  | HITLS_REASS_INVALID_FRAGMENT

datatype REC_Type = REC_TYPE_CHANGE_CIPHER_SPEC | REC_TYPE_ALERT | REC_TYPE_HANDSHAKE | REC_TYPE_APP | REC_TYPE_UNKNOWN

abbreviation (input) HITLS_VERSION_SSL30 :: u16 where "HITLS_VERSION_SSL30 \<equiv> 0x0300"
abbreviation (input) HITLS_VERSION_TLS12 :: u16 where "HITLS_VERSION_TLS12 \<equiv> 0x0303"
abbreviation (input) HITLS_VERSION_DTLS12 :: u16 where "HITLS_VERSION_DTLS12 \<equiv> 0xfefd"
abbreviation (input) TLS12_VERSION_BIT :: u32 where "TLS12_VERSION_BIT \<equiv> 0x10"
abbreviation (input) TLS13_VERSION_BIT :: u32 where "TLS13_VERSION_BIT \<equiv> 0x20"
abbreviation (input) DTLS12_VERSION_BIT :: u32 where "DTLS12_VERSION_BIT \<equiv> 0x40000000"
abbreviation (input) HITLS_VERSION_TLS13 :: u16 where "HITLS_VERSION_TLS13 \<equiv> 0x0304"

abbreviation (input) ALERT_LEVEL_WARNING :: u8 where "ALERT_LEVEL_WARNING \<equiv> 1"
abbreviation (input) ALERT_LEVEL_FATAL :: u8 where "ALERT_LEVEL_FATAL \<equiv> 2"
abbreviation (input) ALERT_CLOSE_NOTIFY :: u8 where "ALERT_CLOSE_NOTIFY \<equiv> 0"
abbreviation (input) ALERT_UNEXPECTED_MESSAGE :: u8 where "ALERT_UNEXPECTED_MESSAGE \<equiv> 10"
abbreviation (input) ALERT_HANDSHAKE_FAILURE :: u8 where "ALERT_HANDSHAKE_FAILURE \<equiv> 40"
abbreviation (input) ALERT_ILLEGAL_PARAMETER :: u8 where "ALERT_ILLEGAL_PARAMETER \<equiv> 47"
abbreviation (input) ALERT_PROTOCOL_VERSION :: u8 where "ALERT_PROTOCOL_VERSION \<equiv> 70"
abbreviation (input) ALERT_INTERNAL_ERROR :: u8 where "ALERT_INTERNAL_ERROR \<equiv> 80"
abbreviation (input) ALERT_NO_RENEGOTIATION :: u8 where "ALERT_NO_RENEGOTIATION \<equiv> 100"
abbreviation (input) ALERT_UNKNOWN :: u8 where "ALERT_UNKNOWN \<equiv> 255"

abbreviation (input) HITLS_SENT_SHUTDOWN :: u32 where "HITLS_SENT_SHUTDOWN \<equiv> 1"
abbreviation (input) HITLS_RECEIVED_SHUTDOWN :: u32 where "HITLS_RECEIVED_SHUTDOWN \<equiv> 2"

abbreviation (input) MAX_ALERT_COUNT :: u8 where "MAX_ALERT_COUNT \<equiv> 5"

datatype ALERT_FLAG = ALERT_FLAG_NO | ALERT_FLAG_RECV | ALERT_FLAG_SEND

record AlertCtx =
  flag :: ALERT_FLAG
  isFlush :: bool
  warnCount :: u8
  level :: u8
  description :: u8

record CcsCtx =
  isReady :: bool
  ccsRecvflag :: bool
  isAllowActiveCipher :: bool
  activeCipherFlag :: bool

datatype CM_State = CM_STATE_IDLE | CM_STATE_HANDSHAKING | CM_STATE_TRANSPORTING | CM_STATE_RENEGOTIATION
  | CM_STATE_ALERTING | CM_STATE_ALERTED | CM_STATE_CLOSED

datatype PHA_State = PHA_NONE | PHA_EXTENSION | PHA_PENDING | PHA_REQUESTED

datatype ENDPOINT = HITLS_ENDPOINT_UNDEFINED | HITLS_ENDPOINT_CLIENT | HITLS_ENDPOINT_SERVER

text \<open>The secrets of a running handshake (\<open>hsCtx\<close>, absent when no handshake is in progress).\<close>

record HS_Secrets =
  masterKey :: bytes
  earlySecret :: bytes
  handshakeSecret :: bytes
  serverHsTrafficSecret :: bytes
  clientHsTrafficSecret :: bytes

record 'e TLS_Ctx =
  alertCtx :: AlertCtx
  ccsCtx :: CcsCtx
  state :: CM_State
  preState :: CM_State
  connInit :: bool
  shutdownState :: u32
  userShutDown :: bool
  isQuietShutdown :: bool
  version :: u16
  minVersion :: u16
  maxVersion :: u16
  versionBits :: u32
  endpoint :: ENDPOINT
  isClient :: bool
  plainAlertForbid :: bool
  isDatagram :: bool
  isUdp :: bool
  isSctp :: bool
  isRenegotiation :: bool
  userRenego :: bool
  allowAppOut :: bool
  phaState :: PHA_State
  isEncryptThenMac :: bool
  isEncryptThenMacRead :: bool
  rwReading :: bool
  sessionEnable :: bool
  hsCtx :: "HS_Secrets option"
  clientAppTrafficSecret :: bytes
  serverAppTrafficSecret :: bytes
  resumptionMasterSecret :: bytes
  rest :: 'e

type_synonym 'e tls_call = "'e TLS_Ctx \<Rightarrow> hitls_ret \<times> 'e TLS_Ctx"

record 'e tls_ops =
  REC_Write :: "REC_Type \<Rightarrow> bytes \<Rightarrow> 'e tls_call"
  REC_OutBufFlush :: "'e tls_call"
  REC_FlightTransmit :: "'e tls_call"
  REC_ActivePendingState :: "'e tls_call"
  REC_RetransmitListAppend :: "REC_Type \<Rightarrow> bytes \<Rightarrow> 'e tls_call"
  REC_RecOutBufReSet :: "'e tls_call"
  REC_GetOutBufPendingSize :: "'e TLS_Ctx \<Rightarrow> nat"
  REC_PendingData :: "'e TLS_Ctx \<Rightarrow> bool"
  REC_HaveReadSuiteInfo :: "'e TLS_Ctx \<Rightarrow> bool"
  REC_GetUnexpectedMsgType :: "'e TLS_Ctx \<Rightarrow> REC_Type"
  FlightTransmitSwitch :: "'e TLS_Ctx \<Rightarrow> bool"
  UIO_SctpSndBuffIsEmpty :: "'e TLS_Ctx \<Rightarrow> bool option"
  HS_DoHandshake :: "'e tls_call"
  HS_DeInit :: "'e TLS_Ctx \<Rightarrow> 'e TLS_Ctx"
  HS_AppDataAllowed :: "'e TLS_Ctx \<Rightarrow> bool"
  HS_CheckPostHandshakeAuth :: "'e tls_call"
  HS_CheckAndProcess2MslTimeout :: "'e tls_call"
  CONN_Init :: "'e tls_call"
  ForbidTlcp :: "'e TLS_Ctx \<Rightarrow> 'e TLS_Ctx"
  APP_Write :: "bytes \<Rightarrow> 'e TLS_Ctx \<Rightarrow> hitls_ret \<times> nat \<times> 'e TLS_Ctx"
  APP_Read :: "'e tls_call"

definition GET_VERSION_FROM_CTX :: "'e TLS_Ctx \<Rightarrow> u16" where
  "GET_VERSION_FROM_CTX ctx = (if version ctx > 0 then version ctx else maxVersion ctx)"


text \<open>Lower layers that succeed without an effect, for the evaluation of examples.\<close>

definition idle_ops :: "'e tls_ops" where
  "idle_ops = \<lparr>REC_Write = (\<lambda>_ _ c. (HITLS_SUCCESS, c)), REC_OutBufFlush = Pair HITLS_SUCCESS,
     REC_FlightTransmit = Pair HITLS_SUCCESS, REC_ActivePendingState = Pair HITLS_SUCCESS,
     REC_RetransmitListAppend = (\<lambda>_ _ c. (HITLS_SUCCESS, c)), REC_RecOutBufReSet = Pair HITLS_SUCCESS,
     REC_GetOutBufPendingSize = (\<lambda>_. 0), REC_PendingData = (\<lambda>_. False), REC_HaveReadSuiteInfo = (\<lambda>_. False),
     REC_GetUnexpectedMsgType = (\<lambda>_. REC_TYPE_UNKNOWN), FlightTransmitSwitch = (\<lambda>_. False),
     UIO_SctpSndBuffIsEmpty = (\<lambda>_. Some True), HS_DoHandshake = Pair HITLS_SUCCESS, HS_DeInit = (\<lambda>c. c),
     HS_AppDataAllowed = (\<lambda>_. False), HS_CheckPostHandshakeAuth = Pair HITLS_SUCCESS,
     HS_CheckAndProcess2MslTimeout = Pair HITLS_SUCCESS, CONN_Init = Pair HITLS_SUCCESS,
     ForbidTlcp = (\<lambda>c. c), APP_Write = (\<lambda>d c. (HITLS_SUCCESS, length d, c)), APP_Read = Pair HITLS_SUCCESS\<rparr>"

end
