(* ===== verification/Anti_Replay.thy ===== *)
theory Anti_Replay
  imports Tls_Base
begin

text \<open>
  The DTLS replay window of \<^verbatim>\<open>tls/record/src/rec_anti_replay.c\<close> and its use on the receive path of
  \<^verbatim>\<open>tls/record/src/rec_read.c\<close>: a record is checked, decrypted and only then entered in the window.
  All values are 64-bit words as in the code. The abstract state is the set of sequence numbers
  entered so far.
\<close>

record RecSlidWindow =
  top :: u64
  window :: u64

abbreviation (input) REC_SLID_WINDOW_SIZE :: u64 where
  "REC_SLID_WINDOW_SIZE \<equiv> 64"

definition RecAntiReplayReset :: "RecSlidWindow \<Rightarrow> RecSlidWindow" where
  "RecAntiReplayReset w = w\<lparr>top := 0, window := 0\<rparr>"

definition RecAntiReplayCheck :: "RecSlidWindow \<Rightarrow> u64 \<Rightarrow> bool" where
  "RecAntiReplayCheck w seq =
     (if seq > top w then False
      else let b = top w - seq in
        if b \<ge> REC_SLID_WINDOW_SIZE then True
        else window w AND push_bit (unat b) 1 \<noteq> 0)"

definition RecAntiReplayUpdate :: "RecSlidWindow \<Rightarrow> u64 \<Rightarrow> RecSlidWindow" where
  "RecAntiReplayUpdate w seq =
     (if seq + REC_SLID_WINDOW_SIZE \<le> top w then w
      else if seq \<le> top w then
        let b = top w - seq in w\<lparr>window := window w OR push_bit (unat b) 1\<rparr>
      else
        let b = seq - top w; w1 = w\<lparr>top := seq\<rparr> in
        if b \<ge> REC_SLID_WINDOW_SIZE then w1\<lparr>window := 1\<rparr>
        else w1\<lparr>window := push_bit (unat b) (window w1) OR 1\<rparr>)"

text \<open>\<^verbatim>\<open>REC_SEQ_GET\<close> and \<^verbatim>\<open>REC_EPOCH_GET\<close>: the lower 48 and the upper 16 bits of the header field.\<close>

definition REC_SEQ_GET :: "u64 \<Rightarrow> u64" where
  "REC_SEQ_GET n = n AND 0x0000ffffffffffff"

definition REC_EPOCH_GET :: "u64 \<Rightarrow> u16" where
  "REC_EPOCH_GET n = ucast (drop_bit 48 n)"


definition AntiReplay :: "bool \<Rightarrow> bool \<Rightarrow> RecSlidWindow \<Rightarrow> u64 \<Rightarrow> hitls_ret" where
  "AntiReplay udp listen w epochSeq =
     (if \<not> udp then HITLS_SUCCESS
      else if RecAntiReplayCheck w (REC_SEQ_GET epochSeq) then HITLS_REC_NORMAL_RECV_BUF_EMPTY
      else if listen \<and> REC_EPOCH_GET epochSeq \<noteq> 0 then HITLS_REC_ERR_RECV_UNEXPECTED_MSG
      else HITLS_SUCCESS)"

text \<open>The part of reading a DTLS record that concerns the window: the check, the decryption, whose
  result is an input, and the update. A record is delivered when the result is success.\<close>

definition dtls_record_step :: "bool \<Rightarrow> bool \<Rightarrow> RecSlidWindow \<Rightarrow> u64 \<Rightarrow> hitls_ret \<Rightarrow> hitls_ret \<times> RecSlidWindow" where
  "dtls_record_step udp listen w epochSeq decryptRet =
     (let ret = AntiReplay udp listen w epochSeq in
      if ret \<noteq> HITLS_SUCCESS then (ret, w)
      else if decryptRet \<noteq> HITLS_SUCCESS then (decryptRet, w)
      else (HITLS_SUCCESS, if udp then RecAntiReplayUpdate w (REC_SEQ_GET epochSeq) else w))"

text \<open>The sequence numbers delivered from a run of arriving records, each with the result of its
  decryption.\<close>

fun dtls_deliver :: "bool \<Rightarrow> RecSlidWindow \<Rightarrow> (u64 \<times> hitls_ret) list \<Rightarrow> u64 list" where
  "dtls_deliver listen w [] = []"
| "dtls_deliver listen w ((epochSeq, dec) # rs) =
     (case dtls_record_step True listen w epochSeq dec of
        (ret, w') \<Rightarrow> if ret = HITLS_SUCCESS then REC_SEQ_GET epochSeq # dtls_deliver listen w' rs
                    else dtls_deliver listen w' rs)"

section \<open>The window as a set\<close>

text \<open>The window stands for the set of numbers entered: none is above \<open>top\<close>, and bit \<open>k\<close> tells whether
  \<open>top - k\<close> is in the set.\<close>

definition win_rel :: "RecSlidWindow \<Rightarrow> u64 set \<Rightarrow> bool" where
  "win_rel w S = ((\<forall>s\<in>S. s \<le> top w)
     \<and> (\<forall>s. s \<le> top w \<and> unat (top w - s) < 64 \<longrightarrow> (bit (window w) (unat (top w - s)) \<longleftrightarrow> s \<in> S)))"

lemma win_rel_reset: "win_rel (RecAntiReplayReset w) {}"
  by (simp add: win_rel_def RecAntiReplayReset_def)

lemma ge_64_iff: "64 \<le> b \<longleftrightarrow> 64 \<le> unat b" for b :: u64
  by (simp add: word_le_nat_alt)

lemma Check_iff:
  "RecAntiReplayCheck w seq \<longleftrightarrow> seq \<le> top w \<and> (64 \<le> unat (top w - seq) \<or> bit (window w) (unat (top w - seq)))"
  by (auto simp: RecAntiReplayCheck_def Let_def and_exp_eq_0_iff_not_bit ge_64_iff not_less)

lemma Check_set:
  assumes "win_rel w S"
  shows "RecAntiReplayCheck w seq \<longleftrightarrow> seq \<in> S \<or> seq \<le> top w \<and> 64 \<le> unat (top w - seq)"
  using assms unfolding Check_iff win_rel_def by (meson leI)

lemma seq_no_wrap:
  fixes seq t :: u64
  assumes "unat seq < 2 ^ 48"
  shows "seq + 64 \<le> t \<longleftrightarrow> seq \<le> t \<and> 64 \<le> unat (t - seq)"
proof -
  have "unat (seq + 64) = unat seq + 64" using assms by (simp add: unat_word_ariths)
  then show ?thesis
    by (auto simp: word_le_nat_alt unat_sub)
qed

lemma Update_rel:
  assumes r: "win_rel w S" and small: "unat seq < 2 ^ 48" and fresh: "\<not> RecAntiReplayCheck w seq"
  shows "win_rel (RecAntiReplayUpdate w seq) (insert seq S)"
proof (cases "seq \<le> top w")
  case True
  then have in_win: "unat (top w - seq) < 64" using fresh by (auto simp: Check_iff)
  then have u: "RecAntiReplayUpdate w seq = w\<lparr>window := window w OR push_bit (unat (top w - seq)) 1\<rparr>"
    using True seq_no_wrap [OF small, of "top w"] by (simp add: RecAntiReplayUpdate_def Let_def)
  have inj: "unat (top w - s) = unat (top w - seq) \<longleftrightarrow> s = seq" for s
    by (metis diff_left_imp_eq diff_add_cancel add_left_cancel unsigned_word_eqI word_unat_eq_iff)
  show ?thesis using r True in_win unfolding u win_rel_def by (auto simp: bit_simps inj)
next
  case False
  then have lt: "top w < seq" by simp
  have no: "\<not> seq + 64 \<le> top w" using seq_no_wrap [OF small, of "top w"] lt by auto
  have dist: "unat (seq - s) = unat (seq - top w) + unat (top w - s)" if "s \<le> top w" for s
    using that lt by (simp add: unat_sub word_le_nat_alt word_less_nat_alt)
  have pos: "unat (seq - top w) > 0" using lt by (simp add: unat_gt_0)
  have zero: "unat (seq - s) = 0 \<longleftrightarrow> s = seq" for s by (auto simp: unat_eq_0)
  have S: "s \<le> top w" if "s \<in> S" for s using r that by (auto simp: win_rel_def)
  have Sq: "s \<le> seq" if "s \<in> S" for s using S [OF that] lt by simp
  have mem: "bit (window w) (unat (top w - s)) \<longleftrightarrow> s \<in> S" if "s \<le> top w" "unat (top w - s) < 64" for s
    using r that by (auto simp: win_rel_def)
  show ?thesis
  proof (cases "64 \<le> unat (seq - top w)")
    case True
    then have u: "RecAntiReplayUpdate w seq = w\<lparr>top := seq, window := 1\<rparr>"
      using no lt by (simp add: RecAntiReplayUpdate_def Let_def ge_64_iff)
    have "s \<notin> S" if "unat (seq - s) < 64" for s using that True dist [of s] S [of s] by auto
    then show ?thesis unfolding u win_rel_def using Sq zero by (auto simp: bit_1_iff)
  next
    case False
    then have u: "RecAntiReplayUpdate w seq = w\<lparr>top := seq, window := push_bit (unat (seq - top w)) (window w) OR 1\<rparr>"
      using no lt by (simp add: RecAntiReplayUpdate_def Let_def ge_64_iff)
    have "bit (push_bit (unat (seq - top w)) (window w) OR 1) (unat (seq - s)) \<longleftrightarrow> s = seq \<or> s \<in> S"
      if "s \<le> seq" "unat (seq - s) < 64" for s
    proof (cases "s \<le> top w")
      case True
      then show ?thesis using that dist [OF True] mem [OF True] pos zero [of s] lt by (auto simp: bit_simps bit_1_iff)
    next
      case False
      then have "unat (seq - s) < unat (seq - top w)"
        using that lt by (simp add: unat_sub word_le_nat_alt word_less_nat_alt)
      then show ?thesis using that False S [of s] zero [of s] by (auto simp: bit_simps bit_1_iff)
    qed
    then show ?thesis unfolding u win_rel_def using Sq by auto
  qed
qed


section \<open>Properties\<close>

lemma REC_SEQ_GET_less: "unat (REC_SEQ_GET n) < 2 ^ 48"
proof -
  have "REC_SEQ_GET n = take_bit 48 n" by (simp add: REC_SEQ_GET_def take_bit_eq_mask mask_eq_exp_minus_1)
  then show ?thesis using take_bit_nat_less_exp [of 48 "unat n"] by (simp add: unsigned_take_bit_eq)
qed

lemma dtls_deliver_fresh:
  "win_rel w S \<Longrightarrow> distinct (dtls_deliver listen w rs) \<and> set (dtls_deliver listen w rs) \<inter> S = {}"
proof (induction rs arbitrary: w S)
  case (Cons r rs)
  obtain es dec where r: "r = (es, dec)" by (cases r) auto
  let ?q = "REC_SEQ_GET es"
  show ?case
  proof (cases "AntiReplay True listen w es = HITLS_SUCCESS \<and> dec = HITLS_SUCCESS")
    case True
    then have fresh: "\<not> RecAntiReplayCheck w ?q" by (auto simp: AntiReplay_def split: if_splits)
    have "win_rel (RecAntiReplayUpdate w ?q) (insert ?q S)"
      by (rule Update_rel [OF Cons.prems REC_SEQ_GET_less fresh])
    from Cons.IH [OF this] show ?thesis
      using True fresh Check_set [OF Cons.prems, of ?q] by (auto simp: r dtls_record_step_def)
  next
    case False
    then show ?thesis using Cons.IH [OF Cons.prems] by (auto simp: r dtls_record_step_def Let_def)
  qed
qed simp


text \<open>The window accepts everything else: when it stands for the set of numbers entered so far, the
  check rejects exactly the numbers in the set and those at least 64 behind the newest one.\<close>

theorem replay_check_exact:
  assumes "win_rel w S"
  shows "RecAntiReplayCheck w seq \<longleftrightarrow> seq \<in> S \<or> seq \<le> top w \<and> 64 \<le> unat (top w - seq)"
  by (rule Check_set [OF assms])


text \<open>The comparison \<open>seq + 64 \<le> top\<close> wraps for numbers within 64 of the largest 64-bit value:
  such a number is checked as new, and after the update it is still accepted. The record layer only
  passes 48-bit numbers, for which this cannot happen.\<close>

lemma replay_update_wraps_near_max:
  "let w = \<lparr>top = 100, window = 1\<rparr>; seq = (- 1) in
     \<not> RecAntiReplayCheck w seq \<and> RecAntiReplayUpdate w seq = w
     \<and> \<not> RecAntiReplayCheck (RecAntiReplayUpdate w seq) seq"
  by (simp add: RecAntiReplayCheck_def RecAntiReplayUpdate_def)

end
