(* ===== verification/Alert.thy ===== *)
theory Alert
  imports Tls_Base
begin

text \<open>
  The alert module (\<^verbatim>\<open>tls/alert/src/alert.c\<close>): the one pending alert of a connection, which other
  modules raise with \<open>ALERT_Send\<close> or which arrives in a record, until it is flushed and cleaned.
\<close>

definition ALERT_GetFlag :: "'e TLS_Ctx \<Rightarrow> bool" where
  "ALERT_GetFlag ctx = (flag (alertCtx ctx) \<noteq> ALERT_FLAG_NO)"

definition ALERT_GetInfo :: "'e TLS_Ctx \<Rightarrow> ALERT_FLAG \<times> u8 \<times> u8" where
  "ALERT_GetInfo ctx = (flag (alertCtx ctx), level (alertCtx ctx), description (alertCtx ctx))"

definition zero_alert :: AlertCtx where
  "zero_alert = \<lparr>flag = ALERT_FLAG_NO, isFlush = False, warnCount = 0, level = 0, description = 0\<rparr>"

definition ALERT_CleanInfo :: "'e TLS_Ctx \<Rightarrow> 'e TLS_Ctx" where
  "ALERT_CleanInfo ctx = ctx\<lparr>alertCtx := zero_alert\<lparr>warnCount := warnCount (alertCtx ctx)\<rparr>\<rparr>"

definition AlertIsAbnormalInput :: "AlertCtx \<Rightarrow> u8 \<Rightarrow> bool" where
  "AlertIsAbnormalInput a lev =
     (if lev \<noteq> ALERT_LEVEL_FATAL \<and> lev \<noteq> ALERT_LEVEL_WARNING then True
      else if flag a \<noteq> ALERT_FLAG_NO \<and>
        (level a = ALERT_LEVEL_FATAL
         \<or> lev = ALERT_LEVEL_WARNING \<and> level a = ALERT_LEVEL_WARNING \<and> description a = ALERT_CLOSE_NOTIFY)
      then True
      else False)"

definition ALERT_Send :: "'e TLS_Ctx \<Rightarrow> u8 \<Rightarrow> u8 \<Rightarrow> 'e TLS_Ctx" where
  "ALERT_Send ctx lev desc =
     (if AlertIsAbnormalInput (alertCtx ctx) lev then ctx
      else ctx\<lparr>alertCtx := (alertCtx ctx)\<lparr>level := lev, description := desc, flag := ALERT_FLAG_SEND, isFlush := False\<rparr>\<rparr>)"

text \<open>The write of a pending alert and the bookkeeping around it.\<close>

definition alert_data :: "'e TLS_Ctx \<Rightarrow> bytes" where
  "alert_data ctx =
     [level (alertCtx ctx),
      if version ctx = HITLS_VERSION_SSL30 \<and> description (alertCtx ctx) = ALERT_PROTOCOL_VERSION
      then ALERT_HANDSHAKE_FAILURE else description (alertCtx ctx)]"

definition flush_write :: "'e tls_ops \<Rightarrow> 'e tls_call" where
  "flush_write ops ctx =
     (if \<not> isFlush (alertCtx ctx) then
        if REC_PendingData ops ctx \<and> description (alertCtx ctx) = ALERT_CLOSE_NOTIFY then (HITLS_REC_NORMAL_IO_BUSY, ctx)
        else
          case REC_Write ops REC_TYPE_ALERT (alert_data ctx) ctx of
            (ret, ctx1) \<Rightarrow>
              let ctx2 = (if \<not> isDatagram ctx1 then ctx1\<lparr>alertCtx := (alertCtx ctx1)\<lparr>isFlush := True\<rparr>\<rparr> else ctx1) in
              if ret \<noteq> HITLS_SUCCESS then (ret, ctx2)
              else (HITLS_SUCCESS, ctx2\<lparr>alertCtx := (alertCtx ctx2)\<lparr>isFlush := True\<rparr>\<rparr>)
      else (HITLS_SUCCESS, ctx))"

definition ALERT_Flush :: "'e tls_ops \<Rightarrow> 'e tls_call" where
  "ALERT_Flush ops ctx =
     (if flag (alertCtx ctx) \<noteq> ALERT_FLAG_SEND then (HITLS_ALERT_NO_WANT_SEND, ctx)
      else
        case (if REC_GetOutBufPendingSize ops ctx \<noteq> 0 then REC_OutBufFlush ops ctx else (HITLS_SUCCESS, ctx)) of
          (ret, ctx1) \<Rightarrow>
            if ret \<noteq> HITLS_SUCCESS then (ret, ctx1)
            else case flush_write ops ctx1 of
              (ret, ctx2) \<Rightarrow>
                if ret \<noteq> HITLS_SUCCESS then (ret, ctx2)
                else if FlightTransmitSwitch ops ctx2 then REC_FlightTransmit ops ctx2
                else (HITLS_SUCCESS, ctx2))"

definition ALERT_GetVersion :: "'e TLS_Ctx \<Rightarrow> u16" where
  "ALERT_GetVersion ctx = (if version ctx > 0 then version ctx else maxVersion ctx)"

definition ReturnAlertProcess :: "'e TLS_Ctx \<Rightarrow> hitls_ret \<Rightarrow> u8 \<Rightarrow> hitls_ret \<times> 'e TLS_Ctx" where
  "ReturnAlertProcess ctx err desc =
     (if desc \<noteq> ALERT_UNKNOWN then (err, ALERT_Send ctx ALERT_LEVEL_FATAL desc) else (err, ctx))"

definition ProcessDecryptedAlert :: "'e TLS_Ctx \<Rightarrow> bytes \<Rightarrow> hitls_ret \<times> 'e TLS_Ctx" where
  "ProcessDecryptedAlert ctx dat =
     (if length dat \<noteq> 2 then
        (HITLS_REC_NORMAL_RECV_UNEXPECT_MSG, ALERT_Send ctx ALERT_LEVEL_FATAL ALERT_UNEXPECTED_MESSAGE)
      else if dat ! 0 = ALERT_LEVEL_FATAL \<or> dat ! 0 = ALERT_LEVEL_WARNING then
        if AlertIsAbnormalInput (alertCtx ctx) (dat ! 0) then (HITLS_REC_NORMAL_RECV_UNEXPECT_MSG, ctx)
        else
          let a = (alertCtx ctx)\<lparr>flag := ALERT_FLAG_RECV, level := dat ! 0, description := dat ! 1\<rparr>;
              a1 = (if ALERT_GetVersion ctx = HITLS_VERSION_TLS13 \<and> description a \<noteq> ALERT_CLOSE_NOTIFY
                    then a\<lparr>level := ALERT_LEVEL_FATAL\<rparr> else a)
          in (HITLS_REC_NORMAL_RECV_UNEXPECT_MSG, ctx\<lparr>alertCtx := a1\<rparr>)
      else (HITLS_REC_NORMAL_RECV_UNEXPECT_MSG, ALERT_Send ctx ALERT_LEVEL_FATAL ALERT_ILLEGAL_PARAMETER))"

definition ProcessPlainAlert :: "'e tls_ops \<Rightarrow> 'e TLS_Ctx \<Rightarrow> bytes \<Rightarrow> hitls_ret \<times> 'e TLS_Ctx" where
  "ProcessPlainAlert ops ctx dat =
     (if isClient ctx \<and> REC_HaveReadSuiteInfo ops ctx then
        ReturnAlertProcess ctx HITLS_REC_NORMAL_RECV_UNEXPECT_MSG ALERT_UNEXPECTED_MESSAGE
      else if \<not> isClient ctx \<and> plainAlertForbid ctx then
        ReturnAlertProcess ctx HITLS_REC_NORMAL_RECV_UNEXPECT_MSG ALERT_UNEXPECTED_MESSAGE
      else ProcessDecryptedAlert ctx dat)"

definition ALERT_ClearWarnCount :: "'e TLS_Ctx \<Rightarrow> REC_Type \<Rightarrow> 'e TLS_Ctx" where
  "ALERT_ClearWarnCount ctx recordType =
     (if recordType \<noteq> REC_TYPE_ALERT then ctx\<lparr>alertCtx := (alertCtx ctx)\<lparr>warnCount := 0\<rparr>\<rparr> else ctx)"

definition ALERT_HaveExceeded :: "'e TLS_Ctx \<Rightarrow> u8 \<Rightarrow> bool \<times> 'e TLS_Ctx" where
  "ALERT_HaveExceeded ctx threshold =
     (let ctx1 = ctx\<lparr>alertCtx := (alertCtx ctx)\<lparr>warnCount := warnCount (alertCtx ctx) + 1\<rparr>\<rparr>
      in (warnCount (alertCtx ctx1) \<ge> threshold, ctx1))"


section \<open>Raising fatal alerts\<close>

text \<open>What the other modules rely on: a fatal alert that is raised stays the one that is pending,
  and raising it touches nothing else of the context (\<open>view\<close>).\<close>

locale alarm =
  fixes raise :: "'c \<Rightarrow> u8 \<Rightarrow> 'c"
    and fatal :: "'c \<Rightarrow> u8 option"
    and view :: "'c \<Rightarrow> 'v"
  assumes raise_new: "fatal c = None \<Longrightarrow> fatal (raise c d) = Some d"
    and raise_keeps: "fatal c = Some d0 \<Longrightarrow> fatal (raise c d) = Some d0"
    and raise_view: "view (raise c d) = view c"
begin

lemma first_alarm_wins:
  "fatal (foldl raise c ds) = (case fatal c of Some d \<Rightarrow> Some d | None \<Rightarrow> (case ds of [] \<Rightarrow> None | d # _ \<Rightarrow> Some d))"
proof (induction ds arbitrary: c)
  case (Cons d ds)
  then show ?case using raise_new [of c d] raise_keeps [of c _ d] by (cases "fatal c") (auto split: option.splits list.splits)
qed (simp split: option.split)

lemma raise_fatal: "fatal (raise c d) \<noteq> None"
  using raise_new raise_keeps by (cases "fatal c") auto

lemma alarms_view: "view (foldl raise c ds) = view c"
  by (induction ds arbitrary: c) (simp_all add: raise_view)

end

definition raise_fatal_alert :: "'e TLS_Ctx \<Rightarrow> u8 \<Rightarrow> 'e TLS_Ctx" where
  "raise_fatal_alert ctx d = ALERT_Send ctx ALERT_LEVEL_FATAL d"

definition fatal_alert :: "'e TLS_Ctx \<Rightarrow> u8 option" where
  "fatal_alert ctx = (if flag (alertCtx ctx) \<noteq> ALERT_FLAG_NO \<and> level (alertCtx ctx) = ALERT_LEVEL_FATAL
     then Some (description (alertCtx ctx)) else None)"

definition without_alert :: "'e TLS_Ctx \<Rightarrow> 'e TLS_Ctx" where
  "without_alert ctx = ctx\<lparr>alertCtx := zero_alert\<rparr>"

interpretation alert: alarm raise_fatal_alert fatal_alert without_alert
  by unfold_locales
    (auto simp: raise_fatal_alert_def fatal_alert_def without_alert_def ALERT_Send_def AlertIsAbnormalInput_def
      split: if_splits)

lemma ReturnAlertProcess_fatal:
  "d \<noteq> ALERT_UNKNOWN \<Longrightarrow> fatal_alert (snd (ReturnAlertProcess ctx err d)) \<noteq> None"
  using alert.raise_fatal [of ctx d] by (simp add: ReturnAlertProcess_def raise_fatal_alert_def)

lemma ReturnAlertProcess_view: "without_alert (snd (ReturnAlertProcess ctx err d)) = without_alert ctx"
  using alert.raise_view [of ctx d] by (simp add: ReturnAlertProcess_def raise_fatal_alert_def)

section \<open>Properties\<close>

text \<open>One event of the alert module other than the cleaning of a processed alert: another module raises
  an alert, a record of type alert arrives (decrypted or plain), the warning counter changes.\<close>

inductive alert_event :: "'e tls_ops \<Rightarrow> 'e TLS_Ctx \<Rightarrow> 'e TLS_Ctx \<Rightarrow> bool" for ops where
  send: "alert_event ops ctx (ALERT_Send ctx lev desc)"
| recv: "alert_event ops ctx (snd (ProcessDecryptedAlert ctx dat))"
| recv_plain: "alert_event ops ctx (snd (ProcessPlainAlert ops ctx dat))"
| clear_count: "alert_event ops ctx (ALERT_ClearWarnCount ctx recordType)"
| count: "alert_event ops ctx (snd (ALERT_HaveExceeded ctx threshold))"

lemma fatal_not_replaced_step: "alert_event ops ctx ctx' \<Longrightarrow> fatal_alert ctx = Some d \<Longrightarrow>
   fatal_alert ctx' = Some d \<and> flag (alertCtx ctx') = flag (alertCtx ctx)"
  by (induction rule: alert_event.induct)
    (auto simp: fatal_alert_def ALERT_Send_def AlertIsAbnormalInput_def ProcessDecryptedAlert_def
      ProcessPlainAlert_def ReturnAlertProcess_def ALERT_ClearWarnCount_def ALERT_HaveExceeded_def Let_def
      split: if_splits)

text \<open>C17. A pending fatal alert is never replaced: whatever alerts other modules raise and whatever alert
  records arrive afterwards, the fatal alert that is sent or reported first stays pending, in the same
  direction, until it has been processed.\<close>

theorem alert_fatal_not_replaced:
  assumes "(alert_event ops)\<^sup>*\<^sup>* ctx ctx'" and "fatal_alert ctx = Some d"
  shows "fatal_alert ctx' = Some d \<and> flag (alertCtx ctx') = flag (alertCtx ctx)"
  using assms by (induction rule: rtranclp_induct) (auto dest: fatal_not_replaced_step)

text \<open>A context of a fresh client connection.\<close>

definition new_ctx :: "'e \<Rightarrow> 'e TLS_Ctx" where
  "new_ctx e = \<lparr>alertCtx = zero_alert,
     ccsCtx = \<lparr>isReady = False, ccsRecvflag = False, isAllowActiveCipher = False, activeCipherFlag = False\<rparr>,
     state = CM_STATE_IDLE, preState = CM_STATE_IDLE, connInit = False, shutdownState = 0, userShutDown = False, isQuietShutdown = False,
     version = 0, minVersion = HITLS_VERSION_TLS12, maxVersion = HITLS_VERSION_TLS13, versionBits = 0x30,
     endpoint = HITLS_ENDPOINT_UNDEFINED, isClient = True, plainAlertForbid = False, isDatagram = False,
     isUdp = False, isSctp = False, isRenegotiation = False, userRenego = False, allowAppOut = False,
     phaState = PHA_NONE, isEncryptThenMac = False, isEncryptThenMacRead = False, rwReading = False,
     sessionEnable = True, hsCtx = None, clientAppTrafficSecret = [], serverAppTrafficSecret = [],
     resumptionMasterSecret = [], rest = e\<rparr>"

theorem alert_fatal_not_replaced_witness:
  "fatal_alert (ALERT_Send (ALERT_Send (new_ctx ()) ALERT_LEVEL_FATAL ALERT_INTERNAL_ERROR)
     ALERT_LEVEL_WARNING ALERT_CLOSE_NOTIFY) = Some ALERT_INTERNAL_ERROR"
proof -
  let ?c = "ALERT_Send (new_ctx ()) ALERT_LEVEL_FATAL ALERT_INTERNAL_ERROR"
  have "(alert_event (undefined :: unit tls_ops))\<^sup>*\<^sup>* ?c (ALERT_Send ?c ALERT_LEVEL_WARNING ALERT_CLOSE_NOTIFY)"
    by (intro r_into_rtranclp alert_event.send)
  moreover have "fatal_alert ?c = Some ALERT_INTERNAL_ERROR"
    by (simp add: fatal_alert_def ALERT_Send_def AlertIsAbnormalInput_def new_ctx_def zero_alert_def)
  ultimately show ?thesis using alert_fatal_not_replaced by blast
qed

text \<open>What an arriving alert record does when no alert is pending. A record of the wrong length or
  with an unknown level makes the connection send a fatal alert. Otherwise the alert is recorded as
  received with its description, as fatal if it says so or, in TLS 1.3, if it is anything but
  close_notify, and as a warning otherwise. In every case an alert is pending afterwards, and nothing
  but the alert changes.\<close>

lemma alert_record_classified:
  assumes "flag (alertCtx ctx) = ALERT_FLAG_NO"
  shows "fst (ProcessDecryptedAlert ctx dat) = HITLS_REC_NORMAL_RECV_UNEXPECT_MSG
    \<and> without_alert (snd (ProcessDecryptedAlert ctx dat)) = without_alert ctx
    \<and> ALERT_GetInfo (snd (ProcessDecryptedAlert ctx dat)) =
      (case dat of
         [lev, desc] \<Rightarrow>
           if lev = ALERT_LEVEL_FATAL \<or> lev = ALERT_LEVEL_WARNING
           then (ALERT_FLAG_RECV,
                 if lev = ALERT_LEVEL_FATAL \<or> ALERT_GetVersion ctx = HITLS_VERSION_TLS13 \<and> desc \<noteq> ALERT_CLOSE_NOTIFY
                 then ALERT_LEVEL_FATAL else ALERT_LEVEL_WARNING, desc)
           else (ALERT_FLAG_SEND, ALERT_LEVEL_FATAL, ALERT_ILLEGAL_PARAMETER)
       | _ \<Rightarrow> (ALERT_FLAG_SEND, ALERT_LEVEL_FATAL, ALERT_UNEXPECTED_MESSAGE))"
proof (cases "\<exists>lev desc. dat = [lev, desc]")
  case True
  then show ?thesis using assms
    by (auto simp: ProcessDecryptedAlert_def without_alert_def ALERT_GetInfo_def ALERT_Send_def
        AlertIsAbnormalInput_def Let_def)
next
  case False
  then have "length dat \<noteq> 2" by (auto simp: length_Suc_conv numeral_2_eq_2)
  then show ?thesis using assms False
    by (auto simp: ProcessDecryptedAlert_def without_alert_def ALERT_GetInfo_def ALERT_Send_def
        AlertIsAbnormalInput_def split: list.split)
qed

end
