(* ===== verification/Ccs.thy ===== *)
theory Ccs
  imports Alert
begin

text \<open>
  The change-cipher-spec module (\<^verbatim>\<open>tls/ccs/src/change_cipher_spec.c\<close>): when a change cipher spec
  record is accepted and when the pending read keys are activated. The activation itself is
  \<open>REC_ActivePendingState\<close> of the record layer. A null context pointer is \<open>None\<close>.
\<close>

datatype CCS_Cmd = CCS_CMD_RECV_READY | CCS_CMD_RECV_EXIT_READY | CCS_CMD_RECV_ACTIVE_CIPHER_SPEC | CCS_CMD_INVALID nat

definition CCS_IsRecv :: "'e TLS_Ctx \<Rightarrow> bool" where
  "CCS_IsRecv ctx = ccsRecvflag (ccsCtx ctx)"

definition CCS_Send :: "'e tls_ops \<Rightarrow> 'e TLS_Ctx option \<Rightarrow> hitls_ret \<times> 'e TLS_Ctx option" where
  "CCS_Send ops c =
     (case c of
        None \<Rightarrow> (HITLS_NULL_INPUT, None)
      | Some ctx \<Rightarrow>
          let busy = (if isSctp ctx \<and> isRenegotiation ctx then
                        case UIO_SctpSndBuffIsEmpty ops ctx of
                          None \<Rightarrow> Some HITLS_UIO_FAIL
                        | Some isBuffEmpty \<Rightarrow> if \<not> isBuffEmpty then Some HITLS_REC_NORMAL_IO_BUSY else None
                      else None) in
          case busy of
            Some ret \<Rightarrow> (ret, Some ctx)
          | None \<Rightarrow>
              (case REC_Write ops REC_TYPE_CHANGE_CIPHER_SPEC [1] ctx of
                 (ret, ctx1) \<Rightarrow>
                   if ret \<noteq> HITLS_SUCCESS then (ret, Some ctx1)
                   else if isDatagram ctx1 \<and> isUdp ctx1 then
                     case REC_RetransmitListAppend ops REC_TYPE_CHANGE_CIPHER_SPEC [1] ctx1 of
                       (ret, ctx2) \<Rightarrow> (ret, Some ctx2)
                   else (HITLS_SUCCESS, Some ctx1)))"

definition CCS_Ctrl :: "'e tls_ops \<Rightarrow> CCS_Cmd \<Rightarrow> 'e TLS_Ctx option \<Rightarrow> hitls_ret \<times> 'e TLS_Ctx option" where
  "CCS_Ctrl ops cmd c =
     (case c of
        None \<Rightarrow> (HITLS_NULL_INPUT, None)
      | Some ctx \<Rightarrow>
          (case cmd of
             CCS_CMD_RECV_READY \<Rightarrow> (HITLS_SUCCESS, Some (ctx\<lparr>ccsCtx := (ccsCtx ctx)\<lparr>isReady := True\<rparr>\<rparr>))
           | CCS_CMD_RECV_EXIT_READY \<Rightarrow>
               (HITLS_SUCCESS, Some (ctx\<lparr>ccsCtx := (ccsCtx ctx)\<lparr>isReady := False, ccsRecvflag := False,
                  isAllowActiveCipher := False, activeCipherFlag := False\<rparr>\<rparr>))
           | CCS_CMD_RECV_ACTIVE_CIPHER_SPEC \<Rightarrow>
               let ctx1 = ctx\<lparr>ccsCtx := (ccsCtx ctx)\<lparr>isAllowActiveCipher := True\<rparr>\<rparr> in
               if ccsRecvflag (ccsCtx ctx1) \<and> \<not> activeCipherFlag (ccsCtx ctx1) then
                 (case REC_ActivePendingState ops ctx1 of
                    (ret, ctx2) \<Rightarrow>
                      if ret \<noteq> HITLS_SUCCESS then (ret, Some (ALERT_Send ctx2 ALERT_LEVEL_FATAL ALERT_INTERNAL_ERROR))
                      else (HITLS_SUCCESS, Some (ctx2\<lparr>ccsCtx := (ccsCtx ctx2)\<lparr>activeCipherFlag := True\<rparr>\<rparr>)))
               else (HITLS_SUCCESS, Some ctx1)
           | CCS_CMD_INVALID n \<Rightarrow> (HITLS_CCS_INVALID_CMD, Some ctx)))"

definition ProcessPlainCCS :: "'e tls_ops \<Rightarrow> 'e TLS_Ctx \<Rightarrow> bytes \<Rightarrow> hitls_ret \<times> 'e TLS_Ctx" where
  "ProcessPlainCCS ops ctx dat =
     (if \<not> isReady (ccsCtx ctx) then
        if isDatagram ctx \<and> isUdp ctx then (HITLS_REC_NORMAL_RECV_BUF_EMPTY, ctx\<lparr>rwReading := True\<rparr>)
        else ReturnAlertProcess ctx HITLS_REC_NORMAL_RECV_UNEXPECT_MSG ALERT_UNEXPECTED_MESSAGE
      else if length dat \<noteq> 1 then
        ReturnAlertProcess ctx HITLS_REC_NORMAL_RECV_UNEXPECT_MSG ALERT_UNEXPECTED_MESSAGE
      else if dat ! 0 \<noteq> 1 then
        ReturnAlertProcess ctx HITLS_REC_NORMAL_RECV_UNEXPECT_MSG ALERT_UNEXPECTED_MESSAGE
      else if ccsRecvflag (ccsCtx ctx) \<and> \<not> isUdp ctx \<and> GET_VERSION_FROM_CTX ctx \<noteq> HITLS_VERSION_TLS13 then
        ReturnAlertProcess ctx HITLS_REC_NORMAL_RECV_UNEXPECT_MSG ALERT_UNEXPECTED_MESSAGE
      else
        let act = (if isAllowActiveCipher (ccsCtx ctx) \<and> \<not> activeCipherFlag (ccsCtx ctx) then
                     case REC_ActivePendingState ops ctx of
                       (ret, ctx1) \<Rightarrow>
                         if ret \<noteq> HITLS_SUCCESS then Inl ctx1
                         else Inr (ctx1\<lparr>ccsCtx := (ccsCtx ctx1)\<lparr>activeCipherFlag := True\<rparr>\<rparr>)
                   else Inr ctx)
        in case act of
          Inl ctx1 \<Rightarrow> ReturnAlertProcess ctx1 HITLS_REC_NORMAL_RECV_UNEXPECT_MSG ALERT_INTERNAL_ERROR
        | Inr ctx1 \<Rightarrow>
            let ctx2 = ctx1\<lparr>ccsCtx := (ccsCtx ctx1)\<lparr>ccsRecvflag := True\<rparr>\<rparr>
            in (HITLS_REC_NORMAL_RECV_UNEXPECT_MSG, ctx2\<lparr>isEncryptThenMacRead := isEncryptThenMac ctx2\<rparr>))"

text \<open>A record that was encrypted.\<close>

definition ProcessDecryptedCCS :: "'e tls_ops \<Rightarrow> 'e TLS_Ctx \<Rightarrow> bytes \<Rightarrow> hitls_ret \<times> 'e TLS_Ctx" where
  "ProcessDecryptedCCS ops ctx dat =
     (if GET_VERSION_FROM_CTX ctx = HITLS_VERSION_TLS13 then
        ReturnAlertProcess ctx HITLS_REC_NORMAL_RECV_UNEXPECT_MSG ALERT_UNEXPECTED_MESSAGE
      else ProcessPlainCCS ops ctx dat)"

section \<open>Key activation\<close>

text \<open>The record layer as these theorems see it: the context carries the number of activations that
  succeeded, and activating does not touch the state of this module.\<close>

definition counts_activations :: "nat tls_ops \<Rightarrow> bool" where
  "counts_activations ops = (\<forall>ctx. ccsCtx (snd (REC_ActivePendingState ops ctx)) = ccsCtx ctx
     \<and> rest (snd (REC_ActivePendingState ops ctx))
       = (if fst (REC_ActivePendingState ops ctx) = HITLS_SUCCESS then Suc (rest ctx) else rest ctx))"

text \<open>One event of the module during a handshake: a command of the handshake (other than leaving the
  phase) or an arriving change cipher spec record.\<close>

inductive ccs_event :: "'e tls_ops \<Rightarrow> 'e TLS_Ctx \<Rightarrow> 'e TLS_Ctx \<Rightarrow> bool" for ops where
  ctrl: "CCS_Ctrl ops cmd (Some ctx) = (ret, Some ctx') \<Longrightarrow> cmd \<noteq> CCS_CMD_RECV_EXIT_READY \<Longrightarrow> ccs_event ops ctx ctx'"
| recv_ccs: "ProcessPlainCCS ops ctx dat = (ret, ctx') \<Longrightarrow> ccs_event ops ctx ctx'"
| recv_encrypted_ccs: "ProcessDecryptedCCS ops ctx dat = (ret, ctx') \<Longrightarrow> ccs_event ops ctx ctx'"

inductive_cases ccs_eventE: "ccs_event ops ctx ctx'"

definition ccs_inv :: "CcsCtx \<Rightarrow> bool" where
  "ccs_inv c = (activeCipherFlag c \<longrightarrow> ccsRecvflag c \<and> isAllowActiveCipher c)"

lemma ALERT_Send_fields [simp]:
  "ccsCtx (ALERT_Send ctx l d) = ccsCtx ctx" "rest (ALERT_Send ctx l d) = rest ctx"
  by (simp_all add: ALERT_Send_def)

lemma ReturnAlertProcess_fields:
  "ReturnAlertProcess ctx err d = (ret, ctx') \<Longrightarrow> ccsCtx ctx' = ccsCtx ctx \<and> rest ctx' = rest ctx"
  by (auto simp: ReturnAlertProcess_def split: if_splits)

text \<open>What an event does to the flags and to the number of activations.\<close>

definition ccs_effect :: "nat TLS_Ctx \<Rightarrow> nat TLS_Ctx \<Rightarrow> bool" where
  "ccs_effect ctx ctx' = (ccs_inv (ccsCtx ctx')
     \<and> (if activeCipherFlag (ccsCtx ctx) then activeCipherFlag (ccsCtx ctx') \<and> rest ctx' = rest ctx
        else rest ctx' = rest ctx + (if activeCipherFlag (ccsCtx ctx') then 1 else 0)))"

lemma CCS_Ctrl_effect:
  assumes "counts_activations ops" "ccs_inv (ccsCtx ctx)" "cmd \<noteq> CCS_CMD_RECV_EXIT_READY"
    and "CCS_Ctrl ops cmd (Some ctx) = (ret, Some ctx')"
  shows "ccs_effect ctx ctx'"
proof (cases cmd)
  case CCS_CMD_RECV_ACTIVE_CIPHER_SPEC
  let ?c = "ctx\<lparr>ccsCtx := (ccsCtx ctx)\<lparr>isAllowActiveCipher := True\<rparr>\<rparr>"
  obtain r c2 where "REC_ActivePendingState ops ?c = (r, c2)" by (cases "REC_ActivePendingState ops ?c") auto
  moreover from this have "ccsCtx c2 = ccsCtx ?c" "rest c2 = (if r = HITLS_SUCCESS then Suc (rest ctx) else rest ctx)"
    using assms(1) unfolding counts_activations_def by (metis fst_conv snd_conv TLS_Ctx.select_convs TLS_Ctx.surjective TLS_Ctx.update_convs(2))+
  ultimately show ?thesis using assms(2,4) CCS_CMD_RECV_ACTIVE_CIPHER_SPEC
    by (auto simp: CCS_Ctrl_def ccs_effect_def ccs_inv_def Let_def split: if_splits)
qed (use assms in \<open>auto simp: CCS_Ctrl_def ccs_effect_def ccs_inv_def\<close>)


lemma ProcessPlainCCS_effect:
  assumes "counts_activations ops" "ccs_inv (ccsCtx ctx)" "ProcessPlainCCS ops ctx dat = (ret, ctx')"
  shows "ccs_effect ctx ctx'"
proof -
  obtain r c2 where r: "REC_ActivePendingState ops ctx = (r, c2)" by (cases "REC_ActivePendingState ops ctx") auto
  from r have "ccsCtx c2 = ccsCtx ctx" "rest c2 = (if r = HITLS_SUCCESS then Suc (rest ctx) else rest ctx)"
    using assms(1) unfolding counts_activations_def by (metis fst_conv snd_conv)+
  then show ?thesis using assms(2,3) r
    by (auto simp: ProcessPlainCCS_def ccs_effect_def ccs_inv_def Let_def dest!: ReturnAlertProcess_fields split: if_splits)
qed

lemma ProcessDecryptedCCS_effect:
  assumes "counts_activations ops" "ccs_inv (ccsCtx ctx)" "ProcessDecryptedCCS ops ctx dat = (ret, ctx')"
  shows "ccs_effect ctx ctx'"
  using assms ProcessPlainCCS_effect [OF assms(1,2)]
  by (auto simp: ProcessDecryptedCCS_def ccs_effect_def dest!: ReturnAlertProcess_fields split: if_splits)

lemma ccs_event_effect:
  "ccs_event ops ctx ctx' \<Longrightarrow> counts_activations ops \<Longrightarrow> ccs_inv (ccsCtx ctx) \<Longrightarrow> ccs_effect ctx ctx'"
  by (erule ccs_eventE) (use CCS_Ctrl_effect ProcessPlainCCS_effect ProcessDecryptedCCS_effect in blast)+

lemma ccs_run_effect:
  assumes "(ccs_event ops)\<^sup>*\<^sup>* ctx ctx'" "counts_activations ops" "ccs_inv (ccsCtx ctx)"
  shows "ccs_effect ctx ctx'"
  using assms(1)
proof (induction rule: rtranclp_induct)
  case base
  then show ?case using assms(3) by (simp add: ccs_effect_def)
next
  case (step y z)
  have "ccs_effect y z" using ccs_event_effect [OF step.hyps(2) assms(2)] step.IH by (simp add: ccs_effect_def)
  then show ?case using step.IH by (auto simp: ccs_effect_def split: if_splits)
qed

section \<open>Properties\<close>


definition counting_ops :: "nat tls_ops" where
  "counting_ops = idle_ops\<lparr>REC_ActivePendingState := \<lambda>c. (HITLS_SUCCESS, c\<lparr>rest := Suc (rest c)\<rparr>)\<rparr>"

lemma counting_ops_counts: "counts_activations counting_ops"
  by (simp add: counts_activations_def counting_ops_def)


text \<open>A change cipher spec record is accepted only in the phase of the handshake that allows it, with
  the one legal content, and a second one only over UDP or in TLS 1.3. A record that is refused leaves the
  state of the module as it was; except for an early one over UDP, which is ignored, it makes a fatal
  alert pending. The value returned never lets the caller take the record as data.\<close>

lemma ccs_record_refused:
  assumes "\<not> (isReady (ccsCtx ctx) \<and> dat = [1] \<and>
      (ccsRecvflag (ccsCtx ctx) \<longrightarrow> isUdp ctx \<or> GET_VERSION_FROM_CTX ctx = HITLS_VERSION_TLS13))"
  shows "ccsCtx (snd (ProcessPlainCCS ops ctx dat)) = ccsCtx ctx
    \<and> (if \<not> isReady (ccsCtx ctx) \<and> isDatagram ctx \<and> isUdp ctx
       then fst (ProcessPlainCCS ops ctx dat) = HITLS_REC_NORMAL_RECV_BUF_EMPTY
         \<and> alertCtx (snd (ProcessPlainCCS ops ctx dat)) = alertCtx ctx
       else fst (ProcessPlainCCS ops ctx dat) = HITLS_REC_NORMAL_RECV_UNEXPECT_MSG
         \<and> fatal_alert (snd (ProcessPlainCCS ops ctx dat)) \<noteq> None)"
proof -
  let ?r = "ReturnAlertProcess ctx HITLS_REC_NORMAL_RECV_UNEXPECT_MSG ALERT_UNEXPECTED_MESSAGE"
  have r: "fatal_alert (snd ?r) \<noteq> None" "ccsCtx (snd ?r) = ccsCtx ctx" "fst ?r = HITLS_REC_NORMAL_RECV_UNEXPECT_MSG"
    using ReturnAlertProcess_fatal [of ALERT_UNEXPECTED_MESSAGE ctx HITLS_REC_NORMAL_RECV_UNEXPECT_MSG]
      ReturnAlertProcess_fields [of ctx HITLS_REC_NORMAL_RECV_UNEXPECT_MSG ALERT_UNEXPECTED_MESSAGE]
    by (auto simp: ReturnAlertProcess_def)
  have "dat = [1] \<longleftrightarrow> length dat = 1 \<and> dat ! 0 = 1" by (cases dat) auto
  then show ?thesis using assms r by (auto simp: ProcessPlainCCS_def)
qed

end
