(* ===== verification/Conn.thy ===== *)
theory Conn
  imports Ccs "HOL-Library.Monad_Syntax"
begin

text \<open>
  The connection state machine (\<^verbatim>\<open>tls/cm/src/conn_common.c\<close>, \<^verbatim>\<open>conn_establish.c\<close>, \<^verbatim>\<open>conn_write.c\<close>): the
  processing of pending alerts, the handshaking and renegotiating states, and the calls \<open>HITLS_Connect\<close>,
  \<open>HITLS_Accept\<close>, \<open>HITLS_Write\<close> and \<open>HITLS_Close\<close> with their dispatch on the state. A loop that does not
  end is the value \<open>None\<close>. The handshake itself, the record layer and the application data layer are
  the operations \<open>tls_ops\<close>.
\<close>

section \<open>State changes and alerts\<close>

definition cleanse :: "bytes \<Rightarrow> bytes" where
  "cleanse b = replicate (length b) 0"

definition ConnCleanSensitiveData :: "'e TLS_Ctx \<Rightarrow> 'e TLS_Ctx" where
  "ConnCleanSensitiveData ctx = ctx\<lparr>
     hsCtx := map_option (\<lambda>h. h\<lparr>masterKey := cleanse (masterKey h), earlySecret := cleanse (earlySecret h),
       handshakeSecret := cleanse (handshakeSecret h), serverHsTrafficSecret := cleanse (serverHsTrafficSecret h),
       clientHsTrafficSecret := cleanse (clientHsTrafficSecret h)\<rparr>) (hsCtx ctx),
     clientAppTrafficSecret := cleanse (clientAppTrafficSecret ctx),
     serverAppTrafficSecret := cleanse (serverAppTrafficSecret ctx),
     resumptionMasterSecret := cleanse (resumptionMasterSecret ctx)\<rparr>"

definition ChangeConnState :: "'e TLS_Ctx \<Rightarrow> CM_State \<Rightarrow> 'e TLS_Ctx" where
  "ChangeConnState ctx0 st =
     (let ctx = (if st = CM_STATE_ALERTED then ConnCleanSensitiveData ctx0 else ctx0) in
      if state ctx = st then ctx else ctx\<lparr>preState := state ctx, state := st\<rparr>)"

definition SESS_Disable :: "'e TLS_Ctx \<Rightarrow> 'e TLS_Ctx" where
  "SESS_Disable ctx = ctx\<lparr>sessionEnable := False\<rparr>"

definition CommonEventInAlertingState :: "'e tls_ops \<Rightarrow> 'e tls_call" where
  "CommonEventInAlertingState ops ctx =
     (case ALERT_GetInfo ctx of
        (fl, lev, desc) \<Rightarrow>
          if lev > ALERT_LEVEL_FATAL then (HITLS_INTERNAL_EXCEPTION, ctx)
          else case ALERT_Flush ops ctx of
            (ret, c1) \<Rightarrow>
              if ret \<noteq> HITLS_SUCCESS then (ret, c1)
              else if lev = ALERT_LEVEL_FATAL then
                (HITLS_SUCCESS, ChangeConnState (SESS_Disable c1) CM_STATE_ALERTED)
              else if desc = ALERT_CLOSE_NOTIFY then
                let c2 = ChangeConnState c1 (if userShutDown c1 then CM_STATE_CLOSED else CM_STATE_ALERTED);
                    c3 = c2\<lparr>shutdownState := shutdownState c2 OR HITLS_SENT_SHUTDOWN\<rparr>
                in (HITLS_SUCCESS,
                    if preState c3 \<noteq> CM_STATE_TRANSPORTING
                    then c3\<lparr>shutdownState := shutdownState c3 OR HITLS_RECEIVED_SHUTDOWN\<rparr> else c3)
              else (HITLS_SUCCESS, ALERT_CleanInfo (c1\<lparr>state := preState c1\<rparr>)))"

definition AlertRecvProcess :: "'e tls_ops \<Rightarrow> u8 \<Rightarrow> u8 \<Rightarrow> 'e tls_call" where
  "AlertRecvProcess ops lev desc ctx =
     (if lev = ALERT_LEVEL_FATAL then
        let c1 = ChangeConnState (SESS_Disable ctx) CM_STATE_ALERTED
        in (HITLS_SUCCESS, c1\<lparr>shutdownState := shutdownState c1 OR HITLS_RECEIVED_SHUTDOWN\<rparr>)
      else
        let c1 = ALERT_CleanInfo ctx in
        if desc \<noteq> ALERT_CLOSE_NOTIFY then (HITLS_SUCCESS, c1)
        else
          let c2 = c1\<lparr>shutdownState := shutdownState c1 OR HITLS_RECEIVED_SHUTDOWN\<rparr> in
          if isQuietShutdown c2 then
            (HITLS_SUCCESS,
             ChangeConnState (c2\<lparr>shutdownState := shutdownState c2 OR HITLS_SENT_SHUTDOWN\<rparr>) CM_STATE_ALERTED)
          else
            let finish = (\<lambda>c. (HITLS_CM_LINK_CLOSED,
                  if state c \<noteq> CM_STATE_CLOSED then ChangeConnState c CM_STATE_ALERTED else c)) in
            if shutdownState c2 AND HITLS_SENT_SHUTDOWN = 0 then
              if state c2 \<noteq> CM_STATE_TRANSPORTING then
                (case ALERT_Flush ops (ChangeConnState (ALERT_Send c2 ALERT_LEVEL_WARNING ALERT_CLOSE_NOTIFY) CM_STATE_ALERTING) of
                   (ret, c3) \<Rightarrow>
                     if ret \<noteq> HITLS_SUCCESS then (ret, c3)
                     else finish (c3\<lparr>shutdownState := shutdownState c3 OR HITLS_SENT_SHUTDOWN\<rparr>))
              else finish (ChangeConnState c2 CM_STATE_CLOSED)
            else finish c2)"

definition AlertEventProcess :: "'e tls_ops \<Rightarrow> 'e tls_call" where
  "AlertEventProcess ops ctx =
     (case ALERT_GetInfo ctx of
        (fl, lev, desc) \<Rightarrow>
          if fl = ALERT_FLAG_RECV then AlertRecvProcess ops lev desc ctx
          else if fl = ALERT_FLAG_SEND then CommonEventInAlertingState ops (ChangeConnState ctx CM_STATE_ALERTING)
          else (HITLS_SUCCESS, ctx))"

section \<open>Handshaking and renegotiation\<close>

text \<open>One round of the loop, in a handshake or a renegotiation. It leaves with the value to return at
  once, or with nothing when the handshake is complete, or goes on after a processed warning.\<close>

definition Handshaking_round :: "'e tls_ops \<Rightarrow> 'e TLS_Ctx \<Rightarrow> (hitls_ret option \<times> 'e TLS_Ctx) + 'e TLS_Ctx" where
  "Handshaking_round ops ctx =
     (let (ret, c1) = HS_DoHandshake ops ctx in
      if ret = HITLS_SUCCESS then Inl (None, c1)
      else
        let c2 = (if ret = HITLS_REC_NORMAL_RECV_UNEXPECT_MSG \<and> REC_GetUnexpectedMsgType ops c1 = REC_TYPE_APP
                  then ALERT_Send c1 ALERT_LEVEL_FATAL ALERT_UNEXPECTED_MESSAGE else c1) in
        if \<not> ALERT_GetFlag c2 then Inl (Some ret, c2)
        else
          let (exceeded, c3) = ALERT_HaveExceeded c2 MAX_ALERT_COUNT in
          if exceeded then
            let (alertRet, c4) = AlertEventProcess ops (ALERT_Send c3 ALERT_LEVEL_FATAL ALERT_UNEXPECTED_MESSAGE)
            in Inl (Some (if alertRet = HITLS_SUCCESS then ret else alertRet), c4)
          else
            let (alertRet, c4) = AlertEventProcess ops c3 in
            if alertRet \<noteq> HITLS_SUCCESS then Inl (Some alertRet, c4)
            else if state c4 = CM_STATE_ALERTED then Inl (Some ret, c4)
            else Inr c4)"

definition Handshaking_loop :: "'e tls_ops \<Rightarrow> 'e TLS_Ctx \<Rightarrow> (hitls_ret option \<times> 'e TLS_Ctx) option" where
  "Handshaking_loop ops = repeat_round (Handshaking_round ops)"

definition CommonEventInHandshakingState :: "'e tls_ops \<Rightarrow> 'e TLS_Ctx \<Rightarrow> (hitls_ret \<times> 'e TLS_Ctx) option" where
  "CommonEventInHandshakingState ops ctx =
     do { (r, c) \<leftarrow> Handshaking_loop ops ctx;
          case r of
            Some ret \<Rightarrow> Some (ret, c)
          | None \<Rightarrow> Some (HITLS_SUCCESS, HS_DeInit ops (ChangeConnState c CM_STATE_TRANSPORTING)) }"

definition InnerRenegotiationProcess :: "'e TLS_Ctx \<Rightarrow> 'e TLS_Ctx" where
  "InnerRenegotiationProcess ctx =
     (case ALERT_GetInfo ctx of
        (fl, lev, desc) \<Rightarrow>
          if lev = ALERT_LEVEL_WARNING \<and> desc = ALERT_NO_RENEGOTIATION
          then ALERT_Send ctx ALERT_LEVEL_FATAL ALERT_HANDSHAKE_FAILURE else ctx)"

definition Renegotiation_round :: "'e tls_ops \<Rightarrow> 'e TLS_Ctx \<Rightarrow> (hitls_ret option \<times> 'e TLS_Ctx) + 'e TLS_Ctx" where
  "Renegotiation_round ops ctx =
     (let (ret, c1) = HS_DoHandshake ops ctx in
      if ret = HITLS_SUCCESS then Inl (None, c1)
      else
        let app = (ret = HITLS_REC_NORMAL_RECV_UNEXPECT_MSG \<and> REC_GetUnexpectedMsgType ops c1 = REC_TYPE_APP) in
        if app \<and> allowAppOut c1 \<and> HS_AppDataAllowed ops c1 then Inl (Some ret, c1)
        else
          let c2 = (if app then ALERT_Send c1 ALERT_LEVEL_FATAL ALERT_UNEXPECTED_MESSAGE else c1) in
          if \<not> ALERT_GetFlag c2 then Inl (Some ret, c2)
          else
            let (exceeded, c3) = ALERT_HaveExceeded (InnerRenegotiationProcess c2) MAX_ALERT_COUNT;
                c4 = (if exceeded then ALERT_Send c3 ALERT_LEVEL_FATAL ALERT_UNEXPECTED_MESSAGE else c3);
                (alertRet, c5) = AlertEventProcess ops c4 in
            if alertRet \<noteq> HITLS_SUCCESS then Inl (Some alertRet, c5)
            else if state c5 = CM_STATE_ALERTED then Inl (Some ret, c5)
            else Inr c5)"

definition Renegotiation_loop :: "'e tls_ops \<Rightarrow> 'e TLS_Ctx \<Rightarrow> (hitls_ret option \<times> 'e TLS_Ctx) option" where
  "Renegotiation_loop ops = repeat_round (Renegotiation_round ops)"

definition CommonEventInRenegotiationState :: "'e tls_ops \<Rightarrow> 'e TLS_Ctx \<Rightarrow> (hitls_ret \<times> 'e TLS_Ctx) option" where
  "CommonEventInRenegotiationState ops ctx =
     do { (r, c) \<leftarrow> Renegotiation_loop ops ctx;
          case r of
            Some ret \<Rightarrow> Some (ret, c)
          | None \<Rightarrow>
              let c1 = HS_DeInit ops (ChangeConnState c CM_STATE_TRANSPORTING);
                  c2 = (if isRenegotiation c1 then c1\<lparr>userRenego := False, isRenegotiation := False\<rparr> else c1)
              in Some (REC_RecOutBufReSet ops c2) }"


section \<open>Establishing a connection\<close>

definition HITLS_SetEndPoint :: "bool \<Rightarrow> 'e tls_call" where
  "HITLS_SetEndPoint client ctx =
     (if state ctx \<noteq> CM_STATE_IDLE then (HITLS_MSG_HANDLE_STATE_ILLEGAL, ctx)
      else (HITLS_SUCCESS, ctx\<lparr>isClient := client\<rparr>))"

definition SetTlsMinMaxVersion :: "'e TLS_Ctx \<Rightarrow> 'e TLS_Ctx" where
  "SetTlsMinMaxVersion ctx =
     (let has = (\<lambda>b. versionBits ctx AND b = b);
          c1 = (if has TLS12_VERSION_BIT then ctx\<lparr>minVersion := HITLS_VERSION_TLS12\<rparr>
                else if has TLS13_VERSION_BIT then ctx\<lparr>minVersion := HITLS_VERSION_TLS13\<rparr> else ctx);
          c2 = (if has TLS13_VERSION_BIT then c1\<lparr>maxVersion := HITLS_VERSION_TLS13\<rparr>
                else if has TLS12_VERSION_BIT then c1\<lparr>maxVersion := HITLS_VERSION_TLS12\<rparr> else c1)
      in if has DTLS12_VERSION_BIT
         then c2\<lparr>maxVersion := HITLS_VERSION_DTLS12, minVersion := HITLS_VERSION_DTLS12\<rparr> else c2)"

definition SetConnState :: "bool \<Rightarrow> 'e tls_call" where
  "SetConnState client ctx =
     (let c1 = (if endpoint ctx = HITLS_ENDPOINT_UNDEFINED
                then ctx\<lparr>endpoint := if client then HITLS_ENDPOINT_CLIENT else HITLS_ENDPOINT_SERVER\<rparr> else ctx)
      in if endpoint c1 = HITLS_ENDPOINT_SERVER then HITLS_SetEndPoint False (SetTlsMinMaxVersion c1)
         else HITLS_SetEndPoint True c1)"

text \<open>Both idle-state handlers; connecting first forbids the versions of another protocol family.\<close>

definition ConnectEventInIdleState :: "'e tls_ops \<Rightarrow> 'e TLS_Ctx \<Rightarrow> (hitls_ret \<times> 'e TLS_Ctx) option" where
  "ConnectEventInIdleState ops ctx =
     (let (ret, c1) = CONN_Init ops (ForbidTlcp ops ctx) in
      if ret \<noteq> HITLS_SUCCESS then Some (ret, c1)
      else CommonEventInHandshakingState ops (ChangeConnState c1 CM_STATE_HANDSHAKING))"

definition AcceptEventInIdleState :: "'e tls_ops \<Rightarrow> 'e TLS_Ctx \<Rightarrow> (hitls_ret \<times> 'e TLS_Ctx) option" where
  "AcceptEventInIdleState ops ctx =
     (let (ret, c1) = CONN_Init ops ctx in
      if ret \<noteq> HITLS_SUCCESS then Some (ret, c1)
      else CommonEventInHandshakingState ops (ChangeConnState c1 CM_STATE_HANDSHAKING))"

definition EstablishEventInRenegotiationState :: "'e tls_ops \<Rightarrow> 'e TLS_Ctx \<Rightarrow> (hitls_ret \<times> 'e TLS_Ctx) option" where
  "EstablishEventInRenegotiationState ops ctx =
     do { (ret, c) \<leftarrow> CommonEventInRenegotiationState ops ctx;
          Some (if ret \<noteq> HITLS_SUCCESS \<and> \<not> (ret = HITLS_REC_NORMAL_RECV_UNEXPECT_MSG \<and> state c \<noteq> CM_STATE_ALERTED)
                then ret else HITLS_SUCCESS, c) }"

definition ProcessCtxState :: "'e tls_ops \<Rightarrow> 'e tls_call" where
  "ProcessCtxState ops ctx =
     (let (ret, c1) = (if state ctx = CM_STATE_ALERTING then CommonEventInAlertingState ops ctx else (HITLS_SUCCESS, ctx)) in
      if ret \<noteq> HITLS_SUCCESS then (ret, c1)
      else if state c1 = CM_STATE_ALERTING then (HITLS_INTERNAL_EXCEPTION, c1)
      else (HITLS_SUCCESS, c1))"

definition CommonCheckPostHandshakeAuth :: "'e tls_ops \<Rightarrow> 'e tls_call" where
  "CommonCheckPostHandshakeAuth ops ctx =
     (if \<not> isClient ctx \<and> phaState ctx = PHA_PENDING \<and> state ctx = CM_STATE_TRANSPORTING
      then HS_CheckPostHandshakeAuth ops (ChangeConnState ctx CM_STATE_HANDSHAKING)
      else (HITLS_SUCCESS, ctx))"

text \<open>The dispatch of both calls on the state; the alerting state never gets here.\<close>

definition establish_event :: "'e tls_ops \<Rightarrow> bool \<Rightarrow> 'e TLS_Ctx \<Rightarrow> (hitls_ret \<times> 'e TLS_Ctx) option" where
  "establish_event ops client ctx =
     (case state ctx of
        CM_STATE_IDLE \<Rightarrow> if client then ConnectEventInIdleState ops ctx else AcceptEventInIdleState ops ctx
      | CM_STATE_HANDSHAKING \<Rightarrow> CommonEventInHandshakingState ops ctx
      | CM_STATE_TRANSPORTING \<Rightarrow> Some (HITLS_SUCCESS, ctx)
      | CM_STATE_RENEGOTIATION \<Rightarrow> EstablishEventInRenegotiationState ops ctx
      | CM_STATE_ALERTING \<Rightarrow> None
      | CM_STATE_ALERTED \<Rightarrow> Some (HITLS_CM_LINK_FATAL_ALERTED, ctx)
      | CM_STATE_CLOSED \<Rightarrow> Some (HITLS_CM_LINK_CLOSED, ctx))"

definition HITLS_Connect :: "'e tls_ops \<Rightarrow> 'e TLS_Ctx \<Rightarrow> (hitls_ret \<times> 'e TLS_Ctx) option" where
  "HITLS_Connect ops ctx =
     (let (ret, c1) = ProcessCtxState ops ctx in
      if ret \<noteq> HITLS_SUCCESS then Some (ret, c1)
      else
        let c2 = c1\<lparr>allowAppOut := False\<rparr>;
            (ret, c3) = (if state c2 = CM_STATE_IDLE then SetConnState True c2 else (HITLS_SUCCESS, c2)) in
        if ret \<noteq> HITLS_SUCCESS then Some (ret, c3)
        else establish_event ops True c3)"

definition HITLS_Accept :: "'e tls_ops \<Rightarrow> 'e TLS_Ctx \<Rightarrow> (hitls_ret \<times> 'e TLS_Ctx) option" where
  "HITLS_Accept ops ctx =
     (let (ret, c1) = ProcessCtxState ops ctx in
      if ret \<noteq> HITLS_SUCCESS then Some (ret, c1)
      else
        let c2 = c1\<lparr>allowAppOut := False\<rparr>;
            (ret, c3) = (if state c2 = CM_STATE_IDLE then SetConnState False c2 else (HITLS_SUCCESS, c2)) in
        if ret \<noteq> HITLS_SUCCESS then Some (ret, c3)
        else
          let (ret, c4) = CommonCheckPostHandshakeAuth ops c3 in
          if ret \<noteq> HITLS_SUCCESS then Some (ret, c4)
          else establish_event ops False c4)"

section \<open>Writing\<close>

definition Write_round :: "'e tls_ops \<Rightarrow> bytes \<Rightarrow> 'e TLS_Ctx \<Rightarrow> (hitls_ret \<times> nat \<times> 'e TLS_Ctx) + 'e TLS_Ctx" where
  "Write_round ops dat ctx =
     (let (ret, c1) = HS_CheckAndProcess2MslTimeout ops ctx in
      if ret \<noteq> HITLS_SUCCESS then Inl (ret, 0, c1)
      else
        let (ret, n, c2) = APP_Write ops dat c1 in
        if ret = HITLS_SUCCESS then Inl (ret, n, c2)
        else if \<not> ALERT_GetFlag c2 then Inl (ret, n, c2)
        else
          let (exceeded, c3) = ALERT_HaveExceeded c2 MAX_ALERT_COUNT;
              c4 = (if exceeded then ALERT_Send c3 ALERT_LEVEL_FATAL ALERT_UNEXPECTED_MESSAGE else c3);
              (alertRet, c5) = AlertEventProcess ops c4 in
          if alertRet \<noteq> HITLS_SUCCESS then Inl (alertRet, n, c5)
          else if state c5 = CM_STATE_ALERTED then Inl (ret, n, c5)
          else Inr c5)"

definition WriteEventInTransportingState :: "'e tls_ops \<Rightarrow> bytes \<Rightarrow> 'e TLS_Ctx \<Rightarrow> (hitls_ret \<times> nat \<times> 'e TLS_Ctx) option" where
  "WriteEventInTransportingState ops dat = repeat_round (Write_round ops dat)"

definition WriteEventInHandshakingState :: "'e tls_ops \<Rightarrow> bytes \<Rightarrow> 'e TLS_Ctx \<Rightarrow> (hitls_ret \<times> nat \<times> 'e TLS_Ctx) option" where
  "WriteEventInHandshakingState ops dat ctx =
     do { (ret, c1) \<leftarrow> CommonEventInHandshakingState ops ctx;
          if ret \<noteq> HITLS_SUCCESS then Some (ret, 0, c1) else WriteEventInTransportingState ops dat c1 }"

partial_function (option) WriteRenego_loop :: "'e tls_ops \<Rightarrow> 'e TLS_Ctx \<Rightarrow> (hitls_ret \<times> 'e TLS_Ctx) option" where
  "WriteRenego_loop ops ctx =
     do { (ret, c1) \<leftarrow> CommonEventInRenegotiationState ops ctx;
          if ret = HITLS_REC_NORMAL_RECV_UNEXPECT_MSG \<and> state c1 \<noteq> CM_STATE_ALERTED then WriteRenego_loop ops c1
          else Some (ret, c1) }"

definition WriteEventInRenegotiationState :: "'e tls_ops \<Rightarrow> bytes \<Rightarrow> 'e TLS_Ctx \<Rightarrow> (hitls_ret \<times> nat \<times> 'e TLS_Ctx) option" where
  "WriteEventInRenegotiationState ops dat ctx =
     (if REC_PendingData ops ctx then WriteEventInTransportingState ops dat ctx
      else do { (ret, c1) \<leftarrow> WriteRenego_loop ops ctx;
                if ret \<noteq> HITLS_SUCCESS \<and> (isRenegotiation c1 \<or> ret \<noteq> HITLS_REC_NORMAL_RECV_BUF_EMPTY)
                then Some (ret, 0, c1)
                else WriteEventInTransportingState ops dat c1 })"

definition WriteEventInClosedState :: "'e tls_ops \<Rightarrow> bytes \<Rightarrow> 'e TLS_Ctx \<Rightarrow> hitls_ret \<times> nat \<times> 'e TLS_Ctx" where
  "WriteEventInClosedState ops dat ctx =
     (if shutdownState ctx AND HITLS_SENT_SHUTDOWN = 0 then
        let (ret, n, c2) = APP_Write ops dat (ALERT_CleanInfo ctx) in
        if ret = HITLS_SUCCESS \<or> ret = HITLS_REC_NORMAL_IO_BUSY then (ret, n, c2)
        else if \<not> ALERT_GetFlag c2 then (ret, n, c2)
        else
          let (alertRet, c3) = AlertEventProcess ops c2 in
          if alertRet \<noteq> HITLS_SUCCESS then (alertRet, n, c3) else (ret, n, c3)
      else (HITLS_CM_LINK_CLOSED, 0, ctx))"

definition HITLS_WritePreporcess :: "'e tls_ops \<Rightarrow> 'e tls_call" where
  "HITLS_WritePreporcess ops ctx =
     (let (ret, c1) = (if state ctx = CM_STATE_ALERTING then CommonEventInAlertingState ops ctx else (HITLS_SUCCESS, ctx)) in
      if ret \<noteq> HITLS_SUCCESS then (ret, c1) else CommonCheckPostHandshakeAuth ops c1)"

definition write_event :: "'e tls_ops \<Rightarrow> bytes \<Rightarrow> 'e TLS_Ctx \<Rightarrow> (hitls_ret \<times> nat \<times> 'e TLS_Ctx) option" where
  "write_event ops dat ctx =
     (case state ctx of
        CM_STATE_IDLE \<Rightarrow> Some (HITLS_CM_LINK_UNESTABLISHED, 0, ctx)
      | CM_STATE_HANDSHAKING \<Rightarrow> WriteEventInHandshakingState ops dat ctx
      | CM_STATE_TRANSPORTING \<Rightarrow> WriteEventInTransportingState ops dat ctx
      | CM_STATE_RENEGOTIATION \<Rightarrow> WriteEventInRenegotiationState ops dat ctx
      | CM_STATE_ALERTING \<Rightarrow> Some (HITLS_INTERNAL_EXCEPTION, 0, ctx)
      | CM_STATE_ALERTED \<Rightarrow> Some (HITLS_CM_LINK_FATAL_ALERTED, 0, ctx)
      | CM_STATE_CLOSED \<Rightarrow> Some (WriteEventInClosedState ops dat ctx))"

definition HITLS_Write :: "'e tls_ops \<Rightarrow> bytes option \<Rightarrow> 'e TLS_Ctx \<Rightarrow> (hitls_ret \<times> nat \<times> 'e TLS_Ctx) option" where
  "HITLS_Write ops dat ctx =
     (if dat = None \<or> dat = Some [] then Some (HITLS_NULL_INPUT, 0, ctx)
      else
        let (ret, c1) = HITLS_WritePreporcess ops (ctx\<lparr>allowAppOut := False\<rparr>) in
        if ret \<noteq> HITLS_SUCCESS then Some (ret, 0, c1)
        else do { (ret, n, c2) \<leftarrow> write_event ops (the dat) c1;
                  Some (ret, if ret \<noteq> HITLS_SUCCESS then 0 else n, c2) })"

section \<open>Closing\<close>

definition send_close_notify :: "'e tls_ops \<Rightarrow> 'e tls_call" where
  "send_close_notify ops ctx = ALERT_Flush ops (ALERT_Send ctx ALERT_LEVEL_WARNING ALERT_CLOSE_NOTIFY)"

definition CloseEventInIdleState :: "'e tls_call" where
  "CloseEventInIdleState ctx =
     (let c1 = ChangeConnState ctx CM_STATE_CLOSED
      in (HITLS_SUCCESS, c1\<lparr>shutdownState := shutdownState c1 OR (HITLS_SENT_SHUTDOWN OR HITLS_RECEIVED_SHUTDOWN)\<rparr>))"

text \<open>The handlers of the handshaking and of the renegotiating state have the same text.\<close>

definition CloseEventInHandshakingState :: "'e tls_ops \<Rightarrow> 'e tls_call" where
  "CloseEventInHandshakingState ops ctx =
     (let (ret, c1) = (if shutdownState ctx AND HITLS_SENT_SHUTDOWN = 0
                       then case send_close_notify ops ctx of
                          (ret, c) \<Rightarrow> if ret \<noteq> HITLS_SUCCESS then (ret, ChangeConnState c CM_STATE_ALERTED)
                                     else (HITLS_SUCCESS, c\<lparr>shutdownState := shutdownState c OR HITLS_SENT_SHUTDOWN\<rparr>)
                       else (HITLS_SUCCESS, ctx)) in
      if ret \<noteq> HITLS_SUCCESS then (ret, c1)
      else (HITLS_SUCCESS, ChangeConnState (c1\<lparr>shutdownState := shutdownState c1 OR HITLS_RECEIVED_SHUTDOWN\<rparr>) CM_STATE_CLOSED))"

definition CloseEventInTransportingState :: "'e tls_ops \<Rightarrow> 'e tls_call" where
  "CloseEventInTransportingState ops ctx =
     (let (ret, c1) = (if shutdownState ctx AND HITLS_SENT_SHUTDOWN = 0
                       then case send_close_notify ops ctx of
                          (ret, c) \<Rightarrow> if ret \<noteq> HITLS_SUCCESS then (ret, ChangeConnState c CM_STATE_ALERTING)
                                     else (HITLS_SUCCESS, c\<lparr>shutdownState := shutdownState c OR HITLS_SENT_SHUTDOWN\<rparr>)
                       else (HITLS_SUCCESS, ctx)) in
      if ret \<noteq> HITLS_SUCCESS then (ret, c1) else (HITLS_SUCCESS, ChangeConnState c1 CM_STATE_CLOSED))"

definition CloseEventInAlertingState :: "'e tls_ops \<Rightarrow> 'e tls_call" where
  "CloseEventInAlertingState ops ctx =
     CommonEventInAlertingState ops (ALERT_Send ctx ALERT_LEVEL_WARNING ALERT_CLOSE_NOTIFY)"

definition CloseEventInAlertedState :: "'e tls_call" where
  "CloseEventInAlertedState ctx =
     (let c1 = ChangeConnState ctx CM_STATE_CLOSED
      in (HITLS_SUCCESS, c1\<lparr>shutdownState := shutdownState c1 OR (HITLS_SENT_SHUTDOWN OR HITLS_RECEIVED_SHUTDOWN)\<rparr>))"

definition CloseEventInClosedState :: "'e tls_ops \<Rightarrow> 'e tls_call" where
  "CloseEventInClosedState ops ctx =
     (if \<not> connInit ctx then (HITLS_SUCCESS, ctx)
      else if shutdownState ctx AND HITLS_RECEIVED_SHUTDOWN = 0 then
        let (ret, c1) = APP_Read ops (ALERT_CleanInfo ctx) in
        if ret = HITLS_SUCCESS then (HITLS_SUCCESS, c1)
        else if \<not> ALERT_GetFlag c1 then (ret, c1)
        else
          let (alertRet, c2) = AlertEventProcess ops c1 in
          if alertRet = HITLS_CM_LINK_CLOSED then (HITLS_SUCCESS, c2)
          else if alertRet \<noteq> HITLS_SUCCESS then (alertRet, c2)
          else (ret, c2)
      else
        let (ret, c1) = (if shutdownState ctx AND HITLS_SENT_SHUTDOWN = 0
                         then case send_close_notify ops ctx of
                            (ret, c) \<Rightarrow> if ret \<noteq> HITLS_SUCCESS then (ret, ChangeConnState c CM_STATE_ALERTING)
                                       else (HITLS_SUCCESS, c\<lparr>shutdownState := shutdownState c OR HITLS_SENT_SHUTDOWN\<rparr>)
                         else (HITLS_SUCCESS, ctx)) in
        if ret \<noteq> HITLS_SUCCESS then (ret, c1) else (HITLS_SUCCESS, ChangeConnState c1 CM_STATE_CLOSED))"

definition close_event :: "'e tls_ops \<Rightarrow> 'e tls_call" where
  "close_event ops ctx =
     (case state ctx of
        CM_STATE_IDLE \<Rightarrow> CloseEventInIdleState ctx
      | CM_STATE_HANDSHAKING \<Rightarrow> CloseEventInHandshakingState ops ctx
      | CM_STATE_TRANSPORTING \<Rightarrow> CloseEventInTransportingState ops ctx
      | CM_STATE_RENEGOTIATION \<Rightarrow> CloseEventInHandshakingState ops ctx
      | CM_STATE_ALERTING \<Rightarrow> CloseEventInAlertingState ops ctx
      | CM_STATE_ALERTED \<Rightarrow> CloseEventInAlertedState ctx
      | CM_STATE_CLOSED \<Rightarrow> CloseEventInClosedState ops ctx)"

definition Close_round :: "'e tls_ops \<Rightarrow> 'e TLS_Ctx \<Rightarrow> (hitls_ret \<times> 'e TLS_Ctx) + 'e TLS_Ctx" where
  "Close_round ops ctx =
     (let (ret, c1) = close_event ops ctx in
      if ret \<noteq> HITLS_SUCCESS then Inl (ret, c1)
      else if state c1 \<noteq> CM_STATE_CLOSED then Inr c1
      else Inl (HITLS_SUCCESS, c1))"

definition Close_loop :: "'e tls_ops \<Rightarrow> 'e TLS_Ctx \<Rightarrow> (hitls_ret \<times> 'e TLS_Ctx) option" where
  "Close_loop ops = repeat_round (Close_round ops)"

definition HITLS_Close :: "'e tls_ops \<Rightarrow> 'e TLS_Ctx \<Rightarrow> (hitls_ret \<times> 'e TLS_Ctx) option" where
  "HITLS_Close ops ctx =
     (let c1 = ctx\<lparr>userShutDown := True\<rparr> in
      if isQuietShutdown c1 then
        Some (HITLS_SUCCESS, ChangeConnState (c1\<lparr>shutdownState := shutdownState c1 OR
          (HITLS_SENT_SHUTDOWN OR HITLS_RECEIVED_SHUTDOWN)\<rparr>) CM_STATE_CLOSED)
      else Close_loop ops c1)"

end
