(* ===== verification/Conn_Correct.thy ===== *)
theory Conn_Correct
  imports Conn
begin

text \<open>
  Correctness of the connection state machine. The lower layers are arbitrary except that they leave
  the fields of the state machine alone (\<open>lower_ok\<close>), which only the connection module writes.
\<close>

definition conn_part :: "'e TLS_Ctx \<Rightarrow> CM_State \<times> CM_State \<times> bool" where
  "conn_part c = (state c, preState c, userShutDown c)"

definition lower_ok :: "'e tls_ops \<Rightarrow> bool" where
  "lower_ok ops = (\<forall>c. (\<forall>t d. conn_part (snd (REC_Write ops t d c)) = conn_part c)
     \<and> conn_part (snd (REC_OutBufFlush ops c)) = conn_part c
     \<and> conn_part (snd (REC_FlightTransmit ops c)) = conn_part c
     \<and> conn_part (snd (REC_RecOutBufReSet ops c)) = conn_part c
     \<and> conn_part (snd (HS_DoHandshake ops c)) = conn_part c
     \<and> conn_part (HS_DeInit ops c) = conn_part c
     \<and> conn_part (snd (HS_CheckPostHandshakeAuth ops c)) = conn_part c
     \<and> conn_part (snd (HS_CheckAndProcess2MslTimeout ops c)) = conn_part c
     \<and> conn_part (snd (CONN_Init ops c)) = conn_part c
     \<and> conn_part (ForbidTlcp ops c) = conn_part c
     \<and> (\<forall>d. conn_part (snd (snd (APP_Write ops d c))) = conn_part c)
     \<and> conn_part (snd (APP_Read ops c)) = conn_part c)"

lemma lower_okD:
  assumes "lower_ok ops"
  shows "REC_Write ops t d c = (r, c') \<Longrightarrow> conn_part c' = conn_part c"
    and "REC_OutBufFlush ops c = (r, c') \<Longrightarrow> conn_part c' = conn_part c"
    and "REC_FlightTransmit ops c = (r, c') \<Longrightarrow> conn_part c' = conn_part c"
    and "REC_RecOutBufReSet ops c = (r, c') \<Longrightarrow> conn_part c' = conn_part c"
    and "HS_DoHandshake ops c = (r, c') \<Longrightarrow> conn_part c' = conn_part c"
    and "conn_part (HS_DeInit ops c) = conn_part c"
    and "HS_CheckPostHandshakeAuth ops c = (r, c') \<Longrightarrow> conn_part c' = conn_part c"
    and "HS_CheckAndProcess2MslTimeout ops c = (r, c') \<Longrightarrow> conn_part c' = conn_part c"
    and "CONN_Init ops c = (r, c') \<Longrightarrow> conn_part c' = conn_part c"
    and "conn_part (ForbidTlcp ops c) = conn_part c"
    and "APP_Write ops d c = (r, n, c') \<Longrightarrow> conn_part c' = conn_part c"
    and "APP_Read ops c = (r, c') \<Longrightarrow> conn_part c' = conn_part c"
  using assms unfolding lower_ok_def by (metis snd_conv)+

lemma conn_part_simps [simp]:
  "conn_part (ALERT_Send c l d) = conn_part c" "conn_part (ALERT_CleanInfo c) = conn_part c"
  "conn_part (SESS_Disable c) = conn_part c" "conn_part (InnerRenegotiationProcess c) = conn_part c"
  "conn_part (c\<lparr>alertCtx := a\<rparr>) = conn_part c" "conn_part (c\<lparr>shutdownState := sd\<rparr>) = conn_part c"
  "conn_part (c\<lparr>allowAppOut := b\<rparr>) = conn_part c"
  "conn_part (ConnCleanSensitiveData c) = conn_part c"
  by (simp_all add: conn_part_def ALERT_Send_def ALERT_CleanInfo_def SESS_Disable_def InnerRenegotiationProcess_def
      ALERT_GetInfo_def ConnCleanSensitiveData_def)

lemma conn_part_HaveExceeded: "ALERT_HaveExceeded c m = (b, c') \<Longrightarrow> conn_part c' = conn_part c"
  by (auto simp: ALERT_HaveExceeded_def)

lemma conn_part_eqD: "conn_part c' = conn_part c \<Longrightarrow> state c' = state c \<and> preState c' = preState c \<and> userShutDown c' = userShutDown c"
  by (simp add: conn_part_def)

lemma conn_part_ChangeConnState:
  "conn_part (ChangeConnState c st) = (if state c = st then conn_part c else (st, state c, userShutDown c))"
  by (auto simp: ChangeConnState_def conn_part_def ConnCleanSensitiveData_def Let_def)

lemma flush_write_conn: "lower_ok ops \<Longrightarrow> flush_write ops c = (r, c') \<Longrightarrow> conn_part c' = conn_part c"
  by (auto simp: flush_write_def Let_def dest: lower_okD(1) split: prod.splits if_splits)

lemma Flush_conn:
  assumes ok: "lower_ok ops" and f: "ALERT_Flush ops c = (r, c')"
  shows "conn_part c' = conn_part c"
proof -
  obtain r1 c1 where 1: "(if REC_GetOutBufPendingSize ops c \<noteq> 0 then REC_OutBufFlush ops c else (HITLS_SUCCESS, c)) = (r1, c1)"
    by (cases "if REC_GetOutBufPendingSize ops c \<noteq> 0 then REC_OutBufFlush ops c else (HITLS_SUCCESS, c)") auto
  obtain r2 c2 where 2: "flush_write ops c1 = (r2, c2)" by (cases "flush_write ops c1") auto
  have "conn_part c1 = conn_part c" using 1 lower_okD(2) [OF ok] by (auto split: if_splits)
  moreover have "conn_part c2 = conn_part c1" using flush_write_conn [OF ok 2] .
  ultimately show ?thesis using f 1 2 lower_okD(3) [OF ok]
    by (auto simp: ALERT_Flush_def split: if_splits)
qed


section \<open>Classes of states closed under the state machine\<close>

text \<open>A context belongs to a class of states when its state does, or when it is sending an alert and
  will fall back to a state of the class.\<close>

definition in_class :: "(CM_State \<Rightarrow> bool) \<Rightarrow> 'e TLS_Ctx \<Rightarrow> bool" where
  "in_class good c = (if state c = CM_STATE_ALERTING then good (preState c) else good (state c))"

lemma in_class_cong: "conn_part c' = conn_part c \<Longrightarrow> in_class good c' = in_class good c"
  by (simp add: in_class_def conn_part_def)

text \<open>The classes that contain the two final states.\<close>

locale state_class =
  fixes good :: "CM_State \<Rightarrow> bool"
  assumes alerted: "good CM_STATE_ALERTED" and closed: "good CM_STATE_CLOSED" and not_alerting: "\<not> good CM_STATE_ALERTING"
begin

lemma change_good: "good st \<Longrightarrow> in_class good (ChangeConnState c st)"
  using conn_part_ChangeConnState [of c st] not_alerting
  by (auto simp: in_class_def conn_part_def split: if_splits)

lemma change_alerting: "in_class good c \<Longrightarrow> in_class good (ChangeConnState c CM_STATE_ALERTING)"
  using conn_part_ChangeConnState [of c CM_STATE_ALERTING]
  by (auto simp: in_class_def conn_part_def split: if_splits)

lemma state_change_alerting: "state (ChangeConnState c CM_STATE_ALERTING) = CM_STATE_ALERTING"
  by (simp add: ChangeConnState_def)

lemmas change_final = change_good [OF alerted] change_good [OF closed]

lemma CommonEventInAlertingState_class:
  assumes ok: "lower_ok ops" and m: "in_class good c" "state c = CM_STATE_ALERTING"
    and r: "CommonEventInAlertingState ops c = (ret, c')"
  shows "in_class good c'"
proof -
  obtain r1 c1 where f: "ALERT_Flush ops c = (r1, c1)" by (cases "ALERT_Flush ops c") auto
  note c1 = Flush_conn [OF ok f]
  have pre: "good (preState c1)" "state c1 = CM_STATE_ALERTING" using m conn_part_eqD [OF c1] by (simp_all add: in_class_def)
  have fall: "in_class good (ALERT_CleanInfo (c1\<lparr>state := preState c1\<rparr>))"
    using pre not_alerting by (auto simp: in_class_def ALERT_CleanInfo_def)
  have sd: "in_class good (x\<lparr>shutdownState := v\<rparr>) = in_class good x" for x :: "'a TLS_Ctx" and v
    by (rule in_class_cong) simp
  have "in_class good c1" using m(1) in_class_cong [OF c1] by blast
  then show ?thesis using r f m(1) fall change_final
    by (auto simp: CommonEventInAlertingState_def ALERT_GetInfo_def Let_def sd split: if_splits)
qed

lemma AlertRecvProcess_class:
  assumes ok: "lower_ok ops" and m: "in_class good c" and r: "AlertRecvProcess ops lev desc c = (ret, c')"
  shows "in_class good c'"
proof -
  have sd: "in_class good (x\<lparr>shutdownState := v\<rparr>) = in_class good x" for x :: "'a TLS_Ctx" and v
    by (rule in_class_cong) simp
  have cl: "in_class good (ALERT_CleanInfo x) = in_class good x" for x :: "'a TLS_Ctx"
    by (rule in_class_cong) simp
  define c2 where "c2 = (ALERT_CleanInfo c)\<lparr>shutdownState := shutdownState (ALERT_CleanInfo c) OR HITLS_RECEIVED_SHUTDOWN\<rparr>"
  define c3 where "c3 = ChangeConnState (ALERT_Send c2 ALERT_LEVEL_WARNING ALERT_CLOSE_NOTIFY) CM_STATE_ALERTING"
  have m2: "in_class good c2" using m by (simp add: c2_def sd cl)
  have "in_class good (ALERT_Send c2 ALERT_LEVEL_WARNING ALERT_CLOSE_NOTIFY)"
    using m2 in_class_cong conn_part_simps(1) by blast
  then have m3: "in_class good c3" unfolding c3_def by (rule change_alerting)
  obtain r4 c4 where f: "ALERT_Flush ops c3 = (r4, c4)" by (cases "ALERT_Flush ops c3") auto
  have "in_class good c4" using m3 in_class_cong [OF Flush_conn [OF ok f]] by blast
  then show ?thesis using r m m2 f change_final
    unfolding AlertRecvProcess_def Let_def c2_def [symmetric] c3_def [symmetric]
    by (auto simp: sd cl c2_def split: if_splits)
qed

lemma AlertEventProcess_class:
  assumes ok: "lower_ok ops" and m: "in_class good c" and r: "AlertEventProcess ops c = (ret, c')"
  shows "in_class good c'"
  using r m AlertRecvProcess_class [OF ok m]
    CommonEventInAlertingState_class [OF ok change_alerting [OF m] state_change_alerting]
  by (auto simp: AlertEventProcess_def ALERT_GetInfo_def split: if_splits)

lemma Handshaking_round_class:
  assumes ok: "lower_ok ops" and m: "in_class good c"
  shows "Handshaking_round ops c = Inr c' \<Longrightarrow> in_class good c'"
    and "Handshaking_round ops c = Inl (r, c') \<Longrightarrow> in_class good c'"
    and "Handshaking_round ops c = Inl (None, c') \<Longrightarrow> fst (HS_DoHandshake ops c) = HITLS_SUCCESS"
proof -
  obtain ret c1 where h: "HS_DoHandshake ops c = (ret, c1)" by (cases "HS_DoHandshake ops c") auto
  define c2 where "c2 = (if ret = HITLS_REC_NORMAL_RECV_UNEXPECT_MSG \<and> REC_GetUnexpectedMsgType ops c1 = REC_TYPE_APP
              then ALERT_Send c1 ALERT_LEVEL_FATAL ALERT_UNEXPECTED_MESSAGE else c1)"
  obtain b c3 where e: "ALERT_HaveExceeded c2 MAX_ALERT_COUNT = (b, c3)" by (cases "ALERT_HaveExceeded c2 MAX_ALERT_COUNT") auto
  have m1: "in_class good c1" using m in_class_cong [OF lower_okD(5) [OF ok h]] by blast
  have "conn_part c2 = conn_part c1" by (simp add: c2_def)
  then have m2: "in_class good c2" using m1 in_class_cong by blast
  have m3: "in_class good c3" using m2 in_class_cong [OF conn_part_HaveExceeded [OF e]] by blast
  have m3': "in_class good (ALERT_Send c3 l d)" for l d using m3 in_class_cong conn_part_simps(1) by blast
  note A = AlertEventProcess_class [OF ok m3] AlertEventProcess_class [OF ok m3']
  show "Handshaking_round ops c = Inr c' \<Longrightarrow> in_class good c'"
    and "Handshaking_round ops c = Inl (r, c') \<Longrightarrow> in_class good c'"
    and "Handshaking_round ops c = Inl (None, c') \<Longrightarrow> fst (HS_DoHandshake ops c) = HITLS_SUCCESS"
    using A m1 m2 unfolding Handshaking_round_def Let_def h split_conv c2_def [symmetric] e
    by (auto split: if_splits prod.splits)
qed

lemma Handshaking_loop_class:
  assumes ok: "lower_ok ops" and m: "in_class good c" and r: "Handshaking_loop ops c = Some (v, c')"
  shows "in_class good c'"
proof -
  have "in_class good (snd (v, c'))"
  proof (rule repeat_round_inv [OF r [unfolded Handshaking_loop_def], where P = "in_class good"])
    show "in_class good (snd x)" if "in_class good c" "Handshaking_round ops c = Inl x" for c x
      using Handshaking_round_class(2) [OF ok that(1)] that(2) by (cases x) simp
  qed (rule m, rule Handshaking_round_class(1) [OF ok])
  then show ?thesis by simp
qed

lemma ProcessCtxState_class:
  assumes "lower_ok ops" "in_class good c" "ProcessCtxState ops c = (ret, c')"
  shows "in_class good c'"
  using assms CommonEventInAlertingState_class [OF assms(1,2)]
  by (auto simp: ProcessCtxState_def Let_def split: if_splits prod.splits)

lemma send_close_class:
  assumes "lower_ok ops" "in_class good c" "send_close_notify ops c = (ret, c')"
  shows "in_class good c'"
  using assms Flush_conn [OF assms(1)] unfolding send_close_notify_def
  by (metis conn_part_simps(1) in_class_cong)

lemma close_event_class:
  assumes ok: "lower_ok ops" and m: "in_class good c" and r: "close_event ops c = (ret, c')"
  shows "in_class good c'"
proof -
  have sd: "in_class good (x\<lparr>shutdownState := v\<rparr>) = in_class good x" for x :: "'a TLS_Ctx" and v
    by (rule in_class_cong) simp
  have cl: "in_class good (ALERT_CleanInfo x) = in_class good x" for x :: "'a TLS_Ctx"
    by (rule in_class_cong) simp
  obtain r1 c1 where s: "send_close_notify ops c = (r1, c1)" by (cases "send_close_notify ops c") auto
  have m1: "in_class good c1" by (rule send_close_class [OF ok m s])
  note ch = change_final change_alerting [OF m1] sd cl m1 m
  show ?thesis
  proof (cases "state c")
    case CM_STATE_ALERTING
    have "in_class good (ALERT_Send c l d)" "state (ALERT_Send c l d) = CM_STATE_ALERTING" for l d
      using m CM_STATE_ALERTING in_class_cong [of "ALERT_Send c l d" c good] by (auto simp: ALERT_Send_def)
    from CommonEventInAlertingState_class [OF ok this] show ?thesis using r CM_STATE_ALERTING
      by (simp add: close_event_def CloseEventInAlertingState_def)
  next
    case CM_STATE_CLOSED
    obtain r2 c2 where a: "APP_Read ops (ALERT_CleanInfo c) = (r2, c2)" by (cases "APP_Read ops (ALERT_CleanInfo c)") auto
    have m2: "in_class good c2" using m in_class_cong [OF lower_okD(12) [OF ok a]] cl by blast
    obtain r3 c3 where e: "AlertEventProcess ops c2 = (r3, c3)" by (cases "AlertEventProcess ops c2") auto
    have m3: "in_class good c3" by (rule AlertEventProcess_class [OF ok m2 e])
    show ?thesis using r CM_STATE_CLOSED s a e m2 m3 ch
      by (auto simp: close_event_def CloseEventInClosedState_def Let_def split: if_splits)
  qed (use r s ch in \<open>auto simp: close_event_def CloseEventInIdleState_def CloseEventInHandshakingState_def
      CloseEventInTransportingState_def CloseEventInAlertedState_def Let_def split: if_splits\<close>)
qed

lemma HITLS_Close_class:
  assumes ok: "lower_ok ops" and m: "in_class good c" and r: "HITLS_Close ops c = Some (ret, c')"
  shows "in_class good c'"
proof (cases "isQuietShutdown c")
  case True
  then show ?thesis using r change_final by (auto simp: HITLS_Close_def)
next
  case False
  have m1: "in_class good (c\<lparr>userShutDown := True\<rparr>)" using m by (simp add: in_class_def)
  have "in_class good (snd (ret, c'))"
    by (rule repeat_round_inv [of "Close_round ops" "c\<lparr>userShutDown := True\<rparr>" _ "in_class good"])
      (use r False m1 close_event_class [OF ok] in
        \<open>auto simp: HITLS_Close_def Close_loop_def Close_round_def Let_def split: if_splits prod.splits\<close>)
  then show ?thesis by simp
qed

end

section \<open>Connections that are not established\<close>

lemma Handshaking_round_ret: "Handshaking_round ops c = Inl (Some r, c') \<Longrightarrow> r \<noteq> HITLS_SUCCESS"
  by (auto simp: Handshaking_round_def Let_def split: if_splits prod.splits)

definition never_completes :: "'e tls_ops \<Rightarrow> bool" where
  "never_completes ops = (\<forall>c. fst (HS_DoHandshake ops c) \<noteq> HITLS_SUCCESS)"

text \<open>One call of the application that returns.\<close>

inductive conn_call :: "'e tls_ops \<Rightarrow> 'e TLS_Ctx \<Rightarrow> 'e TLS_Ctx \<Rightarrow> bool" for ops where
  call_connect: "HITLS_Connect ops c = Some (ret, c') \<Longrightarrow> conn_call ops c c'"
| call_accept: "HITLS_Accept ops c = Some (ret, c') \<Longrightarrow> conn_call ops c c'"
| call_write: "HITLS_Write ops dat c = Some (ret, n, c') \<Longrightarrow> conn_call ops c c'"
| call_close: "HITLS_Close ops c = Some (ret, c') \<Longrightarrow> conn_call ops c c'"

inductive_cases conn_callE: "conn_call ops c c'"

text \<open>A class outside the established states; it contains the handshaking state only when idle
  connections are in it, and then no handshake completes.\<close>

locale broken_class = state_class +
  assumes not_transporting: "\<not> good CM_STATE_TRANSPORTING" and not_renegotiation: "\<not> good CM_STATE_RENEGOTIATION"
    and idle_handshaking: "good CM_STATE_IDLE \<Longrightarrow> good CM_STATE_HANDSHAKING"
begin

lemma CommonEventInHandshakingState_class:
  assumes ok: "lower_ok ops" and nc: "never_completes ops" and m: "in_class good c"
    and r: "CommonEventInHandshakingState ops c = Some (ret, c')"
  shows "in_class good c' \<and> ret \<noteq> HITLS_SUCCESS"
proof -
  obtain v c1 where l: "Handshaking_loop ops c = Some (v, c1)" using r
    by (auto simp: CommonEventInHandshakingState_def bind_eq_Some_conv)
  have "case v of None \<Rightarrow> False | Some ret \<Rightarrow> ret \<noteq> HITLS_SUCCESS"
  proof -
    have "case fst (v, c1) of None \<Rightarrow> False | Some ret \<Rightarrow> ret \<noteq> HITLS_SUCCESS"
    proof (rule repeat_round_inv [OF l [unfolded Handshaking_loop_def], where P = "in_class good"])
      show "case fst x of None \<Rightarrow> False | Some ret \<Rightarrow> ret \<noteq> HITLS_SUCCESS"
        if "in_class good c" "Handshaking_round ops c = Inl x" for c x
        using Handshaking_round_class(3) [OF ok that(1), of "snd x"] Handshaking_round_ret [of ops c _ "snd x"] that(2) nc
        by (cases x) (auto simp: never_completes_def split: option.split)
    qed (rule m, rule Handshaking_round_class(1) [OF ok])
    then show ?thesis by simp
  qed
  then show ?thesis using r l Handshaking_loop_class [OF ok m l]
    by (auto simp: CommonEventInHandshakingState_def split: option.splits)
qed

lemma establish_event_class:
  assumes ok: "lower_ok ops" and nc: "good CM_STATE_HANDSHAKING \<Longrightarrow> never_completes ops" and m: "in_class good c"
    and r: "establish_event ops client c = Some (ret, c')"
  shows "in_class good c'"
proof (cases "state c")
  case CM_STATE_IDLE
  then have h: "good CM_STATE_HANDSHAKING" using m idle_handshaking by (simp add: in_class_def)
  have *: "in_class good c'" if "(let (ret, c1) = i in if ret \<noteq> HITLS_SUCCESS then Some (ret, c1)
      else CommonEventInHandshakingState ops (ChangeConnState c1 CM_STATE_HANDSHAKING)) = Some (ret, c')"
    and "conn_part (snd i) = conn_part c" for i
    using that m in_class_cong [OF that(2)] CommonEventInHandshakingState_class [OF ok nc [OF h] change_good [OF h]]
    by (auto simp: Let_def split: if_splits prod.splits)
  have "conn_part (snd (CONN_Init ops x)) = conn_part x" for x
    using lower_okD(9) [OF ok, of x] by (cases "CONN_Init ops x") auto
  then show ?thesis using r CM_STATE_IDLE * lower_okD(10) [OF ok, of c]
    by (auto simp: establish_event_def ConnectEventInIdleState_def AcceptEventInIdleState_def split: if_splits)
next
  case CM_STATE_HANDSHAKING
  then have h: "good CM_STATE_HANDSHAKING" using m by (simp add: in_class_def)
  then show ?thesis using CM_STATE_HANDSHAKING r CommonEventInHandshakingState_class [OF ok nc [OF h] m]
    by (simp add: establish_event_def)
qed (use m r not_transporting not_renegotiation in \<open>auto simp: in_class_def establish_event_def\<close>)

lemma SetConnState_conn: "SetConnState b c = (ret, c') \<Longrightarrow> conn_part c' = conn_part c"
  by (auto simp: SetConnState_def HITLS_SetEndPoint_def SetTlsMinMaxVersion_def conn_part_def Let_def split: if_splits)

lemma CheckPha_class:
  assumes "in_class good c" "CommonCheckPostHandshakeAuth ops c = (ret, c')"
  shows "c' = c"
  using assms not_transporting by (auto simp: CommonCheckPostHandshakeAuth_def in_class_def split: if_splits)

lemma connect_accept_class:
  assumes ok: "lower_ok ops" and nc: "good CM_STATE_HANDSHAKING \<Longrightarrow> never_completes ops" and m: "in_class good c"
  shows "HITLS_Connect ops c = Some (ret, c') \<Longrightarrow> in_class good c'"
    and "HITLS_Accept ops c = Some (ret, c') \<Longrightarrow> in_class good c'"
proof -
  obtain r1 c1 where p: "ProcessCtxState ops c = (r1, c1)" by (cases "ProcessCtxState ops c") auto
  have m1: "in_class good c1" by (rule ProcessCtxState_class [OF ok m p])
  let ?c2 = "c1\<lparr>allowAppOut := False\<rparr>"
  have m2: "in_class good ?c2" using m1 in_class_cong conn_part_simps(7) by blast
  have s: "in_class good c3" if "(if state ?c2 = CM_STATE_IDLE then SetConnState b ?c2 else (HITLS_SUCCESS, ?c2)) = (r3, c3)" for b r3 c3
    using that m2 SetConnState_conn [of b ?c2] in_class_cong by (metis Pair_inject)
  show "HITLS_Connect ops c = Some (ret, c') \<Longrightarrow> in_class good c'"
    using p m1 s [of True] establish_event_class [OF ok nc] unfolding HITLS_Connect_def Let_def
    by (auto split: if_splits prod.splits)
  show "HITLS_Accept ops c = Some (ret, c') \<Longrightarrow> in_class good c'"
    using p m1 s [of False] establish_event_class [OF ok nc] CheckPha_class unfolding HITLS_Accept_def Let_def
    by (auto split: if_splits prod.splits) blast+
qed

lemma WritePreporcess_class:
  assumes ok: "lower_ok ops" and m: "in_class good c" and p: "HITLS_WritePreporcess ops c = (ret, c')"
  shows "in_class good c'"
proof -
  obtain r1 c1 where 1: "(if state c = CM_STATE_ALERTING then CommonEventInAlertingState ops c else (HITLS_SUCCESS, c)) = (r1, c1)"
    by (cases "if state c = CM_STATE_ALERTING then CommonEventInAlertingState ops c else (HITLS_SUCCESS, c)") auto
  have m1: "in_class good c1" using 1 m CommonEventInAlertingState_class [OF ok m] by (auto split: if_splits)
  show ?thesis using p 1 m1 CheckPha_class [OF m1] by (auto simp: HITLS_WritePreporcess_def split: if_splits)
qed

lemma WriteClosed_class:
  assumes ok: "lower_ok ops" and m: "in_class good c" and w: "WriteEventInClosedState ops dat c = (ret, n, c')"
  shows "in_class good c'"
proof -
  obtain r1 n1 c1 where a: "APP_Write ops dat (ALERT_CleanInfo c) = (r1, n1, c1)"
    by (cases "APP_Write ops dat (ALERT_CleanInfo c)") auto
  have m1: "in_class good c1" using m lower_okD(11) [OF ok a] in_class_cong conn_part_simps(2) by metis
  obtain r2 c2 where e: "AlertEventProcess ops c1 = (r2, c2)" by (cases "AlertEventProcess ops c1") auto
  have m2: "in_class good c2" by (rule AlertEventProcess_class [OF ok m1 e])
  show ?thesis using w a e m m1 m2 by (auto simp: WriteEventInClosedState_def split: if_splits)
qed

lemma write_event_class:
  assumes ok: "lower_ok ops" and nc: "good CM_STATE_HANDSHAKING \<Longrightarrow> never_completes ops" and m: "in_class good c"
    and w: "write_event ops dat c = Some (ret, n, c')"
  shows "in_class good c'"
proof (cases "state c")
  case CM_STATE_HANDSHAKING
  then have h: "good CM_STATE_HANDSHAKING" using m by (simp add: in_class_def)
  obtain r1 c1 where e: "CommonEventInHandshakingState ops c = Some (r1, c1)" using w CM_STATE_HANDSHAKING
    by (auto simp: write_event_def WriteEventInHandshakingState_def bind_eq_Some_conv)
  show ?thesis using w CM_STATE_HANDSHAKING e CommonEventInHandshakingState_class [OF ok nc [OF h] m e]
    by (simp add: write_event_def WriteEventInHandshakingState_def)
qed (use w m not_transporting not_renegotiation WriteClosed_class [OF ok m] in
    \<open>auto simp: write_event_def in_class_def\<close>)

lemma write_class:
  assumes ok: "lower_ok ops" and nc: "good CM_STATE_HANDSHAKING \<Longrightarrow> never_completes ops" and m: "in_class good c"
    and r: "HITLS_Write ops dat c = Some (ret, n, c')"
  shows "in_class good c'"
proof (cases "dat = None \<or> dat = Some []")
  case False
  obtain r1 c1 where p: "HITLS_WritePreporcess ops (c\<lparr>allowAppOut := False\<rparr>) = (r1, c1)"
    by (cases "HITLS_WritePreporcess ops (c\<lparr>allowAppOut := False\<rparr>)") auto
  have "in_class good (c\<lparr>allowAppOut := False\<rparr>)" using m in_class_cong conn_part_simps(7) by blast
  from WritePreporcess_class [OF ok this p] have m1: "in_class good c1" .
  show ?thesis using r False p m1 write_event_class [OF ok nc m1]
    by (auto simp: HITLS_Write_def bind_eq_Some_conv split: if_splits)
qed (use r m in \<open>auto simp: HITLS_Write_def\<close>)

lemma conn_call_class:
  assumes "lower_ok ops" and "good CM_STATE_HANDSHAKING \<Longrightarrow> never_completes ops" and "in_class good c"
    and "conn_call ops c c'"
  shows "in_class good c'"
  using assms(4)
proof (cases rule: conn_call.cases)
  case call_connect
  then show ?thesis using connect_accept_class(1) assms(1-3) by metis
next
  case call_accept
  then show ?thesis using connect_accept_class(2) assms(1-3) by metis
next
  case call_write
  then show ?thesis using write_class assms(1-3) by metis
next
  case call_close
  then show ?thesis using HITLS_Close_class assms(1,3) by metis
qed

lemma conn_calls_class:
  assumes "lower_ok ops" and "good CM_STATE_HANDSHAKING \<Longrightarrow> never_completes ops"
    and "(conn_call ops)\<^sup>*\<^sup>* c c'" and "in_class good c"
  shows "in_class good c'"
  using assms(3,4)
proof (induction rule: rtranclp_induct)
  case (step y z)
  then show ?case using conn_call_class assms(1,2) by metis
qed

end

definition dead_state :: "CM_State \<Rightarrow> bool" where
  "dead_state st = (st = CM_STATE_ALERTED \<or> st = CM_STATE_CLOSED)"

definition unestablished_state :: "CM_State \<Rightarrow> bool" where
  "unestablished_state st = (st \<in> {CM_STATE_IDLE, CM_STATE_HANDSHAKING, CM_STATE_ALERTED, CM_STATE_CLOSED})"

interpretation dead: broken_class dead_state
  by unfold_locales (simp_all add: dead_state_def)

interpretation unestablished: broken_class unestablished_state
  by unfold_locales (simp_all add: unestablished_state_def)

section \<open>Alerts that end a connection\<close>

definition secrets_cleared :: "'e TLS_Ctx \<Rightarrow> bool" where
  "secrets_cleared c = (\<forall>s \<in> set ([clientAppTrafficSecret c, serverAppTrafficSecret c, resumptionMasterSecret c]
     @ (case hsCtx c of None \<Rightarrow> []
        | Some h \<Rightarrow> [masterKey h, earlySecret h, handshakeSecret h, serverHsTrafficSecret h, clientHsTrafficSecret h])).
     set s \<subseteq> {0})"

lemma cleanse_cleared: "set (cleanse b) \<subseteq> {0}"
  by (auto simp: cleanse_def)

lemma ConnClean_cleared: "secrets_cleared (ConnCleanSensitiveData c)"
  by (auto simp: secrets_cleared_def ConnCleanSensitiveData_def cleanse_cleared [THEN subsetD] split: option.splits
      dest: cleanse_cleared [THEN subsetD, simplified])

lemma alerted_after:
  "state (ChangeConnState c CM_STATE_ALERTED) = CM_STATE_ALERTED
   \<and> secrets_cleared (ChangeConnState c CM_STATE_ALERTED)
   \<and> sessionEnable (ChangeConnState c CM_STATE_ALERTED) = sessionEnable c"
  using ConnClean_cleared [of c]
  by (auto simp: ChangeConnState_def Let_def secrets_cleared_def) (simp_all add: ConnCleanSensitiveData_def)



section \<open>Connections that have ended or never started\<close>

lemma establish_dead:
  assumes "in_class dead_state c" "state c \<noteq> CM_STATE_ALERTING"
  shows "establish_event ops client c \<noteq> Some (HITLS_SUCCESS, c')"
  using assms by (auto simp: in_class_def dead_state_def establish_event_def split: CM_State.splits)

lemma Connect_dead:
  assumes ok: "lower_ok ops" and m: "in_class dead_state c" and r: "HITLS_Connect ops c = Some (ret, c')"
  shows "ret \<noteq> HITLS_SUCCESS"
proof -
  obtain r1 c1 where p: "ProcessCtxState ops c = (r1, c1)" by (cases "ProcessCtxState ops c") auto
  have m1: "in_class dead_state c1" by (rule dead.ProcessCtxState_class [OF ok m p])
  have st: "r1 = HITLS_SUCCESS \<Longrightarrow> state c1 \<noteq> CM_STATE_ALERTING"
    using p by (auto simp: ProcessCtxState_def split: if_splits prod.splits)
  have "in_class dead_state (c1\<lparr>allowAppOut := False\<rparr>)" using m1 in_class_cong conn_part_simps(7) by blast
  from establish_dead [OF this] show ?thesis using r p m1 st
    by (auto simp: HITLS_Connect_def in_class_def dead_state_def split: if_splits)
qed


lemma lower_ok_idle: "lower_ok idle_ops"
  by (simp add: lower_ok_def idle_ops_def)



text \<open>A handshake that waits for data from the peer.\<close>

definition waiting_ops :: "'e tls_ops" where
  "waiting_ops = idle_ops\<lparr>HS_DoHandshake := Pair HITLS_REC_NORMAL_RECV_BUF_EMPTY\<rparr>"


section \<open>Termination of closing and of a handshake under warnings\<close>

lemma CommonEventInAlertingState_close:
  assumes "CommonEventInAlertingState ops (ALERT_Send c ALERT_LEVEL_WARNING ALERT_CLOSE_NOTIFY) = (HITLS_SUCCESS, c')"
  shows "state c' \<in> {CM_STATE_ALERTED, CM_STATE_CLOSED}"
proof -
  let ?a = "alertCtx (ALERT_Send c ALERT_LEVEL_WARNING ALERT_CLOSE_NOTIFY)"
  have "level ?a = ALERT_LEVEL_FATAL \<or> description ?a = ALERT_CLOSE_NOTIFY"
    by (auto simp: ALERT_Send_def AlertIsAbnormalInput_def)
  then show ?thesis using assms
    by (auto simp: CommonEventInAlertingState_def ALERT_GetInfo_def ChangeConnState_def Let_def split: if_splits prod.splits)
qed

text \<open>How far a connection is from being closed.\<close>

definition close_rank :: "'e TLS_Ctx \<Rightarrow> nat" where
  "close_rank c = (case state c of CM_STATE_ALERTED \<Rightarrow> 0 | CM_STATE_ALERTING \<Rightarrow> 1 | _ \<Rightarrow> 2)"

lemma close_event_closes:
  assumes "close_event ops c = (HITLS_SUCCESS, c')" and "state c \<noteq> CM_STATE_ALERTING" "state c \<noteq> CM_STATE_CLOSED"
  shows "state c' = CM_STATE_CLOSED"
  using assms by (cases "state c")
    (auto simp: close_event_def CloseEventInIdleState_def CloseEventInHandshakingState_def ChangeConnState_def
      CloseEventInTransportingState_def CloseEventInAlertedState_def Let_def split: if_splits prod.splits)

lemma Close_round_rank:
  assumes ok: "lower_ok ops" and r: "Close_round ops c = Inr c'"
  shows "close_rank c' < close_rank c"
proof -
  have e: "close_event ops c = (HITLS_SUCCESS, c')" and s: "state c' \<noteq> CM_STATE_CLOSED"
    using r by (auto simp: Close_round_def split: if_splits prod.splits)
  then have "state c = CM_STATE_ALERTING \<or> state c = CM_STATE_CLOSED" using close_event_closes [OF e] by blast
  then show ?thesis
  proof
    assume a: "state c = CM_STATE_ALERTING"
    then show ?thesis using e s CommonEventInAlertingState_close [of ops c c']
      by (auto simp: close_event_def CloseEventInAlertingState_def close_rank_def)
  next
    assume a: "state c = CM_STATE_CLOSED"
    then have "in_class dead_state c'" using dead.close_event_class [OF ok _ e] by (simp add: in_class_def dead_state_def)
    then show ?thesis using a s by (auto simp: close_rank_def in_class_def dead_state_def split: if_splits CM_State.splits)
  qed
qed

text \<open>C22. Closing a connection always returns, from every state and whatever the layers below answer, as
  long as they do not write the state of the connection; when it reports success the connection is
  in the closed state.\<close>

theorem HITLS_Close_returns:
  assumes "lower_ok ops"
  shows "case HITLS_Close ops ctx of
     None \<Rightarrow> False | Some (ret, ctx') \<Rightarrow> ret \<noteq> HITLS_SUCCESS \<or> state ctx' = CM_STATE_CLOSED"
proof (cases "isQuietShutdown ctx")
  case True
  then show ?thesis by (simp add: HITLS_Close_def ChangeConnState_def Let_def)
next
  case False
  let ?c = "ctx\<lparr>userShutDown := True\<rparr>"
  obtain r where r: "repeat_round (Close_round ops) ?c = Some r"
    using repeat_round_returns [of "\<lambda>_. True" ?c "Close_round ops" close_rank] Close_round_rank [OF assms] by blast
  have "fst r \<noteq> HITLS_SUCCESS \<or> state (snd r) = CM_STATE_CLOSED"
    by (rule repeat_round_inv [OF r, of "\<lambda>_. True"]) (auto simp: Close_round_def split: if_splits prod.splits)
  then show ?thesis using r False by (auto simp: HITLS_Close_def Close_loop_def split: prod.splits)
qed

theorem HITLS_Close_returns_witness:
  "case HITLS_Close (idle_ops :: unit tls_ops) ((new_ctx ())\<lparr>state := CM_STATE_HANDSHAKING\<rparr>) of
     None \<Rightarrow> False | Some (ret, ctx') \<Rightarrow> ret \<noteq> HITLS_SUCCESS \<or> state ctx' = CM_STATE_CLOSED"
  by (rule HITLS_Close_returns [OF lower_ok_idle])

text \<open>The layers below leave the counter of warnings alone, as they do while nothing but alerts arrives.\<close>

definition keeps_warnings :: "'e tls_ops \<Rightarrow> bool" where
  "keeps_warnings ops = (\<forall>c. (\<forall>t d. warnCount (alertCtx (snd (REC_Write ops t d c))) = warnCount (alertCtx c))
     \<and> warnCount (alertCtx (snd (REC_OutBufFlush ops c))) = warnCount (alertCtx c)
     \<and> warnCount (alertCtx (snd (REC_FlightTransmit ops c))) = warnCount (alertCtx c)
     \<and> warnCount (alertCtx (snd (HS_DoHandshake ops c))) = warnCount (alertCtx c))"

lemma keeps_warningsD:
  assumes "keeps_warnings ops"
  shows "REC_Write ops t d c = (r, c') \<Longrightarrow> warnCount (alertCtx c') = warnCount (alertCtx c)"
    and "REC_OutBufFlush ops c = (r, c') \<Longrightarrow> warnCount (alertCtx c') = warnCount (alertCtx c)"
    and "REC_FlightTransmit ops c = (r, c') \<Longrightarrow> warnCount (alertCtx c') = warnCount (alertCtx c)"
    and "HS_DoHandshake ops c = (r, c') \<Longrightarrow> warnCount (alertCtx c') = warnCount (alertCtx c)"
  using assms unfolding keeps_warnings_def by (metis snd_conv)+

lemma warn_simps [simp]:
  "warnCount (alertCtx (ALERT_Send c l d)) = warnCount (alertCtx c)"
  "warnCount (alertCtx (ALERT_CleanInfo c)) = warnCount (alertCtx c)"
  "warnCount (alertCtx (SESS_Disable c)) = warnCount (alertCtx c)"
  "warnCount (alertCtx (ChangeConnState c st)) = warnCount (alertCtx c)"
  by (simp_all add: ALERT_Send_def ALERT_CleanInfo_def SESS_Disable_def ChangeConnState_def ConnCleanSensitiveData_def Let_def)

lemma Flush_warn:
  assumes kw: "keeps_warnings ops" and f: "ALERT_Flush ops c = (r, c')"
  shows "warnCount (alertCtx c') = warnCount (alertCtx c)"
proof -
  have w: "flush_write ops x = (q, y) \<Longrightarrow> warnCount (alertCtx y) = warnCount (alertCtx x)" for x q y
    by (auto simp: flush_write_def Let_def dest: keeps_warningsD(1) [OF kw] split: prod.splits if_splits)
  show ?thesis using f
    by (auto simp: ALERT_Flush_def dest!: w keeps_warningsD(2,3) [OF kw] split: if_splits prod.splits)
qed

lemma AlertEventProcess_warn:
  assumes kw: "keeps_warnings ops" and r: "AlertEventProcess ops c = (ret, c')"
  shows "warnCount (alertCtx c') = warnCount (alertCtx c)"
  using r by (auto simp: AlertEventProcess_def ALERT_GetInfo_def AlertRecvProcess_def CommonEventInAlertingState_def Let_def
      dest!: Flush_warn [OF kw] split: if_splits prod.splits)

text \<open>The rounds left before the counter of warnings reaches its limit; the counter is a byte and may
  have wrapped.\<close>

definition warn_rank :: "u8 \<Rightarrow> nat" where
  "warn_rank w = (if w = 255 then 5 else 4 - unat w)"

lemma warn_step: "w + 1 < 5 \<Longrightarrow> warn_rank (w + 1) < warn_rank w"
proof (cases "w = 255")
  case False
  assume l: "w + 1 < 5"
  have "unat w \<noteq> 255" using False by (metis of_nat_numeral of_nat_unat ucast_id)
  moreover have "unat w < 2 ^ LENGTH(8)" by (rule unsigned_less)
  ultimately have "unat (w + 1) = unat w + 1" by (simp add: unat_word_ariths)
  moreover have "w + 1 \<noteq> 255" using l by auto
  ultimately show ?thesis using False l by (simp add: word_less_nat_alt warn_rank_def)
qed (simp add: warn_rank_def)

lemma Handshaking_round_rank:
  assumes kw: "keeps_warnings ops" and r: "Handshaking_round ops c = Inr c'"
  shows "warn_rank (warnCount (alertCtx c')) < warn_rank (warnCount (alertCtx c))"
proof -
  let ?w = "warnCount (alertCtx c)"
  have "warnCount (alertCtx c') = ?w + 1 \<and> ?w + 1 < 5"
    using r by (auto simp: Handshaking_round_def ALERT_HaveExceeded_def Let_def not_le
        dest!: AlertEventProcess_warn [OF kw] keeps_warningsD(4) [OF kw] split: if_splits prod.splits)
  then show ?thesis using warn_step [of ?w] by simp
qed

text \<open>C23. A peer cannot keep a handshake busy with warning alerts: while the handshake layer makes no
  progress that resets the counter of consecutive warnings, the handling of the handshaking state
  returns, after at most five rounds.\<close>

theorem handshake_returns_under_warnings:
  assumes "keeps_warnings ops"
  shows "\<exists>ret ctx'. CommonEventInHandshakingState ops ctx = Some (ret, ctx')"
proof -
  obtain r where "repeat_round (Handshaking_round ops) ctx = Some r"
    using repeat_round_returns [of "\<lambda>_. True" ctx "Handshaking_round ops" "\<lambda>c. warn_rank (warnCount (alertCtx c))"] Handshaking_round_rank [OF assms] by blast
  then show ?thesis
    by (cases r) (auto simp: CommonEventInHandshakingState_def Handshaking_loop_def split: option.split)
qed

text \<open>A handshake that keeps receiving a warning.\<close>

definition warning_ops :: "'e tls_ops" where
  "warning_ops = idle_ops\<lparr>HS_DoHandshake := \<lambda>c. ProcessDecryptedAlert c [ALERT_LEVEL_WARNING, 90]\<rparr>"

theorem handshake_returns_under_warnings_witness:
  "\<exists>ret ctx'. CommonEventInHandshakingState (warning_ops :: unit tls_ops) (new_ctx ()) = Some (ret, ctx')"
proof (rule handshake_returns_under_warnings)
  have "warnCount (alertCtx (snd (ProcessDecryptedAlert c d))) = warnCount (alertCtx c)" for c :: "unit TLS_Ctx" and d
    by (simp add: ProcessDecryptedAlert_def Let_def)
  then show "keeps_warnings (warning_ops :: unit tls_ops)"
    by (simp add: keeps_warnings_def warning_ops_def idle_ops_def)
qed

end
