(* ===== verification/Bn_Word.thy ===== *)
theory Bn_Word
  imports Prelude
begin

text \<open>
  The single-digit arithmetic of the big-number module (\<^verbatim>\<open>crypto/bn/src/bn_bincal.h\<close> and the portable
  \<^verbatim>\<open>bn_bincal_noasm.h\<close>) on 64-bit digits: additions and subtractions with carry, the double-width
  product from four half-width products, multiply-and-accumulate. Every macro is shown to compute
  exactly, the digits read as natural numbers.
\<close>

type_synonym BN_UINT = "64 word"

abbreviation (input) BN_UINT_BITS :: nat where "BN_UINT_BITS \<equiv> 64"

text \<open>The number base of a digit, kept folded in the arithmetic proofs.\<close>

definition base :: nat where
  "base = 2 ^ 64"

definition half :: nat where
  "half = 2 ^ 32"

lemma base_half: "base = half * half"
  by (simp add: base_def half_def)

lemma base_pos [simp]: "0 < base" and half_pos [simp]: "0 < half"
  by (simp_all add: base_def half_def)

lemma base_big: "4 \<le> base" and half_big: "4 \<le> half"
  by (simp_all add: base_def half_def)

definition BN_UINT_HC :: BN_UINT where
  "BN_UINT_HC = push_bit 32 1"

definition BN_UINT_LO :: "BN_UINT \<Rightarrow> BN_UINT" where
  "BN_UINT_LO t = t AND (BN_UINT_HC - 1)"

definition BN_UINT_HI :: "BN_UINT \<Rightarrow> BN_UINT" where
  "BN_UINT_HI t = drop_bit 32 t"

text \<open>The macros as functions: the carry or borrow first, then the result.\<close>

definition ADD_AB :: "BN_UINT \<Rightarrow> BN_UINT \<Rightarrow> BN_UINT \<times> BN_UINT" where
  "ADD_AB a b = (let t = a + b in (if t < a then 1 else 0, t))"

definition SUB_AB :: "BN_UINT \<Rightarrow> BN_UINT \<Rightarrow> BN_UINT \<times> BN_UINT" where
  "SUB_AB a b = (if a < b then 1 else 0, a - b)"

definition ADD_ABC :: "BN_UINT \<Rightarrow> BN_UINT \<Rightarrow> BN_UINT \<Rightarrow> BN_UINT \<times> BN_UINT" where
  "ADD_ABC a b c =
     (let s = b + c; carry = (if s < c then 1 else 0); r = s + a
      in (carry + (if r < s then 1 else 0), r))"

definition SUB_ABC :: "BN_UINT \<Rightarrow> BN_UINT \<Rightarrow> BN_UINT \<Rightarrow> BN_UINT \<times> BN_UINT" where
  "SUB_ABC a b c =
     (let s = a - b; t = (if a < b then 1 else 0)
      in (t + (if s < c then 1 else 0), s - c))"

text \<open>The double-width product, high digit first.\<close>

definition MUL_AB :: "BN_UINT \<Rightarrow> BN_UINT \<Rightarrow> BN_UINT \<times> BN_UINT" where
  "MUL_AB u v =
     (let ul = BN_UINT_LO u; uh = BN_UINT_HI u; vl = BN_UINT_LO v; vh = BN_UINT_HI v;
          x0 = ul * vl; x1 = ul * vh; x2 = uh * vl; x3 = uh * vh;
          x1 = x1 + BN_UINT_HI x0;
          x1 = x1 + x2;
          x3 = (if x1 < x2 then x3 + BN_UINT_HC else x3)
      in (x3 + BN_UINT_HI x1, push_bit 32 x1 OR BN_UINT_LO x0))"

definition SQR_A :: "BN_UINT \<Rightarrow> BN_UINT \<times> BN_UINT" where
  "SQR_A u =
     (let ul = BN_UINT_LO u; uh = BN_UINT_HI u;
          x0 = ul * ul; x1 = ul * uh; x2 = uh * uh;
          t = push_bit 1 x1;
          t = t + BN_UINT_HI x0;
          x2 = (if t < x1 then x2 + BN_UINT_HC else x2)
      in (x2 + BN_UINT_HI t, push_bit 32 t OR BN_UINT_LO x0))"

text \<open>\<open>r + a * b + carry\<close>: the new carry and the digit.\<close>

definition MULADC_AB :: "BN_UINT \<Rightarrow> BN_UINT \<Rightarrow> BN_UINT \<Rightarrow> BN_UINT \<Rightarrow> BN_UINT \<times> BN_UINT" where
  "MULADC_AB r a b carry =
     (let (hi, lo) = MUL_AB a b; (carry, r) = ADD_ABC r lo carry in (carry + hi, r))"

definition MULADD_ABC :: "BN_UINT \<Rightarrow> BN_UINT \<Rightarrow> BN_UINT \<Rightarrow> BN_UINT \<Rightarrow> BN_UINT \<times> BN_UINT" where
  "MULADD_ABC c r a b =
     (let al = BN_UINT_LO a; ah = BN_UINT_HI a; bl = BN_UINT_LO b; bh = BN_UINT_HI b;
          x3 = ah * bh; x2 = ah * bl; x1 = al * bh; x0 = al * bl;
          r = r + c;
          c = (if r < c then 1 else 0);
          x1 = x1 + x2;
          c = c + (if x1 < x2 then BN_UINT_HC else 0);
          x2 = x0;
          x0 = x0 + push_bit 32 x1;
          c = c + (if x0 < x2 then 1 else 0);
          c = c + BN_UINT_HI x1;
          c = c + x3;
          r = r + x0
      in (c + (if r < x0 then 1 else 0), r))"

section \<open>Exactness\<close>

lemma unat_less_base: "unat (x :: BN_UINT) < base"
proof -
  have "unat x < 2 ^ LENGTH(64)" by (rule unsigned_less)
  then show ?thesis by (simp add: base_def)
qed

lemma unat_le_base: "unat (x :: BN_UINT) \<le> base - 1"
  using unat_less_base [of x] by linarith

lemma unat_LO: "unat (BN_UINT_LO x) = unat x mod half"
proof -
  have "BN_UINT_LO x = take_bit 32 x"
    by (simp add: BN_UINT_LO_def BN_UINT_HC_def take_bit_eq_mask mask_eq_exp_minus_1 push_bit_eq_mult)
  then have "unat (BN_UINT_LO x) = take_bit 32 (unat x)" by (simp only: unsigned_take_bit_eq)
  then show ?thesis by (simp only: half_def take_bit_eq_mod)
qed

lemma unat_HI: "unat (BN_UINT_HI x) = unat x div half"
  unfolding BN_UINT_HI_def half_def unat_drop_bit_eq by (rule drop_bit_eq_div)

lemma unat_HC: "unat BN_UINT_HC = half"
  by (simp add: BN_UINT_HC_def half_def)

lemma unat_add: "unat (a + b :: BN_UINT) = (unat a + unat b) mod base"
  by (simp add: base_def unat_word_ariths)

lemma unat_mul: "unat (a * b :: BN_UINT) = (unat a * unat b) mod base"
  by (simp add: base_def unat_word_ariths)

lemma unat_push: "unat (push_bit n a :: BN_UINT) = (unat a * 2 ^ n) mod base"
proof -
  have "unat (push_bit n a) = take_bit 64 (push_bit n (unat a))" unfolding unsigned_push_bit_eq by simp
  then show ?thesis by (simp only: base_def take_bit_eq_mod push_bit_eq_mult)
qed

text \<open>One addition that may wrap: the comparison with an operand gives the carry.\<close>

lemma add_carry:
  fixes a b :: BN_UINT
  shows "unat (a + b) + base * (if a + b < a then 1 else 0) = unat a + unat b"
    and "unat (a + b) + base * (if a + b < b then 1 else 0) = unat a + unat b"
proof -
  have "unat a + unat b < 2 * base" using unat_less_base [of a] unat_less_base [of b] by linarith
  then have s: "unat (a + b) = (if unat a + unat b < base then unat a + unat b else unat a + unat b - base)"
    by (simp add: unat_add mod_if)
  show "unat (a + b) + base * (if a + b < a then 1 else 0) = unat a + unat b"
    using s unat_less_base [of a] unat_less_base [of b] by (simp add: word_less_nat_alt split: if_splits)
  show "unat (a + b) + base * (if a + b < b then 1 else 0) = unat a + unat b"
    using s unat_less_base [of a] unat_less_base [of b] by (simp add: word_less_nat_alt split: if_splits)
qed

lemma sub_borrow:
  fixes a b :: BN_UINT
  shows "unat (a - b) + unat b = unat a + base * (if a < b then 1 else 0)"
proof (cases "a < b")
  case True
  then have "unat (a - b) = base + unat a - unat b"
    using unat_less_base [of b] by (simp add: unat_sub_if' word_less_nat_alt base_def)
  then show ?thesis using True unat_less_base [of b] by simp
next
  case False
  then show ?thesis by (simp add: unat_sub_if' word_less_nat_alt)
qed

lemma ADD_AB_exact: "ADD_AB a b = (c, r) \<Longrightarrow> unat r + base * unat c = unat a + unat b"
  using add_carry(1) [of a b] by (auto simp: ADD_AB_def Let_def split: if_splits)

lemma SUB_AB_exact: "SUB_AB a b = (c, r) \<Longrightarrow> unat r + unat b = unat a + base * unat c"
  using sub_borrow [of a b] by (auto simp: SUB_AB_def split: if_splits)

lemma ADD_ABC_exact:
  assumes "ADD_ABC a b c = (k, r)"
  shows "unat r + base * unat k = unat a + unat b + unat c"
proof -
  have 1: "unat (b + c) + base * (if b + c < c then 1 else 0) = unat b + unat c" by (rule add_carry)
  have 2: "unat (b + c + a) + base * (if b + c + a < b + c then 1 else 0) = unat (b + c) + unat a" by (rule add_carry)
  have k: "unat k = (if b + c < c then 1 else 0) + (if b + c + a < b + c then 1 else 0)"
    using assms by (auto simp: ADD_ABC_def Let_def)
  show ?thesis using 1 2 k assms by (auto simp: ADD_ABC_def Let_def split: if_splits)
qed

lemma SUB_ABC_exact:
  assumes "SUB_ABC a b c = (k, r)"
  shows "unat r + unat b + unat c = unat a + base * unat k"
proof -
  have 1: "unat (a - b) + unat b = unat a + base * (if a < b then 1 else 0)" by (rule sub_borrow)
  have 2: "unat (a - b - c) + unat c = unat (a - b) + base * (if a - b < c then 1 else 0)" by (rule sub_borrow)
  have k: "unat k = (if a < b then 1 else 0) + (if a - b < c then 1 else 0)"
    using assms by (auto simp: SUB_ABC_def Let_def)
  show ?thesis using 1 2 k assms by (auto simp: SUB_ABC_def Let_def split: if_splits)
qed


text \<open>A number from its two halves.\<close>

lemma halves: "unat x = unat (BN_UINT_HI x) * half + unat (BN_UINT_LO x)"
  by (simp add: unat_HI unat_LO)

lemma half_bounds: "unat (BN_UINT_HI x) < half" "unat (BN_UINT_LO x) < half"
  using unat_less_base [of x] by (simp_all add: unat_HI unat_LO base_half less_mult_imp_div_less)

lemma half_product: "a < half \<Longrightarrow> b < half \<Longrightarrow> a * b + 2 * half \<le> base + 1"
proof -
  assume "a < half" "b < half"
  then have "a * b \<le> (half - 1) * (half - 1)" by (intro mult_le_mono) simp_all
  moreover have "(half - 1) * (half - 1) + 2 * half = base + 1"
    by (simp add: base_def half_def)
  ultimately show ?thesis by linarith
qed

lemma unat_half_mul: "unat a < half \<Longrightarrow> unat b < half \<Longrightarrow> unat (a * b :: BN_UINT) = unat a * unat b"
  using half_product [of "unat a" "unat b"] by (simp add: unat_mul half_def)

lemma two_digits: "(m :: nat) < a \<Longrightarrow> y < b \<Longrightarrow> m * b + y < a * b"
proof -
  assume "m < a" "y < b"
  then have "m * b + y < Suc m * b" by simp
  also have "\<dots> \<le> a * b" using \<open>m < a\<close> by (intro mult_le_mono1) simp
  finally show ?thesis .
qed

text \<open>Joining a low half to a shifted digit.\<close>

lemma unat_join:
  fixes x y :: BN_UINT
  assumes "unat y < half"
  shows "unat (push_bit 32 x OR y) = (unat x mod half) * half + unat y"
proof -
  have y: "y = take_bit 32 y" using assms
    by (metis half_def take_bit_nat_eq_self unsigned_take_bit_eq word_unat_eq_iff)
  have "push_bit 32 x AND y = 0" by (subst y, rule bit_word_eqI) (auto simp: bit_simps)
  then have "push_bit 32 x OR y = push_bit 32 x + y" by (simp add: disjunctive_add_eq_or)
  moreover have "unat x * half mod base = (unat x mod half) * half" by (simp add: base_half mult_mod_left)
  moreover have "(unat x mod half) * half + unat y < base"
    unfolding base_half by (rule two_digits) (simp_all add: assms)
  ultimately show ?thesis by (simp add: unat_add unat_push half_def)
qed


lemma product_less: "unat (u :: BN_UINT) * unat (v :: BN_UINT) + 2 * base \<le> base * base + 1"
proof -
  have "unat u * unat v \<le> (base - 1) * (base - 1)" using unat_le_base by (intro mult_le_mono)
  moreover have "(base - 1) * (base - 1) + 2 * base = base * base + 1" by (simp add: base_def)
  ultimately show ?thesis by linarith
qed

text \<open>The recombination of the partial products, over the natural numbers: \<open>m\<close> is the middle sum
  without its carry \<open>c\<close>.\<close>

lemma half_split: "base * (m div half) + m mod half * half = half * m"
proof -
  have "half * m = half * (m div half * half + m mod half)" by simp
  also have "\<dots> = base * (m div half) + m mod half * half" unfolding base_half distrib_left by simp
  finally show ?thesis by simp
qed

lemma recombine_digits:
  fixes x0 x3 m c :: nat
  assumes "m + base * c = x1 + x0 div half + x2"
  shows "base * (x3 + half * c + m div half) + (m mod half * half + x0 mod half) = base * x3 + half * (x1 + x2) + x0"
proof -
  note half_split [of m]
  moreover have "half * (x0 div half) + x0 mod half = x0" by simp
  moreover have "half * m + half * (base * c) = half * x1 + half * (x0 div half) + half * x2"
    using assms by (metis distrib_left)
  moreover have "base * (half * c) = half * (base * c)" by simp
  ultimately show ?thesis unfolding distrib_left by linarith
qed

lemma expand_product:
  "base * (uh * vh) + half * (ul * vh + uh * vl) + ul * vl = (uh * half + ul) * (vh * half + vl)"
  by (simp add: base_half algebra_simps)

lemma product_halves:
  "unat u * unat v = base * (unat (BN_UINT_HI u) * unat (BN_UINT_HI v))
     + half * (unat (BN_UINT_LO u) * unat (BN_UINT_HI v) + unat (BN_UINT_HI u) * unat (BN_UINT_LO v))
     + unat (BN_UINT_LO u) * unat (BN_UINT_LO v)"
  using expand_product [of "unat (BN_UINT_HI u)" "unat (BN_UINT_HI v)" "unat (BN_UINT_LO u)" "unat (BN_UINT_LO v)"]
  by (simp only: halves [symmetric])

lemma MUL_AB_exact:
  assumes "MUL_AB u v = (hi, lo)"
  shows "base * unat hi + unat lo = unat u * unat v"
proof -
  define ul uh vl vh where d: "ul = BN_UINT_LO u" "uh = BN_UINT_HI u" "vl = BN_UINT_LO v" "vh = BN_UINT_HI v"
  note b = half_bounds [of u, folded d] half_bounds [of v, folded d]
  define x1a where "x1a = ul * vh + BN_UINT_HI (ul * vl)"
  define m where "m = x1a + uh * vl"
  define c where "c = (if m < uh * vl then 1 else 0 :: nat)"
  define x3 where "x3 = (if m < uh * vl then uh * vh + BN_UINT_HC else uh * vh)"
  have p: "unat (ul * vl) = unat ul * unat vl" "unat (ul * vh) = unat ul * unat vh"
    "unat (uh * vl) = unat uh * unat vl" "unat (uh * vh) = unat uh * unat vh"
    using b by (simp_all add: unat_half_mul)
  have "unat (ul * vh) + unat (BN_UINT_HI (ul * vl)) < base"
    using half_product [OF b(2) b(3)] half_bounds(1) [of "ul * vl"] unfolding p by linarith
  then have x1a: "unat x1a = unat (ul * vh) + unat (ul * vl) div half"
    by (simp add: x1a_def unat_add unat_HI)
  have m: "unat m + base * c = unat (ul * vh) + unat (ul * vl) div half + unat (uh * vl)"
    using add_carry(2) [of x1a "uh * vl"] x1a by (simp add: m_def c_def split: if_splits)
  have "unat (uh * vh) + half < base" using half_product [OF b(1) b(3)] half_big unfolding p by linarith
  then have x3: "unat x3 = unat (uh * vh) + half * c"
    by (simp add: x3_def c_def unat_add unat_HC)
  have r: "hi = x3 + BN_UINT_HI m" "lo = push_bit 32 m OR BN_UINT_LO (ul * vl)"
    using assms by (auto simp: MUL_AB_def Let_def d m_def x1a_def x3_def)
  have lo: "unat lo = unat m mod half * half + unat (ul * vl) mod half"
    using unat_join [OF half_bounds(2)] by (simp add: r unat_LO)
  have "base * (unat x3 + unat (BN_UINT_HI m)) + unat lo = unat u * unat v"
    using recombine_digits [OF m, of "unat (uh * vh)"] product_halves [of u v, folded d]
    by (simp only: lo x3 unat_HI p)
  moreover from this have "base * (unat x3 + unat (BN_UINT_HI m)) < base * base"
    using product_less [of u v] base_big by linarith
  then have "unat x3 + unat (BN_UINT_HI m) < base" by simp
  ultimately show ?thesis by (simp add: r(1) unat_add)
qed


lemma MULADC_AB_exact:
  assumes "MULADC_AB r a b c = (c', r')"
  shows "unat r' + base * unat c' = unat r + unat a * unat b + unat c"
proof -
  obtain hi lo k where m: "MUL_AB a b = (hi, lo)" and k: "ADD_ABC r lo c = (k, r')" and c': "c' = k + hi"
    using assms by (auto simp: MULADC_AB_def split: prod.splits)
  note e = MUL_AB_exact [OF m] ADD_ABC_exact [OF k]
  have t: "unat r' + base * (unat k + unat hi) = unat r + unat a * unat b + unat c"
    using e unfolding distrib_left by linarith
  have "unat r + unat a * unat b + unat c < base * base"
    using product_less [of a b] unat_le_base [of r] unat_le_base [of c] base_big by linarith
  then have "base * (unat k + unat hi) < base * base" using t by linarith
  then have "unat k + unat hi < base" by simp
  then show ?thesis using t by (simp add: c' unat_add)
qed

lemma MULADD_ABC_exact:
  assumes "MULADD_ABC c r a b = (c', r')"
  shows "unat r' + base * unat c' = unat r + unat a * unat b + unat c"
proof -
  define al ah bl bh where d: "al = BN_UINT_LO a" "ah = BN_UINT_HI a" "bl = BN_UINT_LO b" "bh = BN_UINT_HI b"
  note bd = half_bounds [of a, folded d] half_bounds [of b, folded d]
  have p: "unat (al * bl) = unat al * unat bl" "unat (al * bh) = unat al * unat bh"
    "unat (ah * bl) = unat ah * unat bl" "unat (ah * bh) = unat ah * unat bh"
    using bd by (simp_all add: unat_half_mul)
  define m where "m = al * bh + ah * bl"
  define cm where "cm = (if m < ah * bl then 1 else 0 :: nat)"
  define x0 where "x0 = al * bl + push_bit 32 m"
  define c0 where "c0 = (if x0 < al * bl then 1 else 0 :: nat)"
  define r1 where "r1 = r + c"
  define c1 where "c1 = (if r1 < c then 1 else 0 :: nat)"
  define c2 where "c2 = (if r1 + x0 < x0 then 1 else 0 :: nat)"
  have m: "unat m + base * cm = unat (al * bh) + unat (ah * bl)"
    using add_carry(2) [of "al * bh" "ah * bl"] by (simp add: m_def cm_def)
  have x0: "unat x0 + base * c0 = unat (al * bl) + unat m mod half * half"
  proof -
    have "unat (push_bit 32 m) = unat m mod half * half"
      using unat_join [of 0 m] by simp
    then show ?thesis using add_carry(1) [of "al * bl" "push_bit 32 m"] by (simp add: x0_def c0_def)
  qed
  have r1: "unat r1 + base * c1 = unat r + unat c"
    using add_carry(2) [of r c] by (simp add: r1_def c1_def)
  have r2: "unat (r1 + x0) + base * c2 = unat r1 + unat x0"
    using add_carry(2) [of r1 x0] by (simp add: c2_def)
  let ?k = "c1 + half * cm + c0 + unat m div half + unat (ah * bh) + c2"
  have hm: "base * (half * cm) + base * (unat m div half) + unat m mod half * half = half * (unat (al * bh) + unat (ah * bl))"
    using half_split [of "unat m"] unfolding m [symmetric] distrib_left by simp
  have ab: "unat a * unat b = base * unat (ah * bh) + half * (unat (al * bh) + unat (ah * bl)) + unat (al * bl)"
    unfolding p product_halves [of a b, folded d] ..
  have t: "unat (r1 + x0) + base * ?k = unat r + unat a * unat b + unat c"
    using x0 r1 r2 hm ab unfolding distrib_left by linarith
  have "unat r + unat a * unat b + unat c < base * base"
    using product_less [of a b] unat_le_base [of r] unat_le_base [of c] base_big by linarith
  then have "base * ?k < base * base" using t by linarith
  then have "?k < base" by simp
  moreover have "c' = of_nat ?k" "r' = r1 + x0"
  proof -
    have "(of_nat half :: BN_UINT) = BN_UINT_HC" by (metis of_nat_unat ucast_id unat_HC)
    moreover have "(of_nat (unat m div half) :: BN_UINT) = BN_UINT_HI m" by (metis of_nat_unat ucast_id unat_HI)
    ultimately show "c' = of_nat ?k" "r' = r1 + x0" using assms
      by (auto simp: MULADD_ABC_def Let_def d m_def x0_def r1_def cm_def c0_def c1_def c2_def)
  qed
  moreover have "unat (of_nat n :: BN_UINT) = n" if "n < base" for n
    using that by (simp add: unat_of_nat base_def)
  ultimately show ?thesis using t by (simp only:)
qed


lemma SQR_A_exact:
  assumes "SQR_A u = (hi, lo)"
  shows "base * unat hi + unat lo = unat u * unat u"
proof -
  define ul uh where d: "ul = BN_UINT_LO u" "uh = BN_UINT_HI u"
  note b = half_bounds [of u, folded d]
  have p: "unat (ul * ul) = unat ul * unat ul" "unat (ul * uh) = unat ul * unat uh" "unat (uh * uh) = unat uh * unat uh"
    using b by (simp_all add: unat_half_mul)
  define m where "m = push_bit 1 (ul * uh) + BN_UINT_HI (ul * ul)"
  define c where "c = (if m < ul * uh then 1 else 0 :: nat)"
  define x2 where "x2 = (if m < ul * uh then uh * uh + BN_UINT_HC else uh * uh)"
  have m: "unat m + base * c = unat (ul * uh) + unat (ul * ul) div half + unat (ul * uh)"
  proof -
    have l: "unat (ul * uh) + unat (ul * ul) div half < base"
      using half_product [OF b(2) b(1)] half_bounds(1) [of "ul * ul"] unfolding p unat_HI by linarith
    have "unat m = (2 * unat (ul * uh) + unat (ul * ul) div half) mod base"
      unfolding m_def unat_add unat_push unat_HI by (simp add: mod_simps mult.commute [of _ 2])
    also have "\<dots> = (if 2 * unat (ul * uh) + unat (ul * ul) div half < base then 2 * unat (ul * uh) + unat (ul * ul) div half
        else 2 * unat (ul * uh) + unat (ul * ul) div half - base)"
      using l unat_less_base [of "ul * uh"] by (simp add: mod_if)
    finally show ?thesis using l unat_less_base [of "ul * uh"]
      by (cases "2 * unat (ul * uh) + unat (ul * ul) div half < base") (auto simp: c_def word_less_nat_alt)
  qed
  have "unat (uh * uh) + half < base" using half_product [OF b(1) b(1)] half_big unfolding p by linarith
  then have x2: "unat x2 = unat (uh * uh) + half * c" by (simp add: x2_def c_def unat_add unat_HC)
  have r: "hi = x2 + BN_UINT_HI m" "lo = push_bit 32 m OR BN_UINT_LO (ul * ul)"
    using assms by (auto simp: SQR_A_def Let_def d m_def x2_def)
  have lo: "unat lo = unat m mod half * half + unat (ul * ul) mod half"
    using unat_join [OF half_bounds(2)] by (simp add: r unat_LO)
  have "unat uh * unat ul = unat ul * unat uh" by (rule mult.commute)
  then have "base * (unat x2 + unat (BN_UINT_HI m)) + unat lo = unat u * unat u"
    using recombine_digits [OF m, of "unat (uh * uh)"] product_halves [of u u, folded d]
    by (simp only: lo x2 unat_HI p)
  moreover from this have "base * (unat x2 + unat (BN_UINT_HI m)) < base * base"
    using product_less [of u u] base_big by linarith
  then have "unat x2 + unat (BN_UINT_HI m) < base" by simp
  ultimately show ?thesis by (simp add: r(1) unat_add)
qed

end
