(* ===== verification/Bn_Bin.thy ===== *)
theory Bn_Bin
  imports Bn_Word
begin

text \<open>
  The digit-array arithmetic of the big-number module (\<^verbatim>\<open>crypto/bn/src/bn_bincal.c\<close> and the portable
  \<^verbatim>\<open>noasm_bn_bincal.c\<close>). An array is the list of its digits, least significant first; the loops
  advance through it as the pointers of the code do, the loops over groups of four digits included.
  A function returns the array it writes and its return value. The functions that are called with the
  result array equal to an operand read each digit before they write it, so that they are modelled on
  values. \<open>val\<close> is the number an array stands for.
\<close>

fun val :: "BN_UINT list \<Rightarrow> nat" where
  "val [] = 0"
| "val (x # xs) = unat x + base * val xs"

section \<open>Addition and subtraction\<close>

text \<open>One digit after the other, and the group of four of the unrolled loop.\<close>

fun BinAdd_tail :: "nat \<Rightarrow> BN_UINT list \<Rightarrow> BN_UINT list \<Rightarrow> BN_UINT \<Rightarrow> BN_UINT \<times> BN_UINT list" where
  "BinAdd_tail 0 aa bb carry = (carry, [])"
| "BinAdd_tail (Suc n) aa bb carry =
     (let (carry, r) = ADD_ABC (hd aa) (hd bb) carry; (carry, rs) = BinAdd_tail n (tl aa) (tl bb) carry
      in (carry, r # rs))"

function BinAdd_groups :: "nat \<Rightarrow> BN_UINT list \<Rightarrow> BN_UINT list \<Rightarrow> BN_UINT \<Rightarrow> BN_UINT \<times> BN_UINT list" where
  "BinAdd_groups nn aa bb carry =
     (if nn \<ge> 4 then
        let (carry, r0) = ADD_ABC (aa ! 0) (bb ! 0) carry;
            (carry, r1) = ADD_ABC (aa ! 1) (bb ! 1) carry;
            (carry, r2) = ADD_ABC (aa ! 2) (bb ! 2) carry;
            (carry, r3) = ADD_ABC (aa ! 3) (bb ! 3) carry;
            (carry, rs) = BinAdd_groups (nn - 4) (drop 4 aa) (drop 4 bb) carry
        in (carry, r0 # r1 # r2 # r3 # rs)
      else BinAdd_tail nn aa bb carry)"
  by auto
termination by (relation "measure fst") auto

definition BinAdd :: "BN_UINT list \<Rightarrow> BN_UINT list \<Rightarrow> nat \<Rightarrow> BN_UINT \<times> BN_UINT list" where
  "BinAdd a b n = BinAdd_groups n a b 0"

fun BinSub_tail :: "nat \<Rightarrow> BN_UINT list \<Rightarrow> BN_UINT list \<Rightarrow> BN_UINT \<Rightarrow> BN_UINT \<times> BN_UINT list" where
  "BinSub_tail 0 aa bb borrow = (borrow, [])"
| "BinSub_tail (Suc n) aa bb borrow =
     (let (borrow, r) = SUB_ABC (hd aa) (hd bb) borrow; (borrow, rs) = BinSub_tail n (tl aa) (tl bb) borrow
      in (borrow, r # rs))"

function BinSub_groups :: "nat \<Rightarrow> BN_UINT list \<Rightarrow> BN_UINT list \<Rightarrow> BN_UINT \<Rightarrow> BN_UINT \<times> BN_UINT list" where
  "BinSub_groups nn aa bb borrow =
     (if nn \<ge> 4 then
        let (borrow, r0) = SUB_ABC (aa ! 0) (bb ! 0) borrow;
            (borrow, r1) = SUB_ABC (aa ! 1) (bb ! 1) borrow;
            (borrow, r2) = SUB_ABC (aa ! 2) (bb ! 2) borrow;
            (borrow, r3) = SUB_ABC (aa ! 3) (bb ! 3) borrow;
            (borrow, rs) = BinSub_groups (nn - 4) (drop 4 aa) (drop 4 bb) borrow
        in (borrow, r0 # r1 # r2 # r3 # rs)
      else BinSub_tail nn aa bb borrow)"
  by auto
termination by (relation "measure fst") auto

definition BinSub :: "BN_UINT list \<Rightarrow> BN_UINT list \<Rightarrow> nat \<Rightarrow> BN_UINT \<times> BN_UINT list" where
  "BinSub a b n = BinSub_groups n a b 0"

fun BinInc :: "BN_UINT list \<Rightarrow> BN_UINT \<Rightarrow> BN_UINT \<times> BN_UINT list" where
  "BinInc [] carry = (carry, [])"
| "BinInc (a # as) carry =
     (if carry = 0 then (carry, a # as)
      else let (carry, r) = ADD_AB a carry; (carry, rs) = BinInc as carry in (carry, r # rs))"

fun BinDec :: "BN_UINT list \<Rightarrow> BN_UINT \<Rightarrow> BN_UINT \<times> BN_UINT list" where
  "BinDec [] borrow = (borrow, [])"
| "BinDec (a # as) borrow =
     (if borrow = 0 then (borrow, a # as)
      else let (borrow, r) = SUB_AB a borrow; (borrow, rs) = BinDec as borrow in (borrow, r # rs))"

section \<open>Multiplication\<close>

text \<open>\<open>r + a * b\<close>, digit by digit and in groups of four.\<close>

fun BinMulAcc_tail :: "BN_UINT \<Rightarrow> nat \<Rightarrow> BN_UINT list \<Rightarrow> BN_UINT list \<Rightarrow> BN_UINT \<Rightarrow> BN_UINT \<times> BN_UINT list" where
  "BinMulAcc_tail b 0 rr aa c = (c, [])"
| "BinMulAcc_tail b (Suc n) rr aa c =
     (let (c, r) = MULADD_ABC c (hd rr) (hd aa) b; (c, rs) = BinMulAcc_tail b n (tl rr) (tl aa) c
      in (c, r # rs))"

function BinMulAcc_groups :: "BN_UINT \<Rightarrow> nat \<Rightarrow> BN_UINT list \<Rightarrow> BN_UINT list \<Rightarrow> BN_UINT \<Rightarrow> BN_UINT \<times> BN_UINT list" where
  "BinMulAcc_groups b n rr aa c =
     (if n \<ge> 4 then
        let (c, r0) = MULADD_ABC c (rr ! 0) (aa ! 0) b;
            (c, r1) = MULADD_ABC c (rr ! 1) (aa ! 1) b;
            (c, r2) = MULADD_ABC c (rr ! 2) (aa ! 2) b;
            (c, r3) = MULADD_ABC c (rr ! 3) (aa ! 3) b;
            (c, rs) = BinMulAcc_groups b (n - 4) (drop 4 rr) (drop 4 aa) c
        in (c, r0 # r1 # r2 # r3 # rs)
      else BinMulAcc_tail b n rr aa c)"
  by auto
termination by (relation "measure (fst \<circ> snd)") auto

definition BinMulAcc :: "BN_UINT list \<Rightarrow> BN_UINT list \<Rightarrow> nat \<Rightarrow> BN_UINT \<Rightarrow> BN_UINT \<times> BN_UINT list" where
  "BinMulAcc r a aSize b = (let (c, rs) = BinMulAcc_groups b aSize r a 0 in (c, rs @ drop aSize r))"

text \<open>One row of the schoolbook product, the \<open>n\<close> digits from \<open>r[i]\<close> on, and the rows.\<close>

fun BinMul_row :: "BN_UINT \<Rightarrow> nat \<Rightarrow> BN_UINT list \<Rightarrow> BN_UINT list \<Rightarrow> BN_UINT \<Rightarrow> BN_UINT \<times> BN_UINT list" where
  "BinMul_row t 0 r a carry = (carry, [])"
| "BinMul_row t (Suc n) r a carry =
     (let (carry, x) = MULADC_AB (hd r) (hd a) t carry; (carry, rs) = BinMul_row t n (tl r) (tl a) carry
      in (carry, x # rs))"

fun BinMul_rows :: "BN_UINT list \<Rightarrow> BN_UINT list \<Rightarrow> BN_UINT list \<Rightarrow> BN_UINT \<Rightarrow> BN_UINT \<times> BN_UINT list" where
  "BinMul_rows r a [] carry = (carry, r)"
| "BinMul_rows r a (t # ts) carry =
     (let (carry, row) = BinMul_row t (length a) r a 0;
          r1 = row @ drop (length a) r;
          r2 = (if carry \<noteq> 0 then r1[length a := carry] else r1);
          (carry, rs) = BinMul_rows (tl r2) a ts carry
      in (carry, hd r2 # rs))"

definition BinMul :: "nat \<Rightarrow> BN_UINT list \<Rightarrow> BN_UINT list \<Rightarrow> nat \<times> BN_UINT list" where
  "BinMul rRoom a b =
     (let (carry, r) = BinMul_rows (replicate rRoom 0) a b 0
      in (length a + length b - (if carry = 0 then 1 else 0), r))"

definition SUBMUL_step :: "BN_UINT \<Rightarrow> BN_UINT \<Rightarrow> BN_UINT \<Rightarrow> BN_UINT \<Rightarrow> BN_UINT \<times> BN_UINT" where
  "SUBMUL_step m r a borrow =
     (let (ah, al) = MUL_AB a m; (borrow, x) = SUB_ABC r al borrow in (borrow + ah, x))"

fun BinSubMul_loop :: "BN_UINT \<Rightarrow> nat \<Rightarrow> BN_UINT list \<Rightarrow> BN_UINT list \<Rightarrow> BN_UINT \<Rightarrow> BN_UINT \<times> BN_UINT list" where
  "BinSubMul_loop m 0 r a borrow = (borrow, [])"
| "BinSubMul_loop m (Suc n) r a borrow =
     (let (borrow, x) = SUBMUL_step m (hd r) (hd a) borrow; (borrow, rs) = BinSubMul_loop m n (tl r) (tl a) borrow
      in (borrow, x # rs))"

definition BinSubMul :: "BN_UINT list \<Rightarrow> BN_UINT list \<Rightarrow> nat \<Rightarrow> BN_UINT \<Rightarrow> BN_UINT \<times> BN_UINT list" where
  "BinSubMul r a aSize m = (let (borrow, rs) = BinSubMul_loop m aSize r a 0 in (borrow, rs @ drop aSize r))"

section \<open>Sizes, comparison, bits\<close>

fun BinFixSize :: "BN_UINT list \<Rightarrow> nat \<Rightarrow> nat" where
  "BinFixSize data 0 = 0"
| "BinFixSize data (Suc i) = (if data ! i \<noteq> 0 then Suc i else BinFixSize data i)"

fun BinCmp_loop :: "BN_UINT list \<Rightarrow> BN_UINT list \<Rightarrow> nat \<Rightarrow> int" where
  "BinCmp_loop a b 0 = 0"
| "BinCmp_loop a b (Suc len) =
     (if a ! len \<noteq> b ! len then (if a ! len > b ! len then 1 else - 1) else BinCmp_loop a b len)"

definition BinCmp :: "BN_UINT list \<Rightarrow> nat \<Rightarrow> BN_UINT list \<Rightarrow> nat \<Rightarrow> int" where
  "BinCmp a aSize b bSize =
     (if aSize = bSize then BinCmp_loop a b aSize else if aSize > bSize then 1 else - 1)"

fun GetZeroBits_loop :: "nat list \<Rightarrow> BN_UINT \<Rightarrow> nat \<Rightarrow> BN_UINT \<times> nat" where
  "GetZeroBits_loop [] tmp bits = (tmp, bits)"
| "GetZeroBits_loop (bs # rest) tmp bits =
     (let iter = drop_bit bs tmp in
      if iter \<noteq> 0 then GetZeroBits_loop rest iter (bits - bs) else GetZeroBits_loop rest tmp bits)"

text \<open>The loop halves its shift from 32 down to 1.\<close>

definition GetZeroBitsUint :: "BN_UINT \<Rightarrow> nat" where
  "GetZeroBitsUint x = (let (tmp, bits) = GetZeroBits_loop [32, 16, 8, 4, 2, 1] x BN_UINT_BITS in bits - unat tmp)"

definition BinBits :: "BN_UINT list \<Rightarrow> nat \<Rightarrow> nat" where
  "BinBits data sz = (if sz = 0 then 0 else sz * BN_UINT_BITS - GetZeroBitsUint (data ! (sz - 1)))"

section \<open>Shifts\<close>

definition BN_IsZeroUintConsttime :: "BN_UINT \<Rightarrow> BN_UINT" where
  "BN_IsZeroUintConsttime a = (let t = (NOT a) AND (a - 1) in 0 - drop_bit 63 t)"

text \<open>From the lower digits up, writing \<open>r[i - nw]\<close>; \<open>k\<close> digits are left.\<close>

fun BinRshift_loop :: "BN_UINT list \<Rightarrow> BN_UINT list \<Rightarrow> nat \<Rightarrow> nat \<Rightarrow> nat \<Rightarrow> BN_UINT \<Rightarrow> nat \<Rightarrow> nat \<Rightarrow> BN_UINT \<Rightarrow> BN_UINT \<times> BN_UINT list" where
  "BinRshift_loop r a nw nb na msk 0 i lo = (lo, r)"
| "BinRshift_loop r a nw nb na msk (Suc k) i lo =
     (let hi = a ! (i + 1)
      in BinRshift_loop (r[i - nw := drop_bit nb lo OR (push_bit na hi AND msk)]) a nw nb na msk k (i + 1) hi)"

definition BinRshift :: "BN_UINT list \<Rightarrow> BN_UINT list \<Rightarrow> nat \<Rightarrow> nat \<Rightarrow> nat \<times> BN_UINT list" where
  "BinRshift r a n bits =
     (let nw = bits div BN_UINT_BITS; nb = bits mod BN_UINT_BITS; na = (BN_UINT_BITS - nb) mod BN_UINT_BITS;
          rsize = n - nw; msk = NOT (BN_IsZeroUintConsttime (of_nat nb));
          (lo, r) = BinRshift_loop r a nw nb na msk (n - 1 - nw) nw (a ! nw);
          lo = drop_bit nb lo
      in if lo \<noteq> 0 then (rsize, r[rsize - 1 := lo]) else (rsize - 1, r))"

fun BinLshift_loop :: "BN_UINT list \<Rightarrow> BN_UINT list \<Rightarrow> nat \<Rightarrow> nat \<Rightarrow> nat \<Rightarrow> BN_UINT \<Rightarrow> nat \<Rightarrow> BN_UINT \<Rightarrow> BN_UINT list" where
  "BinLshift_loop r a nw nb na msk 0 hi = r"
| "BinLshift_loop r a nw nb na msk (Suc i) hi =
     (let lo = a ! i
      in BinLshift_loop (r[Suc i + nw := push_bit nb hi OR (drop_bit na lo AND msk)]) a nw nb na msk i lo)"

definition BinLshift :: "BN_UINT list \<Rightarrow> BN_UINT list \<Rightarrow> nat \<Rightarrow> nat \<Rightarrow> nat \<times> BN_UINT list" where
  "BinLshift r a n bits =
     (let nw = bits div BN_UINT_BITS; nb = bits mod BN_UINT_BITS; na = (BN_UINT_BITS - nb) mod BN_UINT_BITS;
          rsize = n + nw; hi = a ! (n - 1); msk = NOT (BN_IsZeroUintConsttime (of_nat nb));
          lo = drop_bit na hi AND msk;
          (rsize, r) = (if lo \<noteq> 0 then (rsize + 1, r[rsize := lo]) else (rsize, r));
          r = BinLshift_loop r a nw nb na msk (n - 1) hi;
          r = r[nw := push_bit nb (a ! 0)];
          r = (if nw \<noteq> 0 then replicate nw 0 @ drop nw r else r)
      in (rsize, r))"

section \<open>Exactness of addition and subtraction\<close>

lemma val_append: "val (xs @ ys) = val xs + base ^ length xs * val ys"
  by (induction xs) (simp_all add: algebra_simps)

lemma val_bound: "val xs < base ^ length xs"
proof (induction xs)
  case (Cons x xs)
  have "unat x + base * val xs < base + base * val xs" using unat_less_base [of x] by simp
  also have "\<dots> = base * Suc (val xs)" by simp
  also have "\<dots> \<le> base * base ^ length xs" using Cons by (intro mult_le_mono) simp_all
  finally show ?case by simp
qed simp

lemma val_replicate [simp]: "val (replicate n 0) = 0"
  by (induction n) simp_all

lemma take_Suc_hd: "Suc n \<le> length xs \<Longrightarrow> take (Suc n) xs = hd xs # take n (tl xs)"
  by (cases xs) simp_all

text \<open>The digit loops share their shape: a step takes the two digits and the carry. A step that
  accumulates \<open>x + m * y\<close>, or subtracts \<open>m * y\<close>, makes a loop that does so on whole arrays, and the
  loop unrolled in groups of four is the plain one.\<close>

locale digit_loop =
  fixes step :: "BN_UINT \<Rightarrow> BN_UINT \<Rightarrow> BN_UINT \<Rightarrow> BN_UINT \<times> BN_UINT"
    and plain :: "nat \<Rightarrow> BN_UINT list \<Rightarrow> BN_UINT list \<Rightarrow> BN_UINT \<Rightarrow> BN_UINT \<times> BN_UINT list"
  assumes plain_0: "plain 0 xs ys c = (c, [])"
    and plain_Suc: "plain (Suc n) xs ys c =
      (let (c1, r) = step (hd xs) (hd ys) c; (c2, rs) = plain n (tl xs) (tl ys) c1 in (c2, r # rs))"
begin

lemma plain_SucE:
  assumes "plain (Suc n) xs ys c = (c', r)"
  obtains k x rs where "step (hd xs) (hd ys) c = (k, x)" "plain n (tl xs) (tl ys) k = (c', rs)" "r = x # rs"
  using assms by (auto simp: plain_Suc split: prod.splits)

lemma plain_length: "plain n xs ys c = (c', r) \<Longrightarrow> length r = n"
proof (induction n arbitrary: xs ys c c' r)
  case (Suc n)
  from plain_SucE [OF Suc.prems] Suc.IH show ?case by (metis length_Cons)
qed (simp add: plain_0)

end

locale accumulating_loop = digit_loop +
  fixes m :: nat
  assumes step_acc: "step x y c = (c', r) \<Longrightarrow> unat r + base * unat c' = unat x + m * unat y + unat c"
begin

lemma plain_exact:
  "n \<le> length xs \<Longrightarrow> n \<le> length ys \<Longrightarrow> plain n xs ys c = (c', r) \<Longrightarrow>
   val r + base ^ n * unat c' = val (take n xs) + m * val (take n ys) + unat c"
proof (induction n arbitrary: xs ys c c' r)
  case (Suc n)
  from plain_SucE [OF Suc.prems(3)] obtain k x rs
    where k: "step (hd xs) (hd ys) c = (k, x)" and rs: "plain n (tl xs) (tl ys) k = (c', rs)" "r = x # rs" .
  have "val rs + base ^ n * unat c' = val (take n (tl xs)) + m * val (take n (tl ys)) + unat k"
    using Suc.IH [OF _ _ rs(1)] Suc.prems by simp
  from arg_cong [OF this, of "\<lambda>x. base * x"]
  have "base * val rs + base ^ Suc n * unat c' = base * val (take n (tl xs)) + m * (base * val (take n (tl ys))) + base * unat k"
    by (simp add: algebra_simps)
  then show ?case using step_acc [OF k] rs(2) Suc.prems by (simp add: take_Suc_hd distrib_left)
qed (simp add: plain_0)

end

locale subtracting_loop = digit_loop +
  fixes m :: nat
  assumes step_sub: "step x y c = (c', r) \<Longrightarrow> unat r + m * unat y + unat c = unat x + base * unat c'"
begin

lemma plain_exact:
  "n \<le> length xs \<Longrightarrow> n \<le> length ys \<Longrightarrow> plain n xs ys c = (c', r) \<Longrightarrow>
   val r + m * val (take n ys) + unat c = val (take n xs) + base ^ n * unat c'"
proof (induction n arbitrary: xs ys c c' r)
  case (Suc n)
  from plain_SucE [OF Suc.prems(3)] obtain k x rs
    where k: "step (hd xs) (hd ys) c = (k, x)" and rs: "plain n (tl xs) (tl ys) k = (c', rs)" "r = x # rs" .
  have "val rs + m * val (take n (tl ys)) + unat k = val (take n (tl xs)) + base ^ n * unat c'"
    using Suc.IH [OF _ _ rs(1)] Suc.prems by simp
  from arg_cong [OF this, of "\<lambda>x. base * x"]
  have "base * val rs + m * (base * val (take n (tl ys))) + base * unat k = base * val (take n (tl xs)) + base ^ Suc n * unat c'"
    by (simp add: algebra_simps)
  then show ?case using step_sub [OF k] rs(2) Suc.prems by (simp add: take_Suc_hd distrib_left)
qed (simp add: plain_0)

end

locale unrolled_loop = digit_loop +
  fixes groups :: "nat \<Rightarrow> BN_UINT list \<Rightarrow> BN_UINT list \<Rightarrow> BN_UINT \<Rightarrow> BN_UINT \<times> BN_UINT list"
  assumes groups_4: "n \<ge> 4 \<Longrightarrow> groups n xs ys c =
      (let (c, r0) = step (xs ! 0) (ys ! 0) c; (c, r1) = step (xs ! 1) (ys ! 1) c;
           (c, r2) = step (xs ! 2) (ys ! 2) c; (c, r3) = step (xs ! 3) (ys ! 3) c;
           (c, rs) = groups (n - 4) (drop 4 xs) (drop 4 ys) c
       in (c, r0 # r1 # r2 # r3 # rs))"
    and groups_rest: "n < 4 \<Longrightarrow> groups n xs ys c = plain n xs ys c"
begin

lemma groups_plain: "n \<le> length xs \<Longrightarrow> n \<le> length ys \<Longrightarrow> groups n xs ys c = plain n xs ys c"
proof (induction n arbitrary: xs ys c rule: less_induct)
  case (less n)
  show ?case
  proof (cases "n \<ge> 4")
    case True
    define k where "k = n - 4"
    then have n: "n = Suc (Suc (Suc (Suc k)))" using True by linarith
    have ih: "groups k (drop 4 xs) (drop 4 ys) d = plain k (drop 4 xs) (drop 4 ys) d" for d
      using less.IH [of k "drop 4 xs" "drop 4 ys" d] less.prems n by simp
    have nth: "zs ! 0 = hd zs" "zs ! 1 = hd (tl zs)" "zs ! 2 = hd (tl (tl zs))" "zs ! 3 = hd (tl (tl (tl zs)))"
      "drop 4 zs = tl (tl (tl (tl zs)))" if "4 \<le> length zs" for zs :: "BN_UINT list"
      using that by (auto simp: numeral_eq_Suc Suc_le_length_iff)
    have l: "4 \<le> length xs" "4 \<le> length ys" using True less.prems by simp_all
    show ?thesis using ih unfolding groups_4 [OF True] nth [OF l(1)] nth [OF l(2)]
      by (simp add: n plain_Suc split_def Let_def)
  qed (use groups_rest in simp)
qed

end

interpretation add_loop: accumulating_loop ADD_ABC BinAdd_tail 1
  by unfold_locales (use ADD_ABC_exact in auto)

interpretation add_unrolled: unrolled_loop ADD_ABC BinAdd_tail BinAdd_groups
  by unfold_locales simp_all

interpretation sub_loop: subtracting_loop SUB_ABC BinSub_tail 1
  by unfold_locales (use SUB_ABC_exact in auto)

interpretation sub_unrolled: unrolled_loop SUB_ABC BinSub_tail BinSub_groups
  by unfold_locales simp_all

interpretation acc_loop: accumulating_loop "\<lambda>r a c. MULADD_ABC c r a b" "BinMulAcc_tail b" "unat b" for b
  by unfold_locales (use MULADD_ABC_exact in \<open>auto simp: mult.commute\<close>)

interpretation acc_unrolled: unrolled_loop "\<lambda>r a c. MULADD_ABC c r a b" "BinMulAcc_tail b" "BinMulAcc_groups b" for b
  by unfold_locales simp_all

interpretation row_loop: accumulating_loop "\<lambda>r a c. MULADC_AB r a t c" "BinMul_row t" "unat t" for t
  by unfold_locales (use MULADC_AB_exact in \<open>auto simp: mult.commute\<close>)


declare BinAdd_groups.simps [simp del] BinSub_groups.simps [simp del] BinMulAcc_groups.simps [simp del]

lemma BinAdd_exact:
  assumes "n \<le> length a" "n \<le> length b" "BinAdd a b n = (c, r)"
  shows "length r = n" "val r + base ^ n * unat c = val (take n a) + val (take n b)"
proof -
  have t: "BinAdd_tail n a b 0 = (c, r)" using assms by (simp add: BinAdd_def add_unrolled.groups_plain)
  show "length r = n" "val r + base ^ n * unat c = val (take n a) + val (take n b)"
    using add_loop.plain_length [OF t] add_loop.plain_exact [OF assms(1,2) t] by simp_all
qed

lemma BinSub_exact:
  assumes "n \<le> length a" "n \<le> length b" "BinSub a b n = (c, r)"
  shows "length r = n" "val r + val (take n b) = val (take n a) + base ^ n * unat c"
proof -
  have t: "BinSub_tail n a b 0 = (c, r)" using assms by (simp add: BinSub_def sub_unrolled.groups_plain)
  show "length r = n" "val r + val (take n b) = val (take n a) + base ^ n * unat c"
    using sub_loop.plain_length [OF t] sub_loop.plain_exact [OF assms(1,2) t] by simp_all
qed

lemma BinMulAcc_exact:
  assumes "n \<le> length r" "n \<le> length a" "BinMulAcc r a n b = (c, r')"
  shows "length r' = length r" "val (take n r') + base ^ n * unat c = val (take n r) + unat b * val (take n a)"
    "drop n r' = drop n r"
proof -
  obtain rs where t: "BinMulAcc_tail b n r a 0 = (c, rs)" "r' = rs @ drop n r"
    using assms by (auto simp: BinMulAcc_def acc_unrolled.groups_plain split: prod.splits)
  have l: "length rs = n" by (rule acc_loop.plain_length [OF t(1)])
  show "length r' = length r" "val (take n r') + base ^ n * unat c = val (take n r) + unat b * val (take n a)"
    "drop n r' = drop n r"
    using acc_loop.plain_exact [OF assms(1,2) t(1)] t(2) l assms(1) by simp_all
qed

lemma BinInc_exact: "BinInc a w = (c, r) \<Longrightarrow> length r = length a \<and> val r + base ^ length a * unat c = val a + unat w"
proof (induction a arbitrary: w c r)
  case (Cons x xs)
  show ?case
  proof (cases "w = 0")
    case False
    then obtain k y rs where k: "ADD_AB x w = (k, y)" and rs: "BinInc xs k = (c, rs)" "r = y # rs"
      using Cons.prems by (auto split: prod.splits)
    from Cons.IH [OF rs(1)] have "length rs = length xs" "base * val rs + base ^ Suc (length xs) * unat c = base * val xs + base * unat k"
      by (simp_all add: distrib_left [symmetric] mult.assoc)
    then show ?thesis using ADD_AB_exact [OF k] rs(2) by simp
  qed (use Cons.prems in auto)
qed simp

lemma BinDec_exact: "BinDec a w = (c, r) \<Longrightarrow> length r = length a \<and> val r + unat w = val a + base ^ length a * unat c"
proof (induction a arbitrary: w c r)
  case (Cons x xs)
  show ?case
  proof (cases "w = 0")
    case False
    then obtain k y rs where k: "SUB_AB x w = (k, y)" and rs: "BinDec xs k = (c, rs)" "r = y # rs"
      using Cons.prems by (auto split: prod.splits)
    from Cons.IH [OF rs(1)] have "length rs = length xs" "base * val rs + base * unat k = base * val xs + base ^ Suc (length xs) * unat c"
      by (simp_all add: distrib_left [symmetric] mult.assoc)
    then show ?thesis using SUB_AB_exact [OF k] rs(2) by simp
  qed (use Cons.prems in auto)
qed simp

section \<open>Exactness of multiplication\<close>

lemma BinMul_rows_exact:
  "length a + length b \<le> length r \<Longrightarrow> val (drop (length a) r) = 0 \<Longrightarrow> BinMul_rows r a b k = (c, r') \<Longrightarrow>
   length r' = length r \<and> val r' = val r + val a * val b"
proof (induction b arbitrary: r k c r')
  case (Cons t ts)
  obtain c1 row where row: "BinMul_row t (length a) r a 0 = (c1, row)" by (cases "BinMul_row t (length a) r a 0") auto
  define r2 where "r2 = (if c1 \<noteq> 0 then (row @ drop (length a) r)[length a := c1] else row @ drop (length a) r)"
  obtain rs where rs: "BinMul_rows (tl r2) a ts c1 = (c, rs)" "r' = hd r2 # rs"
    using Cons.prems(3) row by (auto simp: r2_def Let_def split: prod.splits)
  have lr: "length row = length a" by (rule row_loop.plain_length [OF row])
  have e: "val row + base ^ length a * unat c1 = val (take (length a) r) + unat t * val a"
    using row_loop.plain_exact [OF _ _ row] Cons.prems(1) by simp
  obtain z zs where z: "drop (length a) r = z # zs" using Cons.prems(1) by (cases "drop (length a) r") auto
  have z0: "z = 0" "val zs = 0" using Cons.prems(2) z base_pos by (simp_all add: unat_eq_0)
  have r2: "r2 = row @ c1 # zs" using z z0 lr by (auto simp: r2_def list_update_append)
  have v: "val r2 = val r + unat t * val a"
    using e z0 z Cons.prems(2) append_take_drop_id [of "length a" r] val_append [of "take (length a) r" "drop (length a) r"]
    by (simp add: r2 val_append lr)
  have l2: "length r2 = length r" using r2 lr z by (metis length_append length_Cons append_take_drop_id length_take min.absorb2 Cons.prems(1) add_leD1)
  have "val (drop (length a) (tl r2)) = 0"
    using z0 by (cases row) (simp_all add: r2 lr [symmetric])
  moreover have "length a + length ts \<le> length (tl r2)" using Cons.prems(1) l2 by simp
  ultimately have ih: "length rs = length (tl r2)" "val rs = val (tl r2) + val a * val ts" using Cons.IH [OF _ _ rs(1)] by simp_all
  have "r2 \<noteq> []" using r2 by simp
  then have "val r2 = unat (hd r2) + base * val (tl r2)" "length r2 = Suc (length (tl r2))" by (cases r2; simp)+
  then show ?case using ih rs(2) v l2 by (simp add: algebra_simps)
qed simp


text \<open>The size returned: the top digit is used exactly when the last row leaves a carry.\<close>

lemma BinMul_exact:
  assumes "length a + length b \<le> room" "BinMul room a b = (sz, r)"
  shows "length r = room" "val r = val a * val b"
proof -
  obtain c where c: "BinMul_rows (replicate room 0) a b 0 = (c, r)" using assms(2)
    by (auto simp: BinMul_def split: prod.splits)
  have "length r = room \<and> val r = val (replicate room 0) + val a * val b"
    using BinMul_rows_exact [OF _ _ c] assms(1) by simp
  then show "length r = room" "val r = val a * val b" by simp_all
qed

lemma SUBMUL_step_exact:
  assumes "SUBMUL_step m x y c = (c', r)"
  shows "unat r + unat m * unat y + unat c = unat x + base * unat c'"
proof -
  obtain ah al k where m: "MUL_AB y m = (ah, al)" and k: "SUB_ABC x al c = (k, r)" and c': "c' = k + ah"
    using assms by (auto simp: SUBMUL_step_def split: prod.splits)
  have t: "unat r + unat y * unat m + unat c = unat x + base * (unat k + unat ah)"
    using MUL_AB_exact [OF m] SUB_ABC_exact [OF k] unfolding distrib_left by linarith
  have "unat r + unat y * unat m + unat c < base * base"
    using product_less [of y m] unat_le_base [of r] unat_le_base [of c] base_big by linarith
  then have "base * (unat k + unat ah) < base * base" using t by linarith
  then have "unat k + unat ah < base" by simp
  then show ?thesis using t by (simp add: c' unat_add mult.commute [of "unat m"])
qed

interpretation submul_loop: subtracting_loop "SUBMUL_step m" "BinSubMul_loop m" "unat m" for m
  by unfold_locales (use SUBMUL_step_exact in auto)

lemma BinSubMul_exact:
  assumes "n \<le> length r" "n \<le> length a" "BinSubMul r a n m = (c, r')"
  shows "length r' = length r" "val (take n r') + unat m * val (take n a) = val (take n r) + base ^ n * unat c"
    "drop n r' = drop n r"
proof -
  obtain rs where t: "BinSubMul_loop m n r a 0 = (c, rs)" "r' = rs @ drop n r"
    using assms by (auto simp: BinSubMul_def split: prod.splits)
  have l: "length rs = n" by (rule submul_loop.plain_length [OF t(1)])
  show "length r' = length r" "val (take n r') + unat m * val (take n a) = val (take n r) + base ^ n * unat c"
    "drop n r' = drop n r"
    using submul_loop.plain_exact [OF assms(1,2) t(1)] t(2) l assms(1) by simp_all
qed

section \<open>Sizes, comparison and bits\<close>

lemma BinFixSize_le: "BinFixSize d n \<le> n"
  by (induction n) auto

lemma BinFixSize_top: "BinFixSize d n = Suc k \<Longrightarrow> d ! k \<noteq> 0"
  by (induction n) (auto split: if_splits)

lemma BinFixSize_val: "n \<le> length d \<Longrightarrow> val (take (BinFixSize d n) d) = val (take n d)"
  by (induction n) (auto simp: take_Suc_conv_app_nth val_append)

lemma val_top: "xs \<noteq> [] \<Longrightarrow> last xs \<noteq> 0 \<Longrightarrow> base ^ (length xs - 1) \<le> val xs"
proof (induction xs rule: rev_induct)
  case (snoc x xs)
  then have "1 \<le> unat x" by (simp add: Suc_le_eq unat_gt_0)
  then have "base ^ length xs * 1 \<le> base ^ length xs * unat x" by (rule mult_le_mono2)
  then have "base ^ length xs \<le> val xs + base ^ length xs * unat x" by linarith
  then show ?case by (simp add: val_append)
qed simp

lemma val_less_length:
  assumes "ys \<noteq> []" "last ys \<noteq> 0" "length xs < length ys"
  shows "val xs < val ys"
proof -
  have "val xs < base ^ length xs" by (rule val_bound)
  also have "\<dots> \<le> base ^ (length ys - 1)" using assms(3) base_big by (intro power_increasing) linarith+
  finally show ?thesis using val_top [OF assms(1,2)] by linarith
qed

lemma BinCmp_loop_exact: "n \<le> length a \<Longrightarrow> n \<le> length b \<Longrightarrow>
   BinCmp_loop a b n = sgn (int (val (take n a)) - int (val (take n b)))"
proof (induction n)
  case (Suc n)
  have t: "val (take (Suc n) x) = val (take n x) + base ^ n * unat (x ! n)" if "Suc n \<le> length x" for x
    using that by (simp add: take_Suc_conv_app_nth val_append)
  have lt: "val (take n x) + base ^ n * unat u < val (take n y) + base ^ n * unat v"
    if "unat u < unat v" "n \<le> length x" for x y and u v :: BN_UINT
  proof -
    have "val (take n x) < base ^ n" using val_bound [of "take n x"] that(2) by simp
    then have "val (take n x) + base ^ n * unat u < base ^ n * Suc (unat u)" by simp
    also have "\<dots> \<le> base ^ n * unat v" using that(1) by (intro mult_le_mono2) simp
    finally show ?thesis by simp
  qed
  have l: "n \<le> length a" "n \<le> length b" using Suc.prems by simp_all
  consider "a ! n = b ! n" | "unat (a ! n) < unat (b ! n)" | "unat (b ! n) < unat (a ! n)"
    by (metis linorder_less_linear word_unat_eq_iff)
  then show ?case
  proof cases
    case 1
    then show ?thesis using Suc.IH l t [OF Suc.prems(1)] t [OF Suc.prems(2)] by simp
  next
    case 2
    then have "val (take (Suc n) a) < val (take (Suc n) b)"
      using lt [OF 2 l(1), of b] t [OF Suc.prems(1)] t [OF Suc.prems(2)] by simp
    then show ?thesis using 2 by (auto simp: word_less_nat_alt sgn_if)
  next
    case 3
    then have "val (take (Suc n) b) < val (take (Suc n) a)"
      using lt [OF 3 l(2), of a] t [OF Suc.prems(1)] t [OF Suc.prems(2)] by simp
    then show ?thesis using 3 by (auto simp: word_less_nat_alt sgn_if)
  qed
qed simp


text \<open>Arrays without leading zero digits.\<close>

definition normal :: "BN_UINT list \<Rightarrow> bool" where
  "normal xs = (xs = [] \<or> last xs \<noteq> 0)"

lemma normal_Fix: "n \<le> length d \<Longrightarrow> normal (take (BinFixSize d n) d)"
proof (cases "BinFixSize d n")
  case (Suc k)
  assume "n \<le> length d"
  then have "Suc k \<le> length d" using BinFixSize_le [of d n] Suc by linarith
  then show ?thesis using BinFixSize_top [OF Suc] Suc by (simp add: normal_def take_Suc_conv_app_nth)
qed (simp add: normal_def)

lemma normal_val_0: "normal xs \<Longrightarrow> val xs = 0 \<longleftrightarrow> xs = []"
proof (cases "xs = []")
  case False
  assume "normal xs"
  then have "base ^ (length xs - 1) \<le> val xs" using val_top [of xs] False by (simp add: normal_def)
  moreover have "0 < base ^ (length xs - 1)" by simp
  ultimately have "val xs \<noteq> 0" by linarith
  then show ?thesis using False by simp
qed simp

lemma BinCmp_exact:
  assumes "m \<le> length a" "n \<le> length b" "normal (take m a)" "normal (take n b)"
  shows "BinCmp a m b n = sgn (int (val (take m a)) - int (val (take n b)))"
proof -
  consider "m = n" | "m < n" | "n < m" by linarith
  then show ?thesis
  proof cases
    case 1
    then show ?thesis using BinCmp_loop_exact [of m a b] assms by (simp add: BinCmp_def)
  next
    case 2
    then have "val (take m a) < val (take n b)"
      using assms by (intro val_less_length) (auto simp: normal_def)
    then show ?thesis using 2 by (simp add: BinCmp_def)
  next
    case 3
    then have "val (take n b) < val (take m a)"
      using assms by (intro val_less_length) (auto simp: normal_def)
    then show ?thesis using 3 by (simp add: BinCmp_def)
  qed
qed

text \<open>One round: the value is shifted when it has a bit at or above the shift width.\<close>

definition zero_inv :: "BN_UINT \<Rightarrow> nat \<Rightarrow> BN_UINT \<Rightarrow> nat \<Rightarrow> bool" where
  "zero_inv x w tmp bits = (tmp \<noteq> 0 \<and> unat tmp < 2 ^ w \<and> bits \<le> 64 \<and> w \<le> bits \<and> unat tmp = unat x div 2 ^ (64 - bits))"

lemma GetZeroBits_step:
  assumes "zero_inv x (2 * w) tmp bits" and "0 < w"
  shows "\<exists>tmp' bits'. GetZeroBits_loop (w # rest) tmp bits = GetZeroBits_loop rest tmp' bits' \<and> zero_inv x w tmp' bits'"
proof (cases "drop_bit w tmp = 0")
  case True
  then have "unat tmp div 2 ^ w = 0" by (metis drop_bit_eq_div unat_0 unat_drop_bit_eq)
  then have "unat tmp < 2 ^ w" by (simp add: div_eq_0_iff)
  then show ?thesis using True assms by (intro exI [of _ tmp] exI [of _ bits]) (auto simp: zero_inv_def)
next
  case False
  have u: "unat (drop_bit w tmp) = unat tmp div 2 ^ w" by (metis drop_bit_eq_div unat_drop_bit_eq)
  have "unat tmp < 2 ^ w * 2 ^ w" using assms(1) by (simp add: zero_inv_def power_add [symmetric] mult_2)
  then have "unat tmp div 2 ^ w < 2 ^ w" by (simp add: less_mult_imp_div_less)
  moreover have "unat tmp div 2 ^ w = unat x div 2 ^ (64 - (bits - w))"
    using assms(1) by (simp add: zero_inv_def div_mult2_eq [symmetric] power_add [symmetric] add.commute)
  ultimately show ?thesis using False assms u
    by (intro exI [of _ "drop_bit w tmp"] exI [of _ "bits - w"]) (auto simp: zero_inv_def)
qed


lemma GetZeroBitsUint_exact:
  assumes "x \<noteq> 0"
  shows "GetZeroBitsUint x < 64" "2 ^ (63 - GetZeroBitsUint x) \<le> unat x" "unat x < 2 ^ (64 - GetZeroBitsUint x)"
proof -
  have "zero_inv x (2 * 32) x 64" using assms unat_less_base [of x] by (simp add: zero_inv_def base_def)
  from GetZeroBits_step [OF this] obtain t b where *: "GetZeroBits_loop [32, 16, 8, 4, 2, 1] x 64 = GetZeroBits_loop [16, 8, 4, 2, 1] t b"
    "zero_inv x (2 * 16) t b" by fastforce
  from GetZeroBits_step [OF *(2), of "[8, 4, 2, 1]"] *(1) obtain t b
    where *: "GetZeroBits_loop [32, 16, 8, 4, 2, 1] x 64 = GetZeroBits_loop [8, 4, 2, 1] t b" "zero_inv x (2 * 8) t b" by fastforce
  from GetZeroBits_step [OF *(2), of "[4, 2, 1]"] *(1) obtain t b
    where *: "GetZeroBits_loop [32, 16, 8, 4, 2, 1] x 64 = GetZeroBits_loop [4, 2, 1] t b" "zero_inv x (2 * 4) t b" by fastforce
  from GetZeroBits_step [OF *(2), of "[2, 1]"] *(1) obtain t b
    where *: "GetZeroBits_loop [32, 16, 8, 4, 2, 1] x 64 = GetZeroBits_loop [2, 1] t b" "zero_inv x (2 * 2) t b" by fastforce
  from GetZeroBits_step [OF *(2), of "[1]"] *(1) obtain t b
    where *: "GetZeroBits_loop [32, 16, 8, 4, 2, 1] x 64 = GetZeroBits_loop [1] t b" "zero_inv x (2 * 1) t b" by fastforce
  from GetZeroBits_step [OF *(2), of "[]"] *(1) obtain t b
    where *: "GetZeroBits_loop [32, 16, 8, 4, 2, 1] x 64 = (t, b)" "zero_inv x 1 t b" by fastforce
  have t: "unat t = 1" "b \<le> 64" "1 \<le> b" "unat x div 2 ^ (64 - b) = 1"
  proof -
    have "0 < unat t" "unat t < 2 ^ 1" using *(2) unfolding zero_inv_def by (metis unat_gt_0)+
    then show 1: "unat t = 1" by simp
    show "b \<le> 64" "1 \<le> b" "unat x div 2 ^ (64 - b) = 1" using *(2) 1 unfolding zero_inv_def by metis+
  qed
  have z: "GetZeroBitsUint x = b - 1" using *(1) t(1) by (simp add: GetZeroBitsUint_def)
  have "2 ^ (64 - b) \<le> unat x" using t(4) by (metis div_less le_less_linear zero_neq_one)
  moreover have "unat x < 2 * 2 ^ (64 - b)" using t(4) by (metis dividend_less_times_div div_less_iff_less_mult add_diff_cancel one_add_one lessI Suc_1 zero_less_numeral zero_less_power)
  moreover have "64 - (b - 1) = Suc (64 - b)" "63 - (b - 1) = 64 - b" using t(2,3) by linarith+
  ultimately show "GetZeroBitsUint x < 64" "2 ^ (63 - GetZeroBitsUint x) \<le> unat x" "unat x < 2 ^ (64 - GetZeroBitsUint x)"
    unfolding z using t(2,3) by simp_all
qed

text \<open>The number of bits of an array without leading zeros.\<close>

lemma BinBits_exact:
  assumes "n \<le> length d" "normal (take n d)" "0 < n"
  shows "2 ^ (BinBits d n - 1) \<le> val (take n d) \<and> val (take n d) < 2 ^ BinBits d n"
proof -
  obtain k where n: "n = Suc k" using assms(3) by (cases n) auto
  define x where "x = d ! k"
  have x: "x \<noteq> 0" using assms by (simp add: n normal_def take_Suc_conv_app_nth x_def)
  note z = GetZeroBitsUint_exact [OF x]
  have v: "val (take n d) = val (take k d) + base ^ k * unat x"
    using assms(1) by (simp add: n take_Suc_conv_app_nth val_append x_def)
  have b: "BinBits d n = 64 * k + (64 - GetZeroBitsUint x)" using z(1) by (simp add: BinBits_def n x_def)
  have pw: "base ^ k * 2 ^ j = 2 ^ (64 * k + j)" for j
    unfolding base_def power_mult [symmetric] power_add ..
  have vk: "val (take k d) < base ^ k" using val_bound [of "take k d"] assms(1) n by simp
  have "base ^ k * 2 ^ (63 - GetZeroBitsUint x) \<le> base ^ k * unat x" using z(2) by (rule mult_le_mono2)
  moreover have "BinBits d n - 1 = 64 * k + (63 - GetZeroBitsUint x)" using b z(1) by linarith
  ultimately have "2 ^ (BinBits d n - 1) \<le> val (take n d)" using v pw [of "63 - GetZeroBitsUint x"] by simp
  moreover have "val (take n d) < base ^ k * Suc (unat x)" using v vk by simp
  then have "val (take n d) < base ^ k * 2 ^ (64 - GetZeroBitsUint x)"
    using mult_le_mono2 [of "Suc (unat x)" "2 ^ (64 - GetZeroBitsUint x)" "base ^ k"] z(3) by linarith
  ultimately show ?thesis using pw [of "64 - GetZeroBitsUint x"] b by simp
qed


lemma val_ge_normal:
  assumes "xs \<noteq> [] \<Longrightarrow> base ^ (length xs - 1) \<le> val xs"
  shows "normal xs"
proof (cases xs rule: rev_cases)
  case (snoc ys y)
  have "y \<noteq> 0"
  proof
    assume "y = 0"
    then have "val xs = val ys" by (simp add: snoc val_append)
    then show False using assms val_bound [of ys] by (simp add: snoc)
  qed
  then show ?thesis by (simp add: snoc normal_def)
qed (simp add: normal_def)

section \<open>The product as the callers see it\<close>

text \<open>The digit above the rows is the carry of the last one.\<close>

lemma BinMul_rows_top:
  "b \<noteq> [] \<Longrightarrow> length a + length b \<le> length r \<Longrightarrow> BinMul_rows r a b k = (c, r') \<Longrightarrow>
   val (drop (length a) r) = 0 \<Longrightarrow> r' ! (length a + length b - 1) = c"
proof (induction b arbitrary: r k c r')
  case (Cons t ts)
  obtain c1 row where row: "BinMul_row t (length a) r a 0 = (c1, row)" by (cases "BinMul_row t (length a) r a 0") auto
  define r2 where "r2 = (if c1 \<noteq> 0 then (row @ drop (length a) r)[length a := c1] else row @ drop (length a) r)"
  obtain rs where rs: "BinMul_rows (tl r2) a ts c1 = (c, rs)" "r' = hd r2 # rs"
    using Cons.prems(3) row by (auto simp: r2_def Let_def split: prod.splits)
  have lr: "length row = length a" by (rule row_loop.plain_length [OF row])
  obtain z zs where z: "drop (length a) r = z # zs" using Cons.prems(2) by (cases "drop (length a) r") auto
  have z0: "z = 0" "val zs = 0" using Cons.prems(4) z base_pos by (simp_all add: unat_eq_0)
  have r2: "r2 = row @ c1 # zs" using z z0 lr by (auto simp: r2_def list_update_append)
  have l2: "length r2 = length r" using Cons.prems(2) lr by (simp add: r2_def)
  show ?case
  proof (cases "ts = []")
    case True
    then have "r' = r2" "c = c1" using rs r2 by (auto simp: hd_Cons_tl)
    then show ?thesis using True r2 lr by (simp add: nth_append)
  next
    case False
    have "val (drop (length a) (tl r2)) = 0" using z0 by (cases row) (simp_all add: r2 lr [symmetric])
    moreover have "length a + length ts \<le> length (tl r2)" using Cons.prems(2) l2 by simp
    ultimately have "rs ! (length a + length ts - 1) = c" using Cons.IH [OF False _ rs(1)] by simp
    moreover have "length a + length (t # ts) - 1 = Suc (length a + length ts - 1)" using False by (cases ts) simp_all
    ultimately show ?thesis unfolding rs(2) by (simp only: nth_Cons_Suc)
  qed
qed simp

text \<open>The product with the size returned.\<close>

lemma BinMul_sized:
  assumes "length a + length b \<le> room" and "a \<noteq> []" "b \<noteq> []"
  shows "case BinMul room a b of
     (sz, r) \<Rightarrow> length r = room \<and> sz \<le> room \<and> val (take sz r) = val a * val b
       \<and> (last a = 0 \<or> last b = 0 \<or> normal (take sz r))"
proof -
  obtain c r where rows: "BinMul_rows (replicate room 0) a b 0 = (c, r)" by fastforce
  let ?n = "length a + length b"
  define sz where "sz = ?n - (if c = 0 then 1 else 0)"
  have m: "BinMul room a b = (sz, r)" using rows by (simp add: BinMul_def sz_def)
  note e = BinMul_exact [OF assms(1) m]
  have top: "r ! (?n - 1) = c" using BinMul_rows_top [OF assms(3) _ rows] assms(1) by simp
  have n: "0 < ?n" "?n \<le> length r" using assms e(1) by simp_all
  have sp: "val r = val (take ?n r) + base ^ ?n * val (drop ?n r)"
    using val_append [of "take ?n r" "drop ?n r"] n(2) by (simp only: append_take_drop_id length_take min_absorb2)
  have "val a * val b < base ^ length a * base ^ length b"
    by (intro mult_strict_mono val_bound) simp_all
  then have lt: "val r < base ^ ?n" by (simp add: e(2) power_add)
  have "val (drop ?n r) = 0"
  proof (rule ccontr)
    assume "val (drop ?n r) \<noteq> 0"
    then have "base ^ ?n * 1 \<le> base ^ ?n * val (drop ?n r)" by (intro mult_le_mono2) simp
    then show False using sp lt by linarith
  qed
  then have v: "val (take ?n r) = val a * val b" using sp e(2) by simp
  have ts: "take ?n r = take (?n - 1) r @ [c]"
  proof -
    have "?n - 1 < length r" "Suc (?n - 1) = ?n" using n by linarith+
    then show ?thesis using take_Suc_conv_app_nth [of "?n - 1" r] top by simp
  qed
  have vs: "val (take sz r) = val a * val b"
    using v ts by (cases "c = 0") (simp_all add: sz_def val_append)
  have "normal (take sz r)" if nz: "last a \<noteq> 0" "last b \<noteq> 0"
  proof (cases "c = 0")
    case True
    have "base ^ (length a - 1) * base ^ (length b - 1) \<le> val a * val b"
      using val_top [OF assms(2) nz(1)] val_top [OF assms(3) nz(2)] by (rule mult_le_mono)
    moreover have "length a - 1 + (length b - 1) = length (take sz r) - 1"
      using True n assms by (cases a; cases b) (simp_all add: sz_def)
    ultimately show ?thesis using vs by (intro val_ge_normal) (simp add: power_add [symmetric])
  next
    case False
    then show ?thesis using ts by (simp add: sz_def normal_def)
  qed
  then have "last a = 0 \<or> last b = 0 \<or> normal (take sz r)" by blast
  moreover have "sz \<le> room" using assms(1) by (simp add: sz_def)
  ultimately show ?thesis unfolding m using e(1) vs by simp
qed

end
