(* ===== verification/Bn_Shift.thy ===== *)
theory Bn_Shift
  imports Bn_Bin
begin

text \<open>
  The shifts of digit arrays (\<open>BinLshift\<close> and \<open>BinRshift\<close> of \<^verbatim>\<open>bn_bincal.c\<close>) multiply and divide by a
  power of two, whatever array they write into, their operand included.
\<close>

section \<open>The masks\<close>

lemma IsZeroUint: "BN_IsZeroUintConsttime a = (if a = 0 then - 1 else 0)"
proof (cases "a = 0")
  case False
  define t where "t = (NOT a) AND (a - 1)"
  have "t \<le> a - 1" "t \<le> NOT a" unfolding t_def by (rule word_and_le1, rule word_and_le2)
  then have t: "unat t \<le> unat (a - 1)" "unat t \<le> unat (NOT a)" by (simp_all add: word_le_nat_alt)
  have "unat (a - 1) = unat a - 1" using False by (simp add: unat_minus_one)
  moreover have "unat (NOT a) = 2 ^ 64 - 1 - unat a"
  proof -
    have "NOT a = - 1 - a" by (simp add: not_eq_complement)
    then show ?thesis by (simp add: unat_sub unsigned_minus_1_eq_mask mask_eq_exp_minus_1)
  qed
  ultimately have "unat t < 2 ^ 63" using t unat_less_base [of a] False unat_gt_0 [of a] by (simp add: base_def)
  then have "unat (drop_bit 63 t) = 0" unfolding unat_drop_bit_eq drop_bit_eq_div [of 63 "unat t"] by (rule div_less)
  then show ?thesis using False by (simp add: BN_IsZeroUintConsttime_def t_def [symmetric] unat_eq_0)
qed (simp add: BN_IsZeroUintConsttime_def)

lemma shift_mask: "nb < 64 \<Longrightarrow> NOT (BN_IsZeroUintConsttime (of_nat nb)) = (if nb = 0 then 0 else - 1)"
  by (simp add: IsZeroUint of_nat_eq_0_iff) (auto simp: unat_eq_0 [symmetric] unat_of_nat)

text \<open>The bits that a shifted digit gives to its neighbour.\<close>

definition out_left :: "nat \<Rightarrow> BN_UINT \<Rightarrow> BN_UINT" where
  "out_left nb x = drop_bit ((64 - nb) mod 64) x AND (if nb = 0 then 0 else - 1)"

definition out_right :: "nat \<Rightarrow> BN_UINT \<Rightarrow> BN_UINT" where
  "out_right nb x = push_bit ((64 - nb) mod 64) x AND (if nb = 0 then 0 else - 1)"

lemma base_split: "nb \<le> 64 \<Longrightarrow> base = 2 ^ nb * 2 ^ (64 - nb)"
  unfolding base_def power_add [symmetric] by simp

lemma base_split': "nb \<le> 64 \<Longrightarrow> base = 2 ^ (64 - nb) * 2 ^ nb"
  unfolding base_def power_add [symmetric] by simp

lemma unat_out_left: "nb < 64 \<Longrightarrow> unat (out_left nb x) = unat x * 2 ^ nb div base"
proof (cases "nb = 0")
  case False
  assume "nb < 64"
  then have "unat (out_left nb x) = unat x div 2 ^ (64 - nb)"
    using False unfolding out_left_def by (simp add: unat_drop_bit_eq) (simp add: drop_bit_eq_div)
  also have "\<dots> = unat x * 2 ^ nb div base" unfolding base_split [OF less_imp_le [OF \<open>nb < 64\<close>]] by (simp add: mult.commute)
  finally show ?thesis .
qed (use unat_less_base [of x] in \<open>simp add: out_left_def\<close>)

lemma out_left_less: "nb < 64 \<Longrightarrow> unat (out_left nb x) < 2 ^ nb"
proof -
  assume n: "nb < 64"
  have "unat x * 2 ^ nb < base * 2 ^ nb" using unat_less_base [of x] by simp
  then show ?thesis unfolding unat_out_left [OF n] by (simp add: less_mult_imp_div_less mult.commute)
qed

lemma unat_out_right: "nb < 64 \<Longrightarrow> unat (out_right nb x) = unat x mod 2 ^ nb * 2 ^ (64 - nb)"
proof (cases "nb = 0")
  case False
  assume n: "nb < 64"
  have "unat (out_right nb x) = unat x * 2 ^ (64 - nb) mod base"
    using False n unat_push [of "64 - nb" x] by (simp add: out_right_def)
  also have "\<dots> = unat x mod 2 ^ nb * 2 ^ (64 - nb)"
    unfolding base_split [OF less_imp_le [OF n]] by (rule mult_mod_left [symmetric])
  finally show ?thesis .
qed (simp add: out_right_def)

lemma or_disjoint: "a AND b = 0 \<Longrightarrow> a OR b = a + (b :: BN_UINT)"
  by (simp add: disjunctive_add_eq_or)

lemma unat_or_low:
  fixes x y :: BN_UINT
  assumes "nb < 64" "unat y < 2 ^ nb"
  shows "unat (push_bit nb x OR y) = unat x * 2 ^ nb mod base + unat y"
proof -
  have y: "y = take_bit nb y" using assms(2) by (metis take_bit_nat_eq_self unsigned_take_bit_eq word_unat_eq_iff)
  have "push_bit nb x AND y = 0" by (subst y, rule bit_word_eqI) (auto simp: bit_simps)
  then have s: "push_bit nb x OR y = push_bit nb x + y" by (rule or_disjoint)
  have m: "unat x * 2 ^ nb mod base = unat x mod 2 ^ (64 - nb) * 2 ^ nb"
    unfolding base_split' [OF less_imp_le [OF assms(1)]] by (rule mult_mod_left [symmetric])
  have "unat x mod 2 ^ (64 - nb) * 2 ^ nb + unat y < 2 ^ (64 - nb) * 2 ^ nb"
    by (rule two_digits) (simp_all add: assms)
  then have "unat x * 2 ^ nb mod base + unat y < base" unfolding m
    by (subst base_split' [OF less_imp_le [OF assms(1)]])
  then show ?thesis unfolding s unat_add unat_push by simp
qed

lemma unat_or_high:
  fixes x y :: BN_UINT
  assumes "nb < 64"
  shows "unat (drop_bit nb x OR out_right nb y) = unat x div 2 ^ nb + unat y mod 2 ^ nb * 2 ^ (64 - nb)"
proof -
  have u: "unat (drop_bit nb x) = unat x div 2 ^ nb" unfolding unat_drop_bit_eq by (rule drop_bit_eq_div)
  have "drop_bit nb x AND out_right nb y = 0"
  proof (rule bit_word_eqI)
    fix n assume "n < LENGTH(64)"
    then show "bit (drop_bit nb x AND out_right nb y) n = bit (0 :: BN_UINT) n"
      using assms bit_imp_le_length [of x "nb + n"] by (auto simp: out_right_def bit_simps)
  qed
  then have s: "drop_bit nb x OR out_right nb y = drop_bit nb x + out_right nb y" by (rule or_disjoint)
  have "unat x div 2 ^ nb < 2 ^ (64 - nb)"
    using unat_less_base [of x] unfolding base_split' [OF less_imp_le [OF assms]] by (rule less_mult_imp_div_less)
  then have "unat y mod 2 ^ nb * 2 ^ (64 - nb) + unat x div 2 ^ nb < 2 ^ nb * 2 ^ (64 - nb)"
    by (intro two_digits) simp_all
  then have "unat x div 2 ^ nb + unat y mod 2 ^ nb * 2 ^ (64 - nb) < base"
    unfolding base_split [OF less_imp_le [OF assms]] by (simp only: add.commute)
  then show ?thesis unfolding s unat_add u unat_out_right [OF assms] by simp
qed


section \<open>Left shift\<close>

text \<open>The digits of the shifted number: the bits that stay and those that come from below.\<close>

definition left_digit :: "nat \<Rightarrow> BN_UINT list \<Rightarrow> nat \<Rightarrow> BN_UINT" where
  "left_digit nb a i = push_bit nb (a ! i) OR (if i = 0 then 0 else out_left nb (a ! (i - 1)))"

lemma val_left:
  assumes "nb < 64" "Suc n \<le> length a"
  shows "val (map (left_digit nb a) [0..<Suc n]) + base ^ Suc n * unat (out_left nb (a ! n)) = 2 ^ nb * val (take (Suc n) a)"
  using assms(2)
proof (induction n)
  case 0
  have "unat (left_digit nb a 0) = unat (a ! 0) * 2 ^ nb mod base"
    using unat_or_low [OF assms(1), of 0 "a ! 0"] by (simp add: left_digit_def)
  moreover have "base * (unat (a ! 0) * 2 ^ nb div base) + unat (a ! 0) * 2 ^ nb mod base = unat (a ! 0) * 2 ^ nb" by simp
  moreover have "take (Suc 0) a = [a ! 0]" using 0 by (cases a) simp_all
  ultimately show ?case using assms(1) by (simp add: unat_out_left)
next
  case (Suc n)
  let ?x = "unat (a ! Suc n) * 2 ^ nb"
  have d: "unat (left_digit nb a (Suc n)) = ?x mod base + unat (out_left nb (a ! n))"
    using unat_or_low [OF assms(1) out_left_less [OF assms(1)]] by (simp add: left_digit_def)
  have o: "unat (out_left nb (a ! Suc n)) = ?x div base" using assms(1) by (rule unat_out_left)
  have t: "take (Suc (Suc n)) a = take (Suc n) a @ [a ! Suc n]" using Suc.prems by (simp add: take_Suc_conv_app_nth)
  have m: "map (left_digit nb a) [0..<Suc (Suc n)] = map (left_digit nb a) [0..<Suc n] @ [left_digit nb a (Suc n)]" by simp
  have x: "base * (?x div base) + ?x mod base = ?x" by simp
  have "base ^ Suc n * (?x mod base) + base ^ Suc (Suc n) * (?x div base) = base ^ Suc n * ?x"
    by (subst x [symmetric]) (simp only: distrib_left power_Suc2 mult.assoc add.commute)
  moreover have "2 ^ nb * val (take (Suc (Suc n)) a) = 2 ^ nb * val (take (Suc n) a) + base ^ Suc n * ?x"
    using Suc.prems unfolding t val_append by (simp add: distrib_left mult.left_commute mult.commute)
  moreover have "val (map (left_digit nb a) [0..<Suc (Suc n)])
      = val (map (left_digit nb a) [0..<Suc n]) + base ^ Suc n * (?x mod base) + base ^ Suc n * unat (out_left nb (a ! n))"
    unfolding m val_append by (simp add: d distrib_left)
  ultimately show ?case using Suc.IH Suc.prems unfolding o by simp
qed

lemma Lshift_loop_nth:
  assumes "i + nw < length r"
  shows "length (BinLshift_loop r a nw nb na msk i (a ! i)) = length r
    \<and> (\<forall>j < length r. BinLshift_loop r a nw nb na msk i (a ! i) ! j =
         (if nw < j \<and> j \<le> i + nw then push_bit nb (a ! (j - nw)) OR (drop_bit na (a ! (j - nw - 1)) AND msk) else r ! j))"
  using assms
proof (induction i arbitrary: r)
  case (Suc i)
  let ?r = "r[Suc i + nw := push_bit nb (a ! Suc i) OR (drop_bit na (a ! i) AND msk)]"
  have "i + nw < length ?r" using Suc.prems by simp
  note ih = Suc.IH [OF this]
  show ?case
  proof (intro conjI allI impI)
    show "length (BinLshift_loop r a nw nb na msk (Suc i) (a ! Suc i)) = length r" using ih by (simp add: Let_def)
    fix j assume j: "j < length r"
    show "BinLshift_loop r a nw nb na msk (Suc i) (a ! Suc i) ! j =
        (if nw < j \<and> j \<le> Suc i + nw then push_bit nb (a ! (j - nw)) OR (drop_bit na (a ! (j - nw - 1)) AND msk) else r ! j)"
    proof (cases "j = Suc i + nw")
      case True
      then show ?thesis using ih j by (simp add: Let_def)
    next
      case False
      then have "nw < j \<and> j \<le> Suc i + nw \<longleftrightarrow> nw < j \<and> j \<le> i + nw" by linarith
      then show ?thesis using ih j False by (simp add: Let_def)
    qed
  qed
qed auto


lemma Lshift_size:
  assumes "BinLshift r a n bits = (sz, r')"
  shows "sz = n + bits div 64 + (if out_left (bits mod 64) (a ! (n - 1)) \<noteq> 0 then 1 else 0)"
proof -
  have "NOT (BN_IsZeroUintConsttime (of_nat (bits mod 64))) = (if bits mod 64 = 0 then 0 else - 1)" by (rule shift_mask) simp
  note mk = this
  have ol: "drop_bit ((64 - bits mod 64) mod 64) x AND (if bits mod 64 = 0 then 0 else - 1) = out_left (bits mod 64) x" for x
    by (simp add: out_left_def)
  show ?thesis using assms [unfolded BinLshift_def Let_def mk ol]
    by (cases "out_left (bits mod 64) (a ! (n - 1)) = 0"; simp only: if_True if_False simp_thms split_conv prod.inject; simp)
qed

lemma Rshift_loop_fst: "fst (BinRshift_loop r a nw nb na msk k i (a ! i)) = a ! (i + k)"
  by (induction k arbitrary: r i) (simp_all add: Let_def)

lemma Rshift_size:
  assumes "BinRshift r a n bits = (sz, r')" and "bits div 64 < n"
  shows "sz = n - bits div 64 - (if drop_bit (bits mod 64) (a ! (n - 1)) \<noteq> 0 then 0 else 1)"
proof -
  obtain lo r1 where l: "BinRshift_loop r a (bits div 64) (bits mod 64) ((64 - bits mod 64) mod 64)
      (NOT (BN_IsZeroUintConsttime (of_nat (bits mod 64)))) (n - 1 - bits div 64) (bits div 64) (a ! (bits div 64)) = (lo, r1)"
    by fastforce
  have "lo = a ! (bits div 64 + (n - 1 - bits div 64))" using Rshift_loop_fst [of r a] l by (metis fst_conv)
  moreover have "bits div 64 + (n - 1 - bits div 64) = n - 1" using assms(2) by linarith
  ultimately have "lo = a ! (n - 1)" by simp
  then show ?thesis using assms(1) [unfolded BinRshift_def Let_def l split_conv]
    by (cases "drop_bit (bits mod 64) lo = 0"; simp only: if_True if_False simp_thms prod.inject; simp)
qed

text \<open>The array after a left shift: zeros, the shifted digits, and the bits that left the top digit when
  there are any.\<close>

lemma BinLshift_digits:
  assumes n: "0 < n" "n \<le> length a" and s: "BinLshift r a n bits = (sz, r')" and room: "sz \<le> length r"
  defines "nw \<equiv> bits div 64" and "nb \<equiv> bits mod 64"
  defines "out \<equiv> out_left nb (a ! (n - 1))"
  shows "length r' = length r" "sz = n + nw + (if out \<noteq> 0 then 1 else 0)"
    "take sz r' = replicate nw 0 @ map (left_digit nb a) [0..<n] @ (if out \<noteq> 0 then [out] else [])"
    "drop sz r' = drop sz r"
proof -
  have nb: "nb < 64" by (simp add: nb_def)
  have mk: "NOT (BN_IsZeroUintConsttime (of_nat nb)) = (if nb = 0 then 0 else - 1)" by (rule shift_mask [OF nb])
  have ol: "drop_bit ((64 - nb) mod 64) x AND (if nb = 0 then 0 else - 1) = out_left nb x" for x by (simp add: out_left_def)
  define r1 where "r1 = (if out \<noteq> 0 then r[n + nw := out] else r)"
  define r2 where "r2 = BinLshift_loop r1 a nw nb ((64 - nb) mod 64) (if nb = 0 then 0 else - 1) (n - 1) (a ! (n - 1))"
  define r3 where "r3 = r2[nw := push_bit nb (a ! 0)]"
  have r': "r' = (if nw \<noteq> 0 then replicate nw 0 @ drop nw r3 else r3)"
    and sz: "sz = n + nw + (if out \<noteq> 0 then 1 else 0)"
    using s [unfolded BinLshift_def Let_def, folded nw_def nb_def, unfolded mk ol, folded out_def]
    by (cases "out = 0"; simp only: r1_def r2_def r3_def if_True if_False simp_thms split_conv prod.inject; simp)+
  have l1: "length r1 = length r" by (simp add: r1_def)
  have nw: "nw < length r" "n + nw \<le> length r" "out \<noteq> 0 \<Longrightarrow> n + nw < length r" using room sz n(1) by (auto split: if_splits)
  have room': "n - 1 + nw < length r1" using nw l1 n(1) by linarith
  note L = Lshift_loop_nth [OF room', of a nb "(64 - nb) mod 64" "if nb = 0 then 0 else - 1", folded r2_def, unfolded ol]
  have l2: "length r2 = length r" "length r3 = length r" using L l1 by (simp_all add: r3_def)
  then show l: "length r' = length r" using nw by (auto simp: r')
  show "sz = n + nw + (if out \<noteq> 0 then 1 else 0)" by (rule sz)
  have r3: "r3 ! j = (if j = nw then left_digit nb a 0 else if nw < j \<and> j < n + nw then left_digit nb a (j - nw) else r1 ! j)"
    if "j < length r" for j
    using L l1 l2 that n nw by (auto simp: r3_def left_digit_def nth_list_update)
  have r'n: "r' ! j = (if j < nw then 0 else r3 ! j)" if "j < length r" for j
    using that l2 nw by (auto simp: r' nth_append)
  have "r' ! j = r ! j" if "sz \<le> j" "j < length r" for j
    using that r'n [of j] r3 [of j] sz n nw by (auto simp: r1_def nth_list_update split: if_splits)
  then show "drop sz r' = drop sz r" using l by (intro nth_equalityI) simp_all
  show "take sz r' = replicate nw 0 @ map (left_digit nb a) [0..<n] @ (if out \<noteq> 0 then [out] else [])"
  proof (rule nth_equalityI)
    show "length (take sz r') = length (replicate nw 0 @ map (left_digit nb a) [0..<n] @ (if out \<noteq> 0 then [out] else []))"
      using l sz nw by auto
    fix j assume j: "j < length (take sz r')"
    then have jl: "j < length r" "j < sz" using l by simp_all
    have "j < n + nw \<or> j = n + nw \<and> out \<noteq> 0" using jl(2) unfolding sz by (cases "out = 0") auto
    then consider "j < nw" | "nw \<le> j" "j < n + nw" | "j = n + nw" "out \<noteq> 0" by linarith
    then show "take sz r' ! j = (replicate nw 0 @ map (left_digit nb a) [0..<n] @ (if out \<noteq> 0 then [out] else [])) ! j"
    proof cases
      case 1
      then show ?thesis using jl r'n by (simp add: nth_append)
    next
      case 2
      then have "r' ! j = left_digit nb a (j - nw)" using r'n [OF jl(1)] r3 [OF jl(1)] by (cases "j = nw") auto
      moreover have "j - nw < n" using 2 by linarith
      ultimately show ?thesis using 2 jl by (simp add: nth_append)
    next
      case 3
      then have "r' ! j = out" using r'n [OF jl(1)] r3 [OF jl(1)] n nw 3 by (simp add: r1_def)
      then show ?thesis using 3 jl by (simp add: nth_append)
    qed
  qed
qed

lemma BinLshift_exact:
  assumes n: "0 < n" "n \<le> length a" and s: "BinLshift r a n bits = (sz, r')" and room: "sz \<le> length r"
  shows "sz \<le> length r'" "val (take sz r') = val (take n a) * 2 ^ bits" "a ! (n - 1) \<noteq> 0 \<Longrightarrow> normal (take sz r')"
proof -
  define nw nb where d: "nw = bits div 64" "nb = bits mod 64"
  define out where "out = out_left nb (a ! (n - 1))"
  note D = BinLshift_digits [OF assms, folded d, folded out_def]
  have nb: "nb < 64" by (simp add: d)
  show "sz \<le> length r'" using D(1) room by simp
  obtain k where k: "n = Suc k" using n(1) by (cases n) auto
  have "val (take sz r') = base ^ nw * (val (map (left_digit nb a) [0..<n]) + base ^ n * unat out)"
    unfolding D(3) val_append by simp
  also have "\<dots> = base ^ nw * (2 ^ nb * val (take n a))"
    using val_left [OF nb, of k a] n(2) by (simp add: k out_def)
  also have "\<dots> = 2 ^ (64 * nw + nb) * val (take n a)" by (simp only: base_def power_mult [symmetric] power_add mult.assoc)
  also have "64 * nw + nb = bits" by (simp add: d)
  finally show "val (take sz r') = val (take n a) * 2 ^ bits" by (simp add: mult.commute)
  assume top: "a ! (n - 1) \<noteq> 0"
  show "normal (take sz r')"
  proof (cases "out = 0")
    case True
    then have "unat (a ! k) * 2 ^ nb div base = 0" using unat_out_left [OF nb, of "a ! k"] k by (simp add: out_def)
    then have "unat (a ! k) * 2 ^ nb mod base \<noteq> 0"
      using top k div_mult_mod_eq [of "unat (a ! k) * 2 ^ nb" base] by (simp add: unat_eq_0)
    moreover have "unat (left_digit nb a k) \<ge> unat (a ! k) * 2 ^ nb mod base"
      using unat_or_low [OF nb out_left_less [OF nb]] unat_or_low [OF nb, of 0 "a ! k"]
      by (cases "k = 0") (simp_all add: left_digit_def)
    ultimately have "left_digit nb a k \<noteq> 0" by fastforce
    then show ?thesis unfolding D(3) using True k by (simp add: normal_def)
  next
    case False
    then show ?thesis unfolding D(3) by (simp add: normal_def)
  qed
qed


section \<open>Right shift\<close>

fun right_digits :: "nat \<Rightarrow> BN_UINT list \<Rightarrow> BN_UINT list" where
  "right_digits nb [] = []"
| "right_digits nb [x] = [drop_bit nb x]"
| "right_digits nb (x # y # ys) = (drop_bit nb x OR out_right nb y) # right_digits nb (y # ys)"

lemma length_right [simp]: "length (right_digits nb xs) = length xs"
  by (induction nb xs rule: right_digits.induct) simp_all

lemma right_digits_nth:
  "i < length xs \<Longrightarrow> right_digits nb xs ! i =
     (if Suc i < length xs then drop_bit nb (xs ! i) OR out_right nb (xs ! Suc i) else drop_bit nb (xs ! i))"
proof (induction nb xs arbitrary: i rule: right_digits.induct)
  case (3 nb x y ys)
  then show ?case by (cases i) simp_all
qed simp_all

lemma div_carry:
  fixes x v :: nat
  assumes "nb \<le> 64"
  shows "(x + base * v) div 2 ^ nb = x div 2 ^ nb + v mod 2 ^ nb * 2 ^ (64 - nb) + base * (v div 2 ^ nb)"
proof -
  have "(x + base * v) div 2 ^ nb = x div 2 ^ nb + 2 ^ (64 - nb) * v"
    unfolding base_split [OF assms] by (simp add: mult.assoc)
  also have "2 ^ (64 - nb) * v = 2 ^ (64 - nb) * (v div 2 ^ nb * 2 ^ nb + v mod 2 ^ nb)" by (simp only: div_mult_mod_eq)
  also have "\<dots> = v mod 2 ^ nb * 2 ^ (64 - nb) + base * (v div 2 ^ nb)"
    unfolding base_split [OF assms] distrib_left by (simp only: mult.commute mult.left_commute add.commute)
  finally show ?thesis by simp
qed

lemma val_mod: "nb < 64 \<Longrightarrow> val (y # ys) mod 2 ^ nb = unat y mod 2 ^ nb"
proof -
  assume "nb < 64"
  then have b: "base = 2 ^ nb * 2 ^ (64 - nb)" by (intro base_split) simp
  show ?thesis by (simp add: b mult.assoc)
qed

lemma val_right: "nb < 64 \<Longrightarrow> val (right_digits nb xs) = val xs div 2 ^ nb"
proof (induction nb xs rule: right_digits.induct)
  case (2 nb x)
  have "unat (drop_bit nb x) = unat x div 2 ^ nb" unfolding unat_drop_bit_eq by (rule drop_bit_eq_div)
  then show ?case by simp
next
  case (3 nb x y ys)
  have "val (x # y # ys) div 2 ^ nb = unat x div 2 ^ nb + val (y # ys) mod 2 ^ nb * 2 ^ (64 - nb) + base * (val (y # ys) div 2 ^ nb)"
    using div_carry [of nb "unat x" "val (y # ys)"] 3 by simp
  also have "\<dots> = unat (drop_bit nb x OR out_right nb y) + base * val (right_digits nb (y # ys))"
    unfolding val_mod [OF 3(2)] using unat_or_high [OF 3(2), of x y] 3 by simp
  finally show ?case by simp
qed simp

lemma Rshift_loop_nth:
  assumes "nw \<le> i" "i + k - nw \<le> length r"
  shows "fst (BinRshift_loop r a nw nb na msk k i (a ! i)) = a ! (i + k)
    \<and> length (snd (BinRshift_loop r a nw nb na msk k i (a ! i))) = length r
    \<and> (\<forall>j < length r. snd (BinRshift_loop r a nw nb na msk k i (a ! i)) ! j =
         (if i \<le> j + nw \<and> j + nw < i + k then drop_bit nb (a ! (j + nw)) OR (push_bit na (a ! (j + nw + 1)) AND msk) else r ! j))"
  using assms
proof (induction k arbitrary: i r)
  case (Suc k)
  let ?r = "r[i - nw := drop_bit nb (a ! i) OR (push_bit na (a ! (i + 1)) AND msk)]"
  have "nw \<le> i + 1" "i + 1 + k - nw \<le> length ?r" using Suc.prems by simp_all
  note ih = Suc.IH [OF this]
  have st: "BinRshift_loop r a nw nb na msk (Suc k) i (a ! i) = BinRshift_loop ?r a nw nb na msk k (i + 1) (a ! (i + 1))"
    by (simp add: Let_def)
  show ?case unfolding st
  proof (intro conjI allI impI)
    show "fst (BinRshift_loop ?r a nw nb na msk k (i + 1) (a ! (i + 1))) = a ! (i + Suc k)" using ih by simp
    show "length (snd (BinRshift_loop ?r a nw nb na msk k (i + 1) (a ! (i + 1)))) = length r" using ih by simp
    fix j assume j: "j < length r"
    show "snd (BinRshift_loop ?r a nw nb na msk k (i + 1) (a ! (i + 1))) ! j =
        (if i \<le> j + nw \<and> j + nw < i + Suc k then drop_bit nb (a ! (j + nw)) OR (push_bit na (a ! (j + nw + 1)) AND msk) else r ! j)"
    proof (cases "j + nw = i")
      case True
      then have "?r ! j = drop_bit nb (a ! (j + nw)) OR (push_bit na (a ! (j + nw + 1)) AND msk)" using j by auto
      then show ?thesis using ih j True by simp
    next
      case False
      then have "?r ! j = r ! j" using j Suc.prems(1) by (intro nth_list_update_neq) linarith
      moreover have "i \<le> j + nw \<and> j + nw < i + Suc k \<longleftrightarrow> i + 1 \<le> j + nw \<and> j + nw < i + 1 + k" using False by linarith
      ultimately show ?thesis using ih j by simp
    qed
  qed
qed auto

lemma BinRshift_digits:
  assumes n: "bits div 64 < n" "n \<le> length a" and s: "BinRshift r a n bits = (sz, r')" and room: "sz \<le> length r"
  defines "nw \<equiv> bits div 64" and "nb \<equiv> bits mod 64"
  defines "ds \<equiv> right_digits nb (drop nw (take n a))"
  shows "length r' = length r" "sz = (if last ds \<noteq> 0 then length ds else length ds - 1)" "take sz r' = take sz ds"
proof -
  have nb: "nb < 64" by (simp add: nb_def)
  have nw: "nw < n" using n by (simp add: nw_def)
  have mk: "NOT (BN_IsZeroUintConsttime (of_nat nb)) = (if nb = 0 then 0 else - 1)" by (rule shift_mask [OF nb])
  have orr: "push_bit ((64 - nb) mod 64) x AND (if nb = 0 then 0 else - 1) = out_right nb x" for x by (simp add: out_right_def)
  obtain lo r1 where l: "BinRshift_loop r a nw nb ((64 - nb) mod 64) (if nb = 0 then 0 else - 1) (n - 1 - nw) nw (a ! nw) = (lo, r1)"
    by fastforce
  have s': "(if drop_bit nb lo \<noteq> 0 then (n - nw, r1[n - nw - 1 := drop_bit nb lo]) else (n - nw - 1, r1)) = (sz, r')"
    using s [unfolded BinRshift_def Let_def, folded nw_def nb_def, unfolded mk, unfolded l split_conv] .
  then have room': "n - nw - 1 \<le> length r" using room by (auto split: if_splits)
  then have "nw + (n - 1 - nw) - nw \<le> length r" by simp
  note L = Rshift_loop_nth [OF order_refl this, of a nb "(64 - nb) mod 64" "if nb = 0 then 0 else - 1", unfolded l fst_conv snd_conv orr]
  have ld: "length ds = n - nw" using n by (simp add: ds_def nw_def)
  have dsn: "ds ! j = (if Suc j < n - nw then drop_bit nb (a ! (j + nw)) OR out_right nb (a ! (j + nw + 1)) else drop_bit nb (a ! (j + nw)))"
    if "j < n - nw" for j
    using that n nw right_digits_nth [of j "drop nw (take n a)" nb] by (simp add: ds_def add.commute)
  have ne: "ds \<noteq> []" using ld nw by auto
  then have last: "last ds = ds ! (n - nw - 1)" using ld by (simp add: last_conv_nth)
  have i: "nw + (n - 1 - nw) = n - 1" "n - nw - 1 + nw = n - 1" "\<not> Suc (n - nw - 1) < n - nw" "n - nw - 1 < n - nw"
    using nw by linarith+
  have "lo = a ! (n - 1)" using L unfolding i by blast
  then have lo: "drop_bit nb lo = last ds" unfolding last dsn [OF i(4)] using i by simp
  have r1: "r1 ! j = ds ! j" if "j < n - nw - 1" for j
  proof -
    have "j < n - nw" "Suc j < n - nw" "j < length r" "j + nw < nw + (n - 1 - nw)"
      using that room' by linarith+
    then show ?thesis using L dsn [of j] by simp
  qed
  have e: "(if last ds \<noteq> 0 then (n - nw, r1[n - nw - 1 := last ds]) else (n - nw - 1, r1)) = (sz, r')"
    using s' unfolding lo .
  show "length r' = length r" using e L by (auto split: if_splits)
  show "sz = (if last ds \<noteq> 0 then length ds else length ds - 1)" using e ld by (auto split: if_splits)
  show "take sz r' = take sz ds"
  proof (rule nth_equalityI)
    show "length (take sz r') = length (take sz ds)" using e L ld room by (auto split: if_splits)
    fix j assume "j < length (take sz r')"
    then have "j < sz" "j < n - nw" using e by (auto split: if_splits)
    moreover have "r' ! j = ds ! j"
    proof (cases "last ds = 0")
      case True
      then have "r' = r1" "sz = n - nw - 1" using e by simp_all
      then show ?thesis using r1 [of j] \<open>j < sz\<close> by simp
    next
      case False
      then have r': "r' = r1[n - nw - 1 := ds ! (n - nw - 1)]" using e unfolding last by (auto split: if_splits)
      have "n - nw - 1 < length r1" using False e L room nw by auto
      then show ?thesis using r1 [of j] \<open>j < n - nw\<close> by (cases "j = n - nw - 1") (simp_all add: r')
    qed
    ultimately show "take sz r' ! j = take sz ds ! j" by simp
  qed
qed


lemma right_digits_top:
  assumes "nb < 64" "y \<noteq> 0" "drop_bit nb y = 0"
  shows "drop_bit nb x OR out_right nb y \<noteq> 0"
proof -
  have "unat y div 2 ^ nb = 0" using assms(3) by (metis drop_bit_eq_div unat_0 unat_drop_bit_eq)
  then have "unat y mod 2 ^ nb = unat y" by (simp add: div_eq_0_iff)
  then have "unat (drop_bit nb x OR out_right nb y) \<noteq> 0"
    unfolding unat_or_high [OF assms(1)] using assms(2) by (simp add: unat_eq_0)
  then show ?thesis by auto
qed

lemma BinRshift_exact:
  assumes n: "bits div 64 < n" "n \<le> length a" and s: "BinRshift r a n bits = (sz, r')" and room: "sz \<le> length r"
  shows "sz \<le> length r'" "val (take sz r') = val (take n a) div 2 ^ bits" "a ! (n - 1) \<noteq> 0 \<Longrightarrow> normal (take sz r')"
proof -
  define nw nb where d: "nw = bits div 64" "nb = bits mod 64"
  define xs where "xs = drop nw (take n a)"
  define ds where "ds = right_digits nb xs"
  note D = BinRshift_digits [OF assms, folded d, folded xs_def, folded ds_def]
  have nb: "nb < 64" by (simp add: d)
  have nw: "nw < n" using n(1) by (simp add: d)
  have ld: "length ds = n - nw" "ds \<noteq> []" 
  proof -
    show "length ds = n - nw" using n nw by (simp add: ds_def xs_def)
    then show "ds \<noteq> []" using nw by auto
  qed
  show "sz \<le> length r'" using D(1) room by simp
  have "val (take sz ds) = val ds"
  proof (cases "last ds = 0")
    case True
    then have "ds = take sz ds @ [0]" using D(2) ld(2) by (metis append_butlast_last_id butlast_conv_take)
    then show ?thesis by (metis add.right_neutral mult_0_right unat_0 val.simps val_append)
  qed (use D(2) in simp)
  then have "val (take sz r') = val xs div 2 ^ nb" unfolding D(3) using val_right [OF nb, of xs] by (simp add: ds_def)
  moreover have "val xs = val (take n a) div base ^ nw"
  proof -
    have "val (take n a) = val (take nw (take n a)) + base ^ nw * val xs"
      using val_append [of "take nw (take n a)" xs] append_take_drop_id [of nw "take n a"] n nw
      by (simp add: xs_def del: append_take_drop_id)
    moreover have "val (take nw (take n a)) < base ^ nw" using val_bound [of "take nw (take n a)"] n nw by simp
    ultimately show ?thesis by simp
  qed
  moreover have "base ^ nw * 2 ^ nb = 2 ^ bits" unfolding base_def power_mult [symmetric] power_add [symmetric] by (simp add: d)
  ultimately show "val (take sz r') = val (take n a) div 2 ^ bits" by (simp add: div_mult2_eq [symmetric])
  assume top: "a ! (n - 1) \<noteq> 0"
  have xl: "length xs = n - nw" "xs ! (n - nw - 1) \<noteq> 0" using n nw top by (simp_all add: xs_def)
  show "normal (take sz r')"
  proof (cases "last ds = 0")
    case True
    then have sz: "sz = n - nw - 1" using D(2) ld by simp
    show ?thesis
    proof (cases "sz = 0")
      case False
      then have i: "sz - 1 < length xs" "Suc (sz - 1) < length xs" "Suc (sz - 1) = n - nw - 1" using sz xl nw by linarith+
      have k: "n - nw - 1 < length xs" "\<not> Suc (n - nw - 1) < length xs" using xl nw by linarith+
      have "last ds = ds ! (n - nw - 1)" using ld by (simp add: last_conv_nth)
      then have "drop_bit nb (xs ! (n - nw - 1)) = 0"
        using True unfolding ds_def right_digits_nth [OF k(1)] if_not_P [OF k(2)] by simp
      then have "ds ! (sz - 1) \<noteq> 0"
        unfolding ds_def right_digits_nth [OF i(1)] i(3) if_P [OF k(1)] using xl(2) by (intro right_digits_top [OF nb])
      moreover have "last (take sz ds) = ds ! (sz - 1)" using False sz ld by (simp add: last_conv_nth)
      ultimately show ?thesis unfolding D(3) by (simp add: normal_def)
    qed (simp add: normal_def)
  next
    case False
    then show ?thesis unfolding D(3) using D(2) ld by (simp add: normal_def)
  qed
qed

end
