(* ===== verification/Crypt_Base.thy ===== *)
theory Crypt_Base
  imports Prelude
begin

text \<open>
  What the modelled parts of the cryptographic library share: the return codes of
  \<^verbatim>\<open>include/crypto/crypt_errno.h\<close>, as far as the modelled functions return them, and the
  big-endian reads and writes of \<^verbatim>\<open>crypto/include/crypt_utils.h\<close>.
\<close>

datatype crypt_ret =
    CRYPT_SUCCESS
  | CRYPT_NULL_INPUT
  | CRYPT_MEM_ALLOC_FAIL
  | CRYPT_INVALID_ARG
  | CRYPT_BN_SPACE_NOT_ENOUGH
  | CRYPT_BN_BITS_TOO_MAX
  | CRYPT_BN_OPTIMIZER_STACK_FULL
  | CRYPT_BN_NO_NEGATIVE_ZERO
  | CRYPT_BN_OPTIMIZER_GET_FAIL
  | CRYPT_BN_ERR_DIVISOR_ZERO
  | CRYPT_BN_ERR_EXP_NO_NEGATIVE
  | CRYPT_BN_FLAG_INVALID
  | CRYPT_BN_NOT_SUPPORT_EXTENSION
  | CRYPT_SHA2_INPUT_OVERFLOW
  | CRYPT_SHA2_OUT_BUFF_LEN_NOT_ENOUGH
  | CRYPT_HMAC_OUT_BUFF_LEN_NOT_ENOUGH
  | CRYPT_HMAC_ERR_UNSUPPORTED_CTRL_OPTION
  | CRYPT_HKDF_ERR_MAC_METH
  | CRYPT_HKDF_PARAM_ERROR
  | CRYPT_HKDF_DKLEN_OVERFLOW

text \<open>\<open>GET_UINT32_BE p i\<close> reads the four bytes from \<open>p[i]\<close>; \<open>PUT_UINT32_BE v p i\<close> is the
  array \<open>p\<close> after the four stores.\<close>

definition GET_UINT32_BE :: "bytes \<Rightarrow> nat \<Rightarrow> u32" where
  "GET_UINT32_BE p i =
     push_bit 24 (ucast (p ! (i + 0))) OR push_bit 16 (ucast (p ! (i + 1))) OR
     push_bit 8 (ucast (p ! (i + 2))) OR push_bit 0 (ucast (p ! (i + 3)))"

definition PUT_UINT32_BE :: "u32 \<Rightarrow> bytes \<Rightarrow> nat \<Rightarrow> bytes" where
  "PUT_UINT32_BE v p i =
     p[i + 0 := ucast (drop_bit 24 v), i + 1 := ucast (drop_bit 16 v),
       i + 2 := ucast (drop_bit 8 v), i + 3 := ucast (drop_bit 0 v)]"

text \<open>The bytes a caller hands over as a pointer and a length: the pointer may be null when the length
  is zero.\<close>

definition ptr_ok :: "bytes option \<Rightarrow> nat \<Rightarrow> bool" where
  "ptr_ok p n \<longleftrightarrow> (case p of None \<Rightarrow> n = 0 | Some d \<Rightarrow> n \<le> length d)"

definition ptr_bytes :: "bytes option \<Rightarrow> nat \<Rightarrow> bytes" where
  "ptr_bytes p n = (case p of None \<Rightarrow> [] | Some d \<Rightarrow> take n d)"

lemma ptr_simps [simp]:
  "ptr_ok (Some d) n \<longleftrightarrow> n \<le> length d" "ptr_ok None n \<longleftrightarrow> n = 0"
  "ptr_bytes (Some d) n = take n d" "ptr_bytes None n = []"
  by (simp_all add: ptr_ok_def ptr_bytes_def)

lemma length_ptr_bytes [simp]: "ptr_ok p n \<Longrightarrow> length (ptr_bytes p n) = n"
  by (cases p) simp_all

text \<open>The \<open>n\<close> bytes of a natural number, most significant first.\<close>

primrec be_nat :: "nat \<Rightarrow> nat \<Rightarrow> bytes" where
  "be_nat 0 x = []"
| "be_nat (Suc n) x = be_nat n (x div 256) @ [of_nat x]"

lemma length_be_nat [simp]: "length (be_nat n x) = n"
  by (induction n arbitrary: x) auto

lemma be_nat_split: "be_nat (m + n) x = be_nat m (x div 256 ^ n) @ be_nat n x"
  by (induction n arbitrary: x) (simp_all add: div_mult2_eq)

lemma be_nat_mod: "be_nat n (x * 256 ^ n + y) = be_nat n y"
proof (induction n arbitrary: y)
  case (Suc n)
  have "(x * 256 ^ Suc n + y) div 256 = x * 256 ^ n + y div 256"
    using div_mult_self3 [of 256 "x * 256 ^ n" y] by (simp add: ac_simps)
  moreover have "(of_nat (x * 256 ^ Suc n + y) :: u8) = of_nat y"
  proof (rule word_unat_eq_iff [THEN iffD2])
    have "(x * 256 ^ n * 256 + y) mod 256 = y mod 256" by simp
    then show "unat (of_nat (x * 256 ^ Suc n + y) :: u8) = unat (of_nat y :: u8)"
      by (simp only: unat_of_nat power_Suc2 mult.assoc [symmetric] len_num0 len_bit0) simp
  qed
  ultimately show ?case using Suc.IH [of "y div 256"] by (simp only: be_nat.simps)
qed simp

lemma be_nat_append:
  assumes "y < 256 ^ n"
  shows "be_nat (m + n) (x * 256 ^ n + y) = be_nat m x @ be_nat n y"
  using assms by (simp only: be_nat_split be_nat_mod) simp

lemma list_updates4:
  "i + 4 \<le> length p \<Longrightarrow>
   p[i := a, Suc i := b, Suc (Suc i) := c, Suc (Suc (Suc i)) := d] = memcpy_at p i [a, b, c, d]"
  by (rule nth_equalityI)
    (auto simp: nth_memcpy_at nth_list_update nth_Cons' less_Suc_eq_le split: if_splits)

lemma ucast_drop_bit_nat: "(ucast (drop_bit k (v :: 'a::len word)) :: u8) = of_nat (unat v div 2 ^ k)"
proof (rule word_unat_eq_iff [THEN iffD2])
  have "unat (drop_bit k v) = unat v div 2 ^ k"
    by (simp only: unat_drop_bit_eq drop_bit_eq_div [of k "unat v"])
  then show "unat (ucast (drop_bit k v) :: u8) = unat (of_nat (unat v div 2 ^ k) :: u8)"
    by (simp only: unsigned_ucast_eq take_bit_eq_mod unat_of_nat) 
qed

lemma be_nat_4: "be_nat 4 x =
  [of_nat (x div 2 ^ 24), of_nat (x div 2 ^ 16), of_nat (x div 2 ^ 8), of_nat (x div 2 ^ 0)]"
proof -
  have "be_nat 4 x = be_nat (Suc (Suc (Suc (Suc 0)))) x" by (simp add: eval_nat_numeral del: be_nat.simps)
  then show ?thesis by (simp add: div_mult2_eq [symmetric])
qed

lemma be_nat_word: "be_nat 4 (unat (v :: u32)) =
  [ucast (drop_bit 24 v), ucast (drop_bit 16 v), ucast (drop_bit 8 v), ucast (drop_bit 0 v)]"
  by (simp only: ucast_drop_bit_nat be_nat_4)

lemma PUT_UINT32_BE_eq: "i + 4 \<le> length p \<Longrightarrow> PUT_UINT32_BE v p i = memcpy_at p i (be_nat 4 (unat v))"
proof -
  assume "i + 4 \<le> length p"
  moreover have "i + 3 = Suc (Suc (Suc i))" "i + 2 = Suc (Suc i)" "i + 1 = Suc i" "i + 0 = i" by simp_all
  ultimately show ?thesis by (simp only: PUT_UINT32_BE_def be_nat_word list_updates4)
qed

lemma or_add_bytes:
  fixes a b c d :: u8
  shows "push_bit 24 (ucast a :: u32) OR push_bit 16 (ucast b) OR push_bit 8 (ucast c) OR ucast d =
    ucast d + 256 * ucast c + 65536 * ucast b + 16777216 * ucast a"
proof -
  have "(ucast d :: u32) + push_bit 8 (ucast c) = ucast d OR push_bit 8 (ucast c)"
    by (rule disjunctive_add_eq_or, rule bit_word_eqI) (auto simp: bit_simps dest: bit_imp_le_length)
  moreover have "(ucast d OR push_bit 8 (ucast c) :: u32) + push_bit 16 (ucast b) = ucast d OR push_bit 8 (ucast c) OR push_bit 16 (ucast b)"
    by (subst disjunctive_add_eq_or, rule bit_word_eqI) (auto simp: bit_simps or.assoc dest: bit_imp_le_length)
  moreover have "(ucast d OR push_bit 8 (ucast c) OR push_bit 16 (ucast b) :: u32) + push_bit 24 (ucast a) = ucast d OR push_bit 8 (ucast c) OR push_bit 16 (ucast b) OR push_bit 24 (ucast a)"
    by (subst disjunctive_add_eq_or, rule bit_word_eqI) (auto simp: bit_simps or.assoc dest: bit_imp_le_length)
  ultimately have "push_bit 24 (ucast a :: u32) OR push_bit 16 (ucast b) OR push_bit 8 (ucast c) OR ucast d =
    ucast d + push_bit 8 (ucast c) + push_bit 16 (ucast b) + push_bit 24 (ucast a)" by (simp only: ac_simps)
  then show ?thesis by (simp add: push_bit_eq_mult ac_simps)
qed

lemma blk_4: "i + 4 \<le> length p \<Longrightarrow> blk i 4 p = [p ! (i + 0), p ! (i + 1), p ! (i + 2), p ! (i + 3)]"
  by (intro nth_equalityI) (auto simp: blk_def less_Suc_eq numeral_eq_Suc)

lemma GET_UINT32_BE_rcat: "i + 4 \<le> length p \<Longrightarrow> GET_UINT32_BE p i = word_rcat (blk i 4 p)"
  by (simp only: blk_4 GET_UINT32_BE_def push_bit_0_id id_apply or_add_bytes) (simp add: word_rcat_def)

lemma mod_sum_if: "(a :: nat) < m \<Longrightarrow> b < m \<Longrightarrow> (a + b) mod m = (if m \<le> a + b then a + b - m else a + b)"
  by (simp add: le_mod_geq)

lemma unat_add_carry:
  fixes a b :: "'a::len word"
  shows "a + b < a \<longleftrightarrow> 2 ^ LENGTH('a) \<le> unat a + unat b"
    and "unat (a + b) = (if 2 ^ LENGTH('a) \<le> unat a + unat b then unat a + unat b - 2 ^ LENGTH('a) else unat a + unat b)"
proof -
  have ab: "unat a < 2 ^ LENGTH('a)" "unat b < 2 ^ LENGTH('a)"
    by (rule unsigned_less)+
  then show u: "unat (a + b) = (if 2 ^ LENGTH('a) \<le> unat a + unat b then unat a + unat b - 2 ^ LENGTH('a) else unat a + unat b)"
    unfolding unat_word_ariths by (rule mod_sum_if)
  show "a + b < a \<longleftrightarrow> 2 ^ LENGTH('a) \<le> unat a + unat b"
    unfolding word_less_nat_alt u using ab by (simp split: if_splits del: unsigned_less) linarith?
qed

lemma mask_32: "(a :: u32) AND 0xffffffff = a"
proof -
  have "(0xffffffff :: u32) = - 1" by simp
  then show ?thesis by (simp only: and.right_neutral)
qed

lemma foldl_store:
  "n \<le> length p \<Longrightarrow> foldl (\<lambda>p i. p[i := f i]) p [0..<n] = map f [0..<n] @ drop n p"
proof (induction n)
  case (Suc n)
  then show ?case by (simp add: list_update_append Cons_nth_drop_Suc [symmetric])
qed simp

end
