(* ===== verification/Bn_Basic.thy ===== *)
theory Bn_Basic
  imports Bn_Shift Crypt_Base "HOL-Library.Monad_Syntax"
begin

text \<open>
  Big numbers (\<^verbatim>\<open>crypto/bn/src/bn_basic.c\<close>, \<^verbatim>\<open>bn_ucal.c\<close> and the additive, scaling and shifting part of
  \<^verbatim>\<open>bn_operation.c\<close>). A \<open>BN_BigNum\<close> holds an array of \<open>room\<close> digits of which the first \<open>bnsize\<close> count.
  A null pointer is \<open>None\<close>; whether the allocation of a call succeeds is its argument \<open>mem\<close>. The
  operations are modelled on values: the record passed for the result holds what it had before, and a
  caller that passes the same number twice passes the same record twice.
\<close>

record BN_BigNum =
  sign :: bool
  bnsize :: nat
  room :: nat
  bnflag :: u32
  digits :: "BN_UINT list"

abbreviation (input) CRYPT_BN_FLAG_OPTIMIZER :: u32 where "CRYPT_BN_FLAG_OPTIMIZER \<equiv> 1"
abbreviation (input) CRYPT_BN_FLAG_STATIC :: u32 where "CRYPT_BN_FLAG_STATIC \<equiv> 2"
abbreviation (input) CRYPT_BN_FLAG_CONSTTIME :: u32 where "CRYPT_BN_FLAG_CONSTTIME \<equiv> 4"
abbreviation (input) BN_MAX_BITS :: nat where "BN_MAX_BITS \<equiv> 2 ^ 29"

definition BITS_TO_BN_UNIT :: "nat \<Rightarrow> nat" where
  "BITS_TO_BN_UNIT bits = (bits + BN_UINT_BITS - 1) div BN_UINT_BITS"

text \<open>A call that updates a number given by pointer.\<close>

type_synonym bn_call = "crypt_ret \<times> BN_BigNum option"

section \<open>Creation and attributes\<close>

definition BN_Create :: "bool \<Rightarrow> nat \<Rightarrow> BN_BigNum option" where
  "BN_Create mem bits =
     (if bits > BN_MAX_BITS then None
      else if \<not> mem then None
      else let rm = BITS_TO_BN_UNIT bits
           in Some \<lparr>sign = False, bnsize = 0, room = rm, bnflag = 0, digits = replicate rm 0\<rparr>)"

definition BnVaild :: "BN_BigNum option \<Rightarrow> bool" where
  "BnVaild a =
     (case a of
        None \<Rightarrow> False
      | Some a \<Rightarrow>
          if bnsize a = 0 then \<not> sign a
          else if bnsize a > room a then False
          else digits a ! (bnsize a - 1) \<noteq> 0)"

definition BN_IsZero :: "BN_BigNum option \<Rightarrow> bool" where
  "BN_IsZero a = (case a of None \<Rightarrow> True | Some a \<Rightarrow> bnsize a = 0)"

definition BN_SetSign :: "BN_BigNum option \<Rightarrow> bool \<Rightarrow> bn_call" where
  "BN_SetSign a s =
     (case a of
        None \<Rightarrow> (CRYPT_NULL_INPUT, None)
      | Some b \<Rightarrow>
          if BN_IsZero a \<and> s then (CRYPT_BN_NO_NEGATIVE_ZERO, a)
          else (CRYPT_SUCCESS, Some (b\<lparr>sign := s\<rparr>)))"

definition IsLegalFlag :: "u32 \<Rightarrow> bool" where
  "IsLegalFlag f = (f = CRYPT_BN_FLAG_CONSTTIME \<or> f = CRYPT_BN_FLAG_OPTIMIZER \<or> f = CRYPT_BN_FLAG_STATIC)"

definition BN_SetFlag :: "BN_BigNum option \<Rightarrow> u32 \<Rightarrow> bn_call" where
  "BN_SetFlag a f =
     (case a of
        None \<Rightarrow> (CRYPT_NULL_INPUT, None)
      | Some b \<Rightarrow>
          if \<not> IsLegalFlag f then (CRYPT_BN_FLAG_INVALID, a)
          else (CRYPT_SUCCESS, Some (b\<lparr>bnflag := bnflag b OR f\<rparr>)))"

definition BnExtend :: "bool \<Rightarrow> BN_BigNum \<Rightarrow> nat \<Rightarrow> crypt_ret \<times> BN_BigNum" where
  "BnExtend mem a words =
     (if room a \<ge> words then (CRYPT_SUCCESS, a)
      else if bnflag a = CRYPT_BN_FLAG_STATIC then (CRYPT_BN_NOT_SUPPORT_EXTENSION, a)
      else if words > BITS_TO_BN_UNIT BN_MAX_BITS then (CRYPT_BN_BITS_TOO_MAX, a)
      else if \<not> mem then (CRYPT_MEM_ALLOC_FAIL, a)
      else (CRYPT_SUCCESS, a\<lparr>digits := take (bnsize a) (digits a) @ replicate (words - bnsize a) 0, room := words\<rparr>))"

text \<open>The copy writes the digits of \<open>a\<close> and clears the rest of what \<open>r\<close> had in use.\<close>

definition BN_Copy :: "bool \<Rightarrow> BN_BigNum option \<Rightarrow> BN_BigNum option \<Rightarrow> bn_call" where
  "BN_Copy mem r a =
     (case (r, a) of
        (Some r0, Some a0) \<Rightarrow>
          if r0 \<noteq> a0 then
            let (ret, r1) = BnExtend mem r0 (bnsize a0) in
            if ret \<noteq> CRYPT_SUCCESS then (ret, Some r1)
            else
              let fill = take (bnsize a0) (digits a0) @ replicate (bnsize r1 - bnsize a0) 0
              in (CRYPT_SUCCESS, Some (r1\<lparr>sign := sign a0, digits := memcpy_at (digits r1) 0 fill, bnsize := bnsize a0\<rparr>))
          else (CRYPT_SUCCESS, r)
      | _ \<Rightarrow> (CRYPT_NULL_INPUT, r))"

definition BN_Dup :: "bool \<Rightarrow> BN_BigNum option \<Rightarrow> BN_BigNum option" where
  "BN_Dup mem a =
     do { b \<leftarrow> a;
          r \<leftarrow> BN_Create mem (room b * BN_UINT_BITS);
          Some (r\<lparr>sign := sign b, digits := memcpy_at (digits r) 0 (take (bnsize b) (digits b)), bnsize := bnsize b\<rparr>) }"

definition BN_IsOne :: "BN_BigNum option \<Rightarrow> bool" where
  "BN_IsOne a = (case a of None \<Rightarrow> False | Some a \<Rightarrow> bnsize a = 1 \<and> digits a ! 0 = 1 \<and> \<not> sign a)"

definition BN_IsNegative :: "BN_BigNum option \<Rightarrow> bool" where
  "BN_IsNegative a = (case a of None \<Rightarrow> False | Some a \<Rightarrow> sign a)"

definition BN_IsOdd :: "BN_BigNum option \<Rightarrow> bool" where
  "BN_IsOdd a = (case a of None \<Rightarrow> False | Some a \<Rightarrow> bnsize a > 0 \<and> digits a ! 0 AND 1 \<noteq> 0)"

definition BN_IsFlag :: "BN_BigNum option \<Rightarrow> u32 \<Rightarrow> bool" where
  "BN_IsFlag a f = (case a of None \<Rightarrow> False | Some a \<Rightarrow> bnflag a AND f \<noteq> 0)"

text \<open>The digits in use are overwritten with zeros.\<close>

definition zeroize :: "BN_BigNum \<Rightarrow> BN_BigNum" where
  "zeroize a = a\<lparr>digits := memcpy_at (digits a) 0 (replicate (bnsize a) 0), sign := False, bnsize := 0\<rparr>"

definition BN_Zeroize :: "BN_BigNum option \<Rightarrow> bn_call" where
  "BN_Zeroize a = (case a of None \<Rightarrow> (CRYPT_NULL_INPUT, None) | Some b \<Rightarrow> (CRYPT_SUCCESS, Some (zeroize b)))"

definition BN_IsLimb :: "BN_BigNum option \<Rightarrow> BN_UINT \<Rightarrow> bool" where
  "BN_IsLimb a w =
     (case a of
        None \<Rightarrow> w = 0
      | Some a \<Rightarrow> \<not> sign a \<and> (bnsize a = 1 \<and> digits a ! 0 = w \<or> w = 0 \<and> bnsize a = 0))"

definition BN_SetLimb :: "bool \<Rightarrow> BN_BigNum option \<Rightarrow> BN_UINT \<Rightarrow> bn_call" where
  "BN_SetLimb mem r w =
     (case r of
        None \<Rightarrow> (CRYPT_NULL_INPUT, None)
      | Some r0 \<Rightarrow>
          let (ret, r1) = BnExtend mem r0 1 in
          if ret \<noteq> CRYPT_SUCCESS then (ret, Some r1)
          else
            let r2 = zeroize r1
            in (CRYPT_SUCCESS, Some (if w \<noteq> 0 then r2\<lparr>digits := (digits r2)[0 := w], bnsize := 1\<rparr> else r2)))"

definition BN_GetLimb :: "BN_BigNum option \<Rightarrow> BN_UINT" where
  "BN_GetLimb a =
     (case a of
        None \<Rightarrow> 0
      | Some a \<Rightarrow> if bnsize a > 1 then - 1 else if bnsize a = 1 then digits a ! 0 else 0)"

section \<open>Single bits\<close>

definition BN_GetBit :: "BN_BigNum option \<Rightarrow> nat \<Rightarrow> bool" where
  "BN_GetBit a n =
     (case a of
        None \<Rightarrow> False
      | Some a \<Rightarrow>
          let nw = n div BN_UINT_BITS; nb = n mod BN_UINT_BITS
          in if nw \<ge> bnsize a then False else drop_bit nb (digits a ! nw) AND 1 \<noteq> 0)"

definition BN_SetBit :: "BN_BigNum option \<Rightarrow> nat \<Rightarrow> bn_call" where
  "BN_SetBit a n =
     (case a of
        None \<Rightarrow> (CRYPT_NULL_INPUT, None)
      | Some b \<Rightarrow>
          let nw = n div BN_UINT_BITS; nb = n mod BN_UINT_BITS in
          if nw \<ge> room b then (CRYPT_BN_SPACE_NOT_ENOUGH, a)
          else (CRYPT_SUCCESS, Some (b\<lparr>digits := (digits b)[nw := digits b ! nw OR push_bit nb 1],
                  bnsize := if bnsize b < nw + 1 then nw + 1 else bnsize b\<rparr>)))"

definition refix :: "BN_BigNum \<Rightarrow> BN_BigNum" where
  "refix a = (let a1 = a\<lparr>bnsize := BinFixSize (digits a) (bnsize a)\<rparr> in if bnsize a1 = 0 then a1\<lparr>sign := False\<rparr> else a1)"

definition BN_ClrBit :: "BN_BigNum option \<Rightarrow> nat \<Rightarrow> bn_call" where
  "BN_ClrBit a n =
     (case a of
        None \<Rightarrow> (CRYPT_NULL_INPUT, None)
      | Some b \<Rightarrow>
          let nw = n div BN_UINT_BITS; nb = n mod BN_UINT_BITS in
          if nw \<ge> bnsize b then (CRYPT_BN_SPACE_NOT_ENOUGH, a)
          else (CRYPT_SUCCESS, Some (refix (b\<lparr>digits := (digits b)[nw := digits b ! nw AND NOT (push_bit nb 1)]\<rparr>))))"

definition BN_MaskBit :: "BN_BigNum option \<Rightarrow> nat \<Rightarrow> bn_call" where
  "BN_MaskBit a n =
     (case a of
        None \<Rightarrow> (CRYPT_NULL_INPUT, None)
      | Some b \<Rightarrow>
          let nw = n div BN_UINT_BITS; nb = n mod BN_UINT_BITS in
          if bnsize b \<le> nw then (CRYPT_BN_SPACE_NOT_ENOUGH, a)
          else (CRYPT_SUCCESS, Some (refix (if nb = 0 then b\<lparr>bnsize := nw\<rparr>
                  else b\<lparr>bnsize := nw + 1, digits := (digits b)[nw := digits b ! nw AND NOT (push_bit nb (- 1))]\<rparr>))))"

definition BN_Bits :: "BN_BigNum option \<Rightarrow> nat" where
  "BN_Bits a = (case a of None \<Rightarrow> 0 | Some a \<Rightarrow> BinBits (digits a) (bnsize a))"

definition BN_Bytes :: "BN_BigNum option \<Rightarrow> nat" where
  "BN_Bytes a = (BN_Bits a + 7) div 8"

text \<open>Security strength of key lengths; the division of a negative length truncates towards zero.\<close>

definition BN_SecBits :: "int \<Rightarrow> int \<Rightarrow> int" where
  "BN_SecBits pubLen prvLen =
     (let bits = (case find (\<lambda>(lev, b). pubLen < lev)
                    [(1024, 0), (2048, 80), (3072, 112), (7680, 128), (15360, 192), (2147483647, 256)] of
                    Some (lev, b) \<Rightarrow> b | None \<Rightarrow> 256);
          hlf = (if prvLen < 0 then - ((- prvLen) div 2) else prvLen div 2)
      in if prvLen = - 1 then bits
         else let bits = (if hlf \<ge> bits then bits else hlf) in if bits < 80 then 0 else bits)"

section \<open>Unsigned addition and subtraction\<close>

fun UAdd_loop :: "BN_UINT list \<Rightarrow> BN_UINT \<Rightarrow> BN_UINT \<times> BN_UINT list" where
  "UAdd_loop [] carry = (carry, [])"
| "UAdd_loop (a # as) carry =
     (let (carry, r) = ADD_AB a carry; (carry, rs) = UAdd_loop as carry in (carry, r # rs))"

definition UAdd :: "bool \<Rightarrow> BN_BigNum \<Rightarrow> BN_BigNum \<Rightarrow> BN_BigNum \<Rightarrow> crypt_ret \<times> BN_BigNum" where
  "UAdd mem r a b =
     (let mx = (if bnsize a < bnsize b then b else a); mn = (if bnsize a < bnsize b then a else b);
          maxSize = bnsize mx; minSize = bnsize mn;
          (ret, r1) = BnExtend mem r (maxSize + 1) in
      if ret \<noteq> CRYPT_SUCCESS then (ret, r1)
      else
        let (carry, low) = BinAdd (digits mx) (digits mn) minSize;
            (carry, high) = UAdd_loop (take (maxSize - minSize) (drop minSize (digits mx))) carry;
            r2 = r1\<lparr>digits := memcpy_at (digits r1) 0 (low @ high), bnsize := maxSize\<rparr>
        in (CRYPT_SUCCESS, if carry \<noteq> 0 then r2\<lparr>digits := (digits r2)[maxSize := carry], bnsize := maxSize + 1\<rparr> else r2))"

fun USub_loop :: "BN_UINT list \<Rightarrow> BN_UINT \<Rightarrow> BN_UINT list" where
  "USub_loop [] borrow = []"
| "USub_loop (t # ts) borrow = (t - borrow) # USub_loop ts (if t < borrow then 1 else 0)"

text \<open>The trimming loop at the end is the one of \<open>BinFixSize\<close>.\<close>

definition USub :: "bool \<Rightarrow> BN_BigNum \<Rightarrow> BN_BigNum \<Rightarrow> BN_BigNum \<Rightarrow> crypt_ret \<times> BN_BigNum" where
  "USub mem r a b =
     (let maxSize = bnsize a; minSize = bnsize b; (ret, r1) = BnExtend mem r maxSize in
      if ret \<noteq> CRYPT_SUCCESS then (ret, r1)
      else
        let (borrow, low) = BinSub (digits a) (digits b) minSize;
            high = USub_loop (take (maxSize - minSize) (drop minSize (digits a))) borrow;
            d = memcpy_at (digits r1) 0 (low @ high)
        in (CRYPT_SUCCESS, r1\<lparr>digits := d, bnsize := BinFixSize d maxSize\<rparr>))"

definition UDec :: "BN_BigNum \<Rightarrow> BN_BigNum \<Rightarrow> BN_UINT \<Rightarrow> BN_BigNum" where
  "UDec r a w =
     (let d = memcpy_at (digits r) 0 (snd (BinDec (take (bnsize a) (digits a)) w))
      in r\<lparr>digits := d, bnsize := BinFixSize d (bnsize a)\<rparr>)"

section \<open>Signed operations\<close>

definition BN_Cmp :: "BN_BigNum option \<Rightarrow> BN_BigNum option \<Rightarrow> int" where
  "BN_Cmp a b =
     (case (a, b) of
        (Some a, Some b) \<Rightarrow>
          if sign a \<noteq> sign b then (if \<not> sign a then 1 else - 1)
          else if sign a then BinCmp (digits b) (bnsize b) (digits a) (bnsize a)
          else BinCmp (digits a) (bnsize a) (digits b) (bnsize b)
      | (Some a, None) \<Rightarrow> - 1
      | (None, Some b) \<Rightarrow> 1
      | (None, None) \<Rightarrow> 0)"

definition BN_Add :: "bool \<Rightarrow> BN_BigNum option \<Rightarrow> BN_BigNum option \<Rightarrow> BN_BigNum option \<Rightarrow> bn_call" where
  "BN_Add mem r a b =
     (case (r, a, b) of
        (Some r0, Some a, Some b) \<Rightarrow>
          if sign a = sign b then map_prod id Some (UAdd mem (r0\<lparr>sign := sign a\<rparr>) a b)
          else
            let res = BinCmp (digits a) (bnsize a) (digits b) (bnsize b) in
            if res > 0 then map_prod id Some (USub mem (r0\<lparr>sign := sign a\<rparr>) a b)
            else if res < 0 then map_prod id Some (USub mem (r0\<lparr>sign := sign b\<rparr>) b a)
            else BN_Zeroize r
      | _ \<Rightarrow> (CRYPT_NULL_INPUT, r))"

definition BN_Sub :: "bool \<Rightarrow> BN_BigNum option \<Rightarrow> BN_BigNum option \<Rightarrow> BN_BigNum option \<Rightarrow> bn_call" where
  "BN_Sub mem r a b =
     (case (r, a, b) of
        (Some r0, Some a, Some b) \<Rightarrow>
          if sign a \<noteq> sign b then map_prod id Some (UAdd mem (r0\<lparr>sign := sign a\<rparr>) a b)
          else
            let res = BinCmp (digits a) (bnsize a) (digits b) (bnsize b) in
            if res = 0 then BN_Zeroize r
            else if res > 0 then map_prod id Some (USub mem (r0\<lparr>sign := sign a\<rparr>) a b)
            else map_prod id Some (USub mem (r0\<lparr>sign := \<not> sign b\<rparr>) b a)
      | _ \<Rightarrow> (CRYPT_NULL_INPUT, r))"

text \<open>Adding a digit to the magnitude, the branch both limb operations share.\<close>

definition inc_magnitude :: "bool \<Rightarrow> bool \<Rightarrow> BN_BigNum \<Rightarrow> BN_BigNum \<Rightarrow> BN_UINT \<Rightarrow> crypt_ret \<times> BN_BigNum" where
  "inc_magnitude mem s r a w =
     (let (ret, r1) = BnExtend mem r (bnsize a + 1) in
      if ret \<noteq> CRYPT_SUCCESS then (ret, r1)
      else
        let (carry, d) = BinInc (take (bnsize a) (digits a)) w;
            r2 = r1\<lparr>digits := memcpy_at (digits r1) 0 d\<rparr>;
            r3 = (if carry \<noteq> 0 then r2\<lparr>bnsize := bnsize a + 1, digits := (digits r2)[bnsize a := carry]\<rparr>
                  else r2\<lparr>bnsize := bnsize a\<rparr>)
        in (CRYPT_SUCCESS, r3\<lparr>sign := s\<rparr>))"

definition BN_AddLimb :: "bool \<Rightarrow> BN_BigNum option \<Rightarrow> BN_BigNum option \<Rightarrow> BN_UINT \<Rightarrow> bn_call" where
  "BN_AddLimb mem r a w =
     (case (r, a) of
        (Some r0, Some a) \<Rightarrow>
          if bnsize a = 0 then BN_SetLimb mem r w
          else if \<not> sign a then map_prod id Some (inc_magnitude mem False r0 a w)
          else
            let (ret, r1) = BnExtend mem r0 (bnsize a) in
            if ret \<noteq> CRYPT_SUCCESS then (ret, Some r1)
            else if bnsize a = 1 then
              (CRYPT_SUCCESS, Some (
                 if digits a ! 0 > w then r1\<lparr>sign := True, digits := (digits r1)[0 := digits a ! 0 - w], bnsize := 1\<rparr>
                 else if digits a ! 0 = w then r1\<lparr>sign := False, digits := (digits r1)[0 := 0], bnsize := 0\<rparr>
                 else r1\<lparr>sign := False, digits := (digits r1)[0 := w - digits a ! 0], bnsize := 1\<rparr>))
            else (CRYPT_SUCCESS, Some (UDec (r1\<lparr>sign := True\<rparr>) a w))
      | _ \<Rightarrow> (CRYPT_NULL_INPUT, r))"

definition BN_SubLimb :: "bool \<Rightarrow> BN_BigNum option \<Rightarrow> BN_BigNum option \<Rightarrow> BN_UINT \<Rightarrow> bn_call" where
  "BN_SubLimb mem r a w =
     (case (r, a) of
        (Some r0, Some a) \<Rightarrow>
          if bnsize a = 0 then
            (let (ret, r1) = BN_SetLimb mem r w in
             if ret \<noteq> CRYPT_SUCCESS then (CRYPT_MEM_ALLOC_FAIL, r1)
             else (CRYPT_SUCCESS, map_option (\<lambda>x. x\<lparr>sign := (w \<noteq> 0)\<rparr>) r1))
          else if sign a then map_prod id Some (inc_magnitude mem True r0 a w)
          else
            let (ret, r1) = BnExtend mem r0 (bnsize a) in
            if ret \<noteq> CRYPT_SUCCESS then (ret, Some r1)
            else if bnsize a = 1 then
              (CRYPT_SUCCESS, Some (
                 if digits a ! 0 \<ge> w then
                   let d = (digits r1)[0 := digits a ! 0 - w] in r1\<lparr>digits := d, bnsize := BinFixSize d 1\<rparr>
                 else r1\<lparr>sign := True, digits := (digits r1)[0 := w - digits a ! 0], bnsize := 1\<rparr>))
            else (CRYPT_SUCCESS, Some (UDec (r1\<lparr>sign := False\<rparr>) a w))
      | _ \<Rightarrow> (CRYPT_NULL_INPUT, r))"

fun MulLimb_loop :: "BN_UINT \<Rightarrow> BN_UINT list \<Rightarrow> BN_UINT \<Rightarrow> BN_UINT \<times> BN_UINT list" where
  "MulLimb_loop w [] carry = (carry, [])"
| "MulLimb_loop w (a # as) carry =
     (let (rh, rl) = MUL_AB a w; (carry, r) = ADD_AB rl carry; (carry, rs) = MulLimb_loop w as (carry + rh)
      in (carry, r # rs))"

definition BN_MulLimb :: "bool \<Rightarrow> BN_BigNum option \<Rightarrow> BN_BigNum option \<Rightarrow> BN_UINT \<Rightarrow> bn_call" where
  "BN_MulLimb mem r a w =
     (case (r, a) of
        (Some r0, Some a0) \<Rightarrow>
          if BN_Bits a = 0 \<or> w = 0 then BN_Zeroize r
          else
            let (ret, r1) = BnExtend mem r0 (bnsize a0 + 1) in
            if ret \<noteq> CRYPT_SUCCESS then (ret, Some r1)
            else
              let (carry, d) = MulLimb_loop w (take (bnsize a0) (digits a0)) 0;
                  d = (if carry \<noteq> 0 then d @ [carry] else d)
              in (CRYPT_SUCCESS, Some (r1\<lparr>digits := memcpy_at (digits r1) 0 d, sign := sign a0, bnsize := length d\<rparr>))
      | _ \<Rightarrow> (CRYPT_NULL_INPUT, r))"

section \<open>Shifts\<close>

definition BN_Rshift :: "bool \<Rightarrow> BN_BigNum option \<Rightarrow> BN_BigNum option \<Rightarrow> nat \<Rightarrow> bn_call" where
  "BN_Rshift mem r a n =
     (case (r, a) of
        (Some r0, Some a0) \<Rightarrow>
          if BN_Bits a \<le> n then BN_Zeroize r
          else
            let (ret, r1) = BnExtend mem r0 (BITS_TO_BN_UNIT (BN_Bits a - n)) in
            if ret \<noteq> CRYPT_SUCCESS then (ret, Some r1)
            else
              let (sz, d) = BinRshift (digits r1) (digits a0) (bnsize a0) n;
                  d = (if sz < bnsize r1 then memcpy_at d sz (replicate (bnsize r1 - sz) 0) else d)
              in (CRYPT_SUCCESS, Some (r1\<lparr>sign := sign a0, digits := d, bnsize := sz\<rparr>))
      | _ \<Rightarrow> (CRYPT_NULL_INPUT, r))"

definition BN_Lshift :: "bool \<Rightarrow> BN_BigNum option \<Rightarrow> BN_BigNum option \<Rightarrow> nat \<Rightarrow> bn_call" where
  "BN_Lshift mem r a n =
     (case (r, a) of
        (Some r0, Some a0) \<Rightarrow>
          let incUnit = (if n mod BN_UINT_BITS = 0 then n div BN_UINT_BITS else n div BN_UINT_BITS + 1);
              (ret, r1) = BnExtend mem r0 (bnsize a0 + incUnit) in
          if ret \<noteq> CRYPT_SUCCESS then (ret, Some r1)
          else
            let r2 = (if bnsize a0 \<noteq> 0
                      then let (sz, d) = BinLshift (digits r1) (digits a0) (bnsize a0) n in r1\<lparr>digits := d, bnsize := sz\<rparr>
                      else zeroize r1)
            in (CRYPT_SUCCESS, Some (r2\<lparr>sign := sign a0\<rparr>))
      | _ \<Rightarrow> (CRYPT_NULL_INPUT, r))"

end
