(* ===== verification/Bn_Correct.thy ===== *)
theory Bn_Correct
  imports Bn_Basic
begin

text \<open>
  The operations on big numbers compute on the integers they stand for. \<open>bn_wf\<close> is the invariant of a
  number: as many digits as its room, no leading zero digit in use, no negative zero; \<open>bval\<close> is its
  integer. \<open>bn_returns\<close> says that a call succeeds with a well-formed number of a given value.
\<close>

definition mag :: "BN_BigNum \<Rightarrow> nat" where
  "mag a = val (take (bnsize a) (digits a))"

definition bval :: "BN_BigNum \<Rightarrow> int" where
  "bval a = (if sign a then - int (mag a) else int (mag a))"

definition bn_room :: "BN_BigNum \<Rightarrow> bool" where
  "bn_room a = (length (digits a) = room a \<and> bnsize a \<le> room a)"

definition bn_wf :: "BN_BigNum \<Rightarrow> bool" where
  "bn_wf a = (bn_room a \<and> normal (take (bnsize a) (digits a)) \<and> (sign a \<longrightarrow> bnsize a \<noteq> 0))"

definition bn_returns :: "bn_call \<Rightarrow> int \<Rightarrow> bool" where
  "bn_returns call v = (case call of (ret, Some r) \<Rightarrow> ret = CRYPT_SUCCESS \<and> bn_wf r \<and> bval r = v | _ \<Rightarrow> False)"

text \<open>A number that has the room for so many digits, or can be given it.\<close>

definition has_room :: "bool \<Rightarrow> BN_BigNum \<Rightarrow> nat \<Rightarrow> bool" where
  "has_room mem r words = (words \<le> room r \<or> bnflag r \<noteq> CRYPT_BN_FLAG_STATIC \<and> words \<le> BITS_TO_BN_UNIT BN_MAX_BITS \<and> mem)"

lemma bn_wf_room: "bn_wf a \<Longrightarrow> bn_room a"
  by (simp add: bn_wf_def)

lemma bn_wfD: "bn_wf a \<Longrightarrow> bnsize a \<le> length (digits a)" "bn_wf a \<Longrightarrow> normal (take (bnsize a) (digits a))"
  by (simp_all add: bn_wf_def bn_room_def)

lemma mag_0: "bn_wf a \<Longrightarrow> mag a = 0 \<longleftrightarrow> bnsize a = 0"
  using normal_val_0 [OF bn_wfD(2), of a] bn_wfD(1) [of a] by (auto simp: mag_def)

lemma bn_wf_simps [simp]:
  "bn_room (r\<lparr>sign := s\<rparr>) = bn_room r" "has_room mem (r\<lparr>sign := s\<rparr>) n = has_room mem r n"
  by (simp_all add: bn_room_def has_room_def)

lemma mag_bound: "bn_wf a \<Longrightarrow> mag a < base ^ bnsize a"
  using val_bound [of "take (bnsize a) (digits a)"] bn_wfD(1) [of a] by (simp add: mag_def)

lemma mag_size_mono: "bn_wf a \<Longrightarrow> bn_wf b \<Longrightarrow> mag b \<le> mag a \<Longrightarrow> bnsize b \<le> bnsize a"
proof (rule ccontr)
  assume w: "bn_wf a" "bn_wf b" "mag b \<le> mag a" "\<not> bnsize b \<le> bnsize a"
  then have "val (take (bnsize a) (digits a)) < val (take (bnsize b) (digits b))"
    by (intro val_less_length) (auto dest: bn_wfD simp: normal_def bn_wf_def bn_room_def)
  then show False using w(3) by (simp add: mag_def)
qed

section \<open>Room\<close>

lemma BnExtend_success: "has_room mem r n \<longleftrightarrow> fst (BnExtend mem r n) = CRYPT_SUCCESS"
  by (auto simp: has_room_def BnExtend_def)

lemma BnExtend_keeps:
  assumes "bn_room r" "has_room mem r n"
  obtains r1 where "BnExtend mem r n = (CRYPT_SUCCESS, r1)" "bn_room r1" "n \<le> room r1" "sign r1 = sign r"
    "bnsize r1 = bnsize r"
proof
  show "BnExtend mem r n = (CRYPT_SUCCESS, snd (BnExtend mem r n))" using assms(2) BnExtend_success by (simp add: prod_eq_iff)
  show "bn_room (snd (BnExtend mem r n))" "n \<le> room (snd (BnExtend mem r n))"
    "sign (snd (BnExtend mem r n)) = sign r" "bnsize (snd (BnExtend mem r n)) = bnsize r"
    using assms by (auto simp: BnExtend_def bn_room_def has_room_def)
qed

text \<open>Writing a result into a number.\<close>

lemma store:
  assumes "bn_room r" "length d \<le> room r"
  shows "length (memcpy_at (digits r) 0 d) = room r" "take (length d) (memcpy_at (digits r) 0 d) = d"
  using assms by (simp_all add: bn_room_def memcpy_at_def)

lemma bn_returnsI:
  assumes "length (digits r) = room r" "bnsize r \<le> room r" "normal (take (bnsize r) (digits r))"
    and "sign r \<longrightarrow> mag r \<noteq> 0" "bval r = v"
  shows "bn_returns (CRYPT_SUCCESS, Some r) v"
proof -
  have "bnsize r \<noteq> 0" if "sign r" using assms(4) that by (cases "bnsize r") (simp_all add: mag_def)
  then show ?thesis using assms by (auto simp: bn_returns_def bn_wf_def bn_room_def)
qed

lemma zeroize_returns: "bn_room r \<Longrightarrow> bn_returns (BN_Zeroize (Some r)) 0"
  unfolding BN_Zeroize_def option.case
  by (rule bn_returnsI) (auto simp: zeroize_def bn_room_def normal_def mag_def bval_def)

section \<open>Addition and subtraction\<close>

lemma UAdd_loop_exact: "UAdd_loop a w = (c, r) \<Longrightarrow> length r = length a \<and> val r + base ^ length a * unat c = val a + unat w"
proof (induction a arbitrary: w c r)
  case (Cons x xs)
  obtain k y rs where k: "ADD_AB x w = (k, y)" and rs: "UAdd_loop xs k = (c, rs)" "r = y # rs"
    using Cons.prems by (auto split: prod.splits)
  from Cons.IH [OF rs(1)] have "length rs = length xs" "base * val rs + base ^ Suc (length xs) * unat c = base * val xs + base * unat k"
    by (simp_all add: distrib_left [symmetric] mult.assoc)
  then show ?case using ADD_AB_exact [OF k] rs(2) by simp
qed simp

lemma USub_loop_exact: "length (USub_loop a w) = length a \<and> (\<exists>c. val (USub_loop a w) + unat w = val a + base ^ length a * c)"
proof (induction a arbitrary: w)
  case (Cons x xs)
  let ?k = "if x < w then 1 else 0 :: BN_UINT"
  have s: "unat (x - w) + unat w = unat x + base * unat ?k" using sub_borrow [of x w] by simp
  obtain c where c: "val (USub_loop xs ?k) + unat ?k = val xs + base ^ length xs * c" using Cons.IH by blast
  from arg_cong [OF this, of "\<lambda>x. base * x"]
  have "base * val (USub_loop xs ?k) + base * unat ?k = base * val xs + base ^ length (x # xs) * c"
    by (simp add: distrib_left mult.assoc)
  then have "val (USub_loop (x # xs) w) + unat w = val (x # xs) + base ^ length (x # xs) * c" using s by simp
  then show ?case using Cons.IH by auto
qed (auto intro: exI [of _ "unat w"])

text \<open>The digits in use as the part added pairwise and the rest.\<close>

lemma mag_split:
  assumes "m \<le> bnsize a" "bnsize a \<le> length (digits a)"
  shows "mag a = val (take m (digits a)) + base ^ m * val (take (bnsize a - m) (drop m (digits a)))"
proof -
  have "take (bnsize a) (digits a) = take m (digits a) @ take (bnsize a - m) (drop m (digits a))"
    using assms by (metis le_add_diff_inverse take_add)
  then show ?thesis using assms by (simp add: mag_def val_append)
qed

lemma UAdd_exact_le:
  assumes r: "bn_room r" "has_room mem r (max (bnsize a) (bnsize b) + 1)" and w: "bn_wf a" "bn_wf b"
  obtains r' where "UAdd mem r a b = (CRYPT_SUCCESS, r')" "length (digits r') = room r'" "bnsize r' \<le> room r'"
    "normal (take (bnsize r') (digits r'))" "mag r' = mag a + mag b" "sign r' = sign r"
proof -
  define mx mn where mm: "mx = (if bnsize a < bnsize b then b else a)" "mn = (if bnsize a < bnsize b then a else b)"
  have wm: "bn_wf mx" "bn_wf mn" "bnsize mn \<le> bnsize mx" "mag mx + mag mn = mag a + mag b"
    and mxs: "max (bnsize a) (bnsize b) = bnsize mx"
    using w by (auto simp: mm)
  obtain r1 where r1: "BnExtend mem r (bnsize mx + 1) = (CRYPT_SUCCESS, r1)" "bn_room r1" "bnsize mx + 1 \<le> room r1" "sign r1 = sign r"
    using BnExtend_keeps [OF r(1), of mem "bnsize mx + 1"] r(2) mxs by auto
  note l = bn_wfD(1) [OF wm(1)] bn_wfD(1) [OF wm(2)]
  obtain c1 low where low: "BinAdd (digits mx) (digits mn) (bnsize mn) = (c1, low)" by fastforce
  obtain c high where high: "UAdd_loop (take (bnsize mx - bnsize mn) (drop (bnsize mn) (digits mx))) c1 = (c, high)" by fastforce
  have e1: "length low = bnsize mn" "val low + base ^ bnsize mn * unat c1 = val (take (bnsize mn) (digits mx)) + mag mn"
    using BinAdd_exact [OF _ _ low] l wm(3) by (simp_all add: mag_def)
  have e2: "length high = bnsize mx - bnsize mn"
    "val high + base ^ (bnsize mx - bnsize mn) * unat c = val (take (bnsize mx - bnsize mn) (drop (bnsize mn) (digits mx))) + unat c1"
    using UAdd_loop_exact [OF high] l wm(3) by simp_all
  have len: "length (low @ high) = bnsize mx" using e1 e2 wm(3) by simp
  have pw: "base ^ bnsize mx = base ^ bnsize mn * base ^ (bnsize mx - bnsize mn)" using wm(3) by (simp add: power_add [symmetric])
  have sum: "val (low @ high) + base ^ bnsize mx * unat c = mag a + mag b"
    using arg_cong [OF e2(2), of "\<lambda>x. base ^ bnsize mn * x"] e1(2) mag_split [OF wm(3) l(1)] wm(4)
    unfolding val_append e1(1) pw by (simp add: distrib_left mult.assoc)
  define r2 where "r2 = r1\<lparr>digits := memcpy_at (digits r1) 0 (low @ high), bnsize := bnsize mx\<rparr>"
  define r' where "r' = (if c \<noteq> 0 then r2\<lparr>digits := (digits r2)[bnsize mx := c], bnsize := bnsize mx + 1\<rparr> else r2)"
  have st: "length (digits r2) = room r1" "take (bnsize mx) (digits r2) = low @ high"
    using store [OF r1(2), of "low @ high"] r1(3) len by (simp_all add: r2_def)
  have t: "take (bnsize r') (digits r') = (low @ high) @ (if c \<noteq> 0 then [c] else [])"
    using st r1(3) by (auto simp: r'_def r2_def take_Suc_conv_app_nth)
  show ?thesis
  proof
    show "UAdd mem r a b = (CRYPT_SUCCESS, r')"
      using r1(1) low high by (simp add: UAdd_def Let_def mm [symmetric] r'_def r2_def)
    show "length (digits r') = room r'" "bnsize r' \<le> room r'" "sign r' = sign r"
      using st(1) r1(3,4) by (simp_all add: r'_def r2_def)
    have "val ((low @ high) @ (if c \<noteq> 0 then [c] else [])) = val (low @ high) + base ^ bnsize mx * unat c"
      unfolding val_append [of "low @ high"] len by simp
    then show m: "mag r' = mag a + mag b" unfolding mag_def [of r'] t using sum by simp
    show "normal (take (bnsize r') (digits r'))"
    proof (cases "c = 0")
      case True
      have "base ^ (bnsize mx - 1) \<le> mag mx" if "bnsize mx \<noteq> 0"
      proof -
        have "digits mx \<noteq> []" using l(1) that by auto
        then show ?thesis using val_top [of "take (bnsize mx) (digits mx)"] bn_wfD(2) [OF wm(1)] l(1) that
          by (simp add: mag_def normal_def)
      qed
      then have "base ^ (bnsize mx - 1) \<le> val (low @ high)" if "bnsize mx \<noteq> 0" using that sum wm(4) True by simp
      then have "base ^ (length (low @ high) - 1) \<le> val (low @ high)" if "low @ high \<noteq> []"
        unfolding len using that len by (metis length_0_conv)
      then show ?thesis using True val_ge_normal [of "low @ high"] by (simp add: t)
    qed (simp add: t normal_def)
  qed
qed


lemma USub_exact:
  assumes r: "bn_room r" "has_room mem r (bnsize a)" and w: "bn_wf a" "bn_wf b" and le: "mag b \<le> mag a"
  obtains r' where "USub mem r a b = (CRYPT_SUCCESS, r')" "length (digits r') = room r'" "bnsize r' \<le> room r'"
    "normal (take (bnsize r') (digits r'))" "mag r' = mag a - mag b" "sign r' = sign r"
proof -
  let ?n = "bnsize a" and ?m = "bnsize b"
  have s: "?m \<le> ?n" by (rule mag_size_mono [OF w le])
  obtain r1 where r1: "BnExtend mem r ?n = (CRYPT_SUCCESS, r1)" "bn_room r1" "?n \<le> room r1" "sign r1 = sign r"
    using BnExtend_keeps [OF r] by blast
  note l = bn_wfD(1) [OF w(1)] bn_wfD(1) [OF w(2)]
  obtain c1 low where low: "BinSub (digits a) (digits b) ?m = (c1, low)" by fastforce
  define high where "high = USub_loop (take (?n - ?m) (drop ?m (digits a))) c1"
  have e1: "length low = ?m" "val low + mag b = val (take ?m (digits a)) + base ^ ?m * unat c1"
    using BinSub_exact [OF _ _ low] l s by (simp_all add: mag_def)
  obtain c where e2: "length high = ?n - ?m"
    "val high + unat c1 = val (take (?n - ?m) (drop ?m (digits a))) + base ^ (?n - ?m) * c"
    using USub_loop_exact [of "take (?n - ?m) (drop ?m (digits a))" c1] l s by (auto simp: high_def)
  have len: "length (low @ high) = ?n" using e1 e2 s by simp
  have pw: "base ^ ?n = base ^ ?m * base ^ (?n - ?m)" using s by (simp add: power_add [symmetric])
  have sum: "val (low @ high) + mag b = mag a + base ^ ?n * c"
    using arg_cong [OF e2(2), of "\<lambda>x. base ^ ?m * x"] e1(2) mag_split [OF s l(1)]
    unfolding val_append e1(1) pw by (simp add: distrib_left mult.assoc)
  have "c = 0"
  proof (rule ccontr)
    assume "c \<noteq> 0"
    then have "base ^ ?n * 1 \<le> base ^ ?n * c" by (intro mult_le_mono2) simp
    then show False using sum le val_bound [of "low @ high"] unfolding len by linarith
  qed
  then have v: "val (low @ high) = mag a - mag b" using sum by simp
  define d where "d = memcpy_at (digits r1) 0 (low @ high)"
  have st: "length d = room r1" "take ?n d = low @ high"
    using store [OF r1(2), of "low @ high"] r1(3) len by (simp_all add: d_def)
  define r' where "r' = r1\<lparr>digits := d, bnsize := BinFixSize d ?n\<rparr>"
  show ?thesis
  proof
    show "USub mem r a b = (CRYPT_SUCCESS, r')"
      using r1(1) low by (simp add: USub_def Let_def r'_def d_def high_def)
    show "length (digits r') = room r'" "sign r' = sign r" using st(1) r1(4) by (simp_all add: r'_def)
    show "bnsize r' \<le> room r'" using BinFixSize_le [of d ?n] r1(3) by (simp add: r'_def)
    show "normal (take (bnsize r') (digits r'))" using normal_Fix [of ?n d] st(1) r1(3) by (simp add: r'_def)
    show "mag r' = mag a - mag b" using BinFixSize_val [of ?n d] st r1(3) v by (simp add: r'_def mag_def)
  qed
qed

lemma UAdd_returns:
  assumes "bn_wf r" "bn_wf a" "bn_wf b" "has_room mem r (max (bnsize a) (bnsize b) + 1)"
    and "s \<longrightarrow> mag a + mag b \<noteq> 0"
  shows "bn_returns (map_prod id Some (UAdd mem (r\<lparr>sign := s\<rparr>) a b)) (if s then - int (mag a + mag b) else int (mag a + mag b))"
proof -
  have "bn_room (r\<lparr>sign := s\<rparr>)" "has_room mem (r\<lparr>sign := s\<rparr>) (max (bnsize a) (bnsize b) + 1)"
    using assms bn_wf_room by simp_all
  from UAdd_exact_le [OF this assms(2,3)] obtain r' where r': "UAdd mem (r\<lparr>sign := s\<rparr>) a b = (CRYPT_SUCCESS, r')"
    "length (digits r') = room r'" "bnsize r' \<le> room r'" "normal (take (bnsize r') (digits r'))" "mag r' = mag a + mag b" "sign r' = s"
    by auto
  show ?thesis unfolding r'(1) map_prod_simp id_apply
    by (rule bn_returnsI) (use r' assms(5) in \<open>simp_all add: bval_def\<close>)
qed

lemma USub_returns:
  assumes "bn_wf r" "bn_wf a" "bn_wf b" "has_room mem r (max (bnsize a) (bnsize b) + 1)" and "mag b < mag a"
  shows "bn_returns (map_prod id Some (USub mem (r\<lparr>sign := s\<rparr>) a b)) (if s then int (mag b) - int (mag a) else int (mag a) - int (mag b))"
proof -
  have "bn_room (r\<lparr>sign := s\<rparr>)" "has_room mem (r\<lparr>sign := s\<rparr>) (bnsize a)"
    using assms(1,4) bn_wf_room by (auto simp: has_room_def)
  from USub_exact [OF this assms(2,3)] obtain r' where r': "USub mem (r\<lparr>sign := s\<rparr>) a b = (CRYPT_SUCCESS, r')"
    "length (digits r') = room r'" "bnsize r' \<le> room r'" "normal (take (bnsize r') (digits r'))" "mag r' = mag a - mag b" "sign r' = s"
    using assms(5) by auto
  show ?thesis unfolding r'(1) map_prod_simp id_apply
    by (rule bn_returnsI) (use r' assms(5) in \<open>simp_all add: bval_def\<close>)
qed

lemma BinCmp_mag:
  "bn_wf a \<Longrightarrow> bn_wf b \<Longrightarrow> BinCmp (digits a) (bnsize a) (digits b) (bnsize b) = sgn (int (mag a) - int (mag b))"
  unfolding mag_def by (intro BinCmp_exact) (simp_all add: bn_wfD)

lemma Add_Sub_returns:
  assumes "bn_wf r" "bn_wf a" "bn_wf b" "has_room mem r (max (bnsize a) (bnsize b) + 1)"
  shows "bn_returns (BN_Add mem (Some r) (Some a) (Some b)) (bval a + bval b)
    \<and> bn_returns (BN_Sub mem (Some r) (Some a) (Some b)) (bval a - bval b)"
proof -
  note c = BinCmp_mag [OF assms(2,3)]
  have mx: "max (bnsize b) (bnsize a) + 1 = max (bnsize a) (bnsize b) + 1" by simp
  have neg: "sign x \<longrightarrow> mag x + y \<noteq> 0" if "bn_wf x" for x y
    using that mag_0 [OF that] by (auto simp: bn_wf_def)
  note A = UAdd_returns [OF assms(1-4)] and S = USub_returns [OF assms(1-4)]
    and S' = USub_returns [OF assms(1,3,2), of mem, unfolded mx, OF assms(4)] and Z = zeroize_returns [OF bn_wf_room [OF assms(1)]]
  consider "mag a = mag b" | "mag b < mag a" | "mag a < mag b" by linarith
  note cs = this
  show ?thesis
  proof (cases "sign a = sign b")
    case True
    have "bn_returns (BN_Add mem (Some r) (Some a) (Some b)) (bval a + bval b)"
      using A [of "sign a"] neg [OF assms(2)] True by (auto simp: BN_Add_def bval_def split: if_splits)
    moreover have "bn_returns (BN_Sub mem (Some r) (Some a) (Some b)) (bval a - bval b)"
      using cs
    proof cases
      case 1
      then show ?thesis using Z True c by (simp add: BN_Sub_def bval_def)
    next
      case 2
      then show ?thesis using S [of "sign a"] True c by (auto simp: BN_Sub_def bval_def)
    next
      case 3
      then show ?thesis using S' [of "\<not> sign b"] True c by (auto simp: BN_Sub_def bval_def)
    qed
    ultimately show ?thesis ..
  next
    case False
    have "bn_returns (BN_Sub mem (Some r) (Some a) (Some b)) (bval a - bval b)"
      using A [of "sign a"] neg [OF assms(2)] False by (auto simp: BN_Sub_def bval_def split: if_splits)
    moreover have "bn_returns (BN_Add mem (Some r) (Some a) (Some b)) (bval a + bval b)"
      using cs
    proof cases
      case 1
      then show ?thesis using Z False c by (simp add: BN_Add_def bval_def)
    next
      case 2
      then show ?thesis using S [of "sign a"] False c by (auto simp: BN_Add_def bval_def)
    next
      case 3
      then show ?thesis using S' [of "sign b"] False c by (auto simp: BN_Add_def bval_def)
    qed
    ultimately show ?thesis by blast
  qed
qed

text \<open>C24. Addition and subtraction are exact on the integers: for well-formed numbers of any size and sign,
  with the result number being any well-formed number, an operand included, the call succeeds when
  room for one digit more than the longer operand can be had, and the result is a well-formed number
  whose value is the sum or the difference.\<close>

theorem bn_add_sub_exact:
  assumes "bn_wf r" "bn_wf a" "bn_wf b" "has_room mem r (max (bnsize a) (bnsize b) + 1)"
  shows "bn_returns (BN_Add mem (Some r) (Some a) (Some b)) (bval a + bval b)
    \<and> bn_returns (BN_Sub mem (Some r) (Some a) (Some b)) (bval a - bval b)"
  using assms by (rule Add_Sub_returns)

text \<open>A number from its sign and digits, for examples.\<close>

definition bn_of :: "bool \<Rightarrow> BN_UINT list \<Rightarrow> BN_BigNum" where
  "bn_of s ds = \<lparr>sign = s, bnsize = length ds, room = length ds, bnflag = 0, digits = ds\<rparr>"

lemma bn_of_wf: "ds = [] \<and> \<not> s \<or> ds \<noteq> [] \<and> last ds \<noteq> 0 \<Longrightarrow> bn_wf (bn_of s ds)"
  by (auto simp: bn_wf_def bn_room_def bn_of_def normal_def)

theorem bn_add_sub_exact_witness:
  "bn_returns (BN_Add True (Some (bn_of False [])) (Some (bn_of True [5])) (Some (bn_of False [0, 1]))) (2 ^ 64 - 5)"
proof -
  have "has_room True (bn_of False []) (max (bnsize (bn_of True [5])) (bnsize (bn_of False [0, 1])) + 1)"
    by (simp add: has_room_def bn_of_def BITS_TO_BN_UNIT_def)
  from bn_add_sub_exact [OF bn_of_wf bn_of_wf bn_of_wf this] show ?thesis
    by (simp add: bval_def mag_def bn_of_def base_def)
qed

text \<open>Comparison orders well-formed numbers by their integers: the result is the sign of the
  difference.\<close>

lemma bn_cmp_exact:
  assumes "bn_wf a" "bn_wf b"
  shows "BN_Cmp (Some a) (Some b) = sgn (bval a - bval b)"
proof -
  have z: "sign x \<Longrightarrow> mag x \<noteq> 0" if "bn_wf x" for x using that mag_0 [OF that] by (auto simp: bn_wf_def)
  show ?thesis using BinCmp_mag [OF assms] BinCmp_mag [OF assms(2,1)] z [OF assms(1)] z [OF assms(2)]
    by (auto simp: BN_Cmp_def bval_def sgn_if)
qed

end
