(* ===== verification/Bn_Limb.thy ===== *)
theory Bn_Limb
  imports Bn_Correct
begin

text \<open>
  The operations of big numbers with a single digit, with a bit position or a shift width
  (\<^verbatim>\<open>bn_operation.c\<close>, \<^verbatim>\<open>bn_basic.c\<close>): what they compute, and two of them that do not compute what they
  should for results written over an older number.
\<close>

section \<open>Adding and subtracting a digit\<close>

lemma take_size: "bn_wf a \<Longrightarrow> length (take (bnsize a) (digits a)) = bnsize a"
  using bn_wfD(1) [of a] by simp

lemma mag_top: "bn_wf a \<Longrightarrow> bnsize a \<noteq> 0 \<Longrightarrow> base ^ (bnsize a - 1) \<le> mag a"
proof -
  assume a: "bn_wf a" "bnsize a \<noteq> 0"
  then have "take (bnsize a) (digits a) \<noteq> []" using take_size [OF a(1)] by auto
  then show ?thesis using val_top [of "take (bnsize a) (digits a)"] bn_wfD(2) [OF a(1)] take_size [OF a(1)]
    by (simp add: mag_def normal_def)
qed

lemma top_digit: "bn_wf a \<Longrightarrow> bnsize a \<noteq> 0 \<Longrightarrow> digits a ! (bnsize a - 1) \<noteq> 0"
proof -
  assume a: "bn_wf a" "bnsize a \<noteq> 0"
  then have "take (bnsize a) (digits a) \<noteq> []" using take_size [OF a(1)] by auto
  then show ?thesis using bn_wfD(2) [OF a(1)] take_size [OF a(1)] a(2) by (simp add: normal_def last_conv_nth)
qed

lemma mag_single: "bn_wf a \<Longrightarrow> bnsize a = 1 \<Longrightarrow> mag a = unat (digits a ! 0)"
  using bn_wfD(1) [of a] by (cases "digits a") (simp_all add: mag_def)

lemma inc_returns:
  assumes r: "bn_wf r" "has_room mem r (bnsize a + 1)" and a: "bn_wf a" "bnsize a \<noteq> 0"
  shows "bn_returns (map_prod id Some (inc_magnitude mem s r a w)) (if s then - int (mag a + unat w) else int (mag a + unat w))"
proof -
  let ?n = "bnsize a"
  obtain r1 where r1: "BnExtend mem r (?n + 1) = (CRYPT_SUCCESS, r1)" "bn_room r1" "?n + 1 \<le> room r1"
    using BnExtend_keeps [OF bn_wf_room [OF r(1)] r(2)] by blast
  obtain c d where d: "BinInc (take ?n (digits a)) w = (c, d)" by fastforce
  have e: "length d = ?n" "val d + base ^ ?n * unat c = mag a + unat w"
    using BinInc_exact [OF d] take_size [OF a(1)] by (simp_all add: mag_def)
  define r2 where "r2 = r1\<lparr>digits := memcpy_at (digits r1) 0 d\<rparr>"
  have st: "length (digits r2) = room r1" "take ?n (digits r2) = d"
    using store [OF r1(2), of d] r1(3) e(1) by (simp_all add: r2_def)
  define r' where "r' = (if c \<noteq> 0 then r2\<lparr>bnsize := ?n + 1, digits := (digits r2)[?n := c]\<rparr> else r2\<lparr>bnsize := ?n\<rparr>)\<lparr>sign := s\<rparr>"
  have t: "take (bnsize r') (digits r') = d @ (if c \<noteq> 0 then [c] else [])"
    using st r1(3) by (auto simp: r'_def r2_def take_Suc_conv_app_nth)
  have m: "mag r' = mag a + unat w" unfolding mag_def [of r'] t val_append e(1) using e(2)
    by (cases "c = 0") simp_all
  have nz: "mag a \<noteq> 0" using mag_0 [OF a(1)] a(2) by simp
  have "bn_returns (CRYPT_SUCCESS, Some r') (if s then - int (mag a + unat w) else int (mag a + unat w))"
  proof (rule bn_returnsI)
    show "length (digits r') = room r'" "bnsize r' \<le> room r'" using st(1) r1(3) by (simp_all add: r'_def r2_def)
    show "normal (take (bnsize r') (digits r'))"
    proof (cases "c = 0")
      case True
      then have "base ^ (length d - 1) \<le> val d" using mag_top [OF a] e by simp
      then show ?thesis using True val_ge_normal [of d] by (simp add: t)
    qed (simp add: t normal_def)
    show "sign r' \<longrightarrow> mag r' \<noteq> 0" using m nz by simp
    show "bval r' = (if s then - int (mag a + unat w) else int (mag a + unat w))" unfolding bval_def m by (simp add: r'_def)
  qed
  moreover have "inc_magnitude mem s r a w = (CRYPT_SUCCESS, r')"
    using r1(1) d by (simp add: inc_magnitude_def r'_def r2_def Let_def)
  ultimately show ?thesis by (simp only: map_prod_simp id_apply)
qed

lemma UDec_returns:
  assumes r: "bn_room r" "bnsize a \<le> room r" and a: "bn_wf a" "2 \<le> bnsize a"
  shows "bn_returns (CRYPT_SUCCESS, Some (UDec (r\<lparr>sign := s\<rparr>) a w)) (if s then int (unat w) - int (mag a) else int (mag a) - int (unat w))"
proof -
  let ?n = "bnsize a"
  obtain c d where d: "BinDec (take ?n (digits a)) w = (c, d)" by fastforce
  have e: "length d = ?n" "val d + unat w = mag a + base ^ ?n * unat c"
    using BinDec_exact [OF d] take_size [OF a(1)] by (simp_all add: mag_def)
  have "base ^ 1 \<le> base ^ (?n - 1)" using a(2) base_big by (intro power_increasing) linarith+
  then have "base \<le> mag a" using mag_top [OF a(1)] a(2) by simp
  then have lt: "unat w < mag a" using unat_less_base [of w] by linarith
  have "unat c = 0"
  proof (rule ccontr)
    assume "unat c \<noteq> 0"
    then have "base ^ ?n * 1 \<le> base ^ ?n * unat c" by (intro mult_le_mono2) simp
    then show False using e lt val_bound [of d] unfolding e(1) by linarith
  qed
  then have v: "val d = mag a - unat w" using e(2) by simp
  define D where "D = memcpy_at (digits r) 0 d"
  have st: "length D = room r" "take ?n D = d" using store [OF r(1), of d] r(2) e(1) by (simp_all add: D_def)
  have m: "mag (UDec (r\<lparr>sign := s\<rparr>) a w) = mag a - unat w"
    using BinFixSize_val [of ?n D] st r(2) v d by (simp add: UDec_def mag_def D_def [symmetric] Let_def)
  show ?thesis
  proof (rule bn_returnsI)
    show "length (digits (UDec (r\<lparr>sign := s\<rparr>) a w)) = room (UDec (r\<lparr>sign := s\<rparr>) a w)"
      using st(1) d by (simp add: UDec_def D_def [symmetric] Let_def)
    show "bnsize (UDec (r\<lparr>sign := s\<rparr>) a w) \<le> room (UDec (r\<lparr>sign := s\<rparr>) a w)"
      using BinFixSize_le [of D ?n] r(2) d by (simp add: UDec_def D_def [symmetric] Let_def)
    show "normal (take (bnsize (UDec (r\<lparr>sign := s\<rparr>) a w)) (digits (UDec (r\<lparr>sign := s\<rparr>) a w)))"
      using normal_Fix [of ?n D] st(1) r(2) d by (simp add: UDec_def D_def [symmetric] Let_def)
    show "sign (UDec (r\<lparr>sign := s\<rparr>) a w) \<longrightarrow> mag (UDec (r\<lparr>sign := s\<rparr>) a w) \<noteq> 0" using m lt by simp
    show "bval (UDec (r\<lparr>sign := s\<rparr>) a w) = (if s then int (unat w) - int (mag a) else int (mag a) - int (unat w))"
      unfolding bval_def m using lt by (simp add: UDec_def Let_def of_nat_diff)
  qed
qed

lemma SetLimb_returns:
  assumes "bn_wf r" "has_room mem r 1"
  shows "\<exists>r'. BN_SetLimb mem (Some r) w = (CRYPT_SUCCESS, Some r') \<and> bn_wf r' \<and> bval r' = int (unat w) \<and> mag r' = unat w \<and> \<not> sign r'"
proof -
  obtain r1 where r1: "BnExtend mem r 1 = (CRYPT_SUCCESS, r1)" "bn_room r1" "1 \<le> room r1"
    using BnExtend_keeps [OF bn_wf_room [OF assms(1)] assms(2)] by blast
  define r2 where "r2 = zeroize r1"
  have r2: "bnsize r2 = 0" "length (digits r2) = room r2" "room r2 = room r1" "\<not> sign r2"
    using r1(2) by (simp_all add: r2_def zeroize_def bn_room_def)
  have "digits r2 \<noteq> []" using r2 r1(3) by auto
  then have t: "take 1 ((digits r2)[0 := w]) = [w]" by (cases "digits r2") simp_all
  show ?thesis using r1 r2 t
    by (auto simp: BN_SetLimb_def r2_def [symmetric] bn_wf_def bn_room_def normal_def bval_def mag_def Let_def)
qed


lemma has_room_mono: "has_room mem r n \<Longrightarrow> m \<le> n \<Longrightarrow> has_room mem r m"
  by (auto simp: has_room_def)

text \<open>A result of one digit, or none.\<close>

lemma single_returns:
  assumes "bn_room r" "1 \<le> room r"
  shows "x \<noteq> 0 \<Longrightarrow> bn_returns (CRYPT_SUCCESS, Some (r\<lparr>sign := s, digits := (digits r)[0 := x], bnsize := 1\<rparr>))
      (if s then - int (unat x) else int (unat x))"
    and "bn_returns (CRYPT_SUCCESS, Some (r\<lparr>sign := False, digits := (digits r)[0 := 0], bnsize := 0\<rparr>)) 0"
proof -
  have "digits r \<noteq> []" using assms by (auto simp: bn_room_def)
  then have t: "take 1 ((digits r)[0 := x]) = [x]" by (cases "digits r") simp_all
  show "bn_returns (CRYPT_SUCCESS, Some (r\<lparr>sign := s, digits := (digits r)[0 := x], bnsize := 1\<rparr>))
      (if s then - int (unat x) else int (unat x))" if "x \<noteq> 0"
    by (rule bn_returnsI) (use assms t that in \<open>simp_all add: bn_room_def normal_def mag_def bval_def unat_eq_0\<close>)
  show "bn_returns (CRYPT_SUCCESS, Some (r\<lparr>sign := False, digits := (digits r)[0 := 0], bnsize := 0\<rparr>)) 0"
    by (rule bn_returnsI) (use assms in \<open>simp_all add: bn_room_def normal_def mag_def bval_def\<close>)
qed

lemma unat_diff: "y \<le> x \<Longrightarrow> int (unat (x - y :: BN_UINT)) = int (unat x) - int (unat y)"
  by (simp add: unat_sub word_le_nat_alt of_nat_diff)

lemma AddLimb_returns:
  assumes r: "bn_wf r" "has_room mem r (bnsize a + 1)" and a: "bn_wf a"
  shows "bn_returns (BN_AddLimb mem (Some r) (Some a) w) (bval a + int (unat w))"
proof -
  obtain r1 where r1: "BnExtend mem r (bnsize a) = (CRYPT_SUCCESS, r1)" "bn_room r1" "bnsize a \<le> room r1"
    using BnExtend_keeps [OF bn_wf_room [OF r(1)] has_room_mono [OF r(2)], of "bnsize a"] by auto
  consider "bnsize a = 0" | "bnsize a \<noteq> 0" "\<not> sign a" | "bnsize a = 1" "sign a" | "2 \<le> bnsize a" "sign a" by linarith
  then show ?thesis
  proof cases
    case 1
    then have "mag a = 0" "\<not> sign a" using a mag_0 [OF a] by (auto simp: bn_wf_def)
    then show ?thesis using SetLimb_returns [OF r(1), of mem w] r(2) 1
      by (auto simp: BN_AddLimb_def bn_returns_def bval_def)
  next
    case 2
    then show ?thesis using inc_returns [OF r a 2(1), of False w] by (simp add: BN_AddLimb_def bval_def)
  next
    case 3
    have v: "bval a = - int (unat (digits a ! 0))" using mag_single [OF a 3(1)] 3(2) by (simp add: bval_def)
    note s = single_returns [OF r1(2), unfolded 3(1)]
    have r1': "1 \<le> room r1" using r1(3) 3(1) by simp
    consider "w < digits a ! 0" | "digits a ! 0 = w" | "digits a ! 0 < w" by (metis linorder_cases)
    then show ?thesis
    proof cases
      case 1
      then have "digits a ! 0 - w \<noteq> 0" by auto
      from single_returns(1) [OF r1(2) r1' this, of True] show ?thesis
        using 1 3 r1(1) unat_diff [OF less_imp_le [OF 1]] by (simp only: BN_AddLimb_def v) simp
    next
      case 2
      then show ?thesis using single_returns(2) [OF r1(2) r1'] 3 r1(1) by (simp add: BN_AddLimb_def v)
    next
      case less: 3
      then have "w - digits a ! 0 \<noteq> 0" "\<not> w < digits a ! 0" "digits a ! 0 \<noteq> w" by auto
      with single_returns(1) [OF r1(2) r1' this(1), of False] show ?thesis
        using 3 r1(1) unat_diff [OF less_imp_le [OF less]] by (simp only: BN_AddLimb_def v) simp
    qed
  next
    case 4
    show ?thesis using UDec_returns [OF r1(2,3) a 4(1), of True w] r1(1) 4 by (simp add: BN_AddLimb_def bval_def)
  qed
qed

lemma SubLimb_returns:
  assumes r: "bn_wf r" "has_room mem r (bnsize a + 1)" and a: "bn_wf a" and s: "\<not> sign r \<or> bnsize a \<noteq> 1"
  shows "bn_returns (BN_SubLimb mem (Some r) (Some a) w) (bval a - int (unat w))"
proof -
  obtain r1 where r1: "BnExtend mem r (bnsize a) = (CRYPT_SUCCESS, r1)" "bn_room r1" "bnsize a \<le> room r1" "sign r1 = sign r"
    using BnExtend_keeps [OF bn_wf_room [OF r(1)] has_room_mono [OF r(2)], of "bnsize a"] by auto
  consider "bnsize a = 0" | "bnsize a \<noteq> 0" "sign a" | "bnsize a = 1" "\<not> sign a" | "2 \<le> bnsize a" "\<not> sign a" by linarith
  then show ?thesis
  proof cases
    case 1
    then have v: "bval a = 0" using a mag_0 [OF a] by (auto simp: bn_wf_def bval_def)
    obtain r' where r': "BN_SetLimb mem (Some r) w = (CRYPT_SUCCESS, Some r')" "bn_wf r'" "mag r' = unat w"
      using SetLimb_returns [OF r(1), of mem w] r(2) 1 by auto
    have "bnsize r' \<noteq> 0" if "w \<noteq> 0" using that mag_0 [OF r'(2)] r'(3) by (simp add: unat_eq_0)
    then show ?thesis using r' 1 v by (auto simp: BN_SubLimb_def bn_returns_def bval_def bn_wf_def mag_def bn_room_def)
  next
    case 2
    then show ?thesis using inc_returns [OF r a 2(1), of True w] by (simp add: BN_SubLimb_def bval_def)
  next
    case 3
    have v: "bval a = int (unat (digits a ! 0))" using mag_single [OF a 3(1)] 3(2) by (simp add: bval_def)
    have r1': "1 \<le> room r1" "\<not> sign r1" using r1(3,4) 3(1) s by simp_all
    have sg: "r1\<lparr>sign := False\<rparr> = r1" using r1'(2) by simp
    have ne: "digits r1 \<noteq> []" using r1(2) r1'(1) by (auto simp: bn_room_def)
    consider "w < digits a ! 0" | "digits a ! 0 = w" | "digits a ! 0 < w" by (metis linorder_cases)
    then show ?thesis
    proof cases
      case 1
      then have x: "digits a ! 0 - w \<noteq> 0" by auto
      then have "BinFixSize ((digits r1)[0 := digits a ! 0 - w]) 1 = 1" using ne by simp
      then show ?thesis using single_returns(1) [OF r1(2) r1'(1) x, of False] 1 less_imp_le [OF 1] 3 r1(1) unat_diff [OF less_imp_le [OF 1]] sg
        by (simp only: BN_SubLimb_def v) (simp add: Let_def)
    next
      case 2
      have "BinFixSize ((digits r1)[0 := 0]) 1 = 0" using ne by simp
      then show ?thesis using single_returns(2) [OF r1(2) r1'(1)] 2 3 r1(1) sg by (simp add: BN_SubLimb_def v Let_def)
    next
      case less: 3
      then have "w - digits a ! 0 \<noteq> 0" "\<not> w \<le> digits a ! 0" by auto
      with single_returns(1) [OF r1(2) r1'(1) this(1), of True] show ?thesis
        using 3 r1(1) unat_diff [OF less_imp_le [OF less]] by (simp only: BN_SubLimb_def v) simp
    qed
  next
    case 4
    show ?thesis using UDec_returns [OF r1(2,3) a 4(1), of False w] r1(1) 4 by (simp add: BN_SubLimb_def bval_def)
  qed
qed


section \<open>Multiplying by a digit\<close>

lemma MulLimb_loop_exact:
  "MulLimb_loop w a k = (c, r) \<Longrightarrow> length r = length a \<and> val r + base ^ length a * unat c = unat w * val a + unat k"
proof (induction a arbitrary: k c r)
  case (Cons x xs)
  obtain rh rl q y rs where m: "MUL_AB x w = (rh, rl)" and q: "ADD_AB rl k = (q, y)"
    and rs: "MulLimb_loop w xs (q + rh) = (c, rs)" "r = y # rs"
    using Cons.prems by (auto split: prod.splits)
  have t: "unat y + base * (unat q + unat rh) = unat x * unat w + unat k"
    using MUL_AB_exact [OF m] ADD_AB_exact [OF q] unfolding distrib_left by linarith
  have "unat x * unat w + unat k < base * base" using product_less [of x w] unat_le_base [of k] base_big by linarith
  then have "base * (unat q + unat rh) < base * base" using t by linarith
  then have s: "unat (q + rh) = unat q + unat rh" by (simp add: unat_add)
  from Cons.IH [OF rs(1)] have l: "length rs = length xs" and "val rs + base ^ length xs * unat c = unat w * val xs + unat (q + rh)" by simp_all
  from arg_cong [OF this(2), of "\<lambda>x. base * x"]
  have "base * val rs + base ^ Suc (length xs) * unat c = unat w * (base * val xs) + base * (unat q + unat rh)"
    unfolding s by (simp add: distrib_left mult.assoc mult.left_commute)
  then show ?case using t l rs(2) by (simp add: distrib_left mult.commute [of "unat x"])
qed simp

lemma Bits_0: "bn_wf a \<Longrightarrow> BN_Bits (Some a) = 0 \<longleftrightarrow> bnsize a = 0"
proof (cases "bnsize a = 0")
  case False
  assume a: "bn_wf a"
  then have "val (take (bnsize a) (digits a)) < 2 ^ BinBits (digits a) (bnsize a)"
    using BinBits_exact [OF bn_wfD(1) bn_wfD(2)] False by simp
  moreover have "val (take (bnsize a) (digits a)) \<noteq> 0" using mag_0 [OF a] False by (simp add: mag_def)
  ultimately have "BinBits (digits a) (bnsize a) \<noteq> 0" by (cases "BinBits (digits a) (bnsize a)") simp_all
  then show ?thesis using False by (simp add: BN_Bits_def)
qed (simp add: BN_Bits_def BinBits_def)

lemma MulLimb_returns:
  assumes r: "bn_wf r" "has_room mem r (bnsize a + 1)" and a: "bn_wf a"
  shows "bn_returns (BN_MulLimb mem (Some r) (Some a) w) (bval a * int (unat w))"
proof (cases "bnsize a = 0 \<or> w = 0")
  case True
  then have "bval a * int (unat w) = 0" using mag_0 [OF a] by (auto simp: bval_def)
  then show ?thesis using True zeroize_returns [OF bn_wf_room [OF r(1)]] Bits_0 [OF a]
    by (simp only:) (simp add: BN_MulLimb_def)
next
  case False
  let ?n = "bnsize a"
  obtain r1 where r1: "BnExtend mem r (?n + 1) = (CRYPT_SUCCESS, r1)" "bn_room r1" "?n + 1 \<le> room r1"
    using BnExtend_keeps [OF bn_wf_room [OF r(1)] r(2)] by blast
  obtain c d where d: "MulLimb_loop w (take ?n (digits a)) 0 = (c, d)" by fastforce
  have e: "length d = ?n" "val d + base ^ ?n * unat c = unat w * mag a"
    using MulLimb_loop_exact [OF d] take_size [OF a] by (simp_all add: mag_def)
  define D where "D = (if c \<noteq> 0 then d @ [c] else d)"
  have v: "val D = mag a * unat w" using e by (cases "c = 0") (simp_all add: D_def val_append mult.commute)
  have l: "length D \<le> room r1" using e r1(3) by (simp add: D_def)
  define r' where "r' = r1\<lparr>digits := memcpy_at (digits r1) 0 D, sign := sign a, bnsize := length D\<rparr>"
  have st: "length (digits r') = room r'" "take (bnsize r') (digits r') = D"
    using store [OF r1(2) l] by (simp_all add: r'_def)
  have w1: "1 \<le> unat w" using False by (simp add: Suc_le_eq unat_gt_0)
  have m: "mag r' = mag a * unat w" using st v by (simp add: mag_def [of r'])
  have "bn_returns (CRYPT_SUCCESS, Some r') (bval a * int (unat w))"
  proof (rule bn_returnsI)
    show "length (digits r') = room r'" "bnsize r' \<le> room r'" using st(1) l by (simp_all add: r'_def)
    show "normal (take (bnsize r') (digits r'))" unfolding st(2)
    proof (cases "c = 0")
      case True
      have "mag a * 1 \<le> mag a * unat w" using w1 by (rule mult_le_mono2)
      moreover have "base ^ (length d - 1) \<le> mag a" using mag_top [OF a] False e(1) by simp
      moreover have "val d = mag a * unat w" using e(2) True by (simp add: mult.commute)
      ultimately have "base ^ (length d - 1) \<le> val d" by linarith
      then show "normal D" using True val_ge_normal [of d] by (simp add: D_def)
    qed (simp add: D_def normal_def)
    show "sign r' \<longrightarrow> mag r' \<noteq> 0" using m mag_0 [OF a] False by (simp add: unat_eq_0)
    show "bval r' = bval a * int (unat w)" unfolding bval_def m by (simp add: r'_def)
  qed
  moreover have "BN_MulLimb mem (Some r) (Some a) w = (CRYPT_SUCCESS, Some r')"
    using False r1(1) d Bits_0 [OF a] by (simp add: BN_MulLimb_def r'_def D_def Let_def)
  ultimately show ?thesis by simp
qed

text \<open>Adding, subtracting and multiplying by a single digit are exact on the integers, when room for
  one more digit can be had; for the subtraction from a number of one digit the result number must not
  hold a negative number before the call.\<close>

lemma bn_limb_exact:
  assumes "bn_wf r" "bn_wf a" "has_room mem r (bnsize a + 1)" "\<not> sign r \<or> bnsize a \<noteq> 1"
  shows "bn_returns (BN_AddLimb mem (Some r) (Some a) w) (bval a + int (unat w))
    \<and> bn_returns (BN_SubLimb mem (Some r) (Some a) w) (bval a - int (unat w))
    \<and> bn_returns (BN_MulLimb mem (Some r) (Some a) w) (bval a * int (unat w))"
  using AddLimb_returns [OF assms(1,3,2)] SubLimb_returns [OF assms(1,3,2,4)] MulLimb_returns [OF assms(1,3,2)] by blast



section \<open>Shifts\<close>

lemma Lshift_returns:
  assumes r: "bn_wf r" "has_room mem r (bnsize a + n div 64 + 1)" and a: "bn_wf a"
  shows "bn_returns (BN_Lshift mem (Some r) (Some a) n) (bval a * 2 ^ n)"
proof -
  define inc where "inc = (if n mod 64 = 0 then n div 64 else n div 64 + 1)"
  obtain r1 where r1: "BnExtend mem r (bnsize a + inc) = (CRYPT_SUCCESS, r1)" "bn_room r1" "bnsize a + inc \<le> room r1"
  proof -
    have "bnsize a + inc \<le> bnsize a + n div 64 + 1" by (simp add: inc_def)
    from BnExtend_keeps [OF bn_wf_room [OF r(1)] has_room_mono [OF r(2) this]] show ?thesis using that by blast
  qed
  show ?thesis
  proof (cases "bnsize a = 0")
    case True
    then have "bval a * 2 ^ n = 0" "\<not> sign a" using mag_0 [OF a] a by (auto simp: bval_def bn_wf_def)
    moreover have "(zeroize r1)\<lparr>sign := False\<rparr> = zeroize r1" by (simp add: zeroize_def)
    ultimately show ?thesis using zeroize_returns [OF r1(2)] r1(1) True
      by (simp only:) (simp add: BN_Lshift_def BN_Zeroize_def inc_def [symmetric] Let_def)
  next
    case False
    obtain sz d where s: "BinLshift (digits r1) (digits a) (bnsize a) n = (sz, d)" by fastforce
    define out where "out = out_left (n mod 64) (digits a ! (bnsize a - 1))"
    have sz: "sz = bnsize a + n div 64 + (if out \<noteq> 0 then 1 else 0)"
      by (rule Lshift_size [OF s, folded out_def])
    have "out = 0" if "n mod 64 = 0" using that by (simp add: out_def out_left_def)
    then have room: "sz \<le> length (digits r1)" using sz r1(2,3) by (auto simp: inc_def bn_room_def split: if_splits)
    note e = BinLshift_exact [OF _ bn_wfD(1) [OF a] s room] BinLshift_digits(1) [OF _ bn_wfD(1) [OF a] s room]
    have top: "digits a ! (bnsize a - 1) \<noteq> 0" by (rule top_digit [OF a False])
    define r' where "r' = r1\<lparr>digits := d, bnsize := sz\<rparr>\<lparr>sign := sign a\<rparr>"
    have m: "mag r' = mag a * 2 ^ n" using e(2) False by (simp add: mag_def r'_def)
    have "bn_returns (CRYPT_SUCCESS, Some r') (bval a * 2 ^ n)"
    proof (rule bn_returnsI)
      show "length (digits r') = room r'" "bnsize r' \<le> room r'" using e(1,4) room False r1(2) by (simp_all add: r'_def bn_room_def)
      show "normal (take (bnsize r') (digits r'))" using e(3) top False by (simp add: r'_def)
      show "sign r' \<longrightarrow> mag r' \<noteq> 0" using m mag_0 [OF a] False by simp
      show "bval r' = bval a * 2 ^ n" unfolding bval_def m by (simp add: r'_def)
    qed
    then show ?thesis using r1(1) s False by (simp add: BN_Lshift_def inc_def [symmetric] r'_def Let_def)
  qed
qed


lemma Rshift_returns:
  assumes r: "bn_wf r" "has_room mem r (bnsize a)" and a: "bn_wf a"
  shows "bn_returns (BN_Rshift mem (Some r) (Some a) n) (sgn (bval a) * int (mag a div 2 ^ n))"
proof (cases "BN_Bits (Some a) \<le> n")
  case True
  have "mag a < 2 ^ n"
  proof (cases "bnsize a = 0")
    case False
    have "mag a < 2 ^ BN_Bits (Some a)"
      using BinBits_exact [OF bn_wfD(1) [OF a] bn_wfD(2) [OF a]] False by (simp add: BN_Bits_def mag_def)
    also have "\<dots> \<le> 2 ^ n" using True by simp
    finally show ?thesis .
  qed (use mag_0 [OF a] in simp)
  then show ?thesis using zeroize_returns [OF bn_wf_room [OF r(1)]] True by (simp add: BN_Rshift_def)
next
  case False
  let ?s = "bnsize a" and ?b = "BN_Bits (Some a)"
  define nw nb where d: "nw = n div 64" "nb = n mod 64"
  have s0: "?s \<noteq> 0" using False Bits_0 [OF a] by auto
  define x where "x = digits a ! (?s - 1)"
  have x: "x \<noteq> 0" using top_digit [OF a s0] by (simp add: x_def)
  note z = GetZeroBitsUint_exact [OF x]
  have b: "?b = 64 * (?s - 1) + (64 - GetZeroBitsUint x)"
    using s0 z(1) by (simp add: BN_Bits_def BinBits_def x_def)
  have n: "n = 64 * nw + nb" "nb < 64" by (simp_all add: d)
  have nw: "nw < ?s" using False b n z(1) s0 by linarith
  have top: "drop_bit nb x \<noteq> 0 \<longleftrightarrow> nb + GetZeroBitsUint x < 64"
  proof -
    have "unat (drop_bit nb x) = unat x div 2 ^ nb" unfolding unat_drop_bit_eq by (rule drop_bit_eq_div)
    then have "drop_bit nb x = 0 \<longleftrightarrow> unat x < 2 ^ nb" by (metis div_eq_0_iff unat_eq_0 power_not_zero zero_neq_numeral)
    also have "\<dots> \<longleftrightarrow> 64 \<le> nb + GetZeroBitsUint x"
    proof
      assume "unat x < 2 ^ nb"
      then have "(2::nat) ^ (63 - GetZeroBitsUint x) < 2 ^ nb" using z(2) by linarith
      then have "63 - GetZeroBitsUint x < nb" by (rule power_less_imp_less_exp [rotated]) simp
      then show "64 \<le> nb + GetZeroBitsUint x" by linarith
    next
      assume "64 \<le> nb + GetZeroBitsUint x"
      then have "(2::nat) ^ (64 - GetZeroBitsUint x) \<le> 2 ^ nb" by (intro power_increasing) simp_all
      then show "unat x < 2 ^ nb" using z(3) by linarith
    qed
    finally show ?thesis by linarith
  qed
  define need where "need = BITS_TO_BN_UNIT (?b - n)"
  have need: "?s - nw - (if drop_bit nb x \<noteq> 0 then 0 else 1) \<le> need" "need \<le> ?s"
  proof -
    define k where "k = ?s - nw - 1"
    have k: "?s = nw + 1 + k" using nw by (simp add: k_def)
    have up: "BITS_TO_BN_UNIT (64 * j + t) = j + 1" if "0 < t" "t \<le> 64" for j t
    proof -
      have "64 * j + t + 64 - 1 = 64 * (j + 1) + (t - 1)" using that by simp
      moreover have "t - 1 < 64" using that by simp
      ultimately show ?thesis unfolding BITS_TO_BN_UNIT_def by simp
    qed
    have "need = ?s - nw - (if drop_bit nb x \<noteq> 0 then 0 else 1)"
    proof (cases "nb + GetZeroBitsUint x < 64")
      case True
      then have "?b - n = 64 * k + (64 - GetZeroBitsUint x - nb)" using b n(1) k by linarith
      then show ?thesis using True top up [of "64 - GetZeroBitsUint x - nb" k] k by (simp add: need_def)
    next
      case ge: False
      then have "0 < k" using False b n(1) k z(1) by linarith
      then have "?b - n = 64 * (k - 1) + (128 - GetZeroBitsUint x - nb)" using b n k z(1) by linarith
      then show ?thesis using ge top up [of "128 - GetZeroBitsUint x - nb" "k - 1"] k n(2) z(1) \<open>0 < k\<close> by (simp add: need_def)
    qed
    then show "?s - nw - (if drop_bit nb x \<noteq> 0 then 0 else 1) \<le> need" "need \<le> ?s" by (simp_all split: if_splits)
  qed
  obtain r1 where r1: "BnExtend mem r need = (CRYPT_SUCCESS, r1)" "bn_room r1" "need \<le> room r1" "bnsize r1 = bnsize r"
    using BnExtend_keeps [OF bn_wf_room [OF r(1)] has_room_mono [OF r(2) need(2)]] by blast
  obtain sz e where s: "BinRshift (digits r1) (digits a) ?s n = (sz, e)" by fastforce
  have sz: "sz \<le> length (digits r1)"
    using Rshift_size [OF s, folded d, OF nw] need(1) r1(2,3) unfolding x_def by (simp add: bn_room_def)
  note E = BinRshift_exact [OF nw [unfolded d] bn_wfD(1) [OF a] s sz] BinRshift_digits(1) [OF nw [unfolded d] bn_wfD(1) [OF a] s sz]
  define e' where "e' = (if sz < bnsize r1 then memcpy_at e sz (replicate (bnsize r1 - sz) 0) else e)"
  have e': "length e' = room r1" "take sz e' = take sz e"
    using E(1,4) r1(2) by (auto simp: e'_def bn_room_def memcpy_at_def)
  define r' where "r' = r1\<lparr>sign := sign a, digits := e', bnsize := sz\<rparr>"
  have m: "mag r' = mag a div 2 ^ n" using E(2) e'(2) by (simp add: mag_def r'_def)
  have ge: "2 ^ n \<le> mag a"
  proof -
    have "(2::nat) ^ n \<le> 2 ^ (?b - 1)" using False by (intro power_increasing) simp_all
    also have "\<dots> \<le> mag a"
      using BinBits_exact [OF bn_wfD(1) [OF a] bn_wfD(2) [OF a]] s0 by (simp add: BN_Bits_def mag_def)
    finally show ?thesis .
  qed
  then have pos: "mag a div 2 ^ n \<noteq> 0" by (simp add: div_eq_0_iff not_less)
  have "bn_returns (CRYPT_SUCCESS, Some r') (sgn (bval a) * int (mag a div 2 ^ n))"
  proof (rule bn_returnsI)
    show "length (digits r') = room r'" "bnsize r' \<le> room r'" using e'(1) sz r1(2) by (simp_all add: r'_def bn_room_def)
    show "normal (take (bnsize r') (digits r'))" using E(3) x e'(2) by (simp add: r'_def x_def)
    show "sign r' \<longrightarrow> mag r' \<noteq> 0" using m pos by simp
    show "bval r' = sgn (bval a) * int (mag a div 2 ^ n)"
      unfolding bval_def m using mag_0 [OF a] s0 by (simp add: r'_def sgn_if)
  qed
  then show ?thesis using r1(1) s False by (simp add: BN_Rshift_def need_def [symmetric] r'_def e'_def Let_def)
qed


text \<open>The shifts multiply the integer by a power of two and divide its magnitude by one, rounding
  towards zero and keeping the sign of a result that is not zero, for every shift width, when room for
  the result can be had.\<close>

lemma bn_shift_exact:
  assumes "bn_wf r" "bn_wf a" "has_room mem r (bnsize a + n div 64 + 1)"
  shows "bn_returns (BN_Lshift mem (Some r) (Some a) n) (bval a * 2 ^ n)
    \<and> bn_returns (BN_Rshift mem (Some r) (Some a) n) (sgn (bval a) * (\<bar>bval a\<bar> div 2 ^ n))"
proof -
  have "has_room mem r (bnsize a)" using has_room_mono [OF assms(3)] by simp
  moreover have "\<bar>bval a\<bar> div 2 ^ n = int (mag a div 2 ^ n)" by (simp add: bval_def zdiv_int)
  ultimately show ?thesis using Lshift_returns [OF assms(1,3,2)] Rshift_returns [OF assms(1) _ assms(2)] by simp
qed

section \<open>Single bits\<close>

lemma bit_val: "bit (val xs) n \<longleftrightarrow> n div 64 < length xs \<and> bit (xs ! (n div 64)) (n mod 64)"
proof (induction xs arbitrary: n)
  case (Cons x xs)
  have ub: "bit (unat x) k = bit x k" for k by (simp add: bit_unsigned_iff bit_imp_le_length)
  show ?case
  proof (cases "n < 64")
    case True
    have "(unat x + base * val xs) div 2 ^ n = unat x div 2 ^ n + 2 ^ (64 - n) * val xs"
      unfolding base_split [OF less_imp_le [OF True]] by (simp add: mult.assoc)
    then have "bit (val (x # xs)) n = bit (unat x) n" using True by (simp add: bit_iff_odd)
    then show ?thesis using True ub by simp
  next
    case False
    then have "(unat x + base * val xs) div 2 ^ n = (unat x + base * val xs) div base div 2 ^ (n - 64)"
      unfolding base_def div_mult2_eq [symmetric] power_add [symmetric] by simp
    also have "(unat x + base * val xs) div base = val xs" using unat_less_base [of x] by simp
    finally have "bit (val (x # xs)) n = bit (val xs) (n - 64)" by (simp add: bit_iff_odd)
    moreover have "n div 64 = Suc ((n - 64) div 64)" "(n - 64) mod 64 = n mod 64"
      using False le_div_geq [of 64 n] le_mod_geq [of 64 n] by simp_all
    ultimately show ?thesis using Cons.IH [of "n - 64"] by simp
  qed
qed simp

lemma GetBit_mag: "bn_wf a \<Longrightarrow> BN_GetBit (Some a) n = bit (mag a) n"
proof -
  assume a: "bn_wf a"
  have "(drop_bit k x AND 1 \<noteq> 0) = bit x k" for x :: BN_UINT and k
    by (simp add: and_one_eq bit_iff_odd_drop_bit odd_iff_mod_2_eq_one)
  then show ?thesis using bn_wfD(1) [OF a] by (auto simp: BN_GetBit_def mag_def bit_val Let_def)
qed

lemma refix_returns:
  assumes "length (digits b) = room b" "bnsize b \<le> room b" "val (take (bnsize b) (digits b)) = m"
  shows "bn_returns (CRYPT_SUCCESS, Some (refix b)) (if sign b then - int m else int m)"
proof (rule bn_returnsI)
  let ?f = "BinFixSize (digits b) (bnsize b)"
  have l: "bnsize b \<le> length (digits b)" using assms by simp
  show "length (digits (refix b)) = room (refix b)" using assms(1) by (simp add: refix_def Let_def)
  show "bnsize (refix b) \<le> room (refix b)" using BinFixSize_le [of "digits b" "bnsize b"] assms(2) by (simp add: refix_def Let_def)
  show "normal (take (bnsize (refix b)) (digits (refix b)))" using normal_Fix [OF l]
    by (simp add: refix_def Let_def) (simp add: normal_def)
  have m: "mag (refix b) = m"
    using BinFixSize_val [OF l] assms(3) by (cases "?f = 0") (simp_all add: mag_def refix_def Let_def)
  have z: "m = 0 \<longleftrightarrow> ?f = 0" using normal_val_0 [OF normal_Fix [OF l]] BinFixSize_val [OF l] assms(3) BinFixSize_le [of "digits b" "bnsize b"] l
    by (cases "digits b") auto
  show "sign (refix b) \<longrightarrow> mag (refix b) \<noteq> 0" unfolding m using z by (simp add: refix_def Let_def)
  show "bval (refix b) = (if sign b then - int m else int m)" unfolding bval_def m using z by (simp add: refix_def Let_def)
qed

lemma less_div_mod: "(k :: nat) < n \<longleftrightarrow> k div 64 < n div 64 \<or> k div 64 = n div 64 \<and> k mod 64 < n mod 64"
proof -
  have e: "n = 64 * (n div 64) + n mod 64" "n mod 64 < 64" "k = 64 * (k div 64) + k mod 64" "k mod 64 < 64" by simp_all
  show ?thesis using e by linarith
qed

lemma MaskBit_returns:
  assumes a: "bn_wf a" and n: "n div 64 < bnsize a"
  shows "bn_returns (BN_MaskBit (Some a) n) (sgn (bval a) * int (mag a mod 2 ^ n))"
proof -
  define nw nb where d: "nw = n div 64" "nb = n mod 64"
  define b where "b = (if nb = 0 then a\<lparr>bnsize := nw\<rparr>
      else a\<lparr>bnsize := nw + 1, digits := (digits a)[nw := digits a ! nw AND NOT (push_bit nb (- 1))]\<rparr>)"
  have nw: "nw < bnsize a" "bnsize a \<le> length (digits a)" using n bn_wfD(1) [OF a] by (simp_all add: d)
  have "val (take (bnsize b) (digits b)) = mag a mod 2 ^ n"
  proof (rule bit_eqI)
    fix k
    have k: "bit (mag a mod 2 ^ n) k \<longleftrightarrow> k < n \<and> k div 64 < bnsize a \<and> bit (digits a ! (k div 64)) (k mod 64)"
      using nw by (auto simp: take_bit_eq_mod [symmetric] bit_take_bit_iff mag_def bit_val)
    have lt: "k < n \<longleftrightarrow> k div 64 < nw \<or> k div 64 = nw \<and> k mod 64 < nb" unfolding d by (rule less_div_mod)
    show "bit (val (take (bnsize b) (digits b))) k = bit (mag a mod 2 ^ n) k"
    proof (cases "nb = 0")
      case True
      then show ?thesis using nw unfolding k lt by (auto simp: bit_val b_def)
    next
      case False
      then have "bit (val (take (bnsize b) (digits b))) k \<longleftrightarrow> k div 64 < nw + 1 \<and>
          bit ((digits a)[nw := digits a ! nw AND NOT (push_bit nb (- 1))] ! (k div 64)) (k mod 64)"
        using nw by (auto simp: bit_val b_def)
      also have "\<dots> \<longleftrightarrow> k < n \<and> k div 64 < bnsize a \<and> bit (digits a ! (k div 64)) (k mod 64)"
        using nw unfolding lt by (cases "k div 64 = nw") (auto simp: bit_simps)
      finally show ?thesis unfolding k .
    qed
  qed
  then have "bn_returns (CRYPT_SUCCESS, Some (refix b)) (if sign b then - int (mag a mod 2 ^ n) else int (mag a mod 2 ^ n))"
    using nw a by (intro refix_returns) (auto simp: b_def bn_wf_def bn_room_def)
  moreover have "(if sign b then - int (mag a mod 2 ^ n) else int (mag a mod 2 ^ n)) = sgn (bval a) * int (mag a mod 2 ^ n)"
    using mag_0 [OF a] nw by (auto simp: b_def bval_def sgn_if)
  ultimately show ?thesis using nw by (simp add: BN_MaskBit_def d [symmetric] b_def Let_def)
qed


text \<open>No digit above those in use holds anything.\<close>

definition clean :: "BN_BigNum \<Rightarrow> bool" where
  "clean a = (\<forall>i < room a. bnsize a \<le> i \<longrightarrow> digits a ! i = 0)"

lemma SetBit_returns:
  assumes a: "bn_wf a" "clean a" "\<not> sign a" and n: "n div 64 < room a"
  shows "bn_returns (BN_SetBit (Some a) n) (int (set_bit n (mag a)))"
proof -
  define nw nb where d: "nw = n div 64" "nb = n mod 64"
  have rm: "nw < room a" "length (digits a) = room a" "bnsize a \<le> room a" using n a(1) by (simp_all add: d bn_wf_def bn_room_def)
  define x where "x = digits a ! nw OR push_bit nb 1"
  define b where "b = a\<lparr>digits := (digits a)[nw := x], bnsize := if bnsize a < nw + 1 then nw + 1 else bnsize a\<rparr>"
  have sz: "bnsize b \<le> room a" "nw < bnsize b" "bnsize a \<le> bnsize b" using rm by (simp_all add: b_def)
  have bx: "bit x nb" by (simp add: x_def bit_simps d)
  have nk: "n = k \<longleftrightarrow> k div 64 = nw \<and> k mod 64 = nb" for k unfolding d by (metis div_mult_mod_eq)
  have m: "mag b = set_bit n (mag a)"
  proof (rule bit_eqI)
    fix k
    have bk: "bit (mag b) k \<longleftrightarrow> k div 64 < bnsize b \<and> bit ((digits a)[nw := x] ! (k div 64)) (k mod 64)"
      using sz rm by (auto simp: mag_def bit_val b_def)
    have ak: "bit (mag a) k \<longleftrightarrow> k div 64 < bnsize b \<and> bit (digits a ! (k div 64)) (k mod 64)"
    proof (cases "k div 64 < bnsize a")
      case False
      then have "digits a ! (k div 64) = 0" if "k div 64 < bnsize b" using that sz a(2) by (simp add: clean_def)
      then show ?thesis using False by (auto simp: mag_def bit_val)
    qed (use sz rm in \<open>simp add: mag_def bit_val\<close>)
    show "bit (mag b) k = bit (set_bit n (mag a)) k"
      using rm sz unfolding bk bit_set_bit_iff ak by (cases "k div 64 = nw") (auto simp: nk x_def bit_simps)
  qed
  have "normal (take (bnsize b) (digits b))"
  proof (cases "bnsize a < nw + 1")
    case True
    have "x \<noteq> 0" using bx by auto
    then show ?thesis using True rm by (simp add: normal_def b_def take_Suc_conv_app_nth)
  next
    case False
    have "digits b ! (bnsize a - 1) \<noteq> 0"
      using top_digit [OF a(1)] False bx rm by (cases "nw = bnsize a - 1") (auto simp: b_def)
    then show ?thesis using False rm sz by (auto simp: normal_def b_def last_conv_nth)
  qed
  then have "bn_returns (CRYPT_SUCCESS, Some b) (int (set_bit n (mag a)))"
    by (intro bn_returnsI) (use sz rm a(3) m in \<open>simp_all add: b_def bval_def\<close>)
  then show ?thesis using rm by (simp add: BN_SetBit_def d [symmetric] b_def x_def Let_def)
qed

text \<open>Bits of a number: reading bit \<open>n\<close> gives that bit of the magnitude, for every position; masking
  keeps the magnitude below bit \<open>n\<close>; setting a bit of a non-negative number sets that bit of its
  integer, provided that the digits above those in use hold nothing.\<close>

lemma bn_bits_exact:
  assumes "bn_wf a" "n div 64 < bnsize a" "\<not> sign a" "clean a"
  shows "BN_GetBit (Some a) k = bit (bval a) k
    \<and> bn_returns (BN_MaskBit (Some a) n) (bval a mod 2 ^ n)
    \<and> bn_returns (BN_SetBit (Some a) n) (set_bit n (bval a))"
proof -
  have v: "bval a = int (mag a)" using assms(3) by (simp add: bval_def)
  have "sgn (bval a) * int (mag a mod 2 ^ n) = bval a mod 2 ^ n" by (simp add: v zmod_int sgn_if)
  moreover have "int (set_bit n (mag a)) = set_bit n (bval a)" by (simp add: v of_nat_set_bit_eq)
  moreover have "n div 64 < room a" using assms(1,2) by (simp add: bn_wf_def bn_room_def)
  ultimately show ?thesis
    using GetBit_mag [OF assms(1), of k] MaskBit_returns [OF assms(1,2)] SetBit_returns [OF assms(1,4,3), of n] v
    by (simp add: bit_of_nat_iff_bit)
qed

text \<open>Masking leaves the digits above the mask in the array, and setting a higher bit afterwards brings
  them back: masking \<open>5 * 2\<^sup>6\<^sup>4\<close> to its lowest 64 bits gives zero, and setting bit 128 of that zero gives
  \<open>2\<^sup>1\<^sup>2\<^sup>8 + 5 * 2\<^sup>6\<^sup>4\<close> instead of \<open>2\<^sup>1\<^sup>2\<^sup>8\<close>.\<close>

lemma bn_set_bit_after_mask:
  "let a = (bn_of False [0, 5])\<lparr>room := 3, digits := [0, 5, 0]\<rparr>; masked = BN_MaskBit (Some a) 64 in
     bn_wf a \<and> bn_returns masked 0 \<and> bn_returns (BN_SetBit (snd masked) 128) (2 ^ 128 + 5 * 2 ^ 64)"
  by (simp add: bn_of_def bn_wf_def bn_room_def normal_def BN_MaskBit_def BN_SetBit_def refix_def bn_returns_def
      bval_def mag_def base_def Let_def numeral_3_eq_3)

end
