(* ===== verification/Bn_Div.thy ===== *)
theory Bn_Div
  imports Bn_Shift
begin

text \<open>
  Long division of digit arrays (\<open>BinDiv\<close> of \<^verbatim>\<open>bn_bincal.c\<close>) and the division of two digits by one
  (\<open>DIV_ND\<close> of the portable \<^verbatim>\<open>bn_bincal_noasm.h\<close>).
\<close>

section \<open>Definitions\<close>

text \<open>Half a step of the two-by-one division: \<open>n\<close> joined with the half digit \<open>w\<close>, divided by \<open>d\<close>. The
  macro has this text twice.\<close>

definition DIV_half :: "BN_UINT \<Rightarrow> BN_UINT \<Rightarrow> BN_UINT \<Rightarrow> BN_UINT \<times> BN_UINT" where
  "DIV_half d n w =
     (let d1 = BN_UINT_HI d; d0 = BN_UINT_LO d;
          q = n div d1; r = n - q * d1; m = q * d0;
          r = push_bit 32 r OR w;
          (q, r) = (if r < m then
                      let q = q - 1; r = r + d in if r \<ge> d then if r < m then (q - 1, r + d) else (q, r) else (q, r)
                    else (q, r))
      in (q, r - m))"

definition DIV_ND :: "BN_UINT \<Rightarrow> BN_UINT \<Rightarrow> BN_UINT \<Rightarrow> BN_UINT \<times> BN_UINT" where
  "DIV_ND nh nl d =
     (let (q1, r1) = DIV_half d nh (BN_UINT_HI nl); (q0, r0) = DIV_half d r1 (BN_UINT_LO nl)
      in (push_bit 32 q1 OR q0, r0))"

definition TryDiv :: "BN_UINT \<Rightarrow> BN_UINT \<Rightarrow> BN_UINT \<Rightarrow> BN_UINT \<Rightarrow> BN_UINT \<Rightarrow> BN_UINT" where
  "TryDiv q h l yh yl =
     (let (rh, rl) = MUL_AB q yl in
      if rh < h \<or> rh = h \<and> rl \<le> l then q
      else
        let nq = q - 1; nh = h + yh in
        if nh < yh then nq
        else
          let rh = (if rl < yl then rh - 1 else rh); rl = rl - yl in
          if rh < nh \<or> rh = nh \<and> rl \<le> l then nq else nq - 1)"

text \<open>One round of the long division, for the quotient digit \<open>k = i - ySize\<close>; the quotient array and its
  size are absent when the caller passes null pointers.\<close>

type_synonym bin_quot = "(BN_UINT list \<times> nat) option"

definition BinDivCore_guess :: "BN_UINT list \<Rightarrow> BN_UINT list \<Rightarrow> nat \<Rightarrow> nat \<Rightarrow> BN_UINT" where
  "BinDivCore_guess x y ySize i =
     (let yy = y ! (ySize - 1) in
      if x ! i = yy then - 1
      else
        let (qq, rr) = DIV_ND (x ! i) (x ! (i - 1)) yy in
        if ySize > 1 then TryDiv qq rr (x ! (i - 2)) yy (y ! (ySize - 2)) else qq)"

definition BinDivCore_round :: "BN_UINT list \<Rightarrow> nat \<Rightarrow> nat \<Rightarrow> bin_quot \<times> BN_UINT list \<Rightarrow> bin_quot \<times> BN_UINT list" where
  "BinDivCore_round y ySize i = (\<lambda>(quot, x).
     (let qq = BinDivCore_guess x y ySize i in
      if qq > 0 then
        let (extend, part) = BinSubMul (drop (i - ySize) x) y ySize qq;
            x = take (i - ySize) x @ part;
            extend = x ! i - extend;
            x = x[i := extend];
            (x, qq) = (if extend > 0 then
                         let (extend, part) = BinAdd (drop (i - ySize) x) y ySize;
                             x = memcpy_at x (i - ySize) part
                         in (x[i := x ! i + extend], qq - 1)
                       else (x, qq))
        in (case quot of
              Some (q, qSize) \<Rightarrow>
                if qq \<noteq> 0 then Some (q[i - ySize := qq], if qSize > i - ySize + 1 then qSize else i - ySize + 1)
                else quot
            | None \<Rightarrow> None, x)
      else (quot, x)))"

text \<open>The loop runs \<open>i\<close> from \<open>xSize\<close> down to \<open>ySize\<close>: \<open>n\<close> rounds are left.\<close>

fun BinDivCore_loop :: "BN_UINT list \<Rightarrow> nat \<Rightarrow> nat \<Rightarrow> bin_quot \<times> BN_UINT list \<Rightarrow> bin_quot \<times> BN_UINT list" where
  "BinDivCore_loop y ySize 0 s = s"
| "BinDivCore_loop y ySize (Suc k) s = BinDivCore_loop y ySize k (BinDivCore_round y ySize (k + ySize) s)"

definition BinDivCore :: "bin_quot \<Rightarrow> BN_UINT list \<Rightarrow> nat \<Rightarrow> BN_UINT list \<Rightarrow> nat \<Rightarrow> bin_quot \<times> BN_UINT list" where
  "BinDivCore quot x xSize y ySize = BinDivCore_loop y ySize (xSize + 1 - ySize) (quot, x)"

fun BnLshiftSimple :: "BN_UINT list \<Rightarrow> nat \<Rightarrow> BN_UINT \<Rightarrow> BN_UINT list" where
  "BnLshiftSimple [] bits nextBits = []"
| "BnLshiftSimple (n # as) bits nextBits =
     (push_bit bits n OR nextBits) # BnLshiftSimple as bits (drop_bit (BN_UINT_BITS - bits) n)"

text \<open>The size of the remainder, the remainder, the quotient, and the divisor as it is left.\<close>

definition BinDiv :: "bin_quot \<Rightarrow> BN_UINT list \<Rightarrow> nat \<Rightarrow> BN_UINT list \<Rightarrow> nat \<Rightarrow> nat \<times> BN_UINT list \<times> bin_quot \<times> BN_UINT list" where
  "BinDiv quot x xSize y ySize =
     (let shifts = GetZeroBitsUint (y ! (ySize - 1));
          (y, xNewSize, x) = (if shifts \<noteq> 0 then
                                let (xNewSize, x') = BinLshift x x xSize shifts
                                in (BnLshiftSimple (take ySize y) shifts 0 @ drop ySize y, xNewSize, x')
                              else (y, xSize, x));
          (quot, x) = BinDivCore quot x xSize y ySize;
          (xNewSize, x) = (if shifts \<noteq> 0 then BinRshift x x xNewSize shifts else (xNewSize, x))
      in (BinFixSize x xNewSize, x, quot, y))"

section \<open>Two digits by one\<close>

lemma unat_sub_le: "unat (b :: BN_UINT) \<le> unat a \<Longrightarrow> unat (a - b) = unat a - unat b"
  using sub_borrow [of a b] by (simp add: word_less_nat_alt)

lemma unat_pred: "x \<noteq> 0 \<Longrightarrow> unat (x - 1) + 1 = unat (x :: BN_UINT)"
proof -
  assume "x \<noteq> 0"
  then have "0 < unat x" by (simp add: unat_gt_0)
  then show ?thesis using unat_sub_le [of 1 x] unfolding unat_1 by linarith
qed

lemma DIV_half_exact:
  assumes nd: "unat n < unat d" and norm: "base \<le> 2 * unat d" and w: "unat w < half" and r: "DIV_half d n w = (q, r)"
  shows "unat q < half" "unat n * half + unat w = unat q * unat d + unat r" "unat r < unat d"
proof -
  define d1 d0 where d: "d1 = BN_UINT_HI d" "d0 = BN_UINT_LO d"
  have ud: "unat d = unat d1 * half + unat d0" unfolding d by (rule halves)
  have b: "unat d1 < half" "unat d0 < half" using half_bounds [of d] by (simp_all add: d)
  have d1: "half \<le> 2 * unat d1"
  proof (rule ccontr)
    assume "\<not> half \<le> 2 * unat d1"
    moreover have "half = 2 * 2147483648" by (simp add: half_def)
    ultimately have "2 * unat d1 + 2 \<le> half" by presburger
    then have "(2 * unat d1 + 2) * half \<le> half * half" by (rule mult_le_mono1)
    then show False using norm ud b(2) unfolding base_half by (simp add: add_mult_distrib)
  qed
  define q0 where "q0 = n div d1"
  define r0 where "r0 = n - q0 * d1"
  have uq0: "unat q0 = unat n div unat d1" unfolding q0_def by (rule unat_div)
  have qd: "unat q0 * unat d1 \<le> unat n" by (simp add: uq0)
  have uqd: "unat (q0 * d1) = unat q0 * unat d1" using qd unat_less_base [of n] by (simp add: unat_mul)
  have ur0: "unat r0 = unat n mod unat d1" 
    unfolding r0_def using qd by (simp add: unat_sub_le uqd uq0 minus_div_mult_eq_mod)
  have "unat d1 > 0" using d1 half_big by linarith
  then have r0b: "unat r0 < unat d1" by (simp add: ur0)
  have "unat q0 * unat d1 < (half + 2) * unat d1"
    using qd nd ud b(2) d1 by (simp add: add_mult_distrib mult.commute)
  then have "unat q0 < half + 2" by (simp only: mult_less_cancel2)
  then have q0b: "unat q0 \<le> half + 1" by linarith
  define m where "m = q0 * d0"
  have "unat q0 * unat d0 \<le> (half + 1) * (half - 1)" using q0b b(2) by (intro mult_le_mono) simp_all
  also have "\<dots> < base" by (simp add: base_def half_def)
  finally have mb: "unat q0 * unat d0 < base" .
  then have um: "unat m = unat q0 * unat d0" by (simp add: m_def unat_mul)
  define r1 where "r1 = push_bit 32 r0 OR w"
  have ur1: "unat r1 = unat r0 * half + unat w"
    unfolding r1_def unat_join [OF w] using r0b b(1) by simp
  have r1d: "unat r1 < unat d"
    using two_digits [OF r0b w] ud ur1 by linarith
  have n: "unat n * half + unat w + unat m = unat q0 * unat d + unat r1"
  proof -
    have "unat n = unat q0 * unat d1 + unat r0" by (simp add: uq0 ur0)
    then show ?thesis unfolding um ud ur1 by (simp add: algebra_simps)
  qed
  have res: "(q, r) = (if r1 < m then if r1 + d \<ge> d then if r1 + d < m then (q0 - 1 - 1, r1 + d + d - m)
      else (q0 - 1, r1 + d - m) else (q0 - 1, r1 + d - m) else (q0, r1 - m))"
    using r by (auto simp: DIV_half_def Let_def d q0_def r0_def m_def r1_def split: if_splits prod.splits)
  have main: "unat n * half + unat w = unat q * unat d + unat r \<and> unat r < unat d"
  proof (cases "r1 < m")
    case False
    then show ?thesis using res n r1d by (auto simp: unat_sub_le word_less_nat_alt)
  next
    case True
    then have lt: "unat r1 < unat m" by (simp add: word_less_nat_alt)
    then have "unat q0 \<noteq> 0" using um by (metis mult_0 not_less0)
    then have q1: "unat (q0 - 1) = unat q0 - 1" "0 < unat q0" using unat_sub_le [of 1 q0] by simp_all
    have q1D: "unat (q0 - 1) * unat d + unat d = unat q0 * unat d"
      using q1 by (metis Suc_pred' add.commute mult_Suc)
    have mB: "unat m < base" "unat d < base" by (simp_all add: unat_less_base)
    show ?thesis
    proof (cases "r1 + d \<ge> d \<and> r1 + d < m")
      case one: False
      then have "(q, r) = (q0 - 1, r1 + d - m)" using True res by (auto split: if_splits)
      moreover have "unat (r1 + d - m) + unat m = unat r1 + unat d"
        using sub_borrow [of "r1 + d" m] add_carry(2) [of r1 d] one lt mB
        by (auto simp: word_less_nat_alt word_le_nat_alt not_le not_less split: if_splits)
      ultimately show ?thesis using n q1D lt by auto
    next
      case two: True
      then have "(q, r) = (q0 - 1 - 1, r1 + d + d - m)" using True res by simp
      moreover have s1: "unat (r1 + d) = unat r1 + unat d" "unat r1 + unat d < unat m"
        using add_carry(2) [of r1 d] two by (auto simp: word_less_nat_alt word_le_nat_alt split: if_splits)
      moreover have "unat (r1 + d + d - m) + unat m = unat r1 + 2 * unat d"
        using sub_borrow [of "r1 + d + d" m] add_carry(2) [of "r1 + d" d] s1 mB norm
        by (auto simp: word_less_nat_alt split: if_splits)
      moreover have "unat (q0 - 1 - 1) * unat d + 2 * unat d = unat q0 * unat d"
      proof -
        have "unat (q0 - 1) \<noteq> 0" using q1D n s1(2) by (metis add_0 add_lessD1 add_less_cancel_right mult_0 nat_less_le not_add_less2 add.commute)
        moreover from this have "unat (q0 - 1 - 1) = unat (q0 - 1) - unat (1 :: BN_UINT)" by (intro unat_sub_le) simp
        ultimately have "unat (q0 - 1 - 1) + 1 = unat (q0 - 1)" unfolding unat_1 by linarith
        then show ?thesis using q1D by (metis add.assoc add_mult_distrib mult_1 mult_2)
      qed
      ultimately show ?thesis using n by auto
    qed
  qed
  then show "unat n * half + unat w = unat q * unat d + unat r" "unat r < unat d" by auto
  have "unat q * unat d < half * unat d" using two_digits [OF nd w] main
    by (metis le_add1 le_less_trans mult.commute)
  then show "unat q < half" by simp
qed

lemma DIV_ND_exact:
  assumes nd: "unat nh < unat d" and norm: "base \<le> 2 * unat d" and r: "DIV_ND nh nl d = (q, r)"
  shows "unat nh * base + unat nl = unat q * unat d + unat r" "unat r < unat d"
proof -
  obtain q1 r1 q0 where s: "DIV_half d nh (BN_UINT_HI nl) = (q1, r1)" "DIV_half d r1 (BN_UINT_LO nl) = (q0, r)"
    and q: "q = push_bit 32 q1 OR q0"
    using r by (auto simp: DIV_ND_def split: prod.splits)
  note e1 = DIV_half_exact [OF nd norm half_bounds(1) s(1)]
  note e0 = DIV_half_exact [OF e1(3) norm half_bounds(2) s(2)]
  have "unat q = unat q1 * half + unat q0" unfolding q unat_join [OF e0(1)] using e1(1) by simp
  moreover have "unat nh * base + unat nl = (unat nh * half + unat (BN_UINT_HI nl)) * half + unat (BN_UINT_LO nl)"
    using halves [of nl] by (simp add: base_half algebra_simps)
  ultimately show "unat nh * base + unat nl = unat q * unat d + unat r"
    unfolding e1(2) using e0(2) by (simp add: algebra_simps)
  show "unat r < unat d" by (rule e0(3))
qed

section \<open>The guess of a quotient digit\<close>

lemma digits_le_iff: "rl < base \<Longrightarrow> l < base \<Longrightarrow> base * rh + rl \<le> base * h + l \<longleftrightarrow> rh < h \<or> rh = h \<and> rl \<le> (l :: nat)"
proof -
  assume b: "rl < base" "l < base"
  have "base * a + x < base * c + y" if "a < c" "x < base" for a c x y :: nat
  proof -
    have "base * Suc a \<le> base * c" using that(1) by (intro mult_le_mono2) simp
    then show ?thesis using that(2) by simp
  qed
  from this [of rh h rl l] this [of h rh l rl] b show ?thesis by (cases rh h rule: linorder_cases) auto
qed

lemma word_digits_le:
  fixes rh rl h l :: BN_UINT
  shows "rh < h \<or> rh = h \<and> rl \<le> l \<longleftrightarrow> base * unat rh + unat rl \<le> base * unat h + unat l"
  unfolding digits_le_iff [OF unat_less_base unat_less_base] word_less_nat_alt word_le_nat_alt word_unat_eq_iff ..

lemma min_div_eq:
  assumes "x \<le> (q :: nat)" "x * v \<le> u" "x = q \<or> u < (x + 1) * v" "0 < v"
  shows "x = min q (u div v)"
proof (cases "x = q")
  case True
  then show ?thesis using assms by (auto simp: min_def less_eq_div_iff_mult_less_eq)
next
  case False
  then have "u < (x + 1) * v" using assms(3) by blast
  then have "u div v < x + 1" by (simp add: less_mult_imp_div_less)
  moreover have "x \<le> u div v" using assms(2,4) by (simp add: less_eq_div_iff_mult_less_eq)
  ultimately show ?thesis using assms(1) by linarith
qed

text \<open>The trial: of the quotient of two digits by one it makes the quotient of three digits by two, if
  that is smaller.\<close>

lemma TryDiv_exact:
  assumes norm: "base \<le> 2 * unat yh"
  shows "unat (TryDiv q h l yh yl)
    = min (unat q) (((unat q * unat yh + unat h) * base + unat l) div (unat yh * base + unat yl))"
proof -
  obtain rh rl where m: "MUL_AB q yl = (rh, rl)" by fastforce
  note e = MUL_AB_exact [OF m]
  let ?u = "(unat q * unat yh + unat h) * base + unat l" and ?v = "unat yh * base + unat yl"
  have step: "(x * ?v \<le> ?u) = (x * unat yl \<le> base * (unat h + j * unat yh) + unat l)" if "x + j = unat q" for x j
  proof -
    have "?u = x * (unat yh * base) + (base * (unat h + j * unat yh) + unat l)"
      unfolding that [symmetric] by (simp add: algebra_simps)
    moreover have "x * ?v = x * (unat yh * base) + x * unat yl" by (rule distrib_left)
    ultimately show ?thesis by linarith
  qed
  have v: "0 < ?v" using norm base_big by simp
  show ?thesis
  proof (cases "rh < h \<or> rh = h \<and> rl \<le> l")
    case True
    then have "TryDiv q h l yh yl = q" using m by (simp add: TryDiv_def)
    moreover have "unat q * ?v \<le> ?u" using step [of "unat q" 0] True e by (simp add: word_digits_le)
    ultimately show ?thesis using min_div_eq [OF _ _ _ v, of "unat q" "unat q" ?u] by simp
  next
    case False
    then have n0: "?u < unat q * ?v" using step [of "unat q" 0] e by (simp add: word_digits_le)
    then have q0: "unat q \<noteq> 0" by (metis mult_0 not_less0)
    define nq where "nq = q - 1"
    have nq: "unat nq + 1 = unat q" using q0 unat_sub_le [of 1 q] by (simp add: nq_def)
    have n1: "?u < (unat nq + 1) * ?v" unfolding nq by (rule n0)
    have small: "x \<le> unat nq \<Longrightarrow> base \<le> z \<Longrightarrow> x * unat yl \<le> base * z + unat l" for x z
    proof -
      assume x: "x \<le> unat nq" "base \<le> z"
      have "x * unat yl \<le> unat nq * unat yl" using x(1) by (rule mult_le_mono1)
      moreover have "unat nq * unat yl \<le> base * base" using product_less [of nq yl] base_big by linarith
      moreover have "base * base \<le> base * z" using x(2) by (rule mult_le_mono2)
      ultimately show ?thesis by linarith
    qed
    show ?thesis
    proof (cases "h + yh < yh")
      case carry: True
      then have "TryDiv q h l yh yl = nq" using m False by (simp add: TryDiv_def Let_def nq_def)
      moreover have "base \<le> unat h + 1 * unat yh" using add_carry(2) [of h yh] carry by simp
      then have "unat nq * ?v \<le> ?u" unfolding step [OF nq] using small [of "unat nq"] by blast
      ultimately show ?thesis using min_div_eq [OF _ _ _ v, of "unat nq" "unat q" ?u] n1 nq by simp
    next
      case nc: False
      then have nh: "unat (h + yh) = unat h + 1 * unat yh" using add_carry(2) [of h yh] by simp
      define rh' where "rh' = (if rl < yl then rh - 1 else rh)"
      have e': "base * unat rh' + unat (rl - yl) = unat nq * unat yl"
      proof (cases "rl < yl")
        case True
        have "rh \<noteq> 0" using e True unfolding nq [symmetric] by (auto simp: word_less_nat_alt)
        from unat_pred [OF this] have "base * unat rh = base * unat (rh - 1) + base" by (metis distrib_left mult.right_neutral)
        then show ?thesis using e sub_borrow [of rl yl] True unfolding nq [symmetric] rh'_def by simp
      next
        case False
        then show ?thesis using e sub_borrow [of rl yl] unfolding nq [symmetric] rh'_def by simp
      qed
      show ?thesis
      proof (cases "rh' < h + yh \<or> rh' = h + yh \<and> rl - yl \<le> l")
        case True
        then have "TryDiv q h l yh yl = nq" using m False nc by (simp add: TryDiv_def Let_def nq_def rh'_def)
        moreover have "unat nq * ?v \<le> ?u" unfolding step [OF nq] using True
          by (simp only: word_digits_le e' nh)
        ultimately show ?thesis using min_div_eq [OF _ _ _ v, of "unat nq" "unat q" ?u] n1 nq by simp
      next
        case two: False
        then have "TryDiv q h l yh yl = nq - 1" using m False nc by (simp add: TryDiv_def Let_def nq_def rh'_def)
        moreover have n2: "?u < unat nq * ?v" using two unfolding word_digits_le e' nh step [OF nq, symmetric] by simp
        moreover from n2 have "unat nq \<noteq> 0" by (metis mult_0 not_less0)
        then have nq2: "unat (nq - 1) + 1 = unat nq" using unat_sub_le [of 1 nq] by simp
        moreover have "unat (nq - 1) * ?v \<le> ?u"
        proof -
          have "unat (nq - 1) + 2 = unat q" using nq nq2 by linarith
          then show ?thesis unfolding step [OF \<open>unat (nq - 1) + 2 = unat q\<close>]
            using small [of "unat (nq - 1)" "unat h + 2 * unat yh"] norm nq2 by linarith
        qed
        ultimately show ?thesis using min_div_eq [OF _ _ _ v, of "unat (nq - 1)" "unat q" ?u] nq by simp
      qed
    qed
  qed
qed

section \<open>Bounds of the guess\<close>

lemma div_le_leading:
  assumes "U < (u + 1) * B" "v * B \<le> V" "0 < v" "0 < (B :: nat)"
  shows "U div V \<le> u div v"
proof -
  have "0 < V" using assms(2-4) by (metis le_zero_eq mult_eq_0_iff neq0_conv)
  have "U div V * (v * B) \<le> U div V * V" using assms(2) by (rule mult_le_mono2)
  also have "\<dots> \<le> U" by simp
  finally have "U div V * v * B < (u + 1) * B" using assms(1) by (simp add: mult.assoc)
  then have "U div V * v \<le> u" by (simp only: mult_less_cancel2) linarith
  then show ?thesis using assms(3) by (simp add: less_eq_div_iff_mult_less_eq)
qed

lemma leading_le_div:
  assumes "u * B \<le> U" "V \<le> (v + 1) * B" "g \<le> u div v" "g * B \<le> V" "0 < V" "0 < (v :: nat)"
  shows "g \<le> U div V + 1"
proof (cases g)
  case (Suc g')
  have gv: "g * v \<le> u" using assms(3,6) by (simp add: less_eq_div_iff_mult_less_eq)
  have "g * V \<le> g * ((v + 1) * B)" using assms(2) by (rule mult_le_mono2)
  also have "\<dots> = g * v * B + g * B" by (simp add: algebra_simps)
  also have "\<dots> \<le> u * B + V" using gv assms(4) by (intro add_mono mult_le_mono1)
  also have "\<dots> \<le> U + V" using assms(1) by simp
  finally have "g' * V \<le> U" using Suc by simp
  then have "g' \<le> U div V" using assms(5) by (simp add: less_eq_div_iff_mult_less_eq)
  then show ?thesis using Suc by simp
qed simp

lemma top_guess:
  assumes "a * (base * B) \<le> U" "V \<le> (a + 1) * B" "base \<le> 2 * a" "U < base * V"
  shows "base - 2 \<le> U div V" "U div V \<le> base - 1"
proof -
  have V: "0 < V" using assms(4) by (cases V) auto
  have "(base - 2) * V \<le> (base - 2) * ((a + 1) * B)" using assms(2) by (rule mult_le_mono2)
  also have "\<dots> = ((base - 2) * (a + 1)) * B" by (rule mult.assoc [symmetric])
  also have "\<dots> \<le> (a * base) * B"
  proof (rule mult_le_mono1)
    have "(base - 2) * (a + 1) + 2 * (a + 1) = base * (a + 1)" using base_big by (metis add_mult_distrib le_add_diff_inverse2 numeral_Bit0 add_leD1 order_trans)
    then show "(base - 2) * (a + 1) \<le> a * base" using assms(3) by (simp add: mult.commute)
  qed
  finally have "(base - 2) * V \<le> U" using assms(1) by (simp add: mult.assoc)
  then show "base - 2 \<le> U div V" using V by (simp add: less_eq_div_iff_mult_less_eq)
  have "U div V < base" using assms(4) by (simp add: less_mult_imp_div_less)
  then show "U div V \<le> base - 1" by linarith
qed

lemma val_take_Suc: "m < length xs \<Longrightarrow> val (take (Suc m) xs) = val (take m xs) + base ^ m * unat (xs ! m)"
  by (simp add: take_Suc_conv_app_nth val_append)

lemma val_take_less: "m \<le> length xs \<Longrightarrow> val (take m xs) < base ^ m"
  using val_bound [of "take m xs"] by simp

text \<open>The leading digits of an array, the rest below the unit of the last of them.\<close>

lemma leading_one:
  assumes "m < length xs"
  shows "unat (xs ! m) * base ^ m \<le> val (take (Suc m) xs)" "val (take (Suc m) xs) < (unat (xs ! m) + 1) * base ^ m"
  using val_take_Suc [OF assms] val_take_less [of m xs] assms by (simp_all add: mult.commute)

lemma leading_two:
  assumes "Suc m < length xs"
  defines "u \<equiv> unat (xs ! Suc m) * base + unat (xs ! m)"
  shows "u * base ^ m \<le> val (take (Suc (Suc m)) xs)" "val (take (Suc (Suc m)) xs) < (u + 1) * base ^ m"
proof -
  have "val (take (Suc (Suc m)) xs) = val (take (Suc m) xs) + unat (xs ! Suc m) * base * base ^ m"
    using val_take_Suc [OF assms(1)] by simp
  then show "u * base ^ m \<le> val (take (Suc (Suc m)) xs)" "val (take (Suc (Suc m)) xs) < (u + 1) * base ^ m"
    using leading_one [of m xs] assms(1) unfolding u_def add_mult_distrib by linarith+
qed

lemma leading_three:
  assumes "Suc (Suc m) < length xs"
  defines "u \<equiv> (unat (xs ! Suc (Suc m)) * base + unat (xs ! Suc m)) * base + unat (xs ! m)"
  shows "u * base ^ m \<le> val (take (Suc (Suc (Suc m))) xs)" "val (take (Suc (Suc (Suc m))) xs) < (u + 1) * base ^ m"
proof -
  have "val (take (Suc (Suc (Suc m))) xs) = val (take (Suc (Suc m)) xs) + unat (xs ! Suc (Suc m)) * base * base * base ^ m"
    using val_take_Suc [OF assms(1)] by simp
  then show "u * base ^ m \<le> val (take (Suc (Suc (Suc m))) xs)" "val (take (Suc (Suc (Suc m))) xs) < (u + 1) * base ^ m"
    using leading_two [of m xs] assms(1) unfolding u_def add_mult_distrib by linarith+
qed

lemma guess_bounds:
  assumes n: "0 < n" "n \<le> length y" and norm: "base \<le> 2 * unat (y ! (n - 1))"
    and x: "k + n < length x" and lt: "val (take (Suc n) (drop k x)) < base * val (take n y)"
  defines "Q \<equiv> val (take (Suc n) (drop k x)) div val (take n y)" and "g \<equiv> unat (BinDivCore_guess x y n (k + n))"
  shows "Q \<le> g" "g \<le> Q + 1"
proof -
  define m where "m = n - 1"
  have nm: "n = Suc m" using n(1) by (simp add: m_def)
  let ?xs = "drop k x" and ?yy = "y ! m"
  define U where "U = val (take (Suc n) ?xs)"
  define V where "V = val (take n y)"
  have ln: "n < length ?xs" "m < length y" using x n nm by simp_all
  have gd: "BinDivCore_guess x y n (k + n) = (if ?xs ! n = ?yy then - 1
      else let (qq, rr) = DIV_ND (?xs ! n) (?xs ! m) ?yy
           in if 0 < m then TryDiv qq rr (?xs ! (m - 1)) ?yy (y ! (m - 1)) else qq)"
    using x unfolding BinDivCore_guess_def Let_def nm by (cases m) simp_all
  have norm: "base \<le> 2 * unat ?yy" using norm by (simp add: nm)
  then have yy: "0 < unat ?yy" using base_big by linarith
  have lt: "U < base * V" using lt by (simp add: U_def V_def)
  have U1: "unat (?xs ! n) * base ^ n \<le> U" "U < (unat (?xs ! n) + 1) * base ^ n"
    using leading_one [OF ln(1)] by (simp_all add: U_def)
  have V1: "unat ?yy * base ^ m \<le> V" "V < (unat ?yy + 1) * base ^ m"
    using leading_one [OF ln(2)] by (simp_all add: V_def nm)
  have V0: "0 < V" using lt by (cases V) simp_all
  have top: "unat (?xs ! n) \<le> unat ?yy"
  proof (rule ccontr)
    assume "\<not> unat (?xs ! n) \<le> unat ?yy"
    then have "(unat ?yy + 1) * base ^ n \<le> unat (?xs ! n) * base ^ n" by (intro mult_le_mono1) simp
    moreover have "base * V \<le> base * ((unat ?yy + 1) * base ^ m)" using V1(2) by (intro mult_le_mono2) simp
    ultimately show False using lt U1(1) by (simp add: nm algebra_simps)
  qed
  have "U div V \<le> g \<and> g \<le> U div V + 1"
  proof (cases "?xs ! n = ?yy")
    case True
    then have "BinDivCore_guess x y n (k + n) = - 1" by (simp add: gd)
    then have "g = base - 1" by (simp add: g_def base_def unsigned_minus_1_eq_mask mask_eq_exp_minus_1)
    moreover have "base - 2 \<le> U div V \<and> U div V \<le> base - 1"
      using top_guess [of "unat ?yy" "base ^ m" U V] U1(1) V1(2) lt norm True by (simp add: nm)
    ultimately show ?thesis by linarith
  next
    case False
    then have less: "unat (?xs ! n) < unat ?yy" using top by (simp add: order_less_le word_unat_eq_iff)
    obtain qq rr where d: "DIV_ND (?xs ! n) (?xs ! m) ?yy = (qq, rr)" by fastforce
    note e = DIV_ND_exact [OF less norm d]
    have U2: "(unat (?xs ! n) * base + unat (?xs ! m)) * base ^ m \<le> U"
      "U < (unat (?xs ! n) * base + unat (?xs ! m) + 1) * base ^ m"
      using leading_two [of m ?xs] ln by (simp_all add: U_def nm)
    have q0: "unat qq = (unat (?xs ! n) * base + unat (?xs ! m)) div unat ?yy"
      unfolding e(1) using e(2) by simp
    have le0: "U div V \<le> unat qq"
      unfolding q0 by (rule div_le_leading [OF U2(2) V1(1) yy]) simp
    show ?thesis
    proof (cases m)
      case 0
      then have "g = unat qq" using d False by (simp add: g_def gd)
      moreover have "V = unat ?yy" "U = unat (?xs ! n) * base + unat (?xs ! m)"
        using V1 U2 0 by simp_all
      ultimately show ?thesis using q0 by simp
    next
      case (Suc j)
      have g: "BinDivCore_guess x y n (k + n) = TryDiv qq rr (?xs ! j) ?yy (y ! j)"
        using d False by (simp add: gd Suc)
      define u v where uv: "u = (unat (?xs ! n) * base + unat (?xs ! m)) * base + unat (?xs ! j)"
        "v = unat ?yy * base + unat (y ! j)"
      have U3: "u * base ^ j \<le> U" "U < (u + 1) * base ^ j"
        using leading_three [of j ?xs] ln by (simp_all add: U_def nm Suc uv)
      have V2: "v * base ^ j \<le> V" "V < (v + 1) * base ^ j"
        using leading_two [of j y] ln by (simp_all add: V_def nm Suc uv)
      have "1 * base \<le> unat ?yy * base" using yy by (intro mult_le_mono1) simp
      then have v0: "base \<le> v" unfolding uv(2) by linarith
      have gm: "g = min (unat qq) (u div v)"
        unfolding g_def g TryDiv_exact [OF norm] uv e(1) ..
      have "U div V \<le> u div v" using v0 base_big by (intro div_le_leading [OF U3(2) V2(1)]) (linarith, simp)
      moreover have "g * base ^ j \<le> V"
      proof -
        have "g \<le> v" using unat_less_base [of "BinDivCore_guess x y n (k + n)"] v0 by (simp add: g_def)
        then have "g * base ^ j \<le> v * base ^ j" by (rule mult_le_mono1)
        then show ?thesis using V2(1) by linarith
      qed
      then have "g \<le> U div V + 1"
        using leading_le_div [OF U3(1) less_imp_le [OF V2(2)] _ _ V0, of g] gm v0 base_big by simp
      ultimately show ?thesis using le0 gm by simp
    qed
  qed
  then show "Q \<le> g" "g \<le> Q + 1" by (simp_all add: Q_def U_def V_def)
qed


section \<open>One round\<close>

lemma wrap_cases:
  fixes R L e xi :: nat
  assumes "R < B" "L < B" "R + B * e = L + B * xi"
  shows "R = L" "e = xi"
proof -
  have B: "0 < B" using assms(1) by simp
  have "R mod B = L mod B" using assms(3) by (metis mod_mult_self2)
  then show "R = L" using assms(1,2) by simp
  then show "e = xi" using assms(3) B by simp
qed

lemma round_exact:
  assumes n: "0 < n" "n \<le> length y" and norm: "base \<le> 2 * unat (y ! (n - 1))"
    and x: "k + n < length x" and lt: "val (take (Suc n) (drop k x)) < base * val (take n y)"
    and r: "BinDivCore_round y n (k + n) (quot, x) = (quot', x')"
  defines "U \<equiv> val (take (Suc n) (drop k x))" and "V \<equiv> val (take n y)"
  obtains t d where "unat t = U div V" "length d = n" "val d = U mod V"
    "x' = take k x @ d @ 0 # drop (Suc (k + n)) x"
    "quot' = map_option (\<lambda>(q, qs). if t \<noteq> 0 then (q[k := t], max qs (k + 1)) else (q, qs)) quot"
proof -
  define g where "g = BinDivCore_guess x y n (k + n)"
  note gb = guess_bounds [OF n norm x lt, folded g_def, folded U_def V_def]
  let ?xi = "x ! (k + n)"
  have V0: "0 < V" using lt unfolding V_def by (cases "val (take n y)") simp_all
  have Vb: "V < base ^ n" using val_take_less [OF n(2)] by (simp add: V_def)
  have Rb: "U mod V < base ^ n" using V0 Vb by (meson less_trans mod_less_divisor)
  have Us: "U = val (take n (drop k x)) + base ^ n * unat ?xi"
    using val_take_Suc [of n "drop k x"] x by (simp add: U_def)
  have xs: "x = take k x @ take n (drop k x) @ ?xi # drop (Suc (k + n)) x"
    using x id_take_nth_drop [of n "drop k x"] by (simp add: add.commute)
  show thesis
  proof (cases "g = 0")
    case True
    then have q0: "U div V = 0" using gb(1) by simp
    then have "U < V" using V0 by (simp add: div_eq_0_iff)
    then have "U < base ^ n" using Vb by simp
    then have "unat ?xi = 0" using Us by (cases "unat ?xi") simp_all
    then have xi: "?xi = 0" by (simp add: unat_eq_0)
    have "quot' = quot" "x' = x" using r True by (simp_all add: BinDivCore_round_def g_def [symmetric] Let_def)
    moreover have "quot = map_option (\<lambda>(q, qs). if 0 \<noteq> (0 :: BN_UINT) then (q[k := 0], max qs (k + 1)) else (q, qs)) quot"
      by (cases quot) auto
    moreover have "val (take n (drop k x)) = U mod V" using \<open>U < V\<close> Us xi by simp
    moreover have "length (take n (drop k x)) = n" using x by simp
    ultimately show thesis using that [of 0 "take n (drop k x)"] xs q0 unfolding xi by simp
  next
    case False
    obtain e part where sm: "BinSubMul (drop k x) y n g = (e, part)" by fastforce
    have l: "n \<le> length (drop k x)" using x by simp
    note S = BinSubMul_exact [OF l n(2) sm]
    define p where "p = take n part"
    have p: "length p = n" using S(1) l by (simp add: p_def)
    have part: "part = p @ ?xi # drop (Suc (k + n)) x"
    proof -
      have "drop n part = ?xi # drop (Suc (k + n)) x" using S(3) Cons_nth_drop_Suc [OF x] by (simp add: add.commute)
      then show ?thesis using append_take_drop_id [of n part] by (simp add: p_def)
    qed
    have L: "val p + unat g * V = val (take n (drop k x)) + base ^ n * unat e" using S(2) by (simp add: p_def V_def)
    have pb: "val p < base ^ n" using val_bound [of p] p by simp
    have UL: "U + base ^ n * unat e = val p + unat g * V + base ^ n * unat ?xi" using L Us by linarith
    have lk: "length (take k x) = k" using x by simp
    define x2 where "x2 = take k x @ p @ (?xi - e) # drop (Suc (k + n)) x"
    have x2: "(take k x @ part)[k + n := ?xi - e] = x2" "(take k x @ part) ! (k + n) = ?xi"
      using lk p by (simp_all add: part x2_def list_update_append nth_append)
    have rr: "(quot', x') = (let extend = ?xi - e;
        (x, qq) = (if extend > 0 then
                     let (extend, part) = BinAdd (drop k x2) y n; x = memcpy_at x2 k part
                     in (x[k + n := x ! (k + n) + extend], g - 1)
                   else (x2, g))
      in (case quot of Some (q, qSize) \<Rightarrow>
            if qq \<noteq> 0 then Some (q[k := qq], if qSize > k + 1 then qSize else k + 1) else quot
          | None \<Rightarrow> None, x))"
    proof -
      have "0 < g" using False by (simp add: word_gt_0)
      then show ?thesis using r [symmetric] unfolding BinDivCore_round_def split_conv g_def [symmetric] Let_def
        by (simp only: split_conv add_diff_cancel_right' if_True sm x2)
    qed
    have quo: "(case quot of Some (q, qSize) \<Rightarrow>
            if t \<noteq> 0 then Some (q[k := t], if qSize > k + 1 then qSize else k + 1) else quot
          | None \<Rightarrow> None) = map_option (\<lambda>(q, qs). if t \<noteq> 0 then (q[k := t], max qs (k + 1)) else (q, qs)) quot" for t
      by (cases quot) (auto simp: max_def)
    have UV: "U = U div V * V + U mod V" by simp
    consider "unat g = U div V" | "unat g = U div V + 1" using gb by linarith
    then show thesis
    proof cases
      case 1
      then have "U mod V + base ^ n * unat e = val p + base ^ n * unat ?xi" using UL UV unfolding 1 by linarith
      from wrap_cases [OF Rb pb this] have w: "U mod V = val p" "e = ?xi" by (simp_all add: word_unat_eq_iff)
      then show thesis using that [OF 1 p w(1) [symmetric]] rr quo [of g] by (simp add: x2_def)
    next
      case 2
      have dx: "drop k x2 = p @ (?xi - e) # drop (Suc (k + n)) x" using lk by (simp add: x2_def)
      obtain c part2 where ba: "BinAdd (drop k x2) y n = (c, part2)" by fastforce
      have l2: "n \<le> length (drop k x2)" by (simp add: dx p)
      note A = BinAdd_exact [OF l2 n(2) ba]
      have R: "U mod V + base ^ n * unat e = val p + V + base ^ n * unat ?xi" using UL UV unfolding 2 add_mult_distrib by linarith
      have e: "unat e = unat ?xi + 1"
      proof -
        have "U mod V < V" using V0 by simp
        then have "base ^ n * unat ?xi < base ^ n * unat e" using R by linarith
        moreover have "base ^ n * unat e < base ^ n * (unat ?xi + 2)" using R pb Vb unfolding distrib_left by linarith
        ultimately have "unat ?xi < unat e" "unat e < unat ?xi + 2" by (simp_all only: mult_less_cancel1)
        then show ?thesis by linarith
      qed
      then have "e = ?xi + 1" using unat_less_base [of e] by (simp add: word_unat_eq_iff unat_add)
      then have m1: "?xi - e = - 1" by simp
      have "val part2 + base ^ n * unat c = U mod V + base ^ n * 1"
        using A(2) R e unfolding V_def [symmetric] dx by (simp add: p distrib_left)
      from wrap_cases [OF _ Rb this] have w: "val part2 = U mod V" "c = 1"
        using val_bound [of part2] A(1) by (simp_all add: word_unat_eq_iff)
      have mc: "memcpy_at x2 k part2 = take k x @ part2 @ (- 1) # drop (Suc (k + n)) x"
        using lk p A(1) m1 by (simp add: memcpy_at_def x2_def)
      have "(quot', x') = (map_option (\<lambda>(q, qs). if g - 1 \<noteq> 0 then (q[k := g - 1], max qs (k + 1)) else (q, qs)) quot,
          take k x @ part2 @ 0 # drop (Suc (k + n)) x)"
        using rr quo [of "g - 1"] lk A(1) by (simp add: ba mc m1 w(2) list_update_append nth_append word_gt_0)
      then show thesis using that [of "g - 1" part2] w(1) A(1) unat_pred [OF False] 2 by simp
    qed
  qed
qed


section \<open>The loop\<close>

lemma BinFixSize_cong: "(\<And>i. i < n \<Longrightarrow> d ! i = e ! i) \<Longrightarrow> BinFixSize d n = BinFixSize e n"
  by (induction n) auto

lemma val_split: "n \<le> length xs \<Longrightarrow> val xs = val (take n xs) + base ^ n * val (drop n xs)"
  using val_append [of "take n xs" "drop n xs"] by simp

lemma BinDivCore_loop_exact:
  assumes n: "0 < n" "n \<le> length y" and norm: "base \<le> 2 * unat (y ! (n - 1))"
  defines "V \<equiv> val (take n y)"
  shows "m + n \<le> length x \<Longrightarrow> val (drop m x) < V \<Longrightarrow> BinDivCore_loop y n m (quot, x) = (quot', x') \<Longrightarrow>
    length x' = length x \<and> val x' = val x mod V
    \<and> (case quot of None \<Rightarrow> quot' = None
       | Some (q, qs) \<Rightarrow> take m q = replicate m 0 \<longrightarrow> qs = 0 \<or> m < qs \<longrightarrow>
           (\<exists>ds. length ds = m \<and> val ds = val x div V
              \<and> quot' = Some (ds @ drop m q, if qs = 0 then BinFixSize ds m else qs)))"
proof (induction m arbitrary: quot x)
  case 0
  then show ?case by (auto split: option.splits)
next
  case (Suc k)
  have V: "V < base ^ n" unfolding V_def by (rule val_take_less [OF n(2)])
  have lx: "k + n < length x" using Suc.prems(1) by simp
  let ?hi = "drop (Suc (k + n)) x"
  have hi: "val ?hi = 0"
  proof -
    have "val (drop (Suc k) x) = val (take n (drop (Suc k) x)) + base ^ n * val ?hi"
      using val_split [of n "drop (Suc k) x"] lx by (simp add: add.commute)
    then have "base ^ n * val ?hi < base ^ n * 1" using Suc.prems(2) V by linarith
    then show ?thesis by simp
  qed
  define U where "U = val (take (Suc n) (drop k x))"
  have U: "val (drop k x) = U"
    using val_split [of "Suc n" "drop k x"] lx hi by (simp add: U_def add.commute)
  have lt: "U < base * V"
  proof -
    have "val (drop k x) = unat (x ! k) + base * val (drop (Suc k) x)"
      using lx by (simp add: Cons_nth_drop_Suc [symmetric])
    moreover have "base * (val (drop (Suc k) x) + 1) \<le> base * V" using Suc.prems(2) by (intro mult_le_mono2) simp
    ultimately show ?thesis using U unat_less_base [of "x ! k"] unfolding distrib_left by linarith
  qed
  obtain quot1 x1 where r: "BinDivCore_round y n (k + n) (quot, x) = (quot1, x1)" by fastforce
  from round_exact [OF n norm lx _ r, folded U_def V_def, OF lt] obtain t d where
    t: "unat t = U div V" and d: "length d = n" "val d = U mod V" and x1: "x1 = take k x @ d @ 0 # ?hi"
    and q1: "quot1 = map_option (\<lambda>(q, qs). if t \<noteq> 0 then (q[k := t], max qs (k + 1)) else (q, qs)) quot" .
  have V0: "0 < V" using lt by (cases V) simp_all
  have dk: "val (drop k x1) = U mod V" using lx d hi by (simp add: x1 val_append)
  have vx: "val x = val x1 + V * (base ^ k * (U div V))"
  proof -
    have "val x = val (take k x) + base ^ k * U" using val_split [of k x] U lx by simp
    moreover have "val x1 = val (take k x) + base ^ k * (U mod V)" using lx d hi by (simp add: x1 val_append)
    moreover have "base ^ k * U = base ^ k * (U mod V) + V * (base ^ k * (U div V))"
      using mod_mult_div_eq [of U V] by (metis distrib_left mult.assoc mult.commute)
    ultimately show ?thesis by simp
  qed
  have vdm: "val x mod V = val x1 mod V" "val x div V = val x1 div V + base ^ k * (U div V)"
    using V0 by (simp_all add: vx)
  have "length x1 = length x" using lx d by (simp add: x1)
  then have ih: "length x' = length x1" "val x' = val x1 mod V"
    "case quot1 of None \<Rightarrow> quot' = None
       | Some (q, qs) \<Rightarrow> take k q = replicate k 0 \<longrightarrow> qs = 0 \<or> k < qs \<longrightarrow>
           (\<exists>ds. length ds = k \<and> val ds = val x1 div V
              \<and> quot' = Some (ds @ drop k q, if qs = 0 then BinFixSize ds k else qs))"
    using Suc.IH [of x1 quot1] Suc.prems(3) r dk V0 lx by simp_all
  show ?case
  proof (cases quot)
    case None
    then show ?thesis using ih q1 vdm \<open>length x1 = length x\<close> by simp
  next
    case (Some qq)
    obtain q qs where q: "quot = Some (q, qs)" using Some by (cases qq) auto
    have "\<exists>ds. length ds = Suc k \<and> val ds = val x div V
        \<and> quot' = Some (ds @ drop (Suc k) q, if qs = 0 then BinFixSize ds (Suc k) else qs)"
      if z: "take (Suc k) q = replicate (Suc k) 0" "qs = 0 \<or> Suc k < qs"
    proof -
      define q2 where "q2 = q[k := t]"
      define qs2 where "qs2 = (if t \<noteq> 0 then max qs (k + 1) else qs)"
      have lq: "k < length q" using z(1) by (metis length_replicate length_take min.cobounded1 less_eq_Suc_le)
      have qk: "q ! k = 0" using z(1) lq by (metis lessI nth_replicate nth_take)
      have "q[k := 0] = q" using qk by (metis list_update_id)
      then have "quot1 = Some (q2, qs2)" using q1 q by (auto simp: q2_def qs2_def)
      moreover have "take k q2 = replicate k 0" using arg_cong [OF z(1), of "take k"] by (simp add: q2_def del: replicate_Suc)
      moreover have "qs2 = 0 \<or> k < qs2" using z(2) by (auto simp: qs2_def)
      ultimately obtain ds where ds: "length ds = k" "val ds = val x1 div V"
        "quot' = Some (ds @ drop k q2, if qs2 = 0 then BinFixSize ds k else qs2)" using ih(3) by auto
      have "drop k q2 = t # drop (Suc k) q" using lq by (simp add: q2_def Cons_nth_drop_Suc [symmetric])
      moreover have "(if qs2 = 0 then BinFixSize ds k else qs2) = (if qs = 0 then BinFixSize (ds @ [t]) (Suc k) else qs)"
        using z(2) ds(1) BinFixSize_cong [of k ds "ds @ [t]"] by (auto simp: qs2_def nth_append max_def)
      ultimately show ?thesis using ds vdm t by (intro exI [of _ "ds @ [t]"]) (simp add: val_append)
    qed
    then show ?thesis using ih(1,2) vdm(1) \<open>length x1 = length x\<close> by (simp only: q option.case prod.case simp_thms) blast
  qed
qed


section \<open>Normalisation\<close>

lemma BnLshiftSimple_exact:
  assumes "0 < b" "b < 64" "unat c < 2 ^ b"
  shows "length (BnLshiftSimple as b c) = length as \<and>
    (\<exists>k. val (BnLshiftSimple as b c) + base ^ length as * k = val as * 2 ^ b + unat c \<and> k < 2 ^ b)"
  using assms(3)
proof (induction as arbitrary: c)
  case Nil
  then show ?case by simp
next
  case (Cons n as)
  let ?c = "drop_bit (64 - b) n"
  have o: "?c = out_left b n" using assms by (simp add: out_left_def)
  have cb: "unat ?c < 2 ^ b" unfolding o using assms(2) by (rule out_left_less)
  from Cons.IH [OF cb] obtain k where l: "length (BnLshiftSimple as b ?c) = length as"
    and k: "val (BnLshiftSimple as b ?c) + base ^ length as * k = val as * 2 ^ b + unat ?c" "k < 2 ^ b" by blast
  have "unat n * 2 ^ b = base * unat ?c + unat n * 2 ^ b mod base"
    unfolding o unat_out_left [OF assms(2)] by simp
  then have "val (BnLshiftSimple (n # as) b c) + base ^ length (n # as) * k = val (n # as) * 2 ^ b + unat c"
    using arg_cong [OF k(1), of "(*) base"] unat_or_low [OF assms(2) Cons.prems, of n] by (simp add: algebra_simps)
  then show ?case using l k(2) by auto
qed

lemma normalised_top:
  assumes "base ^ Suc n \<le> 2 * val ys" "length ys = Suc n"
  shows "base \<le> 2 * unat (ys ! n)"
proof -
  have "val ys < (unat (ys ! n) + 1) * base ^ n" using leading_one(2) [of n ys] assms(2) by simp
  then have "base * base ^ n < (2 * unat (ys ! n) + 2) * base ^ n" using assms(1) by (simp add: algebra_simps)
  then have "base < 2 * unat (ys ! n) + 2" by (simp only: mult_less_cancel2)
  moreover have "base = 2 * 2 ^ 63" by (simp add: base_def)
  ultimately show ?thesis by presburger
qed

lemma zero_digits: "val xs = 0 \<Longrightarrow> xs = replicate (length xs) 0"
  by (induction xs) (auto simp: unat_eq_0 base_def)

lemma val_take_small:
  assumes "n \<le> length xs" "val xs < base ^ n"
  shows "val (take n xs) = val xs"
proof -
  have "base ^ n * val (drop n xs) < base ^ n * 1" using val_split [OF assms(1)] assms(2) by linarith
  then have "val (drop n xs) = 0" by simp
  then show ?thesis using val_split [OF assms(1)] by simp
qed

text \<open>The divisor shifted until its top bit is set, and the dividend shifted with it.\<close>

lemma shift_divisor:
  assumes y: "0 < n" "n \<le> length y" "y ! (n - 1) \<noteq> 0"
  defines "s \<equiv> GetZeroBitsUint (y ! (n - 1))"
  defines "y2 \<equiv> (if s \<noteq> 0 then BnLshiftSimple (take n y) s 0 @ drop n y else y)"
  shows "s < 64" "length y2 = length y" "val (take n y2) = val (take n y) * 2 ^ s" "base \<le> 2 * unat (y2 ! (n - 1))"
    "base ^ (n - 1) \<le> val (take n y)"
proof -
  obtain m where m: "n = Suc m" using y(1) by (cases n) auto
  let ?Y = "val (take n y)" and ?t = "y ! m"
  have t: "?t \<noteq> 0" using y(3) m by simp
  note Z = GetZeroBitsUint_exact [OF t]
  have s: "s = GetZeroBitsUint ?t" by (simp add: s_def m)
  show s64: "s < 64" using Z(1) by (simp add: s)
  have L: "unat ?t * base ^ m \<le> ?Y" "?Y < (unat ?t + 1) * base ^ m" using leading_one [of m y] y(2) m by simp_all
  have "1 * base ^ m \<le> unat ?t * base ^ m" using t by (intro mult_le_mono1) (simp add: Suc_le_eq unat_gt_0)
  then have "base ^ m \<le> ?Y" using L(1) by linarith
  then show "base ^ (n - 1) \<le> ?Y" using m by simp
  have "(unat ?t + 1) * base ^ m \<le> 2 ^ (64 - s) * base ^ m" using Z(3) by (intro mult_le_mono1) (simp add: s)
  then have "?Y < 2 ^ (64 - s) * base ^ m" using L(2) by linarith
  then have "?Y * 2 ^ s < 2 ^ (64 - s) * base ^ m * 2 ^ s" by simp
  also have "\<dots> = base ^ n" unfolding m power_Suc base_split [OF less_imp_le [OF s64]] by (simp add: ac_simps)
  finally have up: "?Y * 2 ^ s < base ^ n" .
  show l: "length y2 = length y" and v: "val (take n y2) = ?Y * 2 ^ s"
  proof (atomize(full), cases "s = 0")
    case False
    then obtain k where k: "length (BnLshiftSimple (take n y) s 0) = n"
      "val (BnLshiftSimple (take n y) s 0) + base ^ n * k = ?Y * 2 ^ s"
      using BnLshiftSimple_exact [of s 0 "take n y"] s64 y(2) by auto
    then have "base ^ n * k < base ^ n * 1" using up by linarith
    then have "k = 0" by simp
    then show "length y2 = length y \<and> val (take n y2) = ?Y * 2 ^ s" using k False y(2) by (simp add: y2_def)
  qed (use y(2) in \<open>simp add: y2_def\<close>)
  have "2 ^ (63 - s) * base ^ m \<le> unat ?t * base ^ m" using Z(2) by (intro mult_le_mono1) (simp add: s)
  then have "2 * (2 ^ (63 - s) * base ^ m * 2 ^ s) \<le> 2 * (?Y * 2 ^ s)" using L(1) by (intro mult_le_mono2 mult_le_mono1) linarith
  moreover have "2 * (2 ^ (63 - s) * base ^ m * 2 ^ s) = base ^ Suc m"
  proof -
    have "2 * (2 ^ (63 - s) * 2 ^ s) = base" using s64 by (simp add: base_def flip: power_add power_Suc)
    then show ?thesis by (simp add: ac_simps)
  qed
  ultimately have "base ^ Suc m \<le> 2 * val (take n y2)" unfolding v by linarith
  then show "base \<le> 2 * unat (y2 ! (n - 1))" using normalised_top [of m "take n y2"] l m y(2) by simp
qed

lemma shift_dividend:
  assumes x: "0 < n" "n < length x" "val (drop n x) = 0" and s: "s < 64"
    and r: "(xn, x2) = (if s \<noteq> 0 then BinLshift x x n s else (n, x))"
  shows "n \<le> xn" "xn \<le> length x2" "length x2 = length x" "val x2 = val (take n x) * 2 ^ s"
proof -
  have "n \<le> xn \<and> xn \<le> length x2 \<and> length x2 = length x \<and> val x2 = val (take n x) * 2 ^ s"
  proof (cases "s = 0")
    case True
    then show ?thesis using r x val_split [of n x] by simp
  next
    case False
    then have b: "BinLshift x x n s = (xn, x2)" using r by simp
    have xn: "xn \<le> n + 1" "n \<le> xn" using Lshift_size [OF b] s by (auto split: if_splits)
    have l: "n \<le> length x" "xn \<le> length x" using x xn by simp_all
    note D = BinLshift_digits [OF x(1) l(1) b l(2)] and E = BinLshift_exact [OF x(1) l(1) b l(2)]
    have "drop n x = replicate (length x - n) 0" using zero_digits [OF x(3)] by simp
    then have "drop xn x = replicate (length x - xn) 0"
      using drop_drop [of "xn - n" n x] xn by (simp add: drop_replicate)
    then have "val (drop xn x2) = 0" using D(4) by simp
    then show ?thesis using D(1) E(2) val_split [of xn x2] xn(2) l by simp
  qed
  then show "n \<le> xn" "xn \<le> length x2" "length x2 = length x" "val x2 = val (take n x) * 2 ^ s" by simp_all
qed

lemma shift_remainder:
  assumes "0 < n" "n \<le> length x" and r: "(xn, x') = (if s \<noteq> 0 then BinRshift x x n s else (n, x))" and s: "s < 64"
  shows "xn \<le> length x'" "val (take xn x') = val (take n x) div 2 ^ s" "length x' = length x"
proof -
  have "xn \<le> length x' \<and> val (take xn x') = val (take n x) div 2 ^ s \<and> length x' = length x"
  proof (cases "s = 0")
    case False
    then have b: "BinRshift x x n s = (xn, x')" using r by simp
    have n: "s div 64 < n" using s assms(1) by simp
    have l: "xn \<le> length x" using Rshift_size [OF b n] assms(2) by simp
    show ?thesis using BinRshift_exact(1,2) [OF n assms(2) b l] BinRshift_digits(1) [OF n assms(2) b l] by blast
  qed (use r assms in simp)
  then show "xn \<le> length x'" "val (take xn x') = val (take n x) div 2 ^ s" "length x' = length x" by simp_all
qed

text \<open>Long division is exact: with a free digit above the dividend and a cleared quotient array, the
  remainder and the quotient are those of the numbers, without leading zeros.\<close>

lemma BinDiv_exact:
  assumes y: "0 < n" "n \<le> length y" "y ! (n - 1) \<noteq> 0"
    and x: "n \<le> xSize" "xSize < length x" "val (drop xSize x) = 0" and q: "xSize + 1 - n \<le> lq"
    and r: "BinDiv quot x xSize y n = (sz, x', quot', y')" and quot: "quot = None \<or> quot = Some (replicate lq 0, 0)"
  defines "X \<equiv> val (take xSize x)" and "Y \<equiv> val (take n y)"
  shows "sz \<le> length x'" "length x' = length x" "length y' = length y" "val (take sz x') = X mod Y" "normal (take sz x')"
    "quot \<noteq> None \<Longrightarrow> \<exists>q qs. quot' = Some (q, qs) \<and> length q = lq \<and> qs \<le> lq \<and> val (take qs q) = X div Y \<and> normal (take qs q)"
proof -
  define s where "s = GetZeroBitsUint (y ! (n - 1))"
  define y2 where "y2 = (if s \<noteq> 0 then BnLshiftSimple (take n y) s 0 @ drop n y else y)"
  obtain xn x2 where x2: "(xn, x2) = (if s \<noteq> 0 then BinLshift x x xSize s else (xSize, x))" by (metis surj_pair)
  obtain quot1 x3 where l: "BinDivCore_loop y2 n (xSize + 1 - n) (quot, x2) = (quot1, x3)" by fastforce
  obtain xm x4 where x4: "(xm, x4) = (if s \<noteq> 0 then BinRshift x3 x3 xn s else (xn, x3))" by (metis surj_pair)
  have res: "sz = BinFixSize x4 xm" "x' = x4" "quot' = quot1" "y' = y2"
    using r x2 x4 l unfolding BinDiv_def BinDivCore_def s_def [symmetric] y2_def
    by (auto simp: Let_def split: if_splits prod.splits)
  note Y2 = shift_divisor [OF y, folded s_def, folded y2_def, folded Y_def]
  have xs: "0 < xSize" using x(1) y(1) by simp
  note X2 = shift_dividend [OF xs x(2,3) Y2(1) x2, folded X_def]
  let ?m = "xSize + 1 - n"
  have Y0: "0 < Y" using Y2(5) by (metis base_pos neq0_conv not_less power_not_zero less_le_trans zero_less_power)
  have lt: "val (drop ?m x2) < Y * 2 ^ s"
  proof -
    have "base ^ ?m * val (drop ?m x2) \<le> X * 2 ^ s" using val_split [of ?m x2] X2 y(1) x(2) by simp
    also have "\<dots> < base ^ xSize * 2 ^ s" using val_take_less [of xSize x] x(2) by (simp add: X_def)
    also have "\<dots> = base ^ ?m * (base ^ (n - 1) * 2 ^ s)"
      using y(1) x(1) by (simp flip: power_add mult.assoc)
    finally have "val (drop ?m x2) < base ^ (n - 1) * 2 ^ s" by (simp only: mult_less_cancel1)
    also have "\<dots> \<le> Y * 2 ^ s" using Y2(5) by (rule mult_le_mono1)
    finally show ?thesis .
  qed
  have m: "?m + n \<le> length x2" using X2(3) x(1,2) by simp
  have ly2: "n \<le> length y2" using Y2(2) y(2) by simp
  note D = BinDivCore_loop_exact [OF y(1) ly2 Y2(4) m _ l, unfolded Y2(3) X2(4), OF lt]
  have rem: "length x3 = length x" "val x3 = (X mod Y) * 2 ^ s" using D X2(3) by (simp_all add: mult_mod_left)
  have xnb: "0 < xn" "xn \<le> length x3" using X2 xs rem by simp_all
  note R = shift_remainder [OF xnb x4 Y2(1)]
  have "val x3 < base ^ xn"
  proof -
    have "val x3 < val (take n y2)" unfolding rem(2) Y2(3) using Y0 by simp
    also have "\<dots> < base ^ n" using val_take_less [OF ly2] .
    also have "\<dots> \<le> base ^ xn" using X2(1) x(1) base_big by (intro power_increasing) simp_all
    finally show ?thesis .
  qed
  then have "val (take xm x4) = X mod Y" using R(2) val_take_small [OF xnb(2)] rem(2) by simp
  then show "sz \<le> length x'" "val (take sz x') = X mod Y" "normal (take sz x')" "length x' = length x" "length y' = length y"
    using R(1,3) rem(1) Y2(2) BinFixSize_le [of x4 xm] BinFixSize_val [OF R(1)] normal_Fix [OF R(1)] by (simp_all add: res)
  assume "quot \<noteq> None"
  then have "quot = Some (replicate lq 0, 0)" using quot by blast
  then obtain ds where ds: "length ds = ?m" "val ds = X div Y" "quot1 = Some (ds @ drop ?m (replicate lq 0), BinFixSize ds ?m)"
    using D q Y0 by (auto simp: min_def)
  have fs: "BinFixSize ds ?m \<le> length ds" using BinFixSize_le [of ds ?m] ds(1) by simp
  show "\<exists>q qs. quot' = Some (q, qs) \<and> length q = lq \<and> qs \<le> lq \<and> val (take qs q) = X div Y \<and> normal (take qs q)"
    using ds fs q BinFixSize_val [of ?m ds] normal_Fix [of ?m ds] by (simp add: res)
qed

end
