(* ===== verification/Bn_Opt.thy ===== *)
theory Bn_Opt
  imports Bn_Limb Bn_Div
begin

text \<open>
  The store of temporary numbers, the optimizer (\<^verbatim>\<open>crypto/bn/src/bn_optimizer.c\<close>), and the big numbers of a
  computation as a store: a reference is a number of the caller or a slot of a chunk of the optimizer,
  and the functions of \<^verbatim>\<open>bn_operation.c\<close> that use the optimizer work on references, so that two equal
  pointers are two equal references.

  The chunks are numbered from the oldest; \<^verbatim>\<open>prev\<close> of a chunk is the next newer and \<^verbatim>\<open>next\<close> the next older
  one. \<open>allocOk i\<close> says whether the \<open>i\<close>-th request for memory is granted.
\<close>

section \<open>The store\<close>

datatype bn_ref = User nat | Slot nat nat

record bn_state =
  deep :: nat
  used :: "nat list"
  occupied :: "nat list"
  curChunk :: nat
  heap :: "bn_ref \<Rightarrow> BN_BigNum"
  allocOk :: "nat \<Rightarrow> bool"
  allocs :: nat

type_synonym bn_exec = "crypt_ret \<times> bn_state"

definition put :: "bn_state \<Rightarrow> bn_ref \<Rightarrow> BN_BigNum \<Rightarrow> bn_state" where
  "put s r v = s\<lparr>heap := (heap s)(r := v)\<rparr>"

definition alloc :: "bn_state \<Rightarrow> bool \<times> bn_state" where
  "alloc s = (allocOk s (allocs s), s\<lparr>allocs := Suc (allocs s)\<rparr>)"

text \<open>A call that writes the number at \<open>r\<close> and may ask for memory.\<close>

definition at :: "bn_state \<Rightarrow> bn_ref \<Rightarrow> (bool \<Rightarrow> BN_BigNum option \<Rightarrow> bn_call) \<Rightarrow> bn_exec" where
  "at s r f =
     (let (mem, s) = alloc s; (ret, v) = f mem (Some (heap s r))
      in (ret, case v of Some v \<Rightarrow> put s r v | None \<Rightarrow> s))"

definition extend_at :: "bn_state \<Rightarrow> bn_ref \<Rightarrow> nat \<Rightarrow> bn_exec" where
  "extend_at s r words = at s r (\<lambda>mem r. case r of Some r \<Rightarrow> map_prod id Some (BnExtend mem r words) | None \<Rightarrow> (CRYPT_NULL_INPUT, r))"

definition copy_at :: "bn_state \<Rightarrow> bn_ref \<Rightarrow> bn_ref \<Rightarrow> bn_exec" where
  "copy_at s r a = at s r (\<lambda>mem x. BN_Copy mem x (Some (heap s a)))"

definition zeroize_at :: "bn_state \<Rightarrow> bn_ref \<Rightarrow> bn_exec" where
  "zeroize_at s r = at s r (\<lambda>mem. BN_Zeroize)"

definition set_limb_at :: "bn_state \<Rightarrow> bn_ref \<Rightarrow> BN_UINT \<Rightarrow> bn_exec" where
  "set_limb_at s r w = at s r (\<lambda>mem x. BN_SetLimb mem x w)"

definition add_at :: "bn_state \<Rightarrow> bn_ref \<Rightarrow> bn_ref \<Rightarrow> bn_ref \<Rightarrow> bn_exec" where
  "add_at s r a b = at s r (\<lambda>mem x. BN_Add mem x (Some (heap s a)) (Some (heap s b)))"

definition sub_at :: "bn_state \<Rightarrow> bn_ref \<Rightarrow> bn_ref \<Rightarrow> bn_ref \<Rightarrow> bn_exec" where
  "sub_at s r a b = at s r (\<lambda>mem x. BN_Sub mem x (Some (heap s a)) (Some (heap s b)))"

text \<open>Sequencing: \<^verbatim>\<open>if (ret != CRYPT_SUCCESS) return ret;\<close>, and releasing the optimizer before returning.\<close>

definition andThen :: "bn_exec \<Rightarrow> (bn_state \<Rightarrow> bn_exec) \<Rightarrow> bn_exec" where
  "andThen p f = (if fst p = CRYPT_SUCCESS then f (snd p) else p)"

section \<open>The optimizer\<close>

abbreviation (input) CRYPT_OPTIMIZER_MAXDEEP :: nat where "CRYPT_OPTIMIZER_MAXDEEP \<equiv> 10"
abbreviation (input) HITLS_CRYPT_OPTIMIZER_BN_NUM :: nat where "HITLS_CRYPT_OPTIMIZER_BN_NUM \<equiv> 32"

definition zero_bn :: BN_BigNum where
  "zero_bn = \<lparr>sign = False, bnsize = 0, room = 0, bnflag = 0, digits = []\<rparr>"

text \<open>A chunk fresh from \<^verbatim>\<open>BSL_SAL_Calloc\<close>.\<close>

definition clear_chunk :: "nat \<Rightarrow> (bn_ref \<Rightarrow> BN_BigNum) \<Rightarrow> bn_ref \<Rightarrow> BN_BigNum" where
  "clear_chunk c h r = (case r of Slot d i \<Rightarrow> if d = c then zero_bn else h r | User n \<Rightarrow> h r)"

definition BN_OptimizerCreate :: "bn_state \<Rightarrow> bool \<times> bn_state" where
  "BN_OptimizerCreate s =
     (let (ok, s) = alloc s in
      if \<not> ok then (False, s)
      else
        let (ok, s) = alloc s in
        if \<not> ok then (False, s)
        else (True, s\<lparr>deep := 0, used := replicate CRYPT_OPTIMIZER_MAXDEEP 0, occupied := [0], curChunk := 0,
                       heap := clear_chunk 0 (heap s)\<rparr>))"

definition OptimizerStart :: "bn_state \<Rightarrow> bn_exec" where
  "OptimizerStart s =
     (if deep s \<noteq> CRYPT_OPTIMIZER_MAXDEEP then (CRYPT_SUCCESS, s\<lparr>deep := deep s + 1\<rparr>)
      else (CRYPT_BN_OPTIMIZER_STACK_FULL, s))"

definition GetPresetBn :: "bn_state \<Rightarrow> bn_ref option \<times> bn_state" where
  "GetPresetBn s =
     (let c = curChunk s; n = occupied s ! c in
      if n \<noteq> HITLS_CRYPT_OPTIMIZER_BN_NUM then (Some (Slot c n), s\<lparr>occupied := (occupied s)[c := n + 1]\<rparr>)
      else if c + 1 < length (occupied s) then
        let n = occupied s ! (c + 1)
        in (Some (Slot (c + 1) n), s\<lparr>curChunk := c + 1, occupied := (occupied s)[c + 1 := n + 1]\<rparr>)
      else
        let (ok, s) = alloc s in
        if \<not> ok then (None, s)
        else (Some (Slot (c + 1) 0),
              s\<lparr>curChunk := c + 1, occupied := occupied s @ [1], heap := clear_chunk (c + 1) (heap s)\<rparr>))"

definition BnMake :: "bool \<Rightarrow> BN_BigNum \<Rightarrow> nat \<Rightarrow> crypt_ret \<times> BN_BigNum" where
  "BnMake mem r rm =
     (if room r < rm \<and> rm > BITS_TO_BN_UNIT BN_MAX_BITS then (CRYPT_BN_BITS_TOO_MAX, r)
      else if room r < rm \<and> \<not> mem then (CRYPT_MEM_ALLOC_FAIL, r)
      else
        let r1 = (if room r < rm then r\<lparr>digits := replicate rm 0, room := rm\<rparr> else r\<lparr>digits := replicate (room r) 0\<rparr>)
        in (CRYPT_SUCCESS, r1\<lparr>bnsize := 0, sign := False, bnflag := bnflag r OR CRYPT_BN_FLAG_OPTIMIZER\<rparr>))"

definition OptimizerGetBn :: "bn_state \<Rightarrow> nat \<Rightarrow> bn_ref option \<times> bn_state" where
  "OptimizerGetBn s rm =
     (if deep s = 0 then (None, s)
      else if (used s ! (deep s - 1) + 1) mod 2 ^ 32 < used s ! (deep s - 1) then (None, s)
      else
        let (tmp, s) = GetPresetBn s in
        case tmp of
          None \<Rightarrow> (None, s)
        | Some t \<Rightarrow>
            let (mem, s) = alloc s; (ret, v) = BnMake mem (heap s t) rm; s = put s t v in
            if ret \<noteq> CRYPT_SUCCESS then (None, s)
            else (Some t, s\<lparr>used := (used s)[deep s - 1 := used s ! (deep s - 1) + 1]\<rparr>))"

text \<open>The loop of \<open>OptimizerEnd\<close> over the chunks that are given back whole.\<close>

function OptimizerEnd_loop :: "nat \<Rightarrow> nat \<Rightarrow> nat list \<Rightarrow> nat \<times> nat \<times> nat list" where
  "OptimizerEnd_loop usedNum c occ =
     (if usedNum \<ge> HITLS_CRYPT_OPTIMIZER_BN_NUM
      then OptimizerEnd_loop (usedNum - HITLS_CRYPT_OPTIMIZER_BN_NUM) (c - 1) (occ[c - 1 := 0])
      else (usedNum, c, occ))"
  by pat_completeness auto
termination by (relation "measure fst") auto

declare OptimizerEnd_loop.simps [simp del]

definition OptimizerEnd :: "bn_state \<Rightarrow> bn_state" where
  "OptimizerEnd s =
     (if deep s = 0 then s
      else
        let d = deep s - 1; usedNum = used s ! d; s = s\<lparr>deep := d, used := (used s)[d := 0]\<rparr>; c = curChunk s in
        if usedNum \<le> occupied s ! c then s\<lparr>occupied := (occupied s)[c := occupied s ! c - usedNum]\<rparr>
        else
          let (usedNum, c, occ) = OptimizerEnd_loop (usedNum - occupied s ! c) c ((occupied s)[c := 0]);
              (c, occ) = (if usedNum \<noteq> 0 then (c - 1, occ[c - 1 := HITLS_CRYPT_OPTIMIZER_BN_NUM - usedNum]) else (c, occ))
          in s\<lparr>occupied := occ, curChunk := c\<rparr>)"


section \<open>The optimizer as a stack\<close>

text \<open>The number of slots below the top of the stack of chunks; a reference is live when it is a number of
  the caller or a slot below the top.\<close>

definition pos :: "bn_state \<Rightarrow> nat" where
  "pos s = 32 * curChunk s + occupied s ! curChunk s"

definition slot_index :: "bn_ref \<Rightarrow> nat" where
  "slot_index r = (case r of Slot c i \<Rightarrow> 32 * c + i | User n \<Rightarrow> 0)"

definition live :: "bn_state \<Rightarrow> bn_ref \<Rightarrow> bool" where
  "live s r = (case r of User n \<Rightarrow> True | Slot c i \<Rightarrow> i < 32 \<and> 32 * c + i < pos s)"

definition chunks_inv :: "nat \<Rightarrow> nat list \<Rightarrow> bool" where
  "chunks_inv c occ = (c < length occ \<and> (\<forall>i < length occ. if i < c then occ ! i = 32 else if i = c then occ ! i \<le> 32 else occ ! i = 0))"

definition opt_inv :: "bn_state \<Rightarrow> bool" where
  "opt_inv s = (deep s \<le> 10 \<and> length (used s) = 10 \<and> chunks_inv (curChunk s) (occupied s)
     \<and> sum_list (take (deep s) (used s)) \<le> pos s \<and> (\<forall>d < 10. deep s \<le> d \<longrightarrow> used s ! d = 0)
     \<and> (\<forall>r. bn_room (heap s r)))"

text \<open>A number that was worked on keeps its flags and does not lose room.\<close>

definition keeps :: "BN_BigNum \<Rightarrow> BN_BigNum \<Rightarrow> bool" where
  "keeps a b = (bnflag b = bnflag a \<and> room a \<le> room b)"

lemma keeps_refl [simp]: "keeps a a"
  by (simp add: keeps_def)

lemma keeps_trans: "keeps a b \<Longrightarrow> keeps b c \<Longrightarrow> keeps a c"
  by (simp add: keeps_def)

lemma keeps_has_room: "keeps a b \<Longrightarrow> has_room mem a n \<Longrightarrow> has_room mem b n"
  by (auto simp: keeps_def has_room_def)

text \<open>\<open>ext s s' W\<close>: in the same frame of the optimizer, more slots may have been taken, and of the numbers
  live before only those in \<open>W\<close> have changed.\<close>

definition ext :: "bn_state \<Rightarrow> bn_state \<Rightarrow> bn_ref set \<Rightarrow> bool" where
  "ext s s' W = (opt_inv s' \<and> allocOk s' = allocOk s \<and> deep s' = deep s \<and> pos s \<le> pos s'
     \<and> used s' = (used s)[deep s - 1 := used s ! (deep s - 1) + (pos s' - pos s)]
     \<and> (\<forall>r. live s r \<longrightarrow> keeps (heap s r) (heap s' r) \<and> (r \<in> W \<or> heap s' r = heap s r)))"

lemma live_mono: "live s r \<Longrightarrow> pos s \<le> pos s' \<Longrightarrow> live s' r"
  by (auto simp: live_def split: bn_ref.splits)

lemma ext_live: "ext s s' W \<Longrightarrow> live s r \<Longrightarrow> live s' r"
  by (auto simp: ext_def intro: live_mono)

lemma ext_refl: "opt_inv s \<Longrightarrow> ext s s W"
  by (simp add: ext_def)

lemma ext_mono: "ext s s' V \<Longrightarrow> V \<subseteq> W \<Longrightarrow> ext s s' W"
  by (auto simp: ext_def)

lemma ext_heap: "ext s s' W \<Longrightarrow> live s r \<Longrightarrow> r \<notin> W \<Longrightarrow> heap s' r = heap s r"
  by (auto simp: ext_def)

lemma ext_keeps: "ext s s' W \<Longrightarrow> live s r \<Longrightarrow> keeps (heap s r) (heap s' r)"
  by (auto simp: ext_def)

lemma ext_inv: "ext s s' W \<Longrightarrow> opt_inv s'"
  by (simp add: ext_def)

lemma ext_trans:
  assumes "ext s s1 V" "ext s1 s2 W" "length (used s) = 10" "deep s \<le> 10"
  shows "ext s s2 (V \<union> W)"
proof -
  have u: "used s2 = (used s)[deep s - 1 := used s ! (deep s - 1) + (pos s2 - pos s)]"
    using assms by (simp add: ext_def)
  have "keeps (heap s r) (heap s2 r) \<and> (r \<in> V \<union> W \<or> heap s2 r = heap s r)" if "live s r" for r
    using assms(1,2) that ext_live [OF assms(1) that] keeps_trans unfolding ext_def by (metis Un_iff)
  then show ?thesis using assms(1,2) u by (simp add: ext_def)
qed

lemma ext_put: "opt_inv s \<Longrightarrow> bn_room v \<Longrightarrow> keeps (heap s r) v \<Longrightarrow> ext s (put s r v) {r}"
  by (auto simp: ext_def put_def opt_inv_def pos_def live_def)

lemma ext_allocs: "opt_inv s \<Longrightarrow> ext s (s\<lparr>allocs := n\<rparr>) {}"
  by (auto simp: ext_def opt_inv_def pos_def)

lemma opt_inv_simps:
  assumes "opt_inv s"
  shows "length (used s) = 10" "deep s \<le> 10" "bn_room (heap s r)" "curChunk s < length (occupied s)"
  using assms by (simp_all add: opt_inv_def chunks_inv_def)

lemma ext_trans': "opt_inv s \<Longrightarrow> ext s s1 V \<Longrightarrow> ext s1 s2 W \<Longrightarrow> ext s s2 (V \<union> W)"
  using ext_trans opt_inv_simps(1,2) by blast

section \<open>Taking a slot\<close>

lemma GetPresetBn_ok:
  assumes i: "opt_inv s" and a: "\<forall>n. allocOk s n" and g: "GetPresetBn s = (t, s')"
  obtains c i where "t = Some (Slot c i)" "i < 32" "32 * c + i = pos s" "pos s' = Suc (pos s)"
    "chunks_inv (curChunk s') (occupied s')" "deep s' = deep s" "used s' = used s" "allocOk s' = allocOk s"
    "\<forall>r. bn_room (heap s' r)" "\<forall>r. live s r \<longrightarrow> heap s' r = heap s r"
proof -
  let ?c = "curChunk s" and ?occ = "occupied s"
  have ch: "?c < length ?occ" "\<And>i. i < ?c \<Longrightarrow> ?occ ! i = 32" "?occ ! ?c \<le> 32"
    "\<And>i. ?c < i \<Longrightarrow> i < length ?occ \<Longrightarrow> ?occ ! i = 0" "\<And>r. bn_room (heap s r)"
    using i by (auto simp: opt_inv_def chunks_inv_def split: if_splits)
  consider "?occ ! ?c \<noteq> 32" | "?occ ! ?c = 32" "?c + 1 < length ?occ" | "?occ ! ?c = 32" "?c + 1 = length ?occ"
    using ch(1) by linarith
  then show thesis
  proof cases
    case 1
    then have "t = Some (Slot ?c (?occ ! ?c))" "s' = s\<lparr>occupied := ?occ[?c := ?occ ! ?c + 1]\<rparr>"
      using g by (simp_all add: GetPresetBn_def Let_def)
    then show thesis using that [of "?c" "?occ ! ?c"] ch 1 by (auto simp: pos_def chunks_inv_def nth_list_update)
  next
    case 2
    then have "t = Some (Slot (?c + 1) (?occ ! (?c + 1)))"
      "s' = s\<lparr>curChunk := ?c + 1, occupied := ?occ[?c + 1 := ?occ ! (?c + 1) + 1]\<rparr>"
      using g by (simp_all add: GetPresetBn_def Let_def)
    moreover have "?occ ! (?c + 1) = 0" using ch(4) [of "?c + 1"] 2 by simp
    ultimately show thesis using that [of "?c + 1" 0] ch 2
      by (auto simp: pos_def chunks_inv_def nth_list_update less_Suc_eq)
  next
    case 3
    then have t: "t = Some (Slot (?c + 1) 0)"
      and s': "s' = s\<lparr>allocs := Suc (allocs s), curChunk := ?c + 1, occupied := ?occ @ [1], heap := clear_chunk (?c + 1) (heap s)\<rparr>"
      using g a by (auto simp: GetPresetBn_def Let_def alloc_def)
    have "clear_chunk (?c + 1) (heap s) r = heap s r" if "live s r" for r
      using that 3 by (auto simp: clear_chunk_def live_def pos_def split: bn_ref.splits)
    moreover have "bn_room (clear_chunk (?c + 1) (heap s) r)" for r
      using ch(5) by (auto simp: clear_chunk_def zero_bn_def bn_room_def split: bn_ref.splits)
    ultimately show thesis using that [of "?c + 1" 0] t ch 3
      by (auto simp: s' pos_def chunks_inv_def nth_append less_Suc_eq)
  qed
qed

text \<open>A number from the optimizer is a fresh zero with the room asked for, which is not flagged static.\<close>

lemma BnMake_ok:
  assumes "bn_room r" "rm \<le> BITS_TO_BN_UNIT BN_MAX_BITS"
  obtains v where "BnMake True r rm = (CRYPT_SUCCESS, v)" "bn_wf v" "bval v = 0" "bnsize v = 0" "rm \<le> room v"
    "digits v = replicate (room v) 0" "bnflag v \<noteq> CRYPT_BN_FLAG_STATIC" "\<not> sign v"
proof -
  have "bnflag r OR 1 \<noteq> 2"
  proof
    assume "bnflag r OR 1 = 2"
    then have "bit (bnflag r OR 1) 0 = bit (2 :: u32) 0" by simp
    then show False by (simp add: bit_simps)
  qed
  then show thesis using assms that [of "snd (BnMake True r rm)"]
    by (auto simp: BnMake_def Let_def bn_wf_def bn_room_def normal_def bval_def mag_def)
qed

lemma sum_list_take_update:
  "d < length xs \<Longrightarrow> sum_list (take (Suc d) (xs[d := xs ! d + k])) = sum_list (take (Suc d) xs) + (k :: nat)"
  by (simp add: take_Suc_conv_app_nth)

definition fresh :: "bn_state \<Rightarrow> bn_state \<Rightarrow> bn_ref \<Rightarrow> nat \<Rightarrow> bool" where
  "fresh s s' t rm = (\<not> live s t \<and> live s' t \<and> bn_wf (heap s' t) \<and> bnsize (heap s' t) = 0 \<and> \<not> sign (heap s' t)
     \<and> rm \<le> room (heap s' t) \<and> digits (heap s' t) = replicate (room (heap s' t)) 0
     \<and> bnflag (heap s' t) \<noteq> CRYPT_BN_FLAG_STATIC)"

lemma GetBn_ok:
  assumes i: "opt_inv s" and a: "\<forall>n. allocOk s n" and d: "0 < deep s" and u: "used s ! (deep s - 1) < 2 ^ 32 - 1"
    and rm: "rm \<le> BITS_TO_BN_UNIT BN_MAX_BITS"
  obtains t s' where "OptimizerGetBn s rm = (Some t, s')" "ext s s' {}" "fresh s s' t rm" "pos s' = Suc (pos s)"
proof -
  obtain t0 s1 where g: "GetPresetBn s = (t0, s1)" by fastforce
  from GetPresetBn_ok [OF i a g] obtain c i where t: "t0 = Some (Slot c i)" and
    P: "i < 32" "32 * c + i = pos s" "pos s1 = Suc (pos s)" "chunks_inv (curChunk s1) (occupied s1)" "deep s1 = deep s"
      "used s1 = used s" "allocOk s1 = allocOk s" "\<forall>r. bn_room (heap s1 r)" "\<forall>r. live s r \<longrightarrow> heap s1 r = heap s r" .
  obtain v where v: "BnMake True (heap s1 (Slot c i)) rm = (CRYPT_SUCCESS, v)" "bn_wf v" "bnsize v = 0" "rm \<le> room v"
    "digits v = replicate (room v) 0" "bnflag v \<noteq> CRYPT_BN_FLAG_STATIC" "\<not> sign v"
    using BnMake_ok [OF _ rm] P(8) by metis
  define s' where "s' = (put (s1\<lparr>allocs := Suc (allocs s1)\<rparr>) (Slot c i) v)\<lparr>used := (used s)[deep s - 1 := used s ! (deep s - 1) + 1]\<rparr>"
  have nl: "\<not> live s (Slot c i)" using P by (simp add: live_def)
  have p: "pos s' = Suc (pos s)" using P(3) by (simp add: s'_def pos_def put_def)
  show thesis
  proof
    have "(used s ! (deep s - 1) + 1) mod 2 ^ 32 = used s ! (deep s - 1) + 1" using u by simp
    then show "OptimizerGetBn s rm = (Some (Slot c i), s')"
      using d g t v(1) P a by (simp add: OptimizerGetBn_def Let_def alloc_def s'_def put_def)
    have dl: "deep s - 1 < length (used s)" using d opt_inv_simps(1,2) [OF assms(1)] by simp
    have "sum_list (take (deep s) ((used s)[deep s - 1 := used s ! (deep s - 1) + 1])) = sum_list (take (deep s) (used s)) + 1"
      using sum_list_take_update [OF dl, of 1] d by simp
    then have "opt_inv s'" using i P d p v(2) bn_wf_room [OF v(2)]
      unfolding opt_inv_def by (auto simp: s'_def put_def pos_def nth_list_update)
    then show "ext s s' {}" using P nl p unfolding ext_def by (auto simp: s'_def put_def pos_def)
    show "fresh s s' (Slot c i) rm" using nl v P p by (auto simp: fresh_def live_def s'_def put_def)
    show "pos s' = Suc (pos s)" by (rule p)
  qed
qed


section \<open>Releasing a frame\<close>

lemma chunks_inv_back:
  assumes "chunks_inv c occ" "0 < c" "occ ! c = 0" "k \<le> 32"
  shows "chunks_inv (c - 1) (occ[c - 1 := k])"
  using assms by (auto simp: chunks_inv_def nth_list_update split: if_splits)

lemma OptimizerEnd_loop_ok:
  "chunks_inv c occ \<Longrightarrow> occ ! c = 0 \<Longrightarrow> n \<le> 32 * c \<Longrightarrow> OptimizerEnd_loop n c occ = (n', c', occ') \<Longrightarrow>
   n' < 32 \<and> chunks_inv c' occ' \<and> occ' ! c' = 0 \<and> 32 * c' + n = 32 * c + n'"
proof (induction n c occ arbitrary: n' c' occ' rule: OptimizerEnd_loop.induct)
  case (1 n c occ)
  show ?case
  proof (cases "n \<ge> 32")
    case True
    then have c: "0 < c" using 1(4) by (cases c) simp_all
    have "chunks_inv (c - 1) (occ[c - 1 := 0])" using chunks_inv_back [OF 1(2) c 1(3), of 0] by simp
    moreover have "occ[c - 1 := 0] ! (c - 1) = 0" using 1(2) c by (auto simp: chunks_inv_def)
    moreover have "n - 32 \<le> 32 * (c - 1)" using 1(4) True by (simp add: right_diff_distrib')
    moreover have "OptimizerEnd_loop (n - 32) (c - 1) (occ[c - 1 := 0]) = (n', c', occ')"
      using 1(5) True OptimizerEnd_loop.simps [of n c occ] by simp
    ultimately have "n' < 32 \<and> chunks_inv c' occ' \<and> occ' ! c' = 0 \<and> 32 * c' + (n - 32) = 32 * (c - 1) + n'"
      using 1(1) [OF True] by blast
    then show ?thesis using True c by (cases c) auto
  next
    case False
    then show ?thesis using 1(2,3,5) OptimizerEnd_loop.simps [of n c occ] by auto
  qed
qed

lemma OptimizerEnd_ok:
  assumes i: "opt_inv s" and d: "0 < deep s"
  shows "opt_inv (OptimizerEnd s)" "deep (OptimizerEnd s) = deep s - 1" "pos (OptimizerEnd s) = pos s - used s ! (deep s - 1)"
    "used (OptimizerEnd s) = (used s)[deep s - 1 := 0]" "heap (OptimizerEnd s) = heap s" "allocOk (OptimizerEnd s) = allocOk s"
proof -
  define k where "k = used s ! (deep s - 1)"
  let ?c = "curChunk s" and ?occ = "occupied s" and ?s = "s\<lparr>deep := deep s - 1, used := (used s)[deep s - 1 := 0]\<rparr>"
  have ch: "chunks_inv ?c ?occ" using i by (simp add: opt_inv_def)
  have dl: "deep s - 1 < length (used s)" using d opt_inv_simps(1,2) [OF i] by simp
  have sum: "sum_list (take (deep s) (used s)) = sum_list (take (deep s - 1) (used s)) + k"
    using take_Suc_conv_app_nth [OF dl] d by (simp add: k_def)
  then have kp: "k \<le> pos s" using i by (simp add: opt_inv_def)
  obtain c' occ' where e: "OptimizerEnd s = ?s\<lparr>occupied := occ', curChunk := c'\<rparr>"
    and c': "chunks_inv c' occ'" "32 * c' + occ' ! c' = pos s - k"
  proof (cases "k \<le> ?occ ! ?c")
    case True
    then have "OptimizerEnd s = ?s\<lparr>occupied := ?occ[?c := ?occ ! ?c - k], curChunk := ?c\<rparr>"
      using d by (simp add: OptimizerEnd_def Let_def k_def)
    moreover have "chunks_inv ?c (?occ[?c := ?occ ! ?c - k])" "32 * ?c + ?occ[?c := ?occ ! ?c - k] ! ?c = pos s - k"
      using ch True by (auto simp: chunks_inv_def nth_list_update pos_def split: if_splits)
    ultimately show thesis by (rule that)
  next
    case False
    obtain n1 c1 occ1 where l: "OptimizerEnd_loop (k - ?occ ! ?c) ?c (?occ[?c := 0]) = (n1, c1, occ1)" by (metis prod_cases3)
    have "chunks_inv ?c (?occ[?c := 0])" "?occ[?c := 0] ! ?c = 0" "k - ?occ ! ?c \<le> 32 * ?c"
      using ch kp by (auto simp: chunks_inv_def nth_list_update pos_def split: if_splits)
    from OptimizerEnd_loop_ok [OF this l]
    have L: "n1 < 32" "chunks_inv c1 occ1" "occ1 ! c1 = 0" "32 * c1 + (k - ?occ ! ?c) = 32 * ?c + n1" by auto
    define c' where "c' = (if n1 \<noteq> 0 then c1 - 1 else c1)"
    define occ' where "occ' = (if n1 \<noteq> 0 then occ1[c1 - 1 := 32 - n1] else occ1)"
    have "OptimizerEnd s = ?s\<lparr>occupied := occ', curChunk := c'\<rparr>"
      using d False l by (simp add: OptimizerEnd_def Let_def k_def c'_def occ'_def)
    moreover have "chunks_inv c' occ' \<and> 32 * c' + occ' ! c' = pos s - k"
    proof (cases "n1 = 0")
      case True
      then show ?thesis using L False kp by (simp add: c'_def occ'_def pos_def)
    next
      case n1: False
      have c1: "0 < c1" using L(4) n1 False kp by (cases c1) (auto simp: pos_def)
      have "c1 - 1 < length occ1" using L(2) by (auto simp: chunks_inv_def)
      then have "occ' ! c' = 32 - n1" using n1 by (simp add: c'_def occ'_def)
      moreover have "32 * c' + 32 = 32 * c1" using n1 c1 by (simp add: c'_def)
      ultimately show ?thesis using L False kp n1 chunks_inv_back [OF L(2) c1 L(3), of "32 - n1"]
        by (simp add: c'_def occ'_def pos_def)
    qed
    ultimately show thesis using that by blast
  qed
  have p: "pos (OptimizerEnd s) = pos s - k" using c' by (simp add: e pos_def)
  then show "pos (OptimizerEnd s) = pos s - used s ! (deep s - 1)" by (simp add: k_def)
  show "deep (OptimizerEnd s) = deep s - 1" "used (OptimizerEnd s) = (used s)[deep s - 1 := 0]"
    "heap (OptimizerEnd s) = heap s" "allocOk (OptimizerEnd s) = allocOk s" by (simp_all add: e)
  show "opt_inv (OptimizerEnd s)"
    unfolding opt_inv_def p using i c' sum d dl by (auto simp: e opt_inv_def nth_list_update)
qed

text \<open>A frame: started, worked in, released.\<close>

lemma OptimizerStart_ok:
  assumes "opt_inv s" "deep s < 10"
  obtains s1 where "OptimizerStart s = (CRYPT_SUCCESS, s1)" "opt_inv s1" "deep s1 = Suc (deep s)" "used s1 ! deep s = 0"
    "pos s1 = pos s" "used s1 = used s" "heap s1 = heap s" "allocOk s1 = allocOk s" "live s1 = live s"
proof
  show "OptimizerStart s = (CRYPT_SUCCESS, s\<lparr>deep := deep s + 1\<rparr>)" using assms(2) by (simp add: OptimizerStart_def)
  have "sum_list (take (Suc (deep s)) (used s)) = sum_list (take (deep s) (used s))"
    using assms by (simp add: take_Suc_conv_app_nth opt_inv_def)
  then show "opt_inv (s\<lparr>deep := deep s + 1\<rparr>)" using assms by (auto simp: opt_inv_def pos_def)
qed (use assms in \<open>auto simp: pos_def opt_inv_def live_def fun_eq_iff split: bn_ref.splits\<close>)

lemma frame_closed:
  assumes "opt_inv s" "deep s < 10" "OptimizerStart s = (CRYPT_SUCCESS, s1)" "ext s1 s2 W"
  shows "ext s (OptimizerEnd s2) W" "pos (OptimizerEnd s2) = pos s"
proof -
  obtain S: "opt_inv s1" "deep s1 = Suc (deep s)" "used s1 ! deep s = 0" "pos s1 = pos s" "used s1 = used s" "heap s1 = heap s"
    "allocOk s1 = allocOk s" "live s1 = live s"
    using OptimizerStart_ok [OF assms(1,2)] assms(3) by (metis prod.inject)
  have d2: "deep s2 = Suc (deep s)" "opt_inv s2" "pos s \<le> pos s2" using assms(4) S by (auto simp: ext_def)
  have u2: "used s2 = (used s)[deep s := pos s2 - pos s]" using assms(4) S by (simp add: ext_def)
  have l: "deep s < length (used s)" using assms(1,2) by (simp add: opt_inv_def)
  note E = OptimizerEnd_ok [OF d2(2)]
  show p: "pos (OptimizerEnd s2) = pos s" using E(3) d2 u2 l by simp
  have "(used s)[deep s := 0] = used s" using S(3,5) by (metis list_update_id)
  then have "used (OptimizerEnd s2) = used s" using E(4) d2(1) u2 by simp
  then have us: "used (OptimizerEnd s2) = (used s)[deep s - 1 := used s ! (deep s - 1) + (pos (OptimizerEnd s2) - pos s)]"
    by (simp add: p)
  have "\<forall>r. live s r \<longrightarrow> keeps (heap s r) (heap s2 r) \<and> (r \<in> W \<or> heap s2 r = heap s r)" "allocOk s2 = allocOk s"
    using assms(4) S(6-8) by (simp_all add: ext_def)
  moreover have "deep (OptimizerEnd s2) = deep s" using E(2) d2(1) by simp
  ultimately show "ext s (OptimizerEnd s2) W"
    using E(1,5,6) d2(1) us p unfolding ext_def by simp
qed


section \<open>Calls on the store\<close>

lemma BnExtend_kept: "BnExtend mem r n = (ret, v) \<Longrightarrow> keeps r v"
  by (auto simp: BnExtend_def keeps_def split: if_splits)

lemma Copy_kept: "snd (BN_Copy mem (Some r) (Some a)) = Some v \<Longrightarrow> keeps r v"
  using BnExtend_kept [of mem r "bnsize a"] by (auto simp: BN_Copy_def Let_def keeps_def split: if_splits prod.splits)

lemma Zeroize_kept: "snd (BN_Zeroize (Some r)) = Some v \<Longrightarrow> keeps r v"
  by (auto simp: BN_Zeroize_def zeroize_def keeps_def)

lemma SetLimb_kept: "snd (BN_SetLimb mem (Some r) w) = Some v \<Longrightarrow> keeps r v"
  using BnExtend_kept [of mem r 1] by (auto simp: BN_SetLimb_def Let_def zeroize_def keeps_def split: if_splits prod.splits)

lemma UAdd_kept: "keeps r (snd (UAdd mem r a b))"
  using BnExtend_kept [of mem r "bnsize (if bnsize a < bnsize b then b else a) + 1"]
  by (auto simp: UAdd_def Let_def keeps_def split: prod.splits)

lemma USub_kept: "keeps r (snd (USub mem r a b))"
  using BnExtend_kept [of mem r "bnsize a"] by (auto simp: USub_def Let_def keeps_def split: prod.splits)

lemma keeps_sign [simp]: "keeps (r\<lparr>sign := x\<rparr>) v = keeps r v" "keeps r (v\<lparr>sign := x\<rparr>) = keeps r v"
  by (simp_all add: keeps_def)

lemma signed_kept: "keeps r (snd (UAdd mem (r\<lparr>sign := x\<rparr>) a b))" "keeps r (snd (USub mem (r\<lparr>sign := x\<rparr>) a b))"
  using UAdd_kept [of "r\<lparr>sign := x\<rparr>" mem] USub_kept [of "r\<lparr>sign := x\<rparr>" mem] by simp_all

lemma Add_kept: "snd (BN_Add mem (Some r) (Some a) (Some b)) = Some v \<Longrightarrow> keeps r v"
  using Zeroize_kept [of r] by (auto simp: BN_Add_def Let_def signed_kept split: if_splits)

lemma Sub_kept: "snd (BN_Sub mem (Some r) (Some a) (Some b)) = Some v \<Longrightarrow> keeps r v"
  using Zeroize_kept [of r] by (auto simp: BN_Sub_def Let_def signed_kept split: if_splits)

lemma at_ok:
  assumes i: "opt_inv s" and a: "\<forall>n. allocOk s n" and r: "bn_returns (f True (Some (heap s r))) x"
    and k: "\<And>v. snd (f True (Some (heap s r))) = Some v \<Longrightarrow> keeps (heap s r) v"
  obtains s' where "at s r f = (CRYPT_SUCCESS, s')" "ext s s' {r}" "pos s' = pos s" "bn_wf (heap s' r)" "bval (heap s' r) = x"
    "snd (f True (Some (heap s r))) = Some (heap s' r)"
proof -
  obtain v where v: "f True (Some (heap s r)) = (CRYPT_SUCCESS, Some v)" "bn_wf v" "bval v = x"
    using r by (auto simp: bn_returns_def split: prod.splits option.splits)
  let ?s = "s\<lparr>allocs := Suc (allocs s)\<rparr>"
  have "ext s ?s {}" by (rule ext_allocs [OF i])
  moreover have "ext ?s (put ?s r v) {r}"
    using k [of v] v bn_wf_room ext_inv [OF \<open>ext s ?s {}\<close>] by (intro ext_put) simp_all
  ultimately have "ext s (put ?s r v) {r}" using ext_trans' [OF i] by fastforce
  then show thesis using that [of "put ?s r v"] v a by (simp add: at_def alloc_def put_def pos_def)
qed

lemma Extend_returns:
  assumes "bn_wf r" "has_room mem r n"
  shows "bn_returns (map_prod id Some (BnExtend mem r n)) (bval r)"
  using assms by (auto simp: bn_returns_def BnExtend_def has_room_def bn_wf_def bn_room_def bval_def mag_def)

lemma Copy_returns:
  assumes "bn_room r" "bn_wf a" "has_room mem r (bnsize a)"
  shows "bn_returns (BN_Copy mem (Some r) (Some a)) (bval a)"
proof (cases "r = a")
  case True
  then show ?thesis using assms(2) by (simp add: BN_Copy_def bn_returns_def)
next
  case False
  obtain r1 where r1: "BnExtend mem r (bnsize a) = (CRYPT_SUCCESS, r1)" "bn_room r1" "bnsize a \<le> room r1" "bnsize r1 = bnsize r"
    using BnExtend_keeps [OF assms(1,3)] by metis
  let ?f = "take (bnsize a) (digits a) @ replicate (bnsize r1 - bnsize a) 0"
  have l: "length ?f \<le> room r1" "bnsize a \<le> length (digits a)" using r1 bn_wfD(1) [OF assms(2)] by (auto simp: bn_room_def)
  have t: "take (bnsize a) (memcpy_at (digits r1) 0 ?f) = take (bnsize a) (digits a)"
    using l(2) by (simp add: memcpy_at_def)
  show ?thesis using False r1(1) unfolding BN_Copy_def prod.case option.case
  proof (simp add: Let_def, intro bn_returnsI)
    show "length (digits (r1\<lparr>sign := sign a, digits := memcpy_at (digits r1) 0 ?f, bnsize := bnsize a\<rparr>))
        = room (r1\<lparr>sign := sign a, digits := memcpy_at (digits r1) 0 ?f, bnsize := bnsize a\<rparr>)"
      using l r1(2) by (simp add: bn_room_def memcpy_at_def)
  qed (use t r1(3) assms(2) mag_0 [OF assms(2)] in \<open>auto simp: bn_wf_def mag_def bval_def\<close>)
qed

end
