(* ===== verification/Bn_Sqr.thy ===== *)
theory Bn_Sqr
  imports Bn_Div
begin

text \<open>
  The square of a digit array (\<open>BinSqr\<close> of \<^verbatim>\<open>bn_bincal.c\<close>): the products of different digits once, doubled by a
  shift, and the squares of the digits added.
\<close>

text \<open>The rows of the triangle: \<open>r\<close> from \<open>r[2 * i]\<close> on, and the digits of \<open>a\<close> from \<open>a[i]\<close> on.\<close>

fun BinSqr_rows :: "BN_UINT list \<Rightarrow> BN_UINT list \<Rightarrow> BN_UINT list" where
  "BinSqr_rows r [] = r"
| "BinSqr_rows r [t] = r"
| "BinSqr_rows r (t # as) =
     (let (carry, row) = BinMul_row t (length as) (tl r) as 0;
          r1 = hd r # row @ carry # drop (length as + 2) r
      in take 2 r1 @ BinSqr_rows (drop 2 r1) as)"

fun BinSqr_diag :: "BN_UINT list \<Rightarrow> BN_UINT list \<Rightarrow> BN_UINT \<Rightarrow> BN_UINT list" where
  "BinSqr_diag r [] carry = r"
| "BinSqr_diag r (t # as) carry =
     (let (rh, rl) = SQR_A t;
          (carry, r0) = ADD_ABC (r ! 0) rl carry;
          (carry, r1) = ADD_ABC (r ! 1) rh carry
      in r0 # r1 # BinSqr_diag (drop 2 r) as carry)"

definition BinSqr :: "nat \<Rightarrow> BN_UINT list \<Rightarrow> nat \<times> BN_UINT list" where
  "BinSqr rRoom a =
     (let n = length a; r = BinSqr_rows (replicate rRoom 0) a;
          r = snd (BinLshift r r (2 * n - 1) 1);
          r = BinSqr_diag r a 0
      in (n + n - (if r ! (2 * n - 1) = 0 then 1 else 0), r))"

fun cross :: "BN_UINT list \<Rightarrow> nat" where
  "cross [] = 0"
| "cross (t # as) = base * (unat t * val as) + base * base * cross as"

fun squares :: "BN_UINT list \<Rightarrow> nat" where
  "squares [] = 0"
| "squares (t # as) = unat t * unat t + base * base * squares as"

lemma cross_squares: "2 * cross a + squares a = val a * val a"
proof (induction a)
  case (Cons t as)
  have "2 * cross (t # as) + squares (t # as) = unat t * unat t + 2 * (base * (unat t * val as)) + base * base * (2 * cross as + squares as)"
    by (simp add: algebra_simps)
  then show ?case unfolding Cons.IH by (simp add: algebra_simps)
qed simp

lemma BinSqr_rows_exact:
  "2 * length a \<le> length r \<Longrightarrow> val (drop (length a) r) = 0 \<Longrightarrow>
   length (BinSqr_rows r a) = length r \<and> val (BinSqr_rows r a) = val r + cross a
   \<and> drop (2 * length a - 1) (BinSqr_rows r a) = drop (2 * length a - 1) r"
proof (induction r a rule: BinSqr_rows.induct)
  case (3 r t u as)
  let ?as = "u # as"
  obtain c row where row: "BinMul_row t (length ?as) (tl r) ?as 0 = (c, row)" by fastforce
  define r1 where "r1 = hd r # row @ c # drop (length ?as + 2) r"
  have R: "BinSqr_rows r (t # ?as) = take 2 r1 @ BinSqr_rows (drop 2 r1) ?as" using row by (simp add: r1_def)
  have lr: "length row = length ?as" by (rule row_loop.plain_length [OF row])
  have l: "length ?as + 2 \<le> length r" using 3(2) by simp
  have e: "val row + base ^ length ?as * unat c = val (take (length ?as) (tl r)) + unat t * val ?as"
    using row_loop.plain_exact [OF _ _ row] l by simp
  obtain x xs where x: "r = x # xs" using l by (cases r) auto
  have z: "val (drop (length ?as) xs) = 0" using 3(3) x by simp
  have "drop (length ?as) xs = xs ! length ?as # drop (length ?as + 2) r"
    using Cons_nth_drop_Suc [of "length ?as" xs] l x by simp
  then have z2: "val (drop (length ?as + 2) r) = 0" using z base_pos by (auto simp: base_def)
  have v1: "val r1 = val r + base * (unat t * val ?as)"
  proof -
    have "val xs = val (take (length ?as) xs)" using val_split [of "length ?as" xs] l x z by simp
    moreover have "val r1 = unat x + base * (val row + base ^ length ?as * unat c)"
      using z2 x lr by (simp add: r1_def val_append)
    ultimately show ?thesis unfolding e x by (simp add: distrib_left)
  qed
  have l1: "length r1 = length r" using l lr by (simp add: r1_def)
  have d1: "drop (length ?as + 2) r1 = drop (length ?as + 2) r" using lr by (simp add: r1_def)
  have p1: "2 * length ?as \<le> length (drop 2 r1)" using 3(2) l1 by simp
  have p2: "val (drop (length ?as) (drop 2 r1)) = 0" using d1 z2 by (simp add: add.commute)
  have IH: "length (BinSqr_rows (drop 2 r1) ?as) = length (drop 2 r1)"
    "val (BinSqr_rows (drop 2 r1) ?as) = val (drop 2 r1) + cross ?as"
    "drop (2 * length ?as - 1) (BinSqr_rows (drop 2 r1) ?as) = drop (2 * length ?as - 1) (drop 2 r1)"
    using 3(1) [OF row [symmetric] refl r1_def p1 p2] by simp_all
  have t2: "length (take 2 r1) = 2" using l1 l by simp
  have "val (take 2 r1 @ BinSqr_rows (drop 2 r1) ?as) = val r1 + base * base * cross ?as"
    unfolding val_append t2 IH(2) using val_split [of 2 r1] l1 l by (simp add: power2_eq_square distrib_left)
  moreover have "drop (2 * length (t # ?as) - 1) (take 2 r1 @ BinSqr_rows (drop 2 r1) ?as) = drop (2 * length (t # ?as) - 1) r"
  proof -
    have "2 * length (t # ?as) - 1 = 2 + (2 * length ?as - 1)" by simp
    then have "drop (2 * length (t # ?as) - 1) (take 2 r1 @ BinSqr_rows (drop 2 r1) ?as) = drop (2 * length ?as - 1) (drop 2 r1)"
      using IH(3) t2 by simp
    also have "\<dots> = drop (length ?as - 1) (drop (length ?as + 2) r1)" by (simp add: add.commute mult_2)
    also have "\<dots> = drop (2 * length (t # ?as) - 1) r" unfolding d1 by (simp add: add.commute mult_2)
    finally show ?thesis .
  qed
  ultimately show ?case using IH(1) t2 l1 l v1 unfolding R by simp
qed simp_all

lemma BinSqr_diag_exact:
  "2 * length a \<le> length r \<Longrightarrow> length (BinSqr_diag r a c) = length r
   \<and> (\<exists>k. val (BinSqr_diag r a c) + base ^ (2 * length a) * k = val r + squares a + unat c)"
proof (induction a arbitrary: r c)
  case (Cons t as)
  obtain x y r' where r: "r = x # y # r'" using Cons.prems by (cases r; cases "tl r") auto
  obtain rh rl where q: "SQR_A t = (rh, rl)" by fastforce
  obtain c0 r0 where a0: "ADD_ABC x rl c = (c0, r0)" by fastforce
  obtain c1 r1 where a1: "ADD_ABC y rh c0 = (c1, r1)" by fastforce
  have d: "BinSqr_diag r (t # as) c = r0 # r1 # BinSqr_diag r' as c1" using q a0 a1 r by simp
  have "2 * length as \<le> length r'" using Cons.prems r by simp
  from Cons.IH [OF this] obtain k where l: "length (BinSqr_diag r' as c1) = length r'"
    and k: "val (BinSqr_diag r' as c1) + base ^ (2 * length as) * k = val r' + squares as + unat c1" by blast
  from arg_cong [OF k, of "\<lambda>z. base * base * z"]
  have k': "base * base * val (BinSqr_diag r' as c1) + base ^ (2 * length (t # as)) * k
      = base * base * val r' + base * base * squares as + base * base * unat c1"
    by (simp add: distrib_left algebra_simps)
  have "base * unat r1 + base * (base * unat c1) = base * unat y + base * unat rh + base * unat c0"
    using arg_cong [OF ADD_ABC_exact [OF a1], of "\<lambda>z. base * z"] by (simp only: distrib_left)
  then have "val (BinSqr_diag r (t # as) c) + base ^ (2 * length (t # as)) * k = val r + squares (t # as) + unat c"
    using k' ADD_ABC_exact [OF a0] SQR_A_exact [OF q] unfolding d unfolding r val.simps squares.simps distrib_left by (simp add: mult.assoc)
  then show ?case using l r d by auto
qed simp

lemma BinSqr_exact:
  assumes "a \<noteq> []" "2 * length a \<le> rm" "BinSqr rm a = (sz, r)"
  shows "length r = rm" "val r = val a * val a"
proof -
  let ?n = "length a"
  define r1 where "r1 = BinSqr_rows (replicate rm 0) a"
  obtain z r2 where b: "BinLshift r1 r1 (2 * ?n - 1) 1 = (z, r2)" by fastforce
  have r: "r = BinSqr_diag r2 a 0" using assms(3) b by (simp add: BinSqr_def Let_def r1_def)
  have R: "length r1 = rm" "val r1 = cross a" "drop (2 * ?n - 1) r1 = replicate (rm - (2 * ?n - 1)) 0"
    using BinSqr_rows_exact [of a "replicate rm 0"] assms(2) by (simp_all add: r1_def)
  have n: "0 < ?n" using assms(1) by simp
  have m: "0 < 2 * ?n - 1" "2 * ?n - 1 \<le> length r1" "2 * ?n - 1 < length r1" using n R(1) assms(2) by linarith+
  have "val (drop (2 * ?n - 1) r1) = 0" using R(3) by simp
  from shift_dividend [OF m(1,3) this, of 1 z r2]
  have S: "length r2 = rm" "val r2 = val (take (2 * ?n - 1) r1) * 2" using b R(1) by simp_all
  have "val (take (2 * ?n - 1) r1) = cross a" using val_split [OF m(2)] R(2,3) by simp
  then have v2: "val r2 = 2 * cross a" using S(2) by simp
  obtain k where k: "length r = rm" "val r + base ^ (2 * ?n) * k = 2 * cross a + squares a"
    using BinSqr_diag_exact [of a r2 0] assms(2) S(1) v2 by (auto simp: r)
  show "length r = rm" by (rule k(1))
  have "val a * val a < base ^ ?n * base ^ ?n" by (intro mult_strict_mono val_bound) simp_all
  then have "base ^ (2 * ?n) * k < base ^ (2 * ?n) * 1"
    using k(2) cross_squares [of a] unfolding mult_2 power_add by linarith
  then have "k = 0" by simp
  then show "val r = val a * val a" using k(2) cross_squares [of a] by simp
qed

end
