(* ===== verification/Bn_Mod.thy ===== *)
theory Bn_Mod
  imports Bn_Opt Bn_Sqr "HOL-Library.Signed_Division"
begin

text \<open>
  Multiplication, division and modular arithmetic of big numbers (\<^verbatim>\<open>crypto/bn/src/bn_operation.c\<close>, built
  without the option \<^verbatim>\<open>HITLS_CRYPTO_BN_COMBA\<close>): the operations that take temporary numbers from the optimizer.
  The numbers are given by references into the store; \<open>None\<close> is a null pointer, and \<open>opt\<close> says whether an
  optimizer is passed.
\<close>

section \<open>Products\<close>

definition mul_into :: "bn_state \<Rightarrow> bn_ref \<Rightarrow> bn_ref \<Rightarrow> bn_ref \<Rightarrow> bn_state" where
  "mul_into s t a b =
     (let s = put s t ((heap s t)\<lparr>sign := (sign (heap s a) \<noteq> sign (heap s b))\<rparr>);
          (sz, d) = BinMul (room (heap s t)) (take (bnsize (heap s a)) (digits (heap s a)))
                      (take (bnsize (heap s b)) (digits (heap s b)))
      in put s t ((heap s t)\<lparr>digits := d, bnsize := sz\<rparr>))"

definition BN_Mul :: "bn_state \<Rightarrow> bool \<Rightarrow> bn_ref option \<Rightarrow> bn_ref option \<Rightarrow> bn_ref option \<Rightarrow> bn_exec" where
  "BN_Mul s opt r a b =
     (case (r, a, b) of
        (Some r, Some a, Some b) \<Rightarrow>
          if \<not> opt then (CRYPT_NULL_INPUT, s)
          else if bnsize (heap s a) = 0 \<or> bnsize (heap s b) = 0 then zeroize_at s r
          else
            let sz = bnsize (heap s a) + bnsize (heap s b) in
            andThen (extend_at s r sz) (\<lambda>s.
            andThen (OptimizerStart s) (\<lambda>s.
              let (t, s) = (if r = a \<or> r = b then OptimizerGetBn s (room (heap s r)) else (Some r, s)) in
              case t of
                None \<Rightarrow> (CRYPT_BN_OPTIMIZER_GET_FAIL, OptimizerEnd s)
              | Some t \<Rightarrow>
                  let s = mul_into s t a b; (ret, s) = (if r \<noteq> t then copy_at s r t else (CRYPT_SUCCESS, s)) in
                  if ret \<noteq> CRYPT_SUCCESS then (ret, OptimizerEnd s)
                  else
                    let s = put s r ((heap s r)\<lparr>bnsize := BinFixSize (digits (heap s r)) sz\<rparr>)
                    in (CRYPT_SUCCESS, OptimizerEnd s)))
      | _ \<Rightarrow> (CRYPT_NULL_INPUT, s))"

definition BN_Sqr :: "bn_state \<Rightarrow> bool \<Rightarrow> bn_ref option \<Rightarrow> bn_ref option \<Rightarrow> bn_exec" where
  "BN_Sqr s opt r a =
     (case (r, a) of
        (Some r, Some a) \<Rightarrow>
          if \<not> opt then (CRYPT_NULL_INPUT, s)
          else if bnsize (heap s a) = 0 then zeroize_at s r
          else
            andThen (extend_at s r (2 * bnsize (heap s a))) (\<lambda>s.
            andThen (OptimizerStart s) (\<lambda>s.
              let n = bnsize (heap s a);
                  (_, d) = BinSqr (2 * n) (take n (digits (heap s a)));
                  s = put s r ((heap s r)\<lparr>digits := memcpy_at (digits (heap s r)) 0 d\<rparr>);
                  s = put s r ((heap s r)\<lparr>bnsize := BinFixSize (digits (heap s r)) (2 * n), sign := False\<rparr>)
              in (CRYPT_SUCCESS, OptimizerEnd s)))
      | _ \<Rightarrow> (CRYPT_NULL_INPUT, s))"

section \<open>Division\<close>

definition DivInputCheck :: "bn_state \<Rightarrow> bool \<Rightarrow> bn_ref option \<Rightarrow> bn_ref option \<Rightarrow> bn_ref option \<Rightarrow> bn_ref option \<Rightarrow> crypt_ret" where
  "DivInputCheck s opt q r x y =
     (case (x, y) of
        (Some x, Some y) \<Rightarrow>
          if \<not> opt then CRYPT_NULL_INPUT
          else if q = r then CRYPT_INVALID_ARG
          else if bnsize (heap s y) = 0 then CRYPT_BN_ERR_DIVISOR_ZERO
          else CRYPT_SUCCESS
      | _ \<Rightarrow> CRYPT_NULL_INPUT)"

definition DivSimple :: "bn_state \<Rightarrow> bn_ref option \<Rightarrow> bn_ref option \<Rightarrow> bn_ref \<Rightarrow> bn_ref \<Rightarrow> int \<Rightarrow> bn_exec" where
  "DivSimple s q r x y flag =
     (if flag < 0 then
        andThen (case r of Some r \<Rightarrow> copy_at s r x | None \<Rightarrow> (CRYPT_SUCCESS, s)) (\<lambda>s.
          case q of Some q \<Rightarrow> zeroize_at s q | None \<Rightarrow> (CRYPT_SUCCESS, s))
      else
        andThen
          (case q of
             Some q \<Rightarrow>
               let sg = (sign (heap s x) \<noteq> sign (heap s y)) in
               andThen (set_limb_at s q 1) (\<lambda>s. (CRYPT_SUCCESS, put s q ((heap s q)\<lparr>sign := sg\<rparr>)))
           | None \<Rightarrow> (CRYPT_SUCCESS, s)) (\<lambda>s.
          case r of Some r \<Rightarrow> zeroize_at s r | None \<Rightarrow> (CRYPT_SUCCESS, s)))"

text \<open>The division itself, on the temporary numbers.\<close>

definition div_temps :: "bn_state \<Rightarrow> bn_ref \<Rightarrow> bn_ref \<Rightarrow> bn_ref \<Rightarrow> bn_ref \<Rightarrow> bn_ref \<Rightarrow> bn_state" where
  "div_temps s qTmp rTmp yTmp x y =
     (let X = heap s x; Y = heap s y;
          s = put s yTmp ((heap s yTmp)\<lparr>digits := memcpy_at (digits (heap s yTmp)) 0 (take (bnsize Y) (digits Y))\<rparr>);
          s = put s rTmp ((heap s rTmp)\<lparr>digits := memcpy_at (digits (heap s rTmp)) 0 (take (bnsize X) (digits X)), sign := sign X\<rparr>);
          (sz, xd, quot, yd) = BinDiv (Some (digits (heap s qTmp), bnsize (heap s qTmp))) (digits (heap s rTmp)) (bnsize X)
                                 (digits (heap s yTmp)) (bnsize Y);
          s = put s yTmp ((heap s yTmp)\<lparr>digits := yd\<rparr>);
          s = put s rTmp ((heap s rTmp)\<lparr>digits := xd, bnsize := sz\<rparr>)
      in case quot of
           Some (qd, qs) \<Rightarrow> put s qTmp ((heap s qTmp)\<lparr>digits := qd, bnsize := qs\<rparr>)
         | None \<Rightarrow> s)"

text \<open>The result of a division stored: room, sign, digits, size.\<close>

definition store_result :: "bn_state \<Rightarrow> bn_ref \<Rightarrow> bn_ref \<Rightarrow> bool \<Rightarrow> bn_exec" where
  "store_result s r t sg =
     andThen (extend_at s r (bnsize (heap s t))) (\<lambda>s.
       (CRYPT_SUCCESS, put s r ((heap s r)\<lparr>sign := sg, bnsize := bnsize (heap s t),
          digits := memcpy_at (digits (heap s r)) 0 (take (bnsize (heap s t)) (digits (heap s t)))\<rparr>)))"

definition BN_Div :: "bn_state \<Rightarrow> bool \<Rightarrow> bn_ref option \<Rightarrow> bn_ref option \<Rightarrow> bn_ref option \<Rightarrow> bn_ref option \<Rightarrow> bn_exec" where
  "BN_Div s opt q r x y =
     (case (DivInputCheck s opt q r x y, x, y) of
        (CRYPT_SUCCESS, Some x, Some y) \<Rightarrow>
          let cmp = BinCmp (digits (heap s x)) (bnsize (heap s x)) (digits (heap s y)) (bnsize (heap s y)) in
          if cmp \<le> 0 then DivSimple s q r x y cmp
          else
            andThen (OptimizerStart s) (\<lambda>s.
              let (qTmp, s) = OptimizerGetBn s (bnsize (heap s x) + 2);
                  (rTmp, s) = OptimizerGetBn s (bnsize (heap s x) + 2);
                  (yTmp, s) = OptimizerGetBn s (bnsize (heap s y)) in
              case (qTmp, rTmp, yTmp) of
                (Some qTmp, Some rTmp, Some yTmp) \<Rightarrow>
                  let s = div_temps s qTmp rTmp yTmp x y;
                      (ret, s) = andThen
                        (case q of
                           Some q \<Rightarrow> store_result s q qTmp (sign (heap s x) \<noteq> sign (heap s y))
                         | None \<Rightarrow> (CRYPT_SUCCESS, s)) (\<lambda>s.
                         case r of
                           Some r \<Rightarrow> store_result s r rTmp (if bnsize (heap s rTmp) = 0 then False else sign (heap s rTmp))
                         | None \<Rightarrow> (CRYPT_SUCCESS, s))
                  in (ret, OptimizerEnd s)
              | _ \<Rightarrow> (CRYPT_BN_OPTIMIZER_GET_FAIL, OptimizerEnd s))
      | (ret, _) \<Rightarrow> (ret, s))"


text \<open>The loop of \<open>BN_DivLimb\<close> from the most significant digit down: the quotient digits and the remainder.\<close>

fun DivLimb_loop :: "BN_UINT \<Rightarrow> BN_UINT list \<Rightarrow> BN_UINT list \<times> BN_UINT" where
  "DivLimb_loop y [] = ([], 0)"
| "DivLimb_loop y (d # ds) =
     (let (qs, rem) = DivLimb_loop y ds; (quo, rem) = DIV_ND rem d y in (quo # qs, rem))"

text \<open>The copy of \<open>x\<close> that the function works on is a local value. The remainder is written through the
  second pointer, when there is one.\<close>

definition DivLimb_value :: "bool \<Rightarrow> BN_BigNum \<Rightarrow> BN_UINT \<Rightarrow> crypt_ret \<times> BN_BigNum \<times> BN_UINT" where
  "DivLimb_value mem xTmp y =
     (if bnsize xTmp = 0 then (CRYPT_SUCCESS, xTmp, 0)
      else
        let shifts = GetZeroBitsUint y; yTmp = push_bit shifts y;
            (ret, x1) = (if shifts \<noteq> 0 then BN_Lshift mem (Some xTmp) (Some xTmp) shifts else (CRYPT_SUCCESS, Some xTmp)) in
        case x1 of
          None \<Rightarrow> (ret, xTmp, 0)
        | Some x1 \<Rightarrow>
            if ret \<noteq> CRYPT_SUCCESS then (ret, x1, 0)
            else
              let (qs, rem) = DivLimb_loop yTmp (take (bnsize x1) (digits x1));
                  x2 = x1\<lparr>digits := memcpy_at (digits x1) 0 qs\<rparr>;
                  x3 = x2\<lparr>bnsize := BinFixSize (digits x2) (bnsize x2)\<rparr>
              in (CRYPT_SUCCESS, if bnsize x3 = 0 then x3\<lparr>sign := False\<rparr> else x3, drop_bit shifts rem))"

definition BN_DivLimb :: "bn_state \<Rightarrow> bn_ref option \<Rightarrow> bool \<Rightarrow> bn_ref option \<Rightarrow> BN_UINT \<Rightarrow> crypt_ret \<times> BN_UINT option \<times> bn_state" where
  "BN_DivLimb s q r x y =
     (case x of
        None \<Rightarrow> (CRYPT_NULL_INPUT, None, s)
      | Some x \<Rightarrow>
          if q = None \<and> \<not> r then (CRYPT_NULL_INPUT, None, s)
          else if y = 0 then (CRYPT_BN_ERR_DIVISOR_ZERO, None, s)
          else
            let (mem, s) = alloc s in
            case BN_Dup mem (Some (heap s x)) of
              None \<Rightarrow> (CRYPT_MEM_ALLOC_FAIL, None, s)
            | Some xTmp \<Rightarrow>
                let (mem, s) = alloc s; (ret, xTmp, rem) = DivLimb_value mem xTmp y in
                if ret \<noteq> CRYPT_SUCCESS then (ret, None, s)
                else
                  let (ret, s) = (case q of Some q \<Rightarrow> at s q (\<lambda>mem v. BN_Copy mem v (Some xTmp)) | None \<Rightarrow> (CRYPT_SUCCESS, s)) in
                  if ret \<noteq> CRYPT_SUCCESS then (ret, None, s)
                  else (CRYPT_SUCCESS, if r then Some rem else None, s))"

section \<open>Modular arithmetic\<close>

definition BN_Mod :: "bn_state \<Rightarrow> bool \<Rightarrow> bn_ref option \<Rightarrow> bn_ref option \<Rightarrow> bn_ref option \<Rightarrow> bn_exec" where
  "BN_Mod s opt r a m =
     (case (r, a, m) of
        (Some r, Some a, Some m) \<Rightarrow>
          if \<not> opt then (CRYPT_NULL_INPUT, s)
          else if bnsize (heap s m) = 0 then (CRYPT_BN_ERR_DIVISOR_ZERO, s)
          else
            andThen (extend_at s r (bnsize (heap s m))) (\<lambda>s.
            andThen (OptimizerStart s) (\<lambda>s.
              let (t, s) = OptimizerGetBn s (bnsize (heap s m)) in
              case t of
                None \<Rightarrow> (CRYPT_BN_OPTIMIZER_GET_FAIL, OptimizerEnd s)
              | Some t \<Rightarrow>
                  let (ret, s) = andThen (BN_Div s opt None (Some t) (Some a) (Some m)) (\<lambda>s.
                        if \<not> sign (heap s t) then copy_at s r t
                        else if sign (heap s m) then sub_at s r t m
                        else add_at s r t m)
                  in (ret, OptimizerEnd s)))
      | _ \<Rightarrow> (CRYPT_NULL_INPUT, s))"

definition BN_ModLimb :: "bn_state \<Rightarrow> bool \<Rightarrow> bn_ref option \<Rightarrow> BN_UINT \<Rightarrow> crypt_ret \<times> BN_UINT option \<times> bn_state" where
  "BN_ModLimb s r a m =
     (case a of
        None \<Rightarrow> (CRYPT_NULL_INPUT, None, s)
      | Some a \<Rightarrow>
          if \<not> r then (CRYPT_NULL_INPUT, None, s)
          else if m = 0 then (CRYPT_BN_ERR_DIVISOR_ZERO, None, s)
          else if bnsize (heap s a) = 0 then (CRYPT_SUCCESS, Some 0, s)
          else
            let sg = sign (heap s a); (ret, rem, s) = BN_DivLimb s None True (Some a) m in
            if ret \<noteq> CRYPT_SUCCESS then (ret, rem, s)
            else (ret, if sg then map_option (\<lambda>r. m - r) rem else rem, s))"

definition ModBaseInputCheck :: "bn_state \<Rightarrow> bool \<Rightarrow> bn_ref option \<Rightarrow> bn_ref option \<Rightarrow> bn_ref option \<Rightarrow> bn_ref option \<Rightarrow> bn_exec" where
  "ModBaseInputCheck s opt r a b m =
     (case (r, a, b, m) of
        (Some r, Some a, Some b, Some m) \<Rightarrow>
          if \<not> opt then (CRYPT_NULL_INPUT, s)
          else
            andThen (extend_at s r (bnsize (heap s m))) (\<lambda>s.
              if BN_IsZero (Some (heap s m)) then (CRYPT_BN_ERR_DIVISOR_ZERO, s) else (CRYPT_SUCCESS, s))
      | _ \<Rightarrow> (CRYPT_NULL_INPUT, s))"

text \<open>The shape the modular operations share: a temporary number of so many digits, a first operation into
  it, and the reduction.\<close>

definition mod_of :: "bn_state \<Rightarrow> bool \<Rightarrow> bn_ref \<Rightarrow> bn_ref \<Rightarrow> nat \<Rightarrow> (bn_state \<Rightarrow> bn_ref \<Rightarrow> bn_exec) \<Rightarrow> bn_exec" where
  "mod_of s opt r m rm f =
     andThen (OptimizerStart s) (\<lambda>s.
       let (t, s) = OptimizerGetBn s rm in
       case t of
         None \<Rightarrow> (CRYPT_BN_OPTIMIZER_GET_FAIL, OptimizerEnd s)
       | Some t \<Rightarrow>
           let (ret, s) = andThen (f s t) (\<lambda>s. BN_Mod s opt (Some r) (Some t) (Some m))
           in (ret, OptimizerEnd s))"

definition BN_ModSub :: "bn_state \<Rightarrow> bool \<Rightarrow> bn_ref option \<Rightarrow> bn_ref option \<Rightarrow> bn_ref option \<Rightarrow> bn_ref option \<Rightarrow> bn_exec" where
  "BN_ModSub s opt r a b m =
     andThen (ModBaseInputCheck s opt r a b m) (\<lambda>s.
       case (r, a, b, m) of
         (Some r, Some a, Some b, Some m) \<Rightarrow>
           mod_of s opt r m (max (bnsize (heap s a)) (bnsize (heap s b))) (\<lambda>s t. sub_at s t a b)
       | _ \<Rightarrow> (CRYPT_NULL_INPUT, s))"

definition BN_ModAdd :: "bn_state \<Rightarrow> bool \<Rightarrow> bn_ref option \<Rightarrow> bn_ref option \<Rightarrow> bn_ref option \<Rightarrow> bn_ref option \<Rightarrow> bn_exec" where
  "BN_ModAdd s opt r a b m =
     andThen (ModBaseInputCheck s opt r a b m) (\<lambda>s.
       case (r, a, b, m) of
         (Some r, Some a, Some b, Some m) \<Rightarrow>
           mod_of s opt r m (max (bnsize (heap s a)) (bnsize (heap s b))) (\<lambda>s t. add_at s t a b)
       | _ \<Rightarrow> (CRYPT_NULL_INPUT, s))"

definition BN_ModMul :: "bn_state \<Rightarrow> bool \<Rightarrow> bn_ref option \<Rightarrow> bn_ref option \<Rightarrow> bn_ref option \<Rightarrow> bn_ref option \<Rightarrow> bn_exec" where
  "BN_ModMul s opt r a b m =
     andThen (ModBaseInputCheck s opt r a b m) (\<lambda>s.
       case (r, a, b, m) of
         (Some r, Some a, Some b, Some m) \<Rightarrow>
           mod_of s opt r m (bnsize (heap s a) + bnsize (heap s b) + 1) (\<lambda>s t. BN_Mul s opt (Some t) (Some a) (Some b))
       | _ \<Rightarrow> (CRYPT_NULL_INPUT, s))"

definition BN_ModSqr :: "bn_state \<Rightarrow> bool \<Rightarrow> bn_ref option \<Rightarrow> bn_ref option \<Rightarrow> bn_ref option \<Rightarrow> bn_exec" where
  "BN_ModSqr s opt r a m =
     (case (r, a, m) of
        (Some r, Some a, Some m) \<Rightarrow>
          if \<not> opt then (CRYPT_NULL_INPUT, s)
          else if BN_IsZero (Some (heap s m)) then (CRYPT_BN_ERR_DIVISOR_ZERO, s)
          else
            andThen (extend_at s r (bnsize (heap s m))) (\<lambda>s.
              mod_of s opt r m (2 * bnsize (heap s a) + 1) (\<lambda>s t. BN_Sqr s opt (Some t) (Some a)))
      | _ \<Rightarrow> (CRYPT_NULL_INPUT, s))"

text \<open>Exponentiation by repeated squaring, from bit 1 of the exponent up; \<open>n\<close> rounds are left.\<close>

fun ModExpCore_loop :: "bn_state \<Rightarrow> bool \<Rightarrow> bn_ref \<Rightarrow> bn_ref \<Rightarrow> bn_ref \<Rightarrow> bn_ref \<Rightarrow> nat \<Rightarrow> nat \<Rightarrow> bn_exec" where
  "ModExpCore_loop s opt x y e m i 0 = (CRYPT_SUCCESS, s)"
| "ModExpCore_loop s opt x y e m i (Suc n) =
     andThen (BN_ModSqr s opt (Some y) (Some y) (Some m)) (\<lambda>s.
     andThen (if BN_GetBit (Some (heap s e)) i then BN_ModMul s opt (Some x) (Some x) (Some y) (Some m) else (CRYPT_SUCCESS, s)) (\<lambda>s.
       ModExpCore_loop s opt x y e m (i + 1) n))"

definition ModExpCore :: "bn_state \<Rightarrow> bool \<Rightarrow> bn_ref \<Rightarrow> bn_ref \<Rightarrow> bn_ref \<Rightarrow> bn_ref \<Rightarrow> bn_exec" where
  "ModExpCore s opt x y e m =
     (let s = snd (if BN_GetBit (Some (heap s e)) 0 then copy_at s x y else set_limb_at s x 1);
          bits = BN_Bits (Some (heap s e))
      in ModExpCore_loop s opt x y e m 1 (bits - 1))"

end
