(* ===== verification/Bn_Arith.thy ===== *)
theory Bn_Arith
  imports Bn_Mod
begin

text \<open>
  Products and squares of big numbers in the store: the calls on the store when memory is granted, \<open>BN_Mul\<close> and
  \<open>BN_Sqr\<close> on the integers, and the parts of a division (the temporary numbers, the storing of a result).
\<close>

text \<open>The number in a record, apart from its room and flags.\<close>

definition num :: "BN_BigNum \<Rightarrow> bool \<times> BN_UINT list" where
  "num a = (sign a, take (bnsize a) (digits a))"

lemma num_eq:
  assumes "num a = num b" "bn_room a" "bn_room b"
  shows "bnsize a = bnsize b" "sign a = sign b" "mag a = mag b" "bval a = bval b" "bn_wf a = bn_wf b"
    "take (bnsize a) (digits a) = take (bnsize b) (digits b)"
proof -
  have t: "take (bnsize a) (digits a) = take (bnsize b) (digits b)" "sign a = sign b" using assms(1) by (simp_all add: num_def)
  then show s: "bnsize a = bnsize b" using assms(2,3) unfolding bn_room_def by (metis length_take min.absorb2)
  show "sign a = sign b" "mag a = mag b" "bval a = bval b" "bn_wf a = bn_wf b" "take (bnsize a) (digits a) = take (bnsize b) (digits b)"
    using t s assms(2,3) by (simp_all add: mag_def bval_def bn_wf_def)
qed

lemma BnExtend_value:
  assumes "bn_room r" "BnExtend mem r n = (CRYPT_SUCCESS, v)"
  shows "num v = num r" "n \<le> room v" "room v = max (room r) n" "clean r \<Longrightarrow> clean v"
proof -
  consider "v = r" "n \<le> room r"
    | "room r < n" "v = r\<lparr>digits := take (bnsize r) (digits r) @ replicate (n - bnsize r) 0, room := n\<rparr>"
    using assms(2) by (auto simp: BnExtend_def split: if_splits)
  then have "num v = num r \<and> n \<le> room v \<and> room v = max (room r) n \<and> (clean r \<longrightarrow> clean v)"
    using assms(1) by cases (auto simp: num_def bn_room_def clean_def nth_append)
  then show "num v = num r" "n \<le> room v" "room v = max (room r) n" "clean r \<Longrightarrow> clean v" by simp_all
qed

lemma extend_ok:
  assumes i: "opt_inv s" and a: "\<forall>n. allocOk s n" and r: "bn_wf (heap s r)" "has_room True (heap s r) n"
  obtains s' where "extend_at s r n = (CRYPT_SUCCESS, s')" "ext s s' {r}" "pos s' = pos s"
    "room (heap s' r) = max (room (heap s r)) n" "clean (heap s r) \<Longrightarrow> clean (heap s' r)"
    "\<And>x. live s x \<Longrightarrow> num (heap s' x) = num (heap s x)"
proof -
  define f where "f = (\<lambda>mem r. case r of Some r \<Rightarrow> map_prod id Some (BnExtend mem r n) | None \<Rightarrow> (CRYPT_NULL_INPUT, r))"
  have b: "bn_room (heap s r)" by (rule bn_wf_room [OF r(1)])
  have f: "f True (Some (heap s r)) = map_prod id Some (BnExtend True (heap s r) n)" by (simp add: f_def)
  have "bn_returns (f True (Some (heap s r))) (bval (heap s r))" using Extend_returns [OF r] by (simp only: f)
  moreover have "keeps (heap s r) v" if "snd (f True (Some (heap s r))) = Some v" for v
    using BnExtend_kept [of True "heap s r" n] that by (cases "BnExtend True (heap s r) n") (simp add: f)
  ultimately obtain s' where s': "at s r f = (CRYPT_SUCCESS, s')" "ext s s' {r}" "pos s' = pos s"
    "snd (f True (Some (heap s r))) = Some (heap s' r)"
    using at_ok [OF i a, of f r] by metis
  then have e: "BnExtend True (heap s r) n = (CRYPT_SUCCESS, heap s' r)"
    using r(2) BnExtend_success [of True "heap s r" n] by (cases "BnExtend True (heap s r) n") (simp add: f)
  note V = BnExtend_value [OF b e]
  have "num (heap s' x) = num (heap s x)" if "live s x" for x
    using ext_heap [OF s'(2) that] V(1) by (cases "x = r") simp_all
  then show thesis using that [of s'] s' V by (simp add: extend_at_def f_def)
qed


lemma Copy_clean:
  assumes "bn_room r" "bn_wf a" "snd (BN_Copy True (Some r) (Some a)) = Some v" "clean r"
  shows "clean v"
proof (cases "r = a")
  case True
  then show ?thesis using assms(3,4) by (simp add: BN_Copy_def)
next
  case False
  obtain ret r1 where e: "BnExtend True r (bnsize a) = (ret, r1)" by fastforce
  have r1: "clean r1" "bn_room r1" "bnsize r1 = bnsize r"
    using e assms(1,4) by (auto simp: BnExtend_def clean_def bn_room_def nth_append split: if_splits)
  show ?thesis
  proof (cases "ret = CRYPT_SUCCESS")
    case True
    let ?f = "take (bnsize a) (digits a) @ replicate (bnsize r1 - bnsize a) 0"
    have v: "v = r1\<lparr>sign := sign a, digits := memcpy_at (digits r1) 0 ?f, bnsize := bnsize a\<rparr>"
      using assms(3) False e True by (simp add: BN_Copy_def)
    have "bnsize a \<le> room r1" using BnExtend_value(2) [OF assms(1)] e True by simp
    then have l: "length ?f \<le> length (digits r1)" "length ?f = max (bnsize a) (bnsize r1)" "length (digits r1) = room r1"
      using r1 bn_wfD(1) [OF assms(2)] by (auto simp: bn_room_def)
    have "memcpy_at (digits r1) 0 ?f ! i = 0" if "i < room r1" "bnsize a \<le> i" for i
      using that l r1(1) bn_wfD(1) [OF assms(2)] nth_memcpy_at [of 0 ?f "digits r1" i] by (auto simp: clean_def nth_append)
    then show ?thesis by (simp add: v clean_def)
  next
    case no: False
    then show ?thesis using assms(3) False e r1(1) by (simp add: BN_Copy_def)
  qed
qed

text \<open>The calls of the store, when memory is granted.\<close>

lemma copy_ok:
  assumes "opt_inv s" "\<forall>n. allocOk s n" "bn_wf (heap s a)" "has_room True (heap s r) (bnsize (heap s a))"
  obtains s' where "copy_at s r a = (CRYPT_SUCCESS, s')" "ext s s' {r}" "pos s' = pos s"
    "bn_wf (heap s' r)" "bval (heap s' r) = bval (heap s a)" "clean (heap s r) \<Longrightarrow> clean (heap s' r)"
  using at_ok [OF assms(1,2), of "\<lambda>mem x. BN_Copy mem x (Some (heap s a))" r "bval (heap s a)"]
    Copy_returns [OF opt_inv_simps(3) [OF assms(1)] assms(3,4)] Copy_kept [of True "heap s r" "heap s a"]
    Copy_clean [OF opt_inv_simps(3) [OF assms(1)] assms(3)]
  unfolding copy_at_def by metis

lemma zeroize_ok:
  assumes "opt_inv s" "\<forall>n. allocOk s n"
  obtains s' where "zeroize_at s r = (CRYPT_SUCCESS, s')" "ext s s' {r}" "pos s' = pos s"
    "bn_wf (heap s' r)" "bval (heap s' r) = 0"
  using at_ok [OF assms(1,2), of "\<lambda>mem. BN_Zeroize" r 0]
    zeroize_returns [OF opt_inv_simps(3) [OF assms(1)]] Zeroize_kept [of "heap s r"]
  unfolding zeroize_at_def by blast

lemma limb_ok:
  assumes "opt_inv s" "\<forall>n. allocOk s n" "bn_wf (heap s r)" "has_room True (heap s r) 1"
  obtains s' where "set_limb_at s r w = (CRYPT_SUCCESS, s')" "ext s s' {r}" "pos s' = pos s"
    "bn_wf (heap s' r)" "bval (heap s' r) = int (unat w)"
proof -
  have "bn_returns (BN_SetLimb True (Some (heap s r)) w) (int (unat w))"
    using SetLimb_returns [OF assms(3,4), of w] by (auto simp: bn_returns_def)
  then show thesis
    using at_ok [OF assms(1,2), of "\<lambda>mem x. BN_SetLimb mem x w" r "int (unat w)"] SetLimb_kept [of True "heap s r" w] that
    unfolding set_limb_at_def by blast
qed

text \<open>The product of two digit arrays in a record.\<close>

lemma mul_value:
  assumes w: "bn_wf a" "bn_wf b" "bnsize a \<noteq> 0" "bnsize b \<noteq> 0" and t: "bnsize a + bnsize b \<le> room t"
    and m: "BinMul (room t) (take (bnsize a) (digits a)) (take (bnsize b) (digits b)) = (sz, d)"
  defines "v \<equiv> t\<lparr>sign := (sign a \<noteq> sign b), digits := d, bnsize := sz\<rparr>"
  shows "bn_wf v" "bval v = bval a * bval b" "val d = mag a * mag b" "length d = room t" "sz \<le> bnsize a + bnsize b" "mag v = mag a * mag b"
proof -
  let ?A = "take (bnsize a) (digits a)" and ?B = "take (bnsize b) (digits b)"
  have l: "length ?A = bnsize a" "length ?B = bnsize b" using bn_wfD(1) [OF w(1)] bn_wfD(1) [OF w(2)] by simp_all
  then have ne: "?A \<noteq> []" "?B \<noteq> []" using w(3,4) by (metis list.size(3))+
  then have "last ?A \<noteq> 0" "last ?B \<noteq> 0" using bn_wfD(2) [OF w(1)] bn_wfD(2) [OF w(2)] by (auto simp: normal_def)
  with BinMul_sized [of ?A ?B "room t"] m t l ne
  have e: "length d = room t" "sz \<le> room t" "val (take sz d) = mag a * mag b" "normal (take sz d)" by (simp_all add: mag_def)
  have nz: "mag a \<noteq> 0" "mag b \<noteq> 0" using mag_0 [OF w(1)] mag_0 [OF w(2)] w(3,4) by simp_all
  have "sz \<noteq> 0" using e(3) nz by (metis mult_eq_0_iff take_0 val.simps(1))
  then show "bn_wf v" using e by (simp add: v_def bn_wf_def bn_room_def)
  show "bval v = bval a * bval b" using e(3) by (auto simp: v_def bval_def mag_def)
  show "length d = room t" by (rule e(1))
  show "mag v = mag a * mag b" using e(3) by (simp add: mag_def v_def)
  show "sz \<le> bnsize a + bnsize b" using m l by (auto simp: BinMul_def Let_def split: prod.splits)
  show "val d = mag a * mag b" using BinMul_exact(2) [OF _ m] t l by (simp add: mag_def)
qed


lemma ext_same: "ext s s' {r} \<Longrightarrow> ext s' s'' {r} \<Longrightarrow> opt_inv s \<Longrightarrow> ext s s'' {r}"
  using ext_trans' [of s s' "{r}" s'' "{r}"] by simp

lemma fresh_neq: "fresh s s' t n \<Longrightarrow> live s x \<Longrightarrow> x \<noteq> t"
  by (auto simp: fresh_def)

text \<open>Changes to a fresh slot are not seen by the numbers live before.\<close>

lemma ext_hide:
  assumes "ext s s1 V" "ext s1 s2 (insert t W)" "\<not> live s t" "opt_inv s" "V \<subseteq> W"
  shows "ext s s2 W"
proof -
  have e: "ext s s2 (V \<union> insert t W)" by (rule ext_trans' [OF assms(4,1,2)])
  have "r \<in> W \<or> heap s2 r = heap s r" if "live s r" for r
    using e that assms(3,5) by (auto simp: ext_def)
  then show ?thesis using e by (simp add: ext_def)
qed

lemma clean_val:
  assumes "bn_wf v" "val (digits v) = mag v"
  shows "clean v"
proof -
  have l: "bnsize v \<le> length (digits v)" "length (digits v) = room v" using bn_wfD(1) assms(1) by (auto simp: bn_wf_def bn_room_def)
  have "val (drop (bnsize v) (digits v)) = 0" using val_split [OF l(1)] assms(2) by (simp add: mag_def base_def)
  then have "drop (bnsize v) (digits v) = replicate (room v - bnsize v) 0" using zero_digits [of "drop (bnsize v) (digits v)"] l by simp
  then have "drop (bnsize v) (digits v) ! (i - bnsize v) = 0" if "bnsize v \<le> i" "i < room v" for i using that by simp
  then show ?thesis using l by (auto simp: clean_def)
qed

lemma same_size:
  assumes "bn_wf a" "bn_wf b" "bval a = bval b"
  shows "bnsize a = bnsize b"
proof -
  have "mag a = mag b" using assms(3) by (auto simp: bval_def split: if_splits)
  then show ?thesis using mag_size_mono [OF assms(1,2)] mag_size_mono [OF assms(2,1)] by simp
qed

lemma mul_into_ok:
  assumes i: "opt_inv s" and t: "t \<noteq> a" "t \<noteq> b" "bnsize (heap s a) + bnsize (heap s b) \<le> room (heap s t)"
    and w: "bn_wf (heap s a)" "bn_wf (heap s b)" "bnsize (heap s a) \<noteq> 0" "bnsize (heap s b) \<noteq> 0"
  shows "ext s (mul_into s t a b) {t}" "pos (mul_into s t a b) = pos s" "bn_wf (heap (mul_into s t a b) t)"
    "bval (heap (mul_into s t a b) t) = bval (heap s a) * bval (heap s b)"
    "clean (heap (mul_into s t a b) t)" "bnsize (heap (mul_into s t a b) t) \<le> bnsize (heap s a) + bnsize (heap s b)"
proof -
  let ?A = "take (bnsize (heap s a)) (digits (heap s a))" and ?B = "take (bnsize (heap s b)) (digits (heap s b))"
  obtain sz d where m: "BinMul (room (heap s t)) ?A ?B = (sz, d)" by fastforce
  define v where "v = (heap s t)\<lparr>sign := (sign (heap s a) \<noteq> sign (heap s b)), digits := d, bnsize := sz\<rparr>"
  have e: "mul_into s t a b = put s t v"
    using m t(1,2) by (simp add: mul_into_def put_def Let_def v_def)
  note V = mul_value [OF w t(3) m, folded v_def]
  show "clean (heap (mul_into s t a b) t)" using clean_val [OF V(1)] V(3,6) by (simp add: e put_def) (simp add: v_def)
  have "keeps (heap s t) v" by (simp add: v_def keeps_def)
  then show "ext s (mul_into s t a b) {t}" unfolding e using ext_put [OF i bn_wf_room [OF V(1)]] by blast
  show "pos (mul_into s t a b) = pos s" "bn_wf (heap (mul_into s t a b) t)"
    "bval (heap (mul_into s t a b) t) = bval (heap s a) * bval (heap s b)"
    "bnsize (heap (mul_into s t a b) t) \<le> bnsize (heap s a) + bnsize (heap s b)"
    using V by (simp_all add: e put_def pos_def v_def)
qed

text \<open>Setting the size again with the trimming loop over \<open>n\<close> digits changes nothing, when the digits above
  those in use are zero.\<close>

lemma BinFixSize_again:
  assumes "bn_wf v" "n \<le> room v" "bnsize v \<le> n" "\<And>i. bnsize v \<le> i \<Longrightarrow> i < n \<Longrightarrow> digits v ! i = 0"
  shows "BinFixSize (digits v) n = bnsize v"
  using assms(2-4)
proof (induction n)
  case (Suc n)
  show ?case
  proof (cases "bnsize v = Suc n")
    case True
    have "last (take (Suc n) (digits v)) \<noteq> 0" using assms(1) Suc.prems(1) True by (auto simp: bn_wf_def normal_def bn_room_def)
    moreover have "last (take (Suc n) (digits v)) = digits v ! n" using assms(1) Suc.prems(1)
      by (simp add: take_Suc_conv_app_nth bn_wf_def bn_room_def)
    ultimately show ?thesis using True by simp
  qed (use Suc in simp)
qed simp


lemma resize_id:
  assumes "bn_wf (heap s r)" "clean (heap s r)" "n \<le> room (heap s r)" "bnsize (heap s r) \<le> n"
  shows "put s r ((heap s r)\<lparr>bnsize := BinFixSize (digits (heap s r)) n\<rparr>) = s"
  using BinFixSize_again [OF assms(1,3,4)] assms(2,3) by (simp add: clean_def put_def)


lemma BN_Mul_ok:
  assumes i: "opt_inv s" and al: "\<forall>n. allocOk s n" and d: "deep s < 10" and lv: "live s r" "live s a" "live s b"
    and w: "bn_wf (heap s r)" "bn_wf (heap s a)" "bn_wf (heap s b)"
    and rm: "has_room True (heap s r) (bnsize (heap s a) + bnsize (heap s b))"
    and overlap: "r = a \<or> r = b \<longrightarrow> clean (heap s r) \<and> room (heap s r) \<le> BITS_TO_BN_UNIT BN_MAX_BITS"
  obtains s' where "BN_Mul s True (Some r) (Some a) (Some b) = (CRYPT_SUCCESS, s')" "ext s s' {r}" "pos s' = pos s"
    "bn_wf (heap s' r)" "bval (heap s' r) = bval (heap s a) * bval (heap s b)"
proof (cases "bnsize (heap s a) = 0 \<or> bnsize (heap s b) = 0")
  case True
  then have z: "bval (heap s a) * bval (heap s b) = 0" by (auto simp: bval_def mag_def)
  have "BN_Mul s True (Some r) (Some a) (Some b) = zeroize_at s r" using True by (auto simp: BN_Mul_def)
  then show thesis using zeroize_ok [OF i al, of r] that z by metis
next
  case False
  define n where "n = bnsize (heap s a) + bnsize (heap s b)"
  obtain s1 where E: "extend_at s r n = (CRYPT_SUCCESS, s1)" "ext s s1 {r}" "pos s1 = pos s" "room (heap s1 r) = max (room (heap s r)) n"
    "clean (heap s r) \<Longrightarrow> clean (heap s1 r)" "\<And>x. live s x \<Longrightarrow> num (heap s1 x) = num (heap s x)"
    using extend_ok [OF i al w(1) rm] unfolding n_def by metis
  note i1 = ext_inv [OF E(2)]
  have al1: "\<forall>n. allocOk s1 n" and d1: "deep s1 < 10" using E(2) al d by (simp_all add: ext_def)
  have nn: "bnsize (heap s1 x) = bnsize (heap s x)" "bval (heap s1 x) = bval (heap s x)" "bn_wf (heap s1 x) = bn_wf (heap s x)"
    if "live s x" for x using num_eq [OF E(6) [OF that]] opt_inv_simps(3) i i1 by blast+
  obtain s2 where S: "OptimizerStart s1 = (CRYPT_SUCCESS, s2)" "opt_inv s2" "deep s2 = Suc (deep s1)" "used s2 ! deep s1 = 0"
    "pos s2 = pos s1" "heap s2 = heap s1" "allocOk s2 = allocOk s1" "live s2 = live s1"
    using OptimizerStart_ok [OF i1 d1] by metis
  have lv1: "live s1 r" "live s1 a" "live s1 b" using lv ext_live [OF E(2)] by blast+
  have room1: "n \<le> room (heap s1 r)" "r = a \<or> r = b \<longrightarrow> room (heap s1 r) \<le> BITS_TO_BN_UNIT BN_MAX_BITS"
    using E(4) rm overlap by (auto simp: n_def has_room_def)
  note ret = that
  have fin: thesis if b: "BN_Mul s True (Some r) (Some a) (Some b) = (CRYPT_SUCCESS, OptimizerEnd s5)"
    and "ext s2 s5 {r}" "bn_wf (heap s5 r)" "bval (heap s5 r) = bval (heap s a) * bval (heap s b)" for s5
  proof (rule ret [OF b])
    note F = frame_closed [OF i1 d1 S(1) that(2)]
    show "ext s (OptimizerEnd s5) {r}" by (rule ext_same [OF E(2) F(1) i])
    show "pos (OptimizerEnd s5) = pos s" using F(2) E(3) by simp
    have "heap (OptimizerEnd s5) = heap s5"
      using that(2) S(3) by (intro OptimizerEnd_ok(5)) (simp_all add: ext_def)
    then show "bn_wf (heap (OptimizerEnd s5) r)" "bval (heap (OptimizerEnd s5) r) = bval (heap s a) * bval (heap s b)" using that(3,4) by simp_all
  qed
  show thesis
  proof (cases "r = a \<or> r = b")
    case no: False
    let ?s = "mul_into s2 r a b"
    have M: "ext s2 ?s {r}" "bn_wf (heap ?s r)" "bval (heap ?s r) = bval (heap s a) * bval (heap s b)" "clean (heap ?s r)" "bnsize (heap ?s r) \<le> n"
      using mul_into_ok [OF S(2), of r a b] no S(6) nn lv w False room1(1) by (auto simp: n_def)
    have "n \<le> room (heap ?s r)" using room1(1) ext_keeps [OF M(1), of r] S(6,8) lv1 by (simp add: keeps_def)
    note R = resize_id [OF M(2,4) this M(5)]
    show thesis
    proof (rule fin [OF _ M(1-3)])
      show "BN_Mul s True (Some r) (Some a) (Some b) = (CRYPT_SUCCESS, OptimizerEnd ?s)"
        using False no E(1) S(1) R by (auto simp: BN_Mul_def n_def andThen_def Let_def)
    qed
  next
    case yes: True
    have "used s2 ! (deep s2 - 1) < 2 ^ 32 - 1" "0 < deep s2" "\<forall>n. allocOk s2 n" using S(3,4,7) al1 by simp_all
    then obtain t s3 where G: "OptimizerGetBn s2 (room (heap s2 r)) = (Some t, s3)" "ext s2 s3 {}" "fresh s2 s3 t (room (heap s2 r))"
      using GetBn_ok [OF S(2), of "room (heap s2 r)"] room1(2) yes S(6) by metis
    have lv2: "live s2 r" "live s2 a" "live s2 b" using lv1 S(8) by simp_all
    note tn = fresh_neq [OF G(3) lv2(1)] fresh_neq [OF G(3) lv2(2)] fresh_neq [OF G(3) lv2(3)]
    have h3: "heap s3 x = heap s1 x" if "live s2 x" for x using ext_heap [OF G(2) that] S(6) by simp
    have tr: "n \<le> room (heap s3 t)" using G(3) room1(1) S(6) by (simp add: fresh_def)
    let ?s = "mul_into s3 t a b"
    have M: "ext s3 ?s {t}" "bn_wf (heap ?s t)" "bval (heap ?s t) = bval (heap s a) * bval (heap s b)" "bnsize (heap ?s t) \<le> n"
      using mul_into_ok [OF ext_inv [OF G(2)], of t a b] tn h3 lv2 nn lv w False tr by (auto simp: n_def)
    have h4: "heap ?s r = heap s1 r" using ext_heap [OF M(1) ext_live [OF G(2) lv2(1)]] tn h3 [OF lv2(1)] by simp
    note i4 = ext_inv [OF M(1)]
    have al4: "\<forall>n. allocOk ?s n" using M(1) G(2) S(7) al1 by (simp add: ext_def)
    have "has_room True (heap ?s r) (bnsize (heap ?s t))" using h4 room1(1) M(4) by (simp add: has_room_def)
    then obtain s5 where C: "copy_at ?s r t = (CRYPT_SUCCESS, s5)" "ext ?s s5 {r}" "bn_wf (heap s5 r)"
      "bval (heap s5 r) = bval (heap ?s t)" "clean (heap ?s r) \<Longrightarrow> clean (heap s5 r)"
      using copy_ok [OF i4 al4 M(2)] by metis
    have lv5: "live ?s r" using lv2(1) ext_live [OF G(2)] ext_live [OF M(1)] by blast
    have R: "put s5 r ((heap s5 r)\<lparr>bnsize := BinFixSize (digits (heap s5 r)) n\<rparr>) = s5"
    proof (rule resize_id [OF C(3)])
      show "clean (heap s5 r)" using C(5) h4 E(5) overlap yes by simp
      show "n \<le> room (heap s5 r)" using room1(1) h4 ext_keeps [OF C(2), of r] lv5 by (simp add: keeps_def)
      show "bnsize (heap s5 r) \<le> n" using same_size [OF C(3) M(2) C(4)] M(4) by simp
    qed
    have "ext s3 s5 (insert t {r})" using ext_trans' [OF ext_inv [OF G(2)] M(1) C(2)] by (simp add: insert_commute)
    then have "ext s2 s5 {r}" using ext_hide [OF G(2) _ _ S(2)] G(3) by (simp add: fresh_def)
    then show thesis
    proof (rule fin [rotated])
      show "BN_Mul s True (Some r) (Some a) (Some b) = (CRYPT_SUCCESS, OptimizerEnd s5)"
        using False yes E(1) S(1) R G(1) C(1) tn by (auto simp: BN_Mul_def n_def andThen_def Let_def)
    qed (use C M in simp_all)
  qed
qed


section \<open>Squares\<close>

lemma BN_Sqr_ok:
  assumes i: "opt_inv s" and al: "\<forall>n. allocOk s n" and d: "deep s < 10" and lv: "live s r" "live s a" and ne: "r \<noteq> a"
    and w: "bn_wf (heap s r)" "bn_wf (heap s a)" and rm: "has_room True (heap s r) (2 * bnsize (heap s a))"
  obtains s' where "BN_Sqr s True (Some r) (Some a) = (CRYPT_SUCCESS, s')" "ext s s' {r}" "pos s' = pos s"
    "bn_wf (heap s' r)" "bval (heap s' r) = bval (heap s a) * bval (heap s a)"
proof (cases "bnsize (heap s a) = 0")
  case True
  then have z: "bval (heap s a) * bval (heap s a) = 0" by (auto simp: bval_def mag_def)
  have "BN_Sqr s True (Some r) (Some a) = zeroize_at s r" using True by (auto simp: BN_Sqr_def)
  then show thesis using zeroize_ok [OF i al, of r] that z by metis
next
  case False
  define n where "n = bnsize (heap s a)"
  obtain s1 where E: "extend_at s r (2 * n) = (CRYPT_SUCCESS, s1)" "ext s s1 {r}" "pos s1 = pos s" "room (heap s1 r) = max (room (heap s r)) (2 * n)"
    using extend_ok [OF i al w(1) rm] unfolding n_def by metis
  note i1 = ext_inv [OF E(2)]
  have d1: "deep s1 < 10" using E(2) d by (simp add: ext_def)
  have ha: "heap s1 a = heap s a" using ext_heap [OF E(2) lv(2)] ne by simp
  obtain s2 where S: "OptimizerStart s1 = (CRYPT_SUCCESS, s2)" "opt_inv s2" "deep s2 = Suc (deep s1)" "heap s2 = heap s1"
    using OptimizerStart_ok [OF i1 d1] by metis
  let ?A = "take n (digits (heap s a))"
  obtain z dg where q: "BinSqr (2 * n) ?A = (z, dg)" by fastforce
  have lA: "length ?A = n" using bn_wfD(1) [OF w(2)] by (simp add: n_def)
  have "?A \<noteq> []" using lA False by (metis list.size(3) n_def)
  note Q = BinSqr_exact [OF this _ q, unfolded lA, OF order_refl]
  define D where "D = memcpy_at (digits (heap s1 r)) 0 dg"
  define v where "v = (heap s1 r)\<lparr>digits := D, bnsize := BinFixSize D (2 * n), sign := False\<rparr>"
  have rr: "bn_room (heap s1 r)" using opt_inv_simps(3) [OF i1] .
  have lD: "length D = room (heap s1 r)" "take (2 * n) D = dg" "2 * n \<le> length D"
    using rr E(4) Q(1) store [OF rr, of dg] by (simp_all add: D_def)
  have mv: "mag v = mag (heap s a) * mag (heap s a)"
    using BinFixSize_val [OF lD(3)] lD(2) Q(2) by (simp add: v_def mag_def n_def)
  have wv: "bn_wf v" using lD normal_Fix [OF lD(3)] BinFixSize_le [of D "2 * n"] by (simp add: v_def bn_wf_def bn_room_def)
  have b: "BN_Sqr s True (Some r) (Some a) = (CRYPT_SUCCESS, OptimizerEnd (put s2 r v))"
    using False E(1) S(1,4) ha q by (simp add: BN_Sqr_def n_def [symmetric] andThen_def Let_def put_def v_def D_def)
  have P: "ext s2 (put s2 r v) {r}" using S(4) by (intro ext_put [OF S(2) bn_wf_room [OF wv]]) (simp add: v_def keeps_def)
  note F = frame_closed [OF i1 d1 S(1) P]
  have h: "heap (OptimizerEnd (put s2 r v)) = heap (put s2 r v)" using P S(3) by (intro OptimizerEnd_ok(5)) (simp_all add: ext_def)
  have "bval v = bval (heap s a) * bval (heap s a)" using mv by (auto simp: bval_def v_def)
  then show thesis using that [OF b ext_same [OF E(2) F(1) i]] F(2) E(3) h wv by (simp add: put_def)
qed


section \<open>Division\<close>

lemma sdiv_signs:
  fixes a b :: nat
  assumes "b \<noteq> 0"
  shows "(if s then - int a else int a) sdiv (if t then - int b else int b) = (if s \<noteq> t then - int (a div b) else int (a div b))"
    "(if s then - int a else int a) smod (if t then - int b else int b) = (if s then - int (a mod b) else int (a mod b))"
  using assms by (auto simp: signed_divide_int_def signed_modulo_int_def zdiv_int zmod_int minus_div_mult_eq_mod [symmetric] algebra_simps)

text \<open>The division on the temporary numbers.\<close>

lemma div_temps_ok:
  assumes i: "opt_inv s" and w: "bn_wf (heap s x)" "bn_wf (heap s y)" and le: "0 < bnsize (heap s y)" "bnsize (heap s y) \<le> bnsize (heap s x)"
    and t: "distinct [q, r, t]" "x \<notin> {q, r, t}" "y \<notin> {q, r, t}"
    and z: "\<And>u. u \<in> {q, r, t} \<Longrightarrow> digits (heap s u) = replicate (room (heap s u)) 0"
      "\<And>u. u \<in> {q, r, t} \<Longrightarrow> bnsize (heap s u) = 0 \<and> \<not> sign (heap s u)"
    and rm: "bnsize (heap s x) + 2 \<le> room (heap s q)" "bnsize (heap s x) + 2 \<le> room (heap s r)" "bnsize (heap s y) \<le> room (heap s t)"
  defines "s' \<equiv> div_temps s q r t x y"
  shows "ext s s' {q, r, t}" "pos s' = pos s"
    "bn_room (heap s' q)" "normal (take (bnsize (heap s' q)) (digits (heap s' q)))" "mag (heap s' q) = mag (heap s x) div mag (heap s y)"
    "bn_room (heap s' r)" "normal (take (bnsize (heap s' r)) (digits (heap s' r)))" "mag (heap s' r) = mag (heap s x) mod mag (heap s y)"
    "sign (heap s' r) = sign (heap s x)"
proof -
  let ?X = "heap s x" and ?Y = "heap s y"
  define yd where "yd = memcpy_at (digits (heap s t)) 0 (take (bnsize ?Y) (digits ?Y))"
  define xd where "xd = memcpy_at (digits (heap s r)) 0 (take (bnsize ?X) (digits ?X))"
  obtain sz x' quot y' where b: "BinDiv (Some (digits (heap s q), 0)) xd (bnsize ?X) yd (bnsize ?Y) = (sz, x', quot, y')" by (metis prod_cases4)
  have lX: "length (take (bnsize ?X) (digits ?X)) = bnsize ?X" "length (take (bnsize ?Y) (digits ?Y)) = bnsize ?Y"
    using bn_wfD(1) [OF w(1)] bn_wfD(1) [OF w(2)] by simp_all
  note rms = opt_inv_simps(3) [OF i]
  have x: "take (bnsize ?X) xd = take (bnsize ?X) (digits ?X)" "length xd = room (heap s r)" "val (drop (bnsize ?X) xd) = 0"
    using store [OF rms, of "take (bnsize ?X) (digits ?X)" r] lX rm z(1) [of r] by (simp_all add: xd_def) (simp add: memcpy_at_def)
  have y: "take (bnsize ?Y) yd = take (bnsize ?Y) (digits ?Y)" "length yd = room (heap s t)"
    using store [OF rms, of "take (bnsize ?Y) (digits ?Y)" t] lX rm by (simp_all add: yd_def)
  have ytop: "yd ! (bnsize ?Y - 1) \<noteq> 0"
  proof -
    have "yd ! (bnsize ?Y - 1) = last (take (bnsize ?Y) (digits ?Y))" using y le(1) lX
      by (metis One_nat_def diff_less last_conv_nth length_0_conv less_not_refl nth_take zero_less_one)
    moreover have "take (bnsize ?Y) (digits ?Y) \<noteq> []" using lX(2) le(1) by (metis length_0_conv less_not_refl)
    ultimately show ?thesis using bn_wfD(2) [OF w(2)] by (simp add: normal_def)
  qed
  have q0: "Some (digits (heap s q), 0 :: nat) = None \<or> Some (digits (heap s q), 0) = Some (replicate (room (heap s q)) 0, 0)"
    using z(1) [of q] by simp
  have "bnsize ?Y \<le> length yd" "bnsize ?X < length xd" "bnsize ?X + 1 - bnsize ?Y \<le> room (heap s q)" using y(2) x(2) rm le by simp_all
  note B = BinDiv_exact [OF le(1) this(1) ytop le(2) this(2) x(3) this(3) b q0, unfolded x(1) y(1)]
  obtain qd qs where Q: "quot = Some (qd, qs)" "length qd = room (heap s q)" "qs \<le> room (heap s q)" "val (take qs qd) = mag ?X div mag ?Y" "normal (take qs qd)"
    using B(6) by (auto simp: mag_def)
  define qv where "qv = (heap s q)\<lparr>digits := qd, bnsize := qs\<rparr>"
  define rv where "rv = (heap s r)\<lparr>digits := x', sign := sign ?X, bnsize := sz\<rparr>"
  define tv where "tv = (heap s t)\<lparr>digits := y'\<rparr>"
  have s': "s' = put (put (put s t tv) r rv) q qv"
    using t b z(2) [of q] Q(1)
    by (auto simp: s'_def div_temps_def Let_def put_def xd_def [symmetric] yd_def [symmetric] qv_def rv_def tv_def fun_eq_iff)
  have R: "bn_room tv" "bn_room rv" "bn_room qv" "keeps (heap s t) tv" "keeps (heap s r) rv" "keeps (heap s q) qv"
    using B(1-3) y(2) x(2) Q(2,3) z(2) [of t] by (simp_all add: tv_def rv_def qv_def bn_room_def keeps_def)
  have h: "heap s' q = qv" "heap s' r = rv" using t(1) by (auto simp: s' put_def)
  have "ext s (put s t tv) {t}" using ext_put [OF i R(1,4)] .
  moreover from ext_put [OF ext_inv [OF this] R(2), of r]
  have "ext (put s t tv) (put (put s t tv) r rv) {r}" using t(1) R(5) by (simp add: put_def)
  moreover from ext_put [OF ext_inv [OF this] R(3), of q]
  have "ext (put (put s t tv) r rv) s' {q}" using t(1) R(6) by (simp add: s' put_def)
  ultimately have "ext s s' ({t} \<union> {r} \<union> {q})" using ext_trans' [OF i] by blast
  then show "ext s s' {q, r, t}" by (simp add: insert_commute)
  show "pos s' = pos s" by (simp add: s' put_def pos_def)
  show "bn_room (heap s' q)" "normal (take (bnsize (heap s' q)) (digits (heap s' q)))" "mag (heap s' q) = mag (heap s x) div mag (heap s y)"
    "bn_room (heap s' r)" "normal (take (bnsize (heap s' r)) (digits (heap s' r)))" "mag (heap s' r) = mag (heap s x) mod mag (heap s y)"
    "sign (heap s' r) = sign (heap s x)"
    using R(2,3) Q(4,5) B(4,5) unfolding h by (simp_all add: qv_def rv_def mag_def)
qed


lemma store_result_ok:
  assumes i: "opt_inv s" and al: "\<forall>n. allocOk s n" and lv: "live s r" "live s t" "r \<noteq> t"
    and w: "bn_wf (heap s r)" "has_room True (heap s r) (bnsize (heap s t))"
    and v: "bn_room (heap s t)" "normal (take (bnsize (heap s t)) (digits (heap s t)))" "sg \<longrightarrow> mag (heap s t) \<noteq> 0"
  obtains s' where "store_result s r t sg = (CRYPT_SUCCESS, s')" "ext s s' {r}" "pos s' = pos s" "bn_wf (heap s' r)"
    "bval (heap s' r) = (if sg then - int (mag (heap s t)) else int (mag (heap s t)))"
proof -
  obtain s1 where E: "extend_at s r (bnsize (heap s t)) = (CRYPT_SUCCESS, s1)" "ext s s1 {r}" "pos s1 = pos s"
    "room (heap s1 r) = max (room (heap s r)) (bnsize (heap s t))"
    using extend_ok [OF i al w] by metis
  note i1 = ext_inv [OF E(2)]
  have ht: "heap s1 t = heap s t" using ext_heap [OF E(2) lv(2)] lv(3) by simp
  let ?T = "take (bnsize (heap s t)) (digits (heap s t))"
  define u where "u = (heap s1 r)\<lparr>sign := sg, bnsize := bnsize (heap s t), digits := memcpy_at (digits (heap s1 r)) 0 ?T\<rparr>"
  have lT: "length ?T = bnsize (heap s t)" using v(1) by (simp add: bn_room_def)
  have st: "length (memcpy_at (digits (heap s1 r)) 0 ?T) = room (heap s1 r)" "take (bnsize (heap s t)) (memcpy_at (digits (heap s1 r)) 0 ?T) = ?T"
    using store [OF opt_inv_simps(3) [OF i1], of ?T r] lT E(4) by simp_all
  have m: "mag u = mag (heap s t)" using st(2) by (simp add: u_def mag_def)
  have "bnsize (heap s t) \<noteq> 0" if sg using v(3) that by (cases "bnsize (heap s t)") (simp_all add: mag_def)
  then have wu: "bn_wf u" using st v(2) E(4) by (auto simp: u_def bn_wf_def bn_room_def)
  have e: "ext s1 (put s1 r u) {r}" by (rule ext_put [OF i1 bn_wf_room [OF wu]]) (simp add: u_def keeps_def)
  have "store_result s r t sg = (CRYPT_SUCCESS, put s1 r u)"
    using E(1) ht by (simp add: store_result_def andThen_def u_def)
  moreover have "bval u = (if sg then - int (mag (heap s t)) else int (mag (heap s t)))"
    unfolding bval_def m by (simp add: u_def)
  moreover have "heap (put s1 r u) r = u" "pos (put s1 r u) = pos s" using E(3) by (simp_all add: put_def pos_def)
  ultimately show thesis using that [OF _ ext_same [OF E(2) e i]] wu by simp
qed

lemma andThen_success [simp]: "andThen (CRYPT_SUCCESS, s) f = f s"
  by (simp add: andThen_def)

text \<open>A call on a number whose pointer may be null.\<close>

lemma optional_ok:
  assumes "opt_inv s"
    and "\<And>q'. q = Some q' \<Longrightarrow> \<exists>s'. f q' = (CRYPT_SUCCESS, s') \<and> ext s s' {q'} \<and> pos s' = pos s \<and> bn_wf (heap s' q') \<and> bval (heap s' q') = v"
  obtains s' where "(case q of Some q \<Rightarrow> f q | None \<Rightarrow> (CRYPT_SUCCESS, s)) = (CRYPT_SUCCESS, s')" "ext s s' (set_option q)" "pos s' = pos s"
    "\<And>q'. q = Some q' \<Longrightarrow> bn_wf (heap s' q') \<and> bval (heap s' q') = v"
proof (cases q)
  case None
  then show thesis using that [of s] ext_refl [OF assms(1)] by simp
next
  case (Some q')
  then show thesis using assms(2) [OF Some] that by auto
qed

end
