(* ===== verification/Bn_Quot.thy ===== *)
theory Bn_Quot
  imports Bn_Arith
begin

text \<open>
  Division and reduction of big numbers in the store: the simple cases, the frame of three temporary numbers,
  \<open>BN_Div\<close> and \<open>BN_Mod\<close> on the integers.
\<close>

lemma DivSimple_ok:
  assumes i: "opt_inv s" and al: "\<forall>n. allocOk s n" and lv: "live s x" "live s y"
    and w: "bn_wf (heap s x)" "bn_wf (heap s y)" and y0: "bval (heap s y) \<noteq> 0"
    and le: "mag (heap s x) \<le> mag (heap s y)" and fl: "flag = sgn (int (mag (heap s x)) - int (mag (heap s y)))" and ne: "q \<noteq> r"
    and q: "\<And>q'. q = Some q' \<Longrightarrow> live s q' \<and> bn_wf (heap s q') \<and> has_room True (heap s q') (bnsize (heap s x))"
    and r: "\<And>r'. r = Some r' \<Longrightarrow> live s r' \<and> bn_wf (heap s r') \<and> has_room True (heap s r') (bnsize (heap s y))"
  obtains s' where "DivSimple s q r x y flag = (CRYPT_SUCCESS, s')" "ext s s' (set_option q \<union> set_option r)" "pos s' = pos s"
    "\<And>q'. q = Some q' \<Longrightarrow> bn_wf (heap s' q') \<and> bval (heap s' q') = bval (heap s x) sdiv bval (heap s y)"
    "\<And>r'. r = Some r' \<Longrightarrow> bn_wf (heap s' r') \<and> bval (heap s' r') = bval (heap s x) smod bval (heap s y)"
proof -
  have y1: "mag (heap s y) \<noteq> 0" using y0 by (simp add: bval_def split: if_splits)
  note D = sdiv_signs [OF y1, of "sign (heap s x)" "mag (heap s x)" "sign (heap s y)", folded bval_def]
  have al': "\<forall>n. allocOk s1 n" if "ext s s1 W" for s1 W using that al by (simp add: ext_def)
  note ret = that
  have after: thesis if p: "DivSimple s q r x y flag = (CRYPT_SUCCESS, s2)" and e: "ext s s1 (set_option a)" "ext s1 s2 (set_option b)"
    and ps: "pos s1 = pos s" "pos s2 = pos s1" and ab: "{a, b} = {q, r}"
    and va: "\<And>u. a = Some u \<Longrightarrow> bn_wf (heap s1 u) \<and> bval (heap s1 u) = va"
    and vb: "\<And>u. b = Some u \<Longrightarrow> bn_wf (heap s2 u) \<and> bval (heap s2 u) = vb"
    and vv: "if a = q then va = bval (heap s x) sdiv bval (heap s y) \<and> vb = bval (heap s x) smod bval (heap s y)
             else vb = bval (heap s x) sdiv bval (heap s y) \<and> va = bval (heap s x) smod bval (heap s y)" for s1 s2 a b va vb
  proof (rule ret [OF p])
    have lo: "live s1 u" if "a = Some u" for u using ab ne q r that ext_live [OF e(1)] by (metis doubleton_eq_iff)
    have keep: "heap s2 u = heap s1 u" if "a = Some u" for u
      using ext_heap [OF e(2) lo [OF that]] that ab ne by (auto simp: doubleton_eq_iff)
    show "ext s s2 (set_option q \<union> set_option r)" using ext_trans' [OF i e] ab by (auto simp: doubleton_eq_iff Un_commute)
    show "pos s2 = pos s" using ps by simp
    show "bn_wf (heap s2 q') \<and> bval (heap s2 q') = bval (heap s x) sdiv bval (heap s y)" if "q = Some q'" for q'
      using va vb vv ab ne keep that by (cases "a = q") (auto simp: doubleton_eq_iff)
    show "bn_wf (heap s2 r') \<and> bval (heap s2 r') = bval (heap s x) smod bval (heap s y)" if "r = Some r'" for r'
      using va vb vv ab ne keep that by (cases "a = q") (auto simp: doubleton_eq_iff)
  qed
  show thesis
  proof (cases "flag < 0")
    case True
    then have lt: "mag (heap s x) < mag (heap s y)" using fl by (simp add: sgn_if split: if_splits)
    have cp: "\<exists>s'. copy_at s r' x = (CRYPT_SUCCESS, s') \<and> ext s s' {r'} \<and> pos s' = pos s \<and> bn_wf (heap s' r') \<and> bval (heap s' r') = bval (heap s x)"
      if "r = Some r'" for r'
    proof -
      have "has_room True (heap s r') (bnsize (heap s x))" using r [OF that] has_room_mono mag_size_mono [OF w(2,1) le] by blast
      then show ?thesis using copy_ok [OF i al w(1)] by metis
    qed
    obtain s1 where s1: "(case r of Some r \<Rightarrow> copy_at s r x | None \<Rightarrow> (CRYPT_SUCCESS, s)) = (CRYPT_SUCCESS, s1)" "ext s s1 (set_option r)" "pos s1 = pos s"
      "\<And>r'. r = Some r' \<Longrightarrow> bn_wf (heap s1 r') \<and> bval (heap s1 r') = bval (heap s x)"
      using optional_ok [OF i, of r "\<lambda>r. copy_at s r x" "bval (heap s x)", OF cp] by blast
    obtain s2 where s2: "(case q of Some q \<Rightarrow> zeroize_at s1 q | None \<Rightarrow> (CRYPT_SUCCESS, s1)) = (CRYPT_SUCCESS, s2)" "ext s1 s2 (set_option q)" "pos s2 = pos s1"
      "\<And>q'. q = Some q' \<Longrightarrow> bn_wf (heap s2 q') \<and> bval (heap s2 q') = 0"
      using optional_ok [OF ext_inv [OF s1(2)], of q "zeroize_at s1" 0] zeroize_ok [OF ext_inv [OF s1(2)] al' [OF s1(2)]] by metis
    have p: "DivSimple s q r x y flag = (CRYPT_SUCCESS, s2)"
      unfolding DivSimple_def if_P [OF True] s1(1) andThen_success by (rule s2(1))
    show thesis
      by (rule after [where a = r and b = q, OF p s1(2) s2(2) s1(3) s2(3) insert_commute s1(4) s2(4)]) (use D lt ne in \<open>auto simp: bval_def\<close>)
  next
    case False
    then have eq: "mag (heap s x) = mag (heap s y)" using fl le by (simp add: sgn_if split: if_splits)
    define sg where "sg = (sign (heap s x) \<noteq> sign (heap s y))"
    define f where "f = (\<lambda>q. let sg = (sign (heap s x) \<noteq> sign (heap s y)) in
      andThen (set_limb_at s q 1) (\<lambda>s. (CRYPT_SUCCESS, put s q ((heap s q)\<lparr>sign := sg\<rparr>))))"
    have lm: "\<exists>s'. f q' = (CRYPT_SUCCESS, s') \<and> ext s s' {q'} \<and> pos s' = pos s \<and> bn_wf (heap s' q') \<and> bval (heap s' q') = (if sg then - 1 else 1)"
      if "q = Some q'" for q'
    proof -
      have "1 \<le> bnsize (heap s x)" using mag_0 [OF w(1)] eq y1 by simp
      then have "bn_wf (heap s q')" "has_room True (heap s q') 1" using q [OF that] has_room_mono by blast+
      from limb_ok [OF i al this, of 1] obtain s1 where s1: "set_limb_at s q' 1 = (CRYPT_SUCCESS, s1)" "ext s s1 {q'}" "pos s1 = pos s"
        "bn_wf (heap s1 q')" "bval (heap s1 q') = int (unat (1 :: BN_UINT))" .
      let ?v = "(heap s1 q')\<lparr>sign := sg\<rparr>"
      have m: "mag (heap s1 q') = 1" "bnsize (heap s1 q') \<noteq> 0" using s1(5) mag_0 [OF s1(4)] by (auto simp: bval_def split: if_splits)
      have wv: "bn_wf ?v" using s1(4) m(2) by (auto simp: bn_wf_def bn_room_def)
      have "ext s1 (put s1 q' ?v) {q'}" by (rule ext_put [OF ext_inv [OF s1(2)] bn_wf_room [OF wv]]) simp
      then have e: "ext s (put s1 q' ?v) {q'}" by (rule ext_same [OF s1(2) _ i])
      have "bval ?v = (if sg then - 1 else 1)" using m(1) by (simp add: bval_def mag_def)
      moreover have "f q' = (CRYPT_SUCCESS, put s1 q' ?v)" using s1(1) by (simp add: f_def sg_def)
      moreover have "heap (put s1 q' ?v) q' = ?v" "pos (put s1 q' ?v) = pos s" using s1(3) by (simp_all add: put_def pos_def)
      ultimately show ?thesis
        using e wv by metis
    qed
    obtain s1 where s1: "(case q of Some q \<Rightarrow> f q | None \<Rightarrow> (CRYPT_SUCCESS, s)) = (CRYPT_SUCCESS, s1)" "ext s s1 (set_option q)" "pos s1 = pos s"
      "\<And>q'. q = Some q' \<Longrightarrow> bn_wf (heap s1 q') \<and> bval (heap s1 q') = (if sg then - 1 else 1)"
      using optional_ok [OF i, of q f, OF lm] by blast
    obtain s2 where s2: "(case r of Some r \<Rightarrow> zeroize_at s1 r | None \<Rightarrow> (CRYPT_SUCCESS, s1)) = (CRYPT_SUCCESS, s2)" "ext s1 s2 (set_option r)" "pos s2 = pos s1"
      "\<And>r'. r = Some r' \<Longrightarrow> bn_wf (heap s2 r') \<and> bval (heap s2 r') = 0"
      using optional_ok [OF ext_inv [OF s1(2)], of r "zeroize_at s1" 0] zeroize_ok [OF ext_inv [OF s1(2)] al' [OF s1(2)]] by metis
    have p: "DivSimple s q r x y flag = (CRYPT_SUCCESS, s2)"
      unfolding DivSimple_def if_not_P [OF False] s1(1) [unfolded f_def] andThen_success by (rule s2(1))
    show thesis
      by (rule after [where a = q and b = r, OF p s1(2) s2(2) s1(3) s2(3) refl s1(4) s2(4)]) (use D eq y1 in \<open>auto simp: sg_def\<close>)
  qed
qed


text \<open>Numbers taken one after the other in one frame.\<close>

lemma GetBn_next:
  assumes i: "opt_inv s" and a: "\<forall>n. allocOk s n" and d: "0 < deep s" and u: "used s ! (deep s - 1) = k" "k < 2 ^ 32 - 1"
    and rm: "rm \<le> BITS_TO_BN_UNIT BN_MAX_BITS"
  obtains t s' where "OptimizerGetBn s rm = (Some t, s')" "ext s s' {}" "fresh s s' t rm" "opt_inv s'" "\<forall>n. allocOk s' n"
    "deep s' = deep s" "used s' ! (deep s - 1) = Suc k"
proof -
  obtain t s' where G: "OptimizerGetBn s rm = (Some t, s')" "ext s s' {}" "fresh s s' t rm" "pos s' = Suc (pos s)"
    using GetBn_ok [OF i a d _ rm] u by metis
  have "deep s - 1 < length (used s)" using d opt_inv_simps(1,2) [OF i] by simp
  then have "used s' ! (deep s - 1) = Suc k" using G(2,4) u(1) by (simp add: ext_def)
  then show thesis using that G a by (simp add: ext_def)
qed

text \<open>The size of a trimmed array, whatever the sign beside it.\<close>

lemma trimmed_size:
  assumes "bn_room a" "normal (take (bnsize a) (digits a))"
  shows "bn_wf b \<Longrightarrow> mag a \<le> mag b \<Longrightarrow> bnsize a \<le> bnsize b" "mag a = 0 \<longleftrightarrow> bnsize a = 0"
proof -
  have "bn_wf (a\<lparr>sign := False\<rparr>)" "mag (a\<lparr>sign := False\<rparr>) = mag a" using assms by (simp_all add: bn_wf_def mag_def bn_room_def)
  then show "bn_wf b \<Longrightarrow> mag a \<le> mag b \<Longrightarrow> bnsize a \<le> bnsize b" "mag a = 0 \<longleftrightarrow> bnsize a = 0"
    using mag_size_mono [of b "a\<lparr>sign := False\<rparr>"] mag_0 [of "a\<lparr>sign := False\<rparr>"] by simp_all
qed

lemma fresh_ext: "fresh s s' t n \<Longrightarrow> ext s' s'' {} \<Longrightarrow> heap s'' t = heap s' t \<and> live s'' t"
  using ext_heap ext_live by (auto simp: fresh_def)


text \<open>The frame of a division: three zero numbers, distinct from one another and from the numbers in use.\<close>

definition blank :: "bn_state \<Rightarrow> bn_ref \<Rightarrow> nat \<Rightarrow> bool" where
  "blank s t n = (live s t \<and> bnsize (heap s t) = 0 \<and> \<not> sign (heap s t) \<and> n \<le> room (heap s t)
     \<and> digits (heap s t) = replicate (room (heap s t)) 0)"

lemma fresh_blank: "fresh s s' t n \<Longrightarrow> blank s' t n"
  by (simp add: fresh_def blank_def)

lemma blank_ext: "blank s t n \<Longrightarrow> ext s s' {} \<Longrightarrow> blank s' t n"
  using ext_heap [of s s' "{}" t] ext_live [of s s' "{}" t] by (simp add: blank_def)

lemma div_frame:
  assumes i: "opt_inv s" and al: "\<forall>n. allocOk s n" and d: "deep s < 10" and n: "n \<le> BITS_TO_BN_UNIT BN_MAX_BITS" "m \<le> BITS_TO_BN_UNIT BN_MAX_BITS"
  obtains s1 tq s2 tr s3 ty s4 where "OptimizerStart s = (CRYPT_SUCCESS, s1)" "OptimizerGetBn s1 n = (Some tq, s2)"
    "OptimizerGetBn s2 n = (Some tr, s3)" "OptimizerGetBn s3 m = (Some ty, s4)" "ext s1 s4 {}" "deep s1 = Suc (deep s)" "opt_inv s1"
    "blank s4 tq n" "blank s4 tr n" "blank s4 ty m" "distinct [tq, tr, ty]" "\<forall>n. allocOk s4 n" "live s1 = live s"
    "\<forall>u. live s u \<longrightarrow> live s1 u \<and> u \<notin> {tq, tr, ty} \<and> heap s1 u = heap s u \<and> heap s2 u = heap s u \<and> heap s3 u = heap s u \<and> heap s4 u = heap s u \<and> live s4 u"
proof -
  obtain s1 where S: "OptimizerStart s = (CRYPT_SUCCESS, s1)" "opt_inv s1" "deep s1 = Suc (deep s)" "used s1 ! deep s = 0"
    "pos s1 = pos s" "heap s1 = heap s" "allocOk s1 = allocOk s" "live s1 = live s"
    using OptimizerStart_ok [OF i d] by metis
  obtain tq s2 where Q: "OptimizerGetBn s1 n = (Some tq, s2)" "ext s1 s2 {}" "fresh s1 s2 tq n"
    "opt_inv s2" "\<forall>n. allocOk s2 n" "deep s2 = deep s1" "used s2 ! (deep s1 - 1) = Suc 0"
    using GetBn_next [OF S(2) _ _ _ _ n(1), of 0] S al by auto
  obtain tr s3 where R: "OptimizerGetBn s2 n = (Some tr, s3)" "ext s2 s3 {}" "fresh s2 s3 tr n"
    "opt_inv s3" "\<forall>n. allocOk s3 n" "deep s3 = deep s2" "used s3 ! (deep s2 - 1) = Suc (Suc 0)"
    using GetBn_next [OF Q(4,5) _ _ _ n(1), of "Suc 0"] Q(6,7) S(3) by auto
  obtain ty s4 where Y: "OptimizerGetBn s3 m = (Some ty, s4)" "ext s3 s4 {}" "fresh s3 s4 ty m"
    "opt_inv s4" "\<forall>n. allocOk s4 n" "deep s4 = deep s3" "used s4 ! (deep s3 - 1) = Suc (Suc (Suc 0))"
    using GetBn_next [OF R(4,5) _ _ _ n(2), of "Suc (Suc 0)"] Q(6) R(6,7) S(3) by auto
  have e24: "ext s2 s4 {}" using ext_trans' [OF Q(4) R(2) Y(2)] by simp
  have e14: "ext s1 s4 {}" using ext_trans' [OF S(2) Q(2) e24] by simp
  have e13: "ext s1 s3 {}" using ext_trans' [OF S(2) Q(2) R(2)] by simp
  have b: "blank s4 tq n" "blank s4 tr n" "blank s4 ty m"
    using fresh_blank [OF Q(3)] fresh_blank [OF R(3)] fresh_blank [OF Y(3)] blank_ext e24 Y(2) by blast+
  have dist: "distinct [tq, tr, ty]" using Q(3) R(2,3) Y(3) ext_live unfolding fresh_def by auto
  have u: "live s1 u \<and> u \<notin> {tq, tr, ty} \<and> heap s1 u = heap s u \<and> heap s2 u = heap s u \<and> heap s3 u = heap s u \<and> heap s4 u = heap s u \<and> live s4 u"
    if "live s u" for u
  proof -
    have l: "live s1 u" "live s2 u" "live s3 u" using that S(8) ext_live [OF Q(2), of u] ext_live [OF e13, of u] by simp_all
    then have "u \<notin> {tq, tr, ty}" using fresh_neq [OF Q(3)] fresh_neq [OF R(3)] fresh_neq [OF Y(3)] by blast
    moreover have "heap s2 u = heap s u" "heap s3 u = heap s u" "heap s4 u = heap s u" "live s4 u"
      using ext_heap [OF Q(2) l(1)] ext_heap [OF e13 l(1)] ext_heap [OF e14 l(1)] ext_live [OF e14 l(1)] S(6) by simp_all
    ultimately show ?thesis using l S(6) by simp
  qed
  show thesis by (rule that [OF S(1) Q(1) R(1) Y(1) e14 S(3,2) b dist Y(5) S(8)]) (use u in blast)
qed

text \<open>The two results of a division stored.\<close>

lemma div_stores:
  assumes i: "opt_inv s" and al: "\<forall>n. allocOk s n" and lv: "live s tq" "live s tr" and ne: "q \<noteq> r"
    and q: "\<And>q'. q = Some q' \<Longrightarrow> live s q' \<and> q' \<notin> {tq, tr} \<and> bn_wf (heap s q') \<and> has_room True (heap s q') (bnsize (heap s tq))"
    and r: "\<And>r'. r = Some r' \<Longrightarrow> live s r' \<and> r' \<notin> {tq, tr} \<and> bn_wf (heap s r') \<and> has_room True (heap s r') (bnsize (heap s tr))"
    and tq: "bn_room (heap s tq)" "normal (take (bnsize (heap s tq)) (digits (heap s tq)))" "sq \<longrightarrow> mag (heap s tq) \<noteq> 0"
    and tr: "bn_room (heap s tr)" "normal (take (bnsize (heap s tr)) (digits (heap s tr)))"
  obtains s' where
    "andThen (case q of Some q \<Rightarrow> store_result s q tq sq | None \<Rightarrow> (CRYPT_SUCCESS, s))
       (\<lambda>s. case r of Some r \<Rightarrow> store_result s r tr (if bnsize (heap s tr) = 0 then False else sign (heap s tr)) | None \<Rightarrow> (CRYPT_SUCCESS, s))
     = (CRYPT_SUCCESS, s')" "ext s s' (set_option q \<union> set_option r)"
    "\<And>q'. q = Some q' \<Longrightarrow> bn_wf (heap s' q') \<and> bval (heap s' q') = (if sq then - int (mag (heap s tq)) else int (mag (heap s tq)))"
    "\<And>r'. r = Some r' \<Longrightarrow> bn_wf (heap s' r') \<and> bval (heap s' r') = bval (heap s tr)"
proof -
  let ?sr = "if bnsize (heap s tr) = 0 then False else sign (heap s tr)" and ?vq = "if sq then - int (mag (heap s tq)) else int (mag (heap s tq))"
  have vq: "\<exists>s'. store_result s q' tq sq = (CRYPT_SUCCESS, s') \<and> ext s s' {q'} \<and> pos s' = pos s \<and> bn_wf (heap s' q') \<and> bval (heap s' q') = ?vq"
    if "q = Some q'" for q'
    using store_result_ok [OF i al _ lv(1), of q'] tq q [OF that] by (metis insert_iff)
  obtain s5 where A: "(case q of Some q \<Rightarrow> store_result s q tq sq | None \<Rightarrow> (CRYPT_SUCCESS, s)) = (CRYPT_SUCCESS, s5)"
    "ext s s5 (set_option q)" "\<And>q'. q = Some q' \<Longrightarrow> bn_wf (heap s5 q') \<and> bval (heap s5 q') = ?vq"
    using optional_ok [OF i, of q "\<lambda>q. store_result s q tq sq", OF vq] by blast
  have h5: "heap s5 tr = heap s tr" "live s5 tr" using ext_heap [OF A(2) lv(2)] ext_live [OF A(2) lv(2)] q by force+
  have al5: "\<forall>n. allocOk s5 n" using al A(2) by (simp add: ext_def)
  have bv: "(if ?sr then - int (mag (heap s tr)) else int (mag (heap s tr))) = bval (heap s tr)" "?sr \<longrightarrow> mag (heap s tr) \<noteq> 0"
    using trimmed_size(2) [OF tr] by (auto simp: bval_def)
  have r5: "live s5 r'" "heap s5 r' = heap s r'" if "r = Some r'" for r'
    using ext_live [OF A(2), of r'] ext_heap [OF A(2), of r'] r [OF that] ne that by auto
  have vr: "\<exists>s'. store_result s5 r' tr ?sr = (CRYPT_SUCCESS, s') \<and> ext s5 s' {r'} \<and> pos s' = pos s5 \<and> bn_wf (heap s' r')
      \<and> bval (heap s' r') = bval (heap s tr)" if "r = Some r'" for r'
    using store_result_ok [OF ext_inv [OF A(2)] al5 r5(1) [OF that] h5(2), of ?sr] r [OF that] tr bv
    unfolding h5(1) r5(2) [OF that] by (metis insert_iff)
  obtain s6 where B: "(case r of Some r \<Rightarrow> store_result s5 r tr ?sr | None \<Rightarrow> (CRYPT_SUCCESS, s5)) = (CRYPT_SUCCESS, s6)"
    "ext s5 s6 (set_option r)" "\<And>r'. r = Some r' \<Longrightarrow> bn_wf (heap s6 r') \<and> bval (heap s6 r') = bval (heap s tr)"
    using optional_ok [OF ext_inv [OF A(2)], of r "\<lambda>r. store_result s5 r tr ?sr", OF vr] by blast
  show thesis
  proof (rule that)
    show "andThen (case q of Some q \<Rightarrow> store_result s q tq sq | None \<Rightarrow> (CRYPT_SUCCESS, s))
       (\<lambda>s. case r of Some r \<Rightarrow> store_result s r tr (if bnsize (heap s tr) = 0 then False else sign (heap s tr)) | None \<Rightarrow> (CRYPT_SUCCESS, s))
     = (CRYPT_SUCCESS, s6)" unfolding A(1) andThen_success h5(1) by (rule B(1))
    show "ext s s6 (set_option q \<union> set_option r)" by (rule ext_trans' [OF i A(2) B(2)])
    show "bn_wf (heap s6 q') \<and> bval (heap s6 q') = ?vq" if "q = Some q'" for q'
      using A(3) [OF that] ext_heap [OF B(2), of q'] ext_live [OF A(2), of q'] q [OF that] ne that by auto
  qed (rule B(3))
qed

lemma ext_hides:
  assumes "opt_inv s" "ext s s1 {}" "ext s1 s2 T" "ext s2 s3 W" "\<And>t. t \<in> T \<Longrightarrow> \<not> live s t"
  shows "ext s s3 W"
proof -
  have e: "ext s s3 (T \<union> W)" using ext_trans' [OF assms(1) ext_trans' [OF assms(1-3)] assms(4)] by simp
  then show ?thesis using assms(5) by (auto simp: ext_def)
qed

lemma BN_Div_ok:
  assumes i: "opt_inv s" and al: "\<forall>n. allocOk s n" and d: "deep s < 10" and lv: "live s x" "live s y"
    and w: "bn_wf (heap s x)" "bn_wf (heap s y)" and y0: "bval (heap s y) \<noteq> 0" and big: "bnsize (heap s x) + 2 \<le> BITS_TO_BN_UNIT BN_MAX_BITS"
    and ne: "q \<noteq> r"
    and q: "\<And>q'. q = Some q' \<Longrightarrow> live s q' \<and> bn_wf (heap s q') \<and> has_room True (heap s q') (bnsize (heap s x))"
    and r: "\<And>r'. r = Some r' \<Longrightarrow> live s r' \<and> bn_wf (heap s r') \<and> has_room True (heap s r') (bnsize (heap s y))"
  obtains s' where "BN_Div s True q r (Some x) (Some y) = (CRYPT_SUCCESS, s')" "ext s s' (set_option q \<union> set_option r)" "pos s' = pos s"
    "\<And>q'. q = Some q' \<Longrightarrow> bn_wf (heap s' q') \<and> bval (heap s' q') = bval (heap s x) sdiv bval (heap s y)"
    "\<And>r'. r = Some r' \<Longrightarrow> bn_wf (heap s' r') \<and> bval (heap s' r') = bval (heap s x) smod bval (heap s y)"
proof -
  have y1: "mag (heap s y) \<noteq> 0" using y0 by (simp add: bval_def split: if_splits)
  then have ys: "0 < bnsize (heap s y)" using mag_0 [OF w(2)] by simp
  note D = sdiv_signs [OF y1, of "sign (heap s x)" "mag (heap s x)" "sign (heap s y)", folded bval_def]
  have chk: "DivInputCheck s True q r (Some x) (Some y) = CRYPT_SUCCESS" using ne ys by (simp add: DivInputCheck_def)
  define cmp where "cmp = BinCmp (digits (heap s x)) (bnsize (heap s x)) (digits (heap s y)) (bnsize (heap s y))"
  have c: "cmp = sgn (int (mag (heap s x)) - int (mag (heap s y)))" by (simp add: cmp_def BinCmp_mag [OF w])
  show thesis
  proof (cases "cmp \<le> 0")
    case True
    then have "mag (heap s x) \<le> mag (heap s y)" using c by (simp add: sgn_if split: if_splits)
    from DivSimple_ok [OF i al lv w y0 this c ne q r] obtain s' where
      "DivSimple s q r x y cmp = (CRYPT_SUCCESS, s')" "ext s s' (set_option q \<union> set_option r)" "pos s' = pos s"
      "\<And>q'. q = Some q' \<Longrightarrow> bn_wf (heap s' q') \<and> bval (heap s' q') = bval (heap s x) sdiv bval (heap s y)"
      "\<And>r'. r = Some r' \<Longrightarrow> bn_wf (heap s' r') \<and> bval (heap s' r') = bval (heap s x) smod bval (heap s y)" by blast
    moreover have "BN_Div s True q r (Some x) (Some y) = DivSimple s q r x y cmp"
      using chk True by (simp add: BN_Div_def cmp_def)
    ultimately show thesis using that by simp
  next
    case False
    then have gt: "mag (heap s y) < mag (heap s x)" using c by (simp add: sgn_if split: if_splits)
    then have le: "bnsize (heap s y) \<le> bnsize (heap s x)" using mag_size_mono [OF w] by simp
    then have yb: "bnsize (heap s y) \<le> BITS_TO_BN_UNIT BN_MAX_BITS" using big by simp
    obtain s1 tq s2 tr s3 ty s4 where G: "OptimizerStart s = (CRYPT_SUCCESS, s1)" "OptimizerGetBn s1 (bnsize (heap s x) + 2) = (Some tq, s2)"
      "OptimizerGetBn s2 (bnsize (heap s x) + 2) = (Some tr, s3)" "OptimizerGetBn s3 (bnsize (heap s y)) = (Some ty, s4)" "ext s1 s4 {}"
      "deep s1 = Suc (deep s)" "opt_inv s1" and B: "blank s4 tq (bnsize (heap s x) + 2)" "blank s4 tr (bnsize (heap s x) + 2)" "blank s4 ty (bnsize (heap s y))"
      and dist: "distinct [tq, tr, ty]" and al4: "\<forall>n. allocOk s4 n" and N: "live s1 = live s" and
      U: "\<forall>u. live s u \<longrightarrow> live s1 u \<and> u \<notin> {tq, tr, ty} \<and> heap s1 u = heap s u \<and> heap s2 u = heap s u \<and> heap s3 u = heap s u \<and> heap s4 u = heap s u \<and> live s4 u"
      by (rule div_frame [OF i al d big yb])
    note Ux = U [rule_format, OF lv(1)] and Uy = U [rule_format, OF lv(2)]
    let ?s = "div_temps s4 tq tr ty x y"
    have z: "digits (heap s4 u) = replicate (room (heap s4 u)) 0" "bnsize (heap s4 u) = 0 \<and> \<not> sign (heap s4 u)" if "u \<in> {tq, tr, ty}" for u
      using B that by (auto simp: blank_def)
    have T: "ext s4 ?s {tq, tr, ty}" "bn_room (heap ?s tq)" "normal (take (bnsize (heap ?s tq)) (digits (heap ?s tq)))"
      "mag (heap ?s tq) = mag (heap s x) div mag (heap s y)" "bn_room (heap ?s tr)" "normal (take (bnsize (heap ?s tr)) (digits (heap ?s tr)))"
      "mag (heap ?s tr) = mag (heap s x) mod mag (heap s y)" "sign (heap ?s tr) = sign (heap s x)"
      using div_temps_ok [OF ext_inv [OF G(5)] _ _ _ _ dist _ _ z, of x y] Ux Uy w ys le B by (simp_all add: blank_def)
    let ?sq = "sign (heap s x) \<noteq> sign (heap s y)"
    have lt: "live ?s u \<and> heap ?s u = heap s u \<and> u \<notin> {tq, tr}" if "live s u" for u
      using U [rule_format, OF that] ext_heap [OF T(1), of u] ext_live [OF T(1), of u] by simp
    have lts: "live ?s tq" "live ?s tr" using B ext_live [OF T(1)] by (auto simp: blank_def)
    have alT: "\<forall>n. allocOk ?s n" using al4 T(1) by (simp add: ext_def)
    have mq: "mag (heap ?s tq) \<noteq> 0" "bnsize (heap ?s tq) \<le> bnsize (heap s x)"
      using T(4) gt y1 trimmed_size(1) [OF T(2,3) w(1)] by (simp_all add: div_eq_0_iff)
    have mr: "bnsize (heap ?s tr) \<le> bnsize (heap s y)" using T(7) y1 trimmed_size(1) [OF T(5,6) w(2)] by (simp add: less_imp_le)
    have hq: "live ?s q' \<and> q' \<notin> {tq, tr} \<and> bn_wf (heap ?s q') \<and> has_room True (heap ?s q') (bnsize (heap ?s tq))" if "q = Some q'" for q'
      using q [OF that] lt [of q'] has_room_mono mq(2) by auto
    have hr: "live ?s r' \<and> r' \<notin> {tq, tr} \<and> bn_wf (heap ?s r') \<and> has_room True (heap ?s r') (bnsize (heap ?s tr))" if "r = Some r'" for r'
      using r [OF that] lt [of r'] has_room_mono mr by auto
    have hs: "?sq \<longrightarrow> mag (heap ?s tq) \<noteq> 0" using mq(1) by simp
    note store = div_stores [OF ext_inv [OF T(1)] alT lts ne hq hr T(2,3) hs T(5,6)]
    obtain s6 where A: "andThen (case q of Some q \<Rightarrow> store_result ?s q tq ?sq | None \<Rightarrow> (CRYPT_SUCCESS, ?s))
       (\<lambda>s. case r of Some r \<Rightarrow> store_result s r tr (if bnsize (heap s tr) = 0 then False else sign (heap s tr)) | None \<Rightarrow> (CRYPT_SUCCESS, s))
      = (CRYPT_SUCCESS, s6)" "ext ?s s6 (set_option q \<union> set_option r)"
      "\<And>q'. q = Some q' \<Longrightarrow> bn_wf (heap s6 q') \<and> bval (heap s6 q') = (if ?sq then - int (mag (heap ?s tq)) else int (mag (heap ?s tq)))"
      "\<And>r'. r = Some r' \<Longrightarrow> bn_wf (heap s6 r') \<and> bval (heap s6 r') = bval (heap ?s tr)"
      using store by blast
    have run: "BN_Div s True q r (Some x) (Some y) = (CRYPT_SUCCESS, OptimizerEnd s6)"
    proof -
      have h: "heap s1 x = heap s x" "heap s2 x = heap s x" "heap s3 y = heap s y" "heap ?s x = heap s x" "heap ?s y = heap s y"
        using Ux Uy lt [OF lv(1)] lt [OF lv(2)] by simp_all
      show ?thesis
        using False unfolding BN_Div_def chk prod.case option.case crypt_ret.case cmp_def [symmetric] Let_def G(1) andThen_success h G(2-4) A(1) by simp
    qed
    have "\<not> live s1 t" if "t \<in> {tq, tr, ty}" for t using that U N by auto
    then have e: "ext s1 s6 (set_option q \<union> set_option r)"
      using ext_hides [OF G(7,5) T(1) A(2)] by simp
    note F = frame_closed [OF i d G(1) e]
    have h: "heap (OptimizerEnd s6) = heap s6" using e G(6) by (intro OptimizerEnd_ok(5)) (simp_all add: ext_def)
    show thesis
    proof (rule that [OF run F])
      show "bn_wf (heap (OptimizerEnd s6) q') \<and> bval (heap (OptimizerEnd s6) q') = bval (heap s x) sdiv bval (heap s y)" if "q = Some q'" for q'
        using A(3) [OF that] T(4) D(1) by (auto simp: h)
      show "bn_wf (heap (OptimizerEnd s6) r') \<and> bval (heap (OptimizerEnd s6) r') = bval (heap s x) smod bval (heap s y)" if "r = Some r'" for r'
        using A(4) [OF that] T(7,8) D(2) by (auto simp: h bval_def)
    qed
  qed
qed

section \<open>Remainders\<close>

lemma smod_mod:
  fixes a b :: int
  assumes "b \<noteq> 0"
  shows "(if a smod b < 0 then a smod b + \<bar>b\<bar> else a smod b) = a mod \<bar>b\<bar>"
proof -
  have m: "a smod b = (if a < 0 then - (\<bar>a\<bar> mod \<bar>b\<bar>) else \<bar>a\<bar> mod \<bar>b\<bar>)"
    using sdiv_signs(2) [of "nat \<bar>b\<bar>" "a < 0" "nat \<bar>a\<bar>" "b < 0"] assms by (simp add: zmod_int split: if_splits)
  show ?thesis
  proof (cases "a < 0")
    case True
    have "- \<bar>a\<bar> mod \<bar>b\<bar> = (if \<bar>a\<bar> mod \<bar>b\<bar> = 0 then 0 else \<bar>b\<bar> - \<bar>a\<bar> mod \<bar>b\<bar>)" using zmod_zminus1_eq_if .
    then have "a mod \<bar>b\<bar> = (if \<bar>a\<bar> mod \<bar>b\<bar> = 0 then 0 else \<bar>b\<bar> - \<bar>a\<bar> mod \<bar>b\<bar>)" using True by simp
    moreover have "0 \<le> \<bar>a\<bar> mod \<bar>b\<bar>" using assms by simp
    ultimately show ?thesis using m True by auto
  next
    case False
    then have "a smod b = a mod \<bar>b\<bar>" "0 \<le> a mod \<bar>b\<bar>" using m assms by simp_all
    then show ?thesis by simp
  qed
qed

lemma smod_le:
  fixes a b :: int
  assumes "b \<noteq> 0"
  shows "\<bar>a smod b\<bar> \<le> \<bar>b\<bar>"
  using sdiv_signs(2) [of "nat \<bar>b\<bar>" "a < 0" "nat \<bar>a\<bar>" "b < 0"] assms by (auto simp: zmod_int less_imp_le split: if_splits)

lemma bval_abs: "\<bar>bval a\<bar> = int (mag a)"
  by (simp add: bval_def)

lemma ext_granted: "ext s s' W \<Longrightarrow> \<forall>n. allocOk s n \<Longrightarrow> \<forall>n. allocOk s' n"
  by (simp add: ext_def)

text \<open>A frame with one temporary number.\<close>

definition temp_of :: "bn_state \<Rightarrow> bn_state \<Rightarrow> bn_state \<Rightarrow> bn_ref \<Rightarrow> nat \<Rightarrow> bool" where
  "temp_of s s1 s2 t n = (OptimizerStart s = (CRYPT_SUCCESS, s1) \<and> OptimizerGetBn s1 n = (Some t, s2) \<and> opt_inv s1 \<and> opt_inv s2
     \<and> ext s1 s2 {} \<and> deep s2 = Suc (deep s) \<and> (\<forall>n. allocOk s2 n) \<and> heap s1 = heap s \<and> live s1 = live s
     \<and> \<not> live s t \<and> live s2 t \<and> bn_wf (heap s2 t) \<and> bnflag (heap s2 t) \<noteq> CRYPT_BN_FLAG_STATIC \<and> n \<le> room (heap s2 t)
     \<and> bnsize (heap s2 t) = 0 \<and> clean (heap s2 t)
     \<and> (\<forall>u. live s u \<longrightarrow> u \<noteq> t \<and> live s2 u \<and> heap s2 u = heap s u))"

lemma one_temp:
  assumes i: "opt_inv s" and al: "\<forall>n. allocOk s n" and d: "deep s < 10" and n: "n \<le> BITS_TO_BN_UNIT BN_MAX_BITS"
  obtains s1 t s2 where "temp_of s s1 s2 t n"
proof -
  obtain s1 where S: "OptimizerStart s = (CRYPT_SUCCESS, s1)" "opt_inv s1" "deep s1 = Suc (deep s)" "used s1 ! deep s = 0"
    "heap s1 = heap s" "allocOk s1 = allocOk s" "live s1 = live s"
    using OptimizerStart_ok [OF i d] by metis
  obtain t s2 where T: "OptimizerGetBn s1 n = (Some t, s2)" "ext s1 s2 {}" "fresh s1 s2 t n" "opt_inv s2" "\<forall>n. allocOk s2 n" "deep s2 = deep s1" "used s2 ! (deep s1 - 1) = Suc 0"
    using GetBn_next [OF S(2) _ _ _ _ n, of 0] S al by auto
  have "u \<noteq> t \<and> live s2 u \<and> heap s2 u = heap s u" if "live s u" for u
    using that S(5,7) ext_live [OF T(2), of u] ext_heap [OF T(2), of u] fresh_neq [OF T(3), of u] by simp
  then have "temp_of s s1 s2 t n" using S T by (simp add: temp_of_def fresh_def clean_def)
  then show thesis by (rule that)
qed

lemma temp_done:
  assumes "opt_inv s" "deep s < 10" "temp_of s s1 s2 t n" "ext s2 s3 (insert t W)"
  shows "ext s (OptimizerEnd s3) W" "pos (OptimizerEnd s3) = pos s" "heap (OptimizerEnd s3) = heap s3"
proof -
  have t: "OptimizerStart s = (CRYPT_SUCCESS, s1)" "opt_inv s1" "ext s1 s2 {}" "\<not> live s1 t" "deep s2 = Suc (deep s)" using assms(3) by (auto simp: temp_of_def)
  have e: "ext s1 s3 W" by (rule ext_hide [OF t(3) assms(4) t(4) t(2)]) simp
  show "ext s (OptimizerEnd s3) W" "pos (OptimizerEnd s3) = pos s" by (rule frame_closed [OF assms(1,2) t(1) e])+
  show "heap (OptimizerEnd s3) = heap s3" using assms(4) t(5) by (intro OptimizerEnd_ok(5)) (simp_all add: ext_def)
qed

lemma temp_room: "temp_of s s1 s2 t n \<Longrightarrow> k \<le> BITS_TO_BN_UNIT BN_MAX_BITS \<Longrightarrow> has_room True (heap s2 t) k"
  by (auto simp: temp_of_def has_room_def)

lemma add_sub_ok:
  assumes i: "opt_inv s" "\<forall>n. allocOk s n" and w: "bn_wf (heap s r)" "bn_wf (heap s a)" "bn_wf (heap s b)"
    "has_room True (heap s r) (max (bnsize (heap s a)) (bnsize (heap s b)) + 1)"
  shows "\<exists>s'. add_at s r a b = (CRYPT_SUCCESS, s') \<and> ext s s' {r} \<and> pos s' = pos s \<and> bn_wf (heap s' r) \<and> bval (heap s' r) = bval (heap s a) + bval (heap s b)"
    "\<exists>s'. sub_at s r a b = (CRYPT_SUCCESS, s') \<and> ext s s' {r} \<and> pos s' = pos s \<and> bn_wf (heap s' r) \<and> bval (heap s' r) = bval (heap s a) - bval (heap s b)"
  using at_ok [OF i, of "\<lambda>mem x. BN_Add mem x (Some (heap s a)) (Some (heap s b))" r] Add_kept [of True "heap s r" "heap s a" "heap s b"]
    at_ok [OF i, of "\<lambda>mem x. BN_Sub mem x (Some (heap s a)) (Some (heap s b))" r] Sub_kept [of True "heap s r" "heap s a" "heap s b"]
    Add_Sub_returns [OF w]
  unfolding add_at_def sub_at_def by metis+

lemma BN_rem_ok:
  assumes "opt_inv s" "\<forall>n. allocOk s n" "deep s < 10" "live s x" "live s y" "bn_wf (heap s x)" "bn_wf (heap s y)"
    "bval (heap s y) \<noteq> 0" "bnsize (heap s x) + 2 \<le> BITS_TO_BN_UNIT BN_MAX_BITS"
    "live s t" "bn_wf (heap s t)" "has_room True (heap s t) (bnsize (heap s y))"
  obtains s' where "BN_Div s True None (Some t) (Some x) (Some y) = (CRYPT_SUCCESS, s')" "ext s s' {t}"
    "bn_wf (heap s' t)" "bval (heap s' t) = bval (heap s x) smod bval (heap s y)"
  by (rule BN_Div_ok [where q = None and r = "Some t", OF assms(1-9)]) (use assms(10-) that in auto)

lemma BN_Mod_ok:
  assumes i: "opt_inv s" and al: "\<forall>n. allocOk s n" and d: "deep s < 9" and lv: "live s r" "live s a" "live s m"
    and w: "bn_wf (heap s r)" "bn_wf (heap s a)" "bn_wf (heap s m)" and m0: "bval (heap s m) \<noteq> 0"
    and big: "bnsize (heap s a) + 2 \<le> BITS_TO_BN_UNIT BN_MAX_BITS" "bnsize (heap s m) < BITS_TO_BN_UNIT BN_MAX_BITS"
    and rm: "has_room True (heap s r) (bnsize (heap s m) + 1)"
  obtains s' where "BN_Mod s True (Some r) (Some a) (Some m) = (CRYPT_SUCCESS, s')" "ext s s' {r}" "pos s' = pos s"
    "bn_wf (heap s' r)" "bval (heap s' r) = bval (heap s a) mod \<bar>bval (heap s m)\<bar>"
proof -
  have ms: "bnsize (heap s m) \<noteq> 0" using m0 mag_0 [OF w(3)] by (simp add: bval_def split: if_splits)
  have rm': "has_room True (heap s r) (bnsize (heap s m))" using rm has_room_mono by force
  obtain s0 where E: "extend_at s r (bnsize (heap s m)) = (CRYPT_SUCCESS, s0)" "ext s s0 {r}" "pos s0 = pos s"
    "\<And>x. live s x \<Longrightarrow> num (heap s0 x) = num (heap s x)"
    using extend_ok [OF i al w(1) rm'] by metis
  have nn: "bnsize (heap s0 x) = bnsize (heap s x)" "bval (heap s0 x) = bval (heap s x)" "bn_wf (heap s0 x) = bn_wf (heap s x)"
    if "live s x" for x using num_eq [OF E(4) [OF that]] opt_inv_simps(3) i ext_inv [OF E(2)] by blast+
  have al0: "\<forall>n. allocOk s0 n" and d0: "deep s0 < 9" using E(2) al d by (simp_all add: ext_def)
  have d0': "deep s0 < 10" using d0 by simp
  obtain s1 t s2 where T: "temp_of s0 s1 s2 t (bnsize (heap s m))"
    using one_temp [OF ext_inv [OF E(2)] al0 d0'] big(2) by (meson less_imp_le)
  note TD = T [unfolded temp_of_def]
  have U: "u \<noteq> t \<and> live s2 u \<and> heap s2 u = heap s0 u" if "live s u" for u using TD ext_live [OF E(2) that] by blast
  have two: "bnsize (heap s2 u) = bnsize (heap s u)" "bval (heap s2 u) = bval (heap s u)" "bn_wf (heap s2 u) = bn_wf (heap s u)" "live s2 u" "u \<noteq> t"
    if "live s u" for u using U [OF that] nn [OF that] by simp_all
  note A2 = two [OF lv(2)] and M2 = two [OF lv(3)] and R2 = two [OF lv(1)]
  have tr: "live s2 t' \<and> bn_wf (heap s2 t') \<and> has_room True (heap s2 t') (bnsize (heap s2 m))" if "Some t = Some t'" for t'
    using TD temp_room [OF T, of "bnsize (heap s m)"] that big M2 by auto
  have d2: "deep s2 < 10" using TD d0 by simp
  obtain s3 where D: "BN_Div s2 True None (Some t) (Some a) (Some m) = (CRYPT_SUCCESS, s3)" "ext s2 s3 {t}"
    "bn_wf (heap s3 t)" "bval (heap s3 t) = bval (heap s a) smod bval (heap s m)"
    using BN_rem_ok [OF _ _ d2 A2(4) M2(4), of t] TD A2 M2 w m0 big tr [OF refl] by auto
  have al3: "\<forall>n. allocOk s3 n" using ext_granted [OF D(2)] TD by blast
  have h3: "heap s3 u = heap s2 u \<and> live s3 u" if "live s u" for u
    using two(4,5) [OF that] ext_heap [OF D(2), of u] ext_live [OF D(2), of u] by auto
  note i3 = ext_inv [OF D(2)]
  have tm: "bnsize (heap s3 t) \<le> bnsize (heap s m)"
    by (rule mag_size_mono [OF w(3) D(3)]) (use smod_le [OF m0, of "bval (heap s a)"] bval_abs [of "heap s3 t"] bval_abs [of "heap s m"] D(4) in simp)
  have rr: "has_room True (heap s3 r) (bnsize (heap s m) + 1)"
    using keeps_has_room [OF ext_keeps [OF E(2) lv(1)] rm] U [OF lv(1)] h3 [OF lv(1)] by simp
  have mx: "max (bnsize (heap s3 t)) (bnsize (heap s3 m)) + 1 = bnsize (heap s m) + 1" using tm h3 [OF lv(3)] M2(1) by simp
  note AS = add_sub_ok [OF i3 al3, of r t m, unfolded mx, OF _ D(3) _ rr]
  let ?f = "if \<not> sign (heap s3 t) then copy_at s3 r t else if sign (heap s3 m) then sub_at s3 r t m else add_at s3 r t m"
  have "\<exists>s'. ?f = (CRYPT_SUCCESS, s') \<and> ext s3 s' {r} \<and> bn_wf (heap s' r) \<and> bval (heap s' r) = bval (heap s a) mod \<bar>bval (heap s m)\<bar>"
  proof (cases "sign (heap s3 t)")
    case False
    then have "0 \<le> bval (heap s a) smod bval (heap s m)" using D(4) by (simp add: bval_def split: if_splits)
    then have "bval (heap s3 t) = bval (heap s a) mod \<bar>bval (heap s m)\<bar>" using D(4) smod_mod [OF m0, of "bval (heap s a)"] by simp
    moreover have "has_room True (heap s3 r) (bnsize (heap s3 t))" using rr tm has_room_mono by (meson le_add1 le_trans)
    ultimately show ?thesis using False copy_ok [OF i3 al3 D(3)] by metis
  next
    case True
    then have "mag (heap s3 t) \<noteq> 0" using D(3) mag_0 [OF D(3)] by (auto simp: bn_wf_def)
    then have "bval (heap s a) smod bval (heap s m) < 0" using True D(4) by (simp add: bval_def split: if_splits)
    then have "bval (heap s3 t) + \<bar>bval (heap s m)\<bar> = bval (heap s a) mod \<bar>bval (heap s m)\<bar>" using D(4) smod_mod [OF m0, of "bval (heap s a)"] by simp
    moreover have "\<bar>bval (heap s m)\<bar> = (if sign (heap s3 m) then - bval (heap s3 m) else bval (heap s3 m))"
    proof -
      have e: "bval (heap s m) = bval (heap s3 m)" using h3 [OF lv(3)] M2(2) by simp
      show ?thesis unfolding e by (simp add: bval_def)
    qed
    ultimately show ?thesis using True AS h3 [OF lv(1)] h3 [OF lv(3)] R2(3) M2(3) w by (cases "sign (heap s3 m)") (simp_all, metis+)
  qed
  then obtain s4 where C: "?f = (CRYPT_SUCCESS, s4)" "ext s3 s4 {r}" "bn_wf (heap s4 r)" "bval (heap s4 r) = bval (heap s a) mod \<bar>bval (heap s m)\<bar>"
    by blast
  have "ext s2 s4 (insert t {r})" using ext_trans' [OF _ D(2) C(2)] TD by (simp add: insert_commute)
  note F = temp_done [OF ext_inv [OF E(2)] d0' T this]
  have "BN_Mod s True (Some r) (Some a) (Some m) = (CRYPT_SUCCESS, OptimizerEnd s4)"
  proof -
    have "heap s1 m = heap s0 m" "bnsize (heap s0 m) = bnsize (heap s m)" using TD nn lv by simp_all
    then show ?thesis using ms E(1) TD D(1) C(1) by (simp add: BN_Mod_def)
  qed
  then show thesis using that F ext_same [OF E(2) F(1) i] E(3) C(3,4) by simp
qed

end
