(* ===== verification/Bn_Modular.thy ===== *)
theory Bn_Modular
  imports Bn_Quot
begin

text \<open>
  Modular sum, difference and product: the shape they share is proved once.
\<close>

lemma size_bound: "bn_wf v \<Longrightarrow> mag v < base ^ k \<Longrightarrow> bnsize v \<le> k"
proof (rule ccontr)
  assume w: "bn_wf v" "mag v < base ^ k" "\<not> bnsize v \<le> k"
  let ?d = "take (bnsize v) (digits v)"
  have l: "length ?d = bnsize v" "?d \<noteq> []" using bn_wfD(1) [OF w(1)] w(3) by auto
  have "base ^ (bnsize v - 1) \<le> val ?d" using bn_wfD(2) [OF w(1)] l val_top [of ?d] by (simp add: normal_def)
  moreover have "base ^ k \<le> base ^ (bnsize v - 1)" using w(3) by (intro power_increasing) (auto simp: base_def)
  ultimately show False using w(2) by (simp add: mag_def)
qed

text \<open>A modular operation: the first operation into a temporary number, then the reduction.\<close>

lemma mod_of_ok:
  assumes i: "opt_inv s" and al: "\<forall>n. allocOk s n" and d: "deep s < 8" and lv: "live s r" "live s m"
    and w: "bn_wf (heap s r)" "bn_wf (heap s m)" and m0: "bval (heap s m) \<noteq> 0"
    and n: "n \<le> BITS_TO_BN_UNIT BN_MAX_BITS" "bnsize (heap s m) < BITS_TO_BN_UNIT BN_MAX_BITS"
    and rm: "has_room True (heap s r) (bnsize (heap s m) + 1)"
    and f: "\<And>s1 s2 t. temp_of s s1 s2 t n \<Longrightarrow>
      \<exists>s3. f s2 t = (CRYPT_SUCCESS, s3) \<and> ext s2 s3 {t} \<and> bn_wf (heap s3 t) \<and> bval (heap s3 t) = v"
    and v: "\<bar>v\<bar> < int (base ^ k)" "k + 2 \<le> BITS_TO_BN_UNIT BN_MAX_BITS"
  obtains s' where "mod_of s True r m n f = (CRYPT_SUCCESS, s')" "ext s s' {r}" "pos s' = pos s"
    "bn_wf (heap s' r)" "bval (heap s' r) = v mod \<bar>bval (heap s m)\<bar>"
proof -
  have d': "deep s < 10" using d by simp
  obtain s1 t s2 where T: "temp_of s s1 s2 t n" using one_temp [OF i al d' n(1)] .
  note TD = T [unfolded temp_of_def]
  obtain s3 where F: "f s2 t = (CRYPT_SUCCESS, s3)" "ext s2 s3 {t}" "bn_wf (heap s3 t)" "bval (heap s3 t) = v" using f [OF T] by blast
  have U: "u \<noteq> t \<and> live s3 u \<and> heap s3 u = heap s u" if "live s u" for u
    using TD that ext_live [OF F(2), of u] ext_heap [OF F(2), of u] by auto
  have al3: "\<forall>n. allocOk s3 n" using ext_granted [OF F(2)] TD by blast
  have d3: "deep s3 < 9" using F(2) TD d by (simp add: ext_def)
  have lt: "live s3 t" using ext_live [OF F(2)] TD by blast
  have "bnsize (heap s3 t) \<le> k" using size_bound [OF F(3), of k] bval_abs [of "heap s3 t"] v(1) F(4) by simp
  then have tk: "bnsize (heap s3 t) + 2 \<le> BITS_TO_BN_UNIT BN_MAX_BITS" using v(2) by simp
  note Ur = U [OF lv(1)] and Um = U [OF lv(2)]
  obtain s4 where M: "BN_Mod s3 True (Some r) (Some t) (Some m) = (CRYPT_SUCCESS, s4)" "ext s3 s4 {r}" "bn_wf (heap s4 r)"
    "bval (heap s4 r) = v mod \<bar>bval (heap s m)\<bar>"
    using BN_Mod_ok [OF ext_inv [OF F(2)] al3 d3 _ lt, of r m] Ur Um w F(3,4) m0 tk n(2) rm by metis
  have "ext s2 s4 (insert t {r})" using ext_trans' [OF _ F(2) M(2)] TD by (simp add: insert_commute)
  note Z = temp_done [OF i d' T this]
  have "mod_of s True r m n f = (CRYPT_SUCCESS, OptimizerEnd s4)" using TD F(1) M(1) by (simp add: mod_of_def)
  then show thesis using that Z M(3,4) by simp
qed

lemma ModBaseInputCheck_ok:
  assumes i: "opt_inv s" and al: "\<forall>n. allocOk s n" and w: "bn_wf (heap s r)" "has_room True (heap s r) (bnsize (heap s m))"
    and m: "live s m" "bn_wf (heap s m)" "bval (heap s m) \<noteq> 0"
  obtains s' where "ModBaseInputCheck s True (Some r) (Some a) (Some b) (Some m) = (CRYPT_SUCCESS, s')"
    "extend_at s r (bnsize (heap s m)) = (CRYPT_SUCCESS, s')" "ext s s' {r}" "pos s' = pos s"
    "\<And>x. live s x \<Longrightarrow> bnsize (heap s' x) = bnsize (heap s x) \<and> bval (heap s' x) = bval (heap s x) \<and> bn_wf (heap s' x) = bn_wf (heap s x) \<and> live s' x"
proof -
  obtain s0 where E: "extend_at s r (bnsize (heap s m)) = (CRYPT_SUCCESS, s0)" "ext s s0 {r}" "pos s0 = pos s"
    "\<And>x. live s x \<Longrightarrow> num (heap s0 x) = num (heap s x)"
    using extend_ok [OF i al w] by metis
  have nn: "bnsize (heap s0 x) = bnsize (heap s x) \<and> bval (heap s0 x) = bval (heap s x) \<and> bn_wf (heap s0 x) = bn_wf (heap s x) \<and> live s0 x"
    if "live s x" for x using num_eq [OF E(4) [OF that]] opt_inv_simps(3) i ext_inv [OF E(2)] ext_live [OF E(2) that] by blast
  have "bnsize (heap s m) \<noteq> 0" using m(3) mag_0 [OF m(2)] by (simp add: bval_def split: if_splits)
  then have "\<not> BN_IsZero (Some (heap s0 m))" using nn [OF m(1)] by (simp add: BN_IsZero_def)
  then have "ModBaseInputCheck s True (Some r) (Some a) (Some b) (Some m) = (CRYPT_SUCCESS, s0)" using E(1) by (simp add: ModBaseInputCheck_def)
  then show thesis by (rule that [OF _ E(1-3) nn])
qed


text \<open>What the modular operations are called with: numbers in use, a modulus that is not zero, room for the result.\<close>

definition mod_args :: "bn_state \<Rightarrow> bn_ref \<Rightarrow> bn_ref \<Rightarrow> bn_ref \<Rightarrow> bn_ref \<Rightarrow> bool" where
  "mod_args s r a b m = (opt_inv s \<and> (\<forall>n. allocOk s n) \<and> deep s < 8 \<and> live s r \<and> live s a \<and> live s b \<and> live s m
     \<and> bn_wf (heap s r) \<and> bn_wf (heap s a) \<and> bn_wf (heap s b) \<and> bn_wf (heap s m) \<and> bval (heap s m) \<noteq> 0
     \<and> bnsize (heap s a) + bnsize (heap s b) + 3 \<le> BITS_TO_BN_UNIT BN_MAX_BITS \<and> bnsize (heap s m) < BITS_TO_BN_UNIT BN_MAX_BITS
     \<and> has_room True (heap s r) (bnsize (heap s m) + 1))"

text \<open>The result: the number at \<open>r\<close> is \<open>v\<close>, and nothing else in use has changed.\<close>

definition call_result :: "bn_exec \<Rightarrow> bn_state \<Rightarrow> bn_ref \<Rightarrow> int \<Rightarrow> bool" where
  "call_result p s r v = (fst p = CRYPT_SUCCESS \<and> ext s (snd p) {r} \<and> pos (snd p) = pos s \<and> bn_wf (heap (snd p) r) \<and> bval (heap (snd p) r) = v)"

lemma mod_binary:
  assumes A: "mod_args s r a b m" and n: "n \<le> bnsize (heap s a) + bnsize (heap s b) + 1"
    and f: "\<And>s2 t. opt_inv s2 \<Longrightarrow> \<forall>n. allocOk s2 n \<Longrightarrow> deep s2 < 10 \<Longrightarrow> live s2 t \<Longrightarrow> live s2 a \<Longrightarrow> live s2 b \<Longrightarrow> t \<noteq> a \<Longrightarrow> t \<noteq> b
        \<Longrightarrow> bn_wf (heap s2 t) \<Longrightarrow> bn_wf (heap s2 a) \<Longrightarrow> bn_wf (heap s2 b) \<Longrightarrow> has_room True (heap s2 t) (bnsize (heap s2 a) + bnsize (heap s2 b) + 1)
        \<Longrightarrow> \<exists>s3. f s2 t = (CRYPT_SUCCESS, s3) \<and> ext s2 s3 {t} \<and> bn_wf (heap s3 t) \<and> bval (heap s3 t) = v (bval (heap s2 a)) (bval (heap s2 b))"
    and v: "\<bar>v (bval (heap s a)) (bval (heap s b))\<bar> < int (base ^ (bnsize (heap s a) + bnsize (heap s b) + 1))"
    and e: "ext s s0 {r}" "pos s0 = pos s"
      "\<And>x. live s x \<Longrightarrow> bnsize (heap s0 x) = bnsize (heap s x) \<and> bval (heap s0 x) = bval (heap s x) \<and> bn_wf (heap s0 x) = bn_wf (heap s x) \<and> live s0 x"
  shows "call_result (mod_of s0 True r m n f) s r (v (bval (heap s a)) (bval (heap s b)) mod \<bar>bval (heap s m)\<bar>)"
proof -
  note AD = A [unfolded mod_args_def]
  let ?v = "v (bval (heap s a)) (bval (heap s b))"
  have al: "\<forall>n. allocOk s0 n" using ext_granted [OF e(1)] AD by blast
  have d: "deep s0 < 8" using e(1) AD by (simp add: ext_def)
  have room: "has_room True (heap s0 r) (bnsize (heap s0 m) + 1)" using keeps_has_room [OF ext_keeps [OF e(1), of r]] AD e(3) [of m] by simp
  have op: "\<exists>s3. f s2 t = (CRYPT_SUCCESS, s3) \<and> ext s2 s3 {t} \<and> bn_wf (heap s3 t) \<and> bval (heap s3 t) = ?v" if T: "temp_of s0 s1 s2 t n" for s1 s2 t
  proof -
    note TD = T [unfolded temp_of_def]
    have u: "u \<noteq> t \<and> live s2 u \<and> bnsize (heap s2 u) = bnsize (heap s u) \<and> bval (heap s2 u) = bval (heap s u) \<and> bn_wf (heap s2 u) = bn_wf (heap s u)"
      if "live s u" for u using e(3) [OF that] TD by simp
    have r: "has_room True (heap s2 t) (bnsize (heap s2 a) + bnsize (heap s2 b) + 1)" using temp_room [OF T] AD u [of a] u [of b] by simp
    have "deep s2 < 10" using TD d by simp
    then show ?thesis using f [of s2 t] r TD AD u [of a] u [of b] by auto
  qed
  obtain s' where "mod_of s0 True r m n f = (CRYPT_SUCCESS, s')" "ext s0 s' {r}" "pos s' = pos s0" "bn_wf (heap s' r)"
    "bval (heap s' r) = ?v mod \<bar>bval (heap s0 m)\<bar>"
  proof -
    have q: "live s0 r" "live s0 m" "bn_wf (heap s0 r)" "bn_wf (heap s0 m)" "bval (heap s0 m) \<noteq> 0" "n \<le> BITS_TO_BN_UNIT BN_MAX_BITS"
      "bnsize (heap s0 m) < BITS_TO_BN_UNIT BN_MAX_BITS" "bnsize (heap s a) + bnsize (heap s b) + 1 + 2 \<le> BITS_TO_BN_UNIT BN_MAX_BITS"
      using e(3) [of r] e(3) [of m] AD n by auto
    show thesis by (rule mod_of_ok [OF ext_inv [OF e(1)] al d q(1-7) room op v q(8)]) (assumption | rule that)+
  qed
  then show ?thesis using ext_same [OF e(1)] e(2) e(3) [of m] AD by (simp add: call_result_def)
qed


lemma mag_less: "bn_wf a \<Longrightarrow> \<bar>bval a\<bar> < int (base ^ bnsize a)"
  using mag_bound [of a] bval_abs [of a] by simp

lemma sum_bound:
  assumes "bn_wf a" "bn_wf b"
  shows "\<bar>bval a + bval b\<bar> < int (base ^ (bnsize a + bnsize b + 1))" "\<bar>bval a - bval b\<bar> < int (base ^ (bnsize a + bnsize b + 1))"
    "\<bar>bval a * bval b\<bar> < int (base ^ (bnsize a + bnsize b + 1))"
proof -
  let ?n = "bnsize a + bnsize b"
  have b: "1 \<le> base" "2 \<le> base" by (simp_all add: base_def)
  have p: "base ^ bnsize a \<le> base ^ ?n" "base ^ bnsize b \<le> base ^ ?n" using b(1) by (intro power_increasing; simp)+
  have q: "2 * base ^ ?n \<le> base ^ (?n + 1)" using b(2) by simp
  have A: "\<bar>bval a\<bar> < int (base ^ ?n)" "\<bar>bval b\<bar> < int (base ^ ?n)" using mag_less [OF assms(1)] mag_less [OF assms(2)] p by linarith+
  show "\<bar>bval a + bval b\<bar> < int (base ^ (?n + 1))" "\<bar>bval a - bval b\<bar> < int (base ^ (?n + 1))" using A q by linarith+
  have "\<bar>bval a * bval b\<bar> < int (base ^ bnsize a) * int (base ^ bnsize b)"
    using mag_less [OF assms(1)] mag_less [OF assms(2)] by (simp only: abs_mult) (intro mult_strict_mono; simp)
  moreover have "int (base ^ bnsize a) * int (base ^ bnsize b) = int (base ^ ?n)" by (simp add: power_add)
  ultimately show "\<bar>bval a * bval b\<bar> < int (base ^ (?n + 1))" using q by linarith
qed

lemma ModAdd_Sub_Mul_ok:
  assumes A: "mod_args s r a b m"
  shows "call_result (BN_ModAdd s True (Some r) (Some a) (Some b) (Some m)) s r ((bval (heap s a) + bval (heap s b)) mod \<bar>bval (heap s m)\<bar>)
    \<and> call_result (BN_ModSub s True (Some r) (Some a) (Some b) (Some m)) s r ((bval (heap s a) - bval (heap s b)) mod \<bar>bval (heap s m)\<bar>)
    \<and> call_result (BN_ModMul s True (Some r) (Some a) (Some b) (Some m)) s r ((bval (heap s a) * bval (heap s b)) mod \<bar>bval (heap s m)\<bar>)"
proof -
  note AD = A [unfolded mod_args_def]
  have i: "opt_inv s" "\<forall>n. allocOk s n" "bn_wf (heap s r)" "has_room True (heap s r) (bnsize (heap s m))" "live s m" "bn_wf (heap s m)" "bval (heap s m) \<noteq> 0"
    using AD by (auto intro: has_room_mono)
  obtain s0 where C: "ModBaseInputCheck s True (Some r) (Some a) (Some b) (Some m) = (CRYPT_SUCCESS, s0)" and E: "ext s s0 {r}" "pos s0 = pos s"
    "\<And>x. live s x \<Longrightarrow> bnsize (heap s0 x) = bnsize (heap s x) \<and> bval (heap s0 x) = bval (heap s x) \<and> bn_wf (heap s0 x) = bn_wf (heap s x) \<and> live s0 x"
    using ModBaseInputCheck_ok [OF i] by metis
  have sz: "bnsize (heap s0 a) = bnsize (heap s a)" "bnsize (heap s0 b) = bnsize (heap s b)" using E(3) AD by blast+
  have w: "bn_wf (heap s a)" "bn_wf (heap s b)" using AD by simp_all
  note S = sum_bound [OF w]
  have n: "max (bnsize (heap s a)) (bnsize (heap s b)) \<le> bnsize (heap s a) + bnsize (heap s b) + 1"
    "bnsize (heap s a) + bnsize (heap s b) + 1 \<le> bnsize (heap s a) + bnsize (heap s b) + 1" by simp_all
  have room: "has_room True x (max k l + 1)" if "has_room True x (k + l + 1)" for x k l using that by (auto intro: has_room_mono)
  have add: "call_result (mod_of s0 True r m (max (bnsize (heap s a)) (bnsize (heap s b))) (\<lambda>s t. add_at s t a b)) s r ((bval (heap s a) + bval (heap s b)) mod \<bar>bval (heap s m)\<bar>)"
    by (rule mod_binary [where v = "(+)", OF A n(1) _ S(1) E]) (use add_sub_ok(1) room in blast)
  have sub: "call_result (mod_of s0 True r m (max (bnsize (heap s a)) (bnsize (heap s b))) (\<lambda>s t. sub_at s t a b)) s r ((bval (heap s a) - bval (heap s b)) mod \<bar>bval (heap s m)\<bar>)"
    by (rule mod_binary [where v = "(-)", OF A n(1) _ S(2) E]) (use add_sub_ok(2) room in blast)
  have mul: "call_result (mod_of s0 True r m (bnsize (heap s a) + bnsize (heap s b) + 1) (\<lambda>s t. BN_Mul s True (Some t) (Some a) (Some b))) s r ((bval (heap s a) * bval (heap s b)) mod \<bar>bval (heap s m)\<bar>)"
  proof (rule mod_binary [where v = "(*)", OF A n(2) _ S(3) E])
    fix s2 t assume T: "opt_inv s2" "\<forall>n. allocOk s2 n" "deep s2 < 10" "live s2 t" "live s2 a" "live s2 b" "t \<noteq> a" "t \<noteq> b"
      "bn_wf (heap s2 t)" "bn_wf (heap s2 a)" "bn_wf (heap s2 b)" "has_room True (heap s2 t) (bnsize (heap s2 a) + bnsize (heap s2 b) + 1)"
    have "has_room True (heap s2 t) (bnsize (heap s2 a) + bnsize (heap s2 b))" using T(12) by (auto intro: has_room_mono)
    then show "\<exists>s3. BN_Mul s2 True (Some t) (Some a) (Some b) = (CRYPT_SUCCESS, s3) \<and> ext s2 s3 {t} \<and> bn_wf (heap s3 t)
        \<and> bval (heap s3 t) = bval (heap s2 a) * bval (heap s2 b)"
      using BN_Mul_ok [OF T(1-6,9-11)] T(7,8) by metis
  qed
  show ?thesis using add sub mul C sz by (simp add: BN_ModAdd_def BN_ModSub_def BN_ModMul_def)
qed

end
