(* ===== verification/Bn_Exp.thy ===== *)
theory Bn_Exp
  imports Bn_Modular
begin

text \<open>
  Modular square, and the square-and-multiply loop of the exponentiation.
\<close>

lemma ModSqr_ok:
  assumes A: "mod_args s r a a m"
  shows "call_result (BN_ModSqr s True (Some r) (Some a) (Some m)) s r ((bval (heap s a) * bval (heap s a)) mod \<bar>bval (heap s m)\<bar>)"
proof -
  note AD = A [unfolded mod_args_def]
  have i: "opt_inv s" "\<forall>n. allocOk s n" "bn_wf (heap s r)" "has_room True (heap s r) (bnsize (heap s m))" "live s m" "bn_wf (heap s m)" "bval (heap s m) \<noteq> 0"
    using AD by (auto intro: has_room_mono)
  obtain s0 where C: "extend_at s r (bnsize (heap s m)) = (CRYPT_SUCCESS, s0)" and E: "ext s s0 {r}" "pos s0 = pos s"
    "\<And>x. live s x \<Longrightarrow> bnsize (heap s0 x) = bnsize (heap s x) \<and> bval (heap s0 x) = bval (heap s x) \<and> bn_wf (heap s0 x) = bn_wf (heap s x) \<and> live s0 x"
    using ModBaseInputCheck_ok [OF i, of a a] by metis
  have sz: "bnsize (heap s0 a) = bnsize (heap s a)" using E(3) AD by blast
  have w: "bn_wf (heap s a)" using AD by simp
  have n: "2 * bnsize (heap s a) + 1 \<le> bnsize (heap s a) + bnsize (heap s a) + 1" by simp
  have "call_result (mod_of s0 True r m (2 * bnsize (heap s a) + 1) (\<lambda>s t. BN_Sqr s True (Some t) (Some a))) s r ((bval (heap s a) * bval (heap s a)) mod \<bar>bval (heap s m)\<bar>)"
  proof (rule mod_binary [where v = "(*)", OF A n _ sum_bound(3) [OF w w] E])
    fix s2 t assume T: "opt_inv s2" "\<forall>n. allocOk s2 n" "deep s2 < 10" "live s2 t" "live s2 a" "live s2 a" "t \<noteq> a" "t \<noteq> a"
      "bn_wf (heap s2 t)" "bn_wf (heap s2 a)" "bn_wf (heap s2 a)" "has_room True (heap s2 t) (bnsize (heap s2 a) + bnsize (heap s2 a) + 1)"
    have "has_room True (heap s2 t) (2 * bnsize (heap s2 a))" using T(12) by (auto intro: has_room_mono)
    then show "\<exists>s3. BN_Sqr s2 True (Some t) (Some a) = (CRYPT_SUCCESS, s3) \<and> ext s2 s3 {t} \<and> bn_wf (heap s3 t)
        \<and> bval (heap s3 t) = bval (heap s2 a) * bval (heap s2 a)"
      using BN_Sqr_ok [OF T(1-5,7,9,10)] by metis
  qed
  moreover have "bnsize (heap s m) \<noteq> 0" using i(6,7) mag_0 [OF i(6)] by (simp add: bval_def split: if_splits)
  ultimately show ?thesis using C sz by (simp add: BN_ModSqr_def BN_IsZero_def)
qed

text \<open>The loop of the exponentiation, with reduced numbers at \<open>x\<close> and \<open>y\<close>.\<close>

definition exp_args :: "bn_state \<Rightarrow> bn_ref \<Rightarrow> bn_ref \<Rightarrow> bn_ref \<Rightarrow> bn_ref \<Rightarrow> bool" where
  "exp_args s x y e m = (opt_inv s \<and> (\<forall>n. allocOk s n) \<and> deep s < 8 \<and> live s x \<and> live s y \<and> live s e \<and> live s m \<and> distinct [x, y, e]
     \<and> m \<notin> {x, y} \<and> bn_wf (heap s x) \<and> bn_wf (heap s y) \<and> bn_wf (heap s e) \<and> bn_wf (heap s m) \<and> 1 < \<bar>bval (heap s m)\<bar>
     \<and> 2 * bnsize (heap s m) + 3 \<le> BITS_TO_BN_UNIT BN_MAX_BITS
     \<and> has_room True (heap s x) (bnsize (heap s m) + 1) \<and> has_room True (heap s y) (bnsize (heap s m) + 1)
     \<and> 0 \<le> bval (heap s y) \<and> bval (heap s y) < \<bar>bval (heap s m)\<bar>)"

lemma reduced_size: "bn_wf a \<Longrightarrow> bn_wf m \<Longrightarrow> 0 \<le> bval a \<Longrightarrow> bval a < \<bar>bval m\<bar> \<Longrightarrow> bnsize a \<le> bnsize m"
  using bval_abs [of a] bval_abs [of m] by (intro mag_size_mono) auto

lemma exp_mod_args:
  assumes A: "exp_args s x y e m" and x: "0 \<le> bval (heap s x)" "bval (heap s x) < \<bar>bval (heap s m)\<bar>"
    and "r \<in> {x, y}" "a \<in> {x, y}" "b \<in> {x, y}"
  shows "mod_args s r a b m"
proof -
  note AD = A [unfolded exp_args_def]
  have "bnsize (heap s x) \<le> bnsize (heap s m)" "bnsize (heap s y) \<le> bnsize (heap s m)" using reduced_size x AD by blast+
  then show ?thesis using AD assms(4-6) unfolding mod_args_def by auto
qed

lemma exp_step:
  assumes A: "exp_args s x y e m" and x: "r = x \<or> 0 \<le> bval (heap s x) \<and> bval (heap s x) < \<bar>bval (heap s m)\<bar>"
    and r: "r \<in> {x, y}" and p: "call_result p s r (v mod \<bar>bval (heap s m)\<bar>)"
  shows "exp_args (snd p) x y e m \<and> 0 \<le> bval (heap (snd p) x) \<and> bval (heap (snd p) x) < \<bar>bval (heap s m)\<bar> \<and> heap (snd p) e = heap s e \<and> heap (snd p) m = heap s m"
proof -
  note AD = A [unfolded exp_args_def]
  let ?s = "snd p" and ?m = "\<bar>bval (heap s m)\<bar>"
  have P: "ext s ?s {r}" "bn_wf (heap ?s r)" "bval (heap ?s r) = v mod ?m" using p by (auto simp: call_result_def)
  have h: "heap ?s u = heap s u" if "live s u" "u \<noteq> r" for u using ext_heap [OF P(1), of u] that by simp
  have l: "live ?s u" if "live s u" for u using ext_live [OF P(1) that] .
  have k: "has_room True (heap ?s u) n" if "live s u" "has_room True (heap s u) n" for u n using keeps_has_room [OF ext_keeps [OF P(1) that(1)] that(2)] .
  have em: "heap ?s e = heap s e" "heap ?s m = heap s m" using h AD r by auto
  have v: "0 \<le> v mod ?m" "v mod ?m < ?m" using AD by auto
  have q: "bn_wf (heap ?s u) \<and> 0 \<le> bval (heap ?s u) \<and> bval (heap ?s u) < ?m" if "u \<in> {x, y}" for u
    using h [of u] P(2,3) v x AD that by (cases "u = r") auto
  have "deep ?s < 8" "\<forall>n. allocOk ?s n" "opt_inv ?s" using P(1) AD by (simp_all add: ext_def)
  then show "exp_args ?s x y e m \<and> 0 \<le> bval (heap ?s x) \<and> bval (heap ?s x) < ?m \<and> heap ?s e = heap s e \<and> heap ?s m = heap s m"
    using AD q [of x] q [of y] l k em unfolding exp_args_def by auto
qed


lemma exp_arith:
  fixes x y m :: int and n :: nat
  assumes "c = (n div 2 ^ i) mod 2 ^ Suc k" "y' = (y * y) mod m" "x' = (if bit n i then (x * y') mod m else x)" "d = (n div 2 ^ Suc i) mod 2 ^ k"
  shows "(x' * y' ^ (2 * d)) mod m = (x * y ^ (2 * c)) mod m"
proof -
  have c: "c = 2 * d + of_bool (bit n i)"
  proof -
    have "c = take_bit (Suc k) (n div 2 ^ i)" by (simp only: assms(1) take_bit_eq_mod)
    also have "\<dots> = take_bit k (n div 2 ^ i div 2) * 2 + n div 2 ^ i mod 2" by (rule take_bit_Suc)
    also have "n div 2 ^ i div 2 = n div 2 ^ Suc i" by (simp add: div_mult2_eq [symmetric] mult.commute)
    finally show ?thesis by (simp add: assms(4) take_bit_eq_mod bit_iff_odd mod_2_eq_odd)
  qed
  have y: "(y' ^ k) mod m = (y ^ (2 * k)) mod m" for k
    unfolding assms(2) by (simp add: power_mod power_mult power2_eq_square)
  have "(x' * y' ^ (2 * d)) mod m = (x * y' ^ c) mod m"
    unfolding assms(3) c by (auto simp: mod_mult_left_eq power_add mult.assoc mult.commute [of y'])
  also have "\<dots> = (x * y ^ (2 * c)) mod m" using y [of c] by (metis mod_mult_right_eq)
  finally show ?thesis .
qed


lemma ModExpCore_loop_ok:
  assumes "exp_args s x y e m" "0 \<le> bval (heap s x)" "bval (heap s x) < \<bar>bval (heap s m)\<bar>"
  shows "\<exists>s'. ModExpCore_loop s True x y e m i n = (CRYPT_SUCCESS, s') \<and> ext s s' {x, y} \<and> pos s' = pos s \<and> bn_wf (heap s' x)
    \<and> bval (heap s' x) = (bval (heap s x) * bval (heap s y) ^ (2 * (mag (heap s e) div 2 ^ i mod 2 ^ n))) mod \<bar>bval (heap s m)\<bar>"
  using assms
proof (induction n arbitrary: s i)
  case 0
  then show ?case using ext_refl [of s "{x, y}"] by (auto simp: exp_args_def)
next
  case (Suc n)
  note AD = Suc.prems(1) [unfolded exp_args_def]
  let ?m = "\<bar>bval (heap s m)\<bar>"
  obtain s1 where Q: "BN_ModSqr s True (Some y) (Some y) (Some m) = (CRYPT_SUCCESS, s1)" "call_result (CRYPT_SUCCESS, s1) s y ((bval (heap s y) * bval (heap s y)) mod ?m)"
    using ModSqr_ok [OF exp_mod_args [OF Suc.prems, of y y y]] by (cases "BN_ModSqr s True (Some y) (Some y) (Some m)") (auto simp: call_result_def)
  have "y = x \<or> 0 \<le> bval (heap s x) \<and> bval (heap s x) < ?m" using Suc.prems by simp
  note S1 = exp_step [OF Suc.prems(1) this _ Q(2), simplified]
  have x1: "bval (heap s1 x) = bval (heap s x)" "bval (heap s1 y) = (bval (heap s y) * bval (heap s y)) mod ?m" "ext s s1 {y}" "pos s1 = pos s"
    using Q(2) AD ext_heap [of s s1 "{y}" x] by (auto simp: call_result_def)
  define s2p where "s2p = (if BN_GetBit (Some (heap s1 e)) i then BN_ModMul s1 True (Some x) (Some x) (Some y) (Some m) else (CRYPT_SUCCESS, s1))"
  have g: "BN_GetBit (Some (heap s1 e)) i = bit (mag (heap s e)) i" using S1 GetBit_mag AD by simp
  obtain s2 where M: "s2p = (CRYPT_SUCCESS, s2)" "exp_args s2 x y e m" "0 \<le> bval (heap s2 x)" "bval (heap s2 x) < \<bar>bval (heap s2 m)\<bar>"
    "ext s1 s2 {x, y}" "pos s2 = pos s1" "heap s2 e = heap s e" "heap s2 m = heap s m" "bval (heap s2 y) = bval (heap s1 y)"
    "bval (heap s2 x) = (if bit (mag (heap s e)) i then (bval (heap s1 x) * bval (heap s1 y)) mod ?m else bval (heap s1 x))"
  proof (cases "bit (mag (heap s e)) i")
    case True
    have a1: "mod_args s1 x x y m" using S1 Suc.prems by (intro exp_mod_args) auto
    obtain s2 where R: "BN_ModMul s1 True (Some x) (Some x) (Some y) (Some m) = (CRYPT_SUCCESS, s2)"
      "call_result (CRYPT_SUCCESS, s2) s1 x ((bval (heap s1 x) * bval (heap s1 y)) mod \<bar>bval (heap s1 m)\<bar>)"
      using ModAdd_Sub_Mul_ok [OF a1] by (cases "BN_ModMul s1 True (Some x) (Some x) (Some y) (Some m)") (auto simp: call_result_def)
    have "exp_args s2 x y e m" "0 \<le> bval (heap s2 x)" "bval (heap s2 x) < \<bar>bval (heap s2 m)\<bar>" "heap s2 e = heap s e" "heap s2 m = heap s m"
      using exp_step [OF _ _ _ R(2), of x y e] S1 Suc.prems by auto
    moreover have "ext s1 s2 {x, y}" "bval (heap s2 y) = bval (heap s1 y)"
      using R(2) S1 ext_mono [of s1 s2 "{x}" "{x, y}"] ext_heap [of s1 s2 "{x}" y] by (auto simp: call_result_def exp_args_def)
    ultimately show thesis using that [of s2] R S1 Suc.prems True g by (simp add: s2p_def call_result_def)
  next
    case False
    then show thesis using that [of s1] S1 g ext_refl [of s1 "{x, y}"] ext_inv [OF x1(3)] by (simp add: s2p_def)
  qed
  obtain s3 where L: "ModExpCore_loop s2 True x y e m (i + 1) n = (CRYPT_SUCCESS, s3)" "ext s2 s3 {x, y}" "pos s3 = pos s2" "bn_wf (heap s3 x)"
    "bval (heap s3 x) = (bval (heap s2 x) * bval (heap s2 y) ^ (2 * (mag (heap s2 e) div 2 ^ (i + 1) mod 2 ^ n))) mod \<bar>bval (heap s2 m)\<bar>"
    using Suc.IH [OF M(2-4), of "i + 1"] by blast
  have r: "ModExpCore_loop s True x y e m i (Suc n) = (CRYPT_SUCCESS, s3)" using Q(1) M(1) L(1) by (simp add: s2p_def)
  have e: "ext s s3 {x, y}" using ext_trans' [OF _ ext_trans' [OF _ x1(3) M(5)] L(2)] AD by (simp add: insert_commute)
  have "bval (heap s3 x) = (bval (heap s x) * bval (heap s y) ^ (2 * (mag (heap s e) div 2 ^ i mod 2 ^ Suc n))) mod ?m"
    unfolding L(5) M(7,8) by (rule exp_arith [OF refl]) (use M(9,10) x1 in \<open>simp_all only: Suc_eq_plus1\<close>)
  then show ?case using r e L(3,4) M(6) x1(4) by auto
qed


lemma Bits_bound: "bn_wf a \<Longrightarrow> mag a < 2 ^ BN_Bits (Some a)"
proof (cases "bnsize a = 0")
  case True
  assume "bn_wf a"
  then have "mag a = 0" using True mag_0 by simp
  then show ?thesis by simp
next
  case False
  assume a: "bn_wf a"
  show ?thesis using BinBits_exact [OF bn_wfD(1) [OF a] bn_wfD(2) [OF a]] False by (simp add: BN_Bits_def mag_def)
qed

lemma ModExpCore_ok:
  assumes A: "exp_args s x y e m"
  shows "\<exists>s'. ModExpCore s True x y e m = (CRYPT_SUCCESS, s') \<and> ext s s' {x, y} \<and> pos s' = pos s \<and> bn_wf (heap s' x)
    \<and> bval (heap s' x) = (bval (heap s y) ^ mag (heap s e)) mod \<bar>bval (heap s m)\<bar>"
proof -
  note AD = A [unfolded exp_args_def]
  let ?m = "\<bar>bval (heap s m)\<bar>" and ?e = "mag (heap s e)" and ?b = "BN_Bits (Some (heap s e))"
  have i: "opt_inv s" "\<forall>n. allocOk s n" and w: "bn_wf (heap s x)" "bn_wf (heap s y)" using AD by simp_all
  have m1: "1 \<le> bnsize (heap s m)" using AD bval_abs [of "heap s m"] mag_0 [of "heap s m"] by (cases "bnsize (heap s m)") auto
  have "bnsize (heap s y) \<le> bnsize (heap s m)" using reduced_size AD by blast
  then have rm: "has_room True (heap s x) (bnsize (heap s y))" "has_room True (heap s x) 1" using AD m1 by (auto intro: has_room_mono)
  define p where "p = (if BN_GetBit (Some (heap s e)) 0 then copy_at s x y else set_limb_at s x 1)"
  obtain s1 where P: "p = (CRYPT_SUCCESS, s1)" "call_result (CRYPT_SUCCESS, s1) s x ((if odd ?e then bval (heap s y) else 1) mod ?m)"
  proof (cases "odd ?e")
    case True
    then have "BN_GetBit (Some (heap s e)) 0" using GetBit_mag [of "heap s e" 0] AD by (simp add: bit_0)
    moreover obtain s1 where "copy_at s x y = (CRYPT_SUCCESS, s1)" "ext s s1 {x}" "pos s1 = pos s" "bn_wf (heap s1 x)" "bval (heap s1 x) = bval (heap s y)"
      using copy_ok [OF i w(2) rm(1)] by metis
    ultimately show thesis using that [of s1] True AD by (simp add: p_def call_result_def)
  next
    case False
    then have "\<not> BN_GetBit (Some (heap s e)) 0" using GetBit_mag [of "heap s e" 0] AD by (simp add: bit_0)
    moreover obtain s1 where "set_limb_at s x 1 = (CRYPT_SUCCESS, s1)" "ext s s1 {x}" "pos s1 = pos s" "bn_wf (heap s1 x)" "bval (heap s1 x) = int (unat (1 :: BN_UINT))"
      using limb_ok [OF i w(1) rm(2), of 1] by metis
    ultimately show thesis using that [of s1] False AD by (simp add: p_def call_result_def)
  qed
  note S1 = exp_step [OF A _ _ P(2), simplified]
  have b: "?e div 2 mod 2 ^ (?b - 1) = ?e div 2"
  proof -
    have "?e < 2 ^ ?b" using Bits_bound AD by blast
    then have "?e div 2 < 2 ^ (?b - 1)" by (cases ?b) (simp_all add: less_mult_imp_div_less mult.commute)
    then show ?thesis by simp
  qed
  obtain s2 where L: "ModExpCore_loop s1 True x y e m 1 (?b - 1) = (CRYPT_SUCCESS, s2)" "ext s1 s2 {x, y}" "pos s2 = pos s1" "bn_wf (heap s2 x)"
    "bval (heap s2 x) = (bval (heap s1 x) * bval (heap s1 y) ^ (2 * (?e div 2 mod 2 ^ (?b - 1)))) mod ?m"
    using ModExpCore_loop_ok [of s1 x y e m 1 "?b - 1"] S1 by (auto simp: power_one_right)
  have v: "bval (heap s1 x) = (if odd ?e then bval (heap s y) else 1) mod ?m" "bval (heap s1 y) = bval (heap s y)" "ext s s1 {x}" "pos s1 = pos s"
    using P(2) AD ext_heap [of s s1 "{x}" y] by (auto simp: call_result_def)
  have "bval (heap s2 x) = ((if odd ?e then bval (heap s y) else 1) * bval (heap s y) ^ (2 * (?e div 2))) mod ?m"
    unfolding L(5) v(1,2) b by (rule mod_mult_left_eq)
  also have "(if odd ?e then bval (heap s y) else 1) * bval (heap s y) ^ (2 * (?e div 2)) = bval (heap s y) ^ ?e"
    by (cases "odd ?e") (simp_all flip: power_Suc)
  finally have val: "bval (heap s2 x) = bval (heap s y) ^ ?e mod ?m" .
  have "ModExpCore s True x y e m = (CRYPT_SUCCESS, s2)" using P(1) L(1) S1 by (simp add: ModExpCore_def p_def [symmetric])
  moreover have "ext s s2 {x, y}" using ext_trans' [OF i(1) v(3) L(2)] by (simp add: insert_commute)
  ultimately show ?thesis using val L(3,4) v(4) by auto
qed

end
