(* ===== verification/Bn_DivLimb.thy ===== *)
theory Bn_DivLimb
  imports Bn_Exp
begin

text \<open>
  Division and reduction by one digit.
\<close>

section \<open>Division by one digit\<close>

lemma DivLimb_loop_exact:
  assumes n: "base \<le> 2 * unat y"
  shows "DivLimb_loop y ds = (qs, rem) \<Longrightarrow> length qs = length ds \<and> val ds = val qs * unat y + unat rem \<and> unat rem < unat y"
proof (induction ds arbitrary: qs rem)
  case Nil
  have "0 < unat y" using n by (cases "unat y") (simp_all add: base_def)
  then show ?case using Nil by simp
next
  case (Cons d ds)
  obtain qs' r' where l: "DivLimb_loop y ds = (qs', r')" by fastforce
  obtain q r where d: "DIV_ND r' d y = (q, r)" by fastforce
  note I = Cons.IH [OF l]
  have e: "unat r' * base + unat d = unat q * unat y + unat r" "unat r < unat y" using DIV_ND_exact [OF _ n d] I by simp_all
  have "val (d # ds) = unat d + base * (val qs' * unat y + unat r')" using I by simp
  also have "\<dots> = (unat q + base * val qs') * unat y + unat r" using e(1) by (simp add: algebra_simps)
  finally show ?case using Cons.prems l d e(2) I by (auto simp: Let_def)
qed

lemma shifted_divisor:
  assumes "y \<noteq> 0"
  shows "unat (push_bit (GetZeroBitsUint y) y) = unat y * 2 ^ GetZeroBitsUint y" "base \<le> 2 * unat (push_bit (GetZeroBitsUint y) y)"
proof -
  let ?k = "GetZeroBitsUint y"
  note z = GetZeroBitsUint_exact [OF assms]
  have "unat y * 2 ^ ?k < 2 ^ (64 - ?k) * 2 ^ ?k" using z(3) by simp
  also have "\<dots> = 2 ^ 64" using z(1) by (simp flip: power_add)
  finally have b: "unat y * 2 ^ ?k < 2 ^ 64" .
  then show e: "unat (push_bit ?k y) = unat y * 2 ^ ?k" by (simp add: unsigned_push_bit_eq push_bit_eq_mult [of _ "unat y"] take_bit_nat_eq_self)
  have "2 ^ (63 - ?k) * 2 ^ ?k \<le> unat y * 2 ^ ?k" using z(2) by simp
  moreover have "(2 :: nat) ^ (63 - ?k) * 2 ^ ?k = 2 ^ 63" using z(1) by (simp flip: power_add)
  ultimately show "base \<le> 2 * unat (push_bit ?k y)" using e by (simp add: base_def)
qed

lemma quotient_unique: "(a :: nat) = q * b + r \<Longrightarrow> r < b \<Longrightarrow> q = a div b \<and> r = a mod b"
  by simp

lemma DivLimb_value_ok:
  assumes w: "bn_wf x" "has_room True x (bnsize x + 1)" and y: "y \<noteq> 0" and r: "DivLimb_value True x y = (ret, x', rem)"
  shows "ret = CRYPT_SUCCESS \<and> bn_wf x' \<and> bval x' = bval x sdiv int (unat y) \<and> unat rem = mag x mod unat y"
proof (cases "bnsize x = 0")
  case True
  then have "mag x = 0" using mag_0 [OF w(1)] by simp
  then show ?thesis using True w(1) r by (auto simp: DivLimb_value_def bval_def)
next
  case False
  let ?k = "GetZeroBitsUint y"
  define y' where "y' = push_bit ?k y"
  define p where "p = (if ?k \<noteq> 0 then BN_Lshift True (Some x) (Some x) ?k else (CRYPT_SUCCESS, Some x))"
  have yn: "unat y \<noteq> 0" using y by (simp add: unat_eq_0)
  note Y = shifted_divisor [OF y, folded y'_def]
  have "bn_returns p (bval x * 2 ^ ?k)"
  proof (cases "?k = 0")
    case False
    have "?k div 64 = 0" using GetZeroBitsUint_exact(1) [OF y] by simp
    then show ?thesis using Lshift_returns [OF w(1) _ w(1), of True ?k] w(2) False by (simp add: p_def)
  qed (use w(1) in \<open>simp add: p_def bn_returns_def\<close>)
  then obtain x1 where x1: "p = (CRYPT_SUCCESS, Some x1)" "bn_wf x1" "bval x1 = bval x * 2 ^ ?k"
    by (auto simp: bn_returns_def split: prod.splits option.splits)
  have m1: "mag x1 = mag x * 2 ^ ?k" using x1(3) bval_abs [of x1] bval_abs [of x] by (simp add: abs_mult) (metis of_nat_eq_iff of_nat_mult of_nat_numeral of_nat_power)
  have "mag x \<noteq> 0" using mag_0 [OF w(1)] False by simp
  then have sg: "sign x1 = sign x" using x1(3) m1 by (auto simp: bval_def split: if_splits)
  obtain qs rm where l: "DivLimb_loop y' (take (bnsize x1) (digits x1)) = (qs, rm)" by fastforce
  have L: "length qs = bnsize x1" "mag x1 = val qs * unat y' + unat rm" "unat rm < unat y'"
    using DivLimb_loop_exact [OF Y(2) l] bn_wfD(1) [OF x1(2)] by (simp_all add: mag_def)
  have "val qs = (mag x * 2 ^ ?k) div (unat y * 2 ^ ?k)" "unat rm = (mag x * 2 ^ ?k) mod (unat y * 2 ^ ?k)"
    using quotient_unique [OF L(2,3)] by (simp_all add: m1 Y(1))
  then have q: "val qs = mag x div unat y" and rm: "unat rm = (mag x mod unat y) * 2 ^ ?k" by (simp_all add: mod_mult_mult2)
  have "unat (drop_bit ?k rm) = unat rm div 2 ^ ?k" unfolding unat_drop_bit_eq by (rule drop_bit_eq_div)
  then have rr: "unat (drop_bit ?k rm) = mag x mod unat y" by (simp only: rm) simp
  define x2 where "x2 = x1\<lparr>digits := memcpy_at (digits x1) 0 qs\<rparr>"
  have res: "DivLimb_value True x y = (CRYPT_SUCCESS, refix x2, drop_bit ?k rm)"
    unfolding DivLimb_value_def if_not_P [OF False] Let_def p_def [symmetric] y'_def [symmetric] x1(1) prod.case option.case
    using l by (simp add: refix_def x2_def Let_def)
  have "bn_returns (CRYPT_SUCCESS, Some (refix x2)) (if sign x2 then - int (val qs) else int (val qs))"
    using store [OF bn_wf_room [OF x1(2)], of qs] L(1) bn_wfD(1) [OF x1(2)] bn_wf_room [OF x1(2)] 
    by (intro refix_returns) (simp_all add: x2_def bn_room_def)
  then have "bn_wf (refix x2)" "bval (refix x2) = bval x sdiv int (unat y)"
    using sdiv_signs(1) [OF yn, of "sign x" "mag x" False] q sg by (simp_all add: bn_returns_def x2_def bval_def)
  then show ?thesis using res r rr by simp
qed


lemma Dup_value:
  assumes "bn_wf a" "room a \<le> BITS_TO_BN_UNIT BN_MAX_BITS"
  obtains x where "BN_Dup True (Some a) = Some x" "num x = num a" "bn_room x" "bnflag x = 0" "room x = room a"
proof -
  have b: "BITS_TO_BN_UNIT (room a * 64) = room a" "room a * 64 \<le> BN_MAX_BITS" using assms(2) by (simp_all add: BITS_TO_BN_UNIT_def)
  let ?z = "\<lparr>sign = False, bnsize = 0, room = room a, bnflag = 0, digits = replicate (room a) 0\<rparr>"
  let ?x = "?z\<lparr>sign := sign a, digits := memcpy_at (digits ?z) 0 (take (bnsize a) (digits a)), bnsize := bnsize a\<rparr>"
  have l: "length (take (bnsize a) (digits a)) = bnsize a" "bnsize a \<le> room a" using bn_wfD(1) [OF assms(1)] bn_wf_room [OF assms(1)] by (simp_all add: bn_room_def)
  have "BN_Dup True (Some a) = Some ?x" using b by (simp add: BN_Dup_def BN_Create_def Let_def)
  moreover have "num ?x = num a" "bn_room ?x" "bnflag ?x = 0" "room ?x = room a"
    using store [of ?z "take (bnsize a) (digits a)"] l by (simp_all add: num_def bn_room_def)
  ultimately show thesis by (rule that)
qed

lemma BN_DivLimb_ok:
  assumes i: "opt_inv s" and al: "\<forall>n. allocOk s n" and w: "bn_wf (heap s x)" "room (heap s x) < BITS_TO_BN_UNIT BN_MAX_BITS" and y: "y \<noteq> 0"
    and q: "\<And>q'. q = Some q' \<Longrightarrow> has_room True (heap s q') (bnsize (heap s x))"
    and nn: "q \<noteq> None \<or> r"
  obtains s' rem where "BN_DivLimb s q r (Some x) y = (CRYPT_SUCCESS, if r then Some rem else None, s')" "ext s s' (set_option q)" "pos s' = pos s"
    "\<And>q'. q = Some q' \<Longrightarrow> bn_wf (heap s' q') \<and> bval (heap s' q') = bval (heap s x) sdiv int (unat y)"
    "unat rem = mag (heap s x) mod unat y"
proof -
  obtain x0 where D: "BN_Dup True (Some (heap s x)) = Some x0" "num x0 = num (heap s x)" "bn_room x0" "bnflag x0 = 0" "room x0 = room (heap s x)"
    using Dup_value [OF w(1) less_imp_le [OF w(2)]] .
  note N = num_eq [OF D(2,3) bn_wf_room [OF w(1)]]
  have x0: "bn_wf x0" "has_room True x0 (bnsize x0 + 1)" using N(5) w D(3-5) by (auto simp: has_room_def bn_room_def)
  obtain ret x1 rem where v: "DivLimb_value True x0 y = (ret, x1, rem)" by (metis prod_cases3)
  note V = DivLimb_value_ok [OF x0 y v]
  have xs: "bnsize x1 \<le> bnsize (heap s x)"
  proof (rule mag_size_mono [OF w(1)])
    have "mag x1 = mag x0 div unat y"
      using V sdiv_signs(1) [of "unat y" "sign x0" "mag x0" False] y bval_abs [of x1] by (auto simp: bval_def unat_eq_0 split: if_splits)
    then show "mag x1 \<le> mag (heap s x)" using N(3) by simp
  qed (use V in simp)
  define s1 where "s1 = s\<lparr>allocs := allocs s + 2\<rparr>"
  have e1: "ext s s1 {}" unfolding s1_def by (rule ext_allocs [OF i])
  have al1: "\<forall>n. allocOk s1 n" "pos s1 = pos s" "heap s1 = heap s" using al by (simp_all add: s1_def pos_def)
  have cp: "\<exists>s'. at s1 q' (\<lambda>mem v. BN_Copy mem v (Some x1)) = (CRYPT_SUCCESS, s') \<and> ext s1 s' {q'} \<and> pos s' = pos s1 \<and> bn_wf (heap s' q') \<and> bval (heap s' q') = bval x1"
    if "q = Some q'" for q'
  proof -
    have "has_room True (heap s1 q') (bnsize x1)" using q [OF that] xs has_room_mono al1(3) by metis
    with V have "bn_returns (BN_Copy True (Some (heap s1 q')) (Some x1)) (bval x1)" using Copy_returns [OF opt_inv_simps(3) [OF ext_inv [OF e1]]] by blast
    then show ?thesis
      using at_ok [OF ext_inv [OF e1] al1(1), of "\<lambda>mem v. BN_Copy mem v (Some x1)" q'] Copy_kept [of True "heap s1 q'" x1] by metis
  qed
  obtain s' where C: "(case q of Some q \<Rightarrow> at s1 q (\<lambda>mem v. BN_Copy mem v (Some x1)) | None \<Rightarrow> (CRYPT_SUCCESS, s1)) = (CRYPT_SUCCESS, s')" "ext s1 s' (set_option q)" "pos s' = pos s1"
    "\<And>q'. q = Some q' \<Longrightarrow> bn_wf (heap s' q') \<and> bval (heap s' q') = bval x1"
    using optional_ok [OF ext_inv [OF e1], of q "\<lambda>q. at s1 q (\<lambda>mem v. BN_Copy mem v (Some x1))" "bval x1", OF cp] by blast
  have "BN_DivLimb s q r (Some x) y = (CRYPT_SUCCESS, if r then Some rem else None, s')"
  proof -
    have st: "s\<lparr>allocs := Suc (Suc (allocs s))\<rparr> = s1" by (simp add: s1_def)
    have ok: "ret = CRYPT_SUCCESS" using V by simp
    have cp': "\<not> (q = None \<and> \<not> r)" using nn by blast
    show ?thesis
      unfolding BN_DivLimb_def option.case if_not_P [OF cp'] if_not_P [OF y] alloc_def prod.case Let_def
      using al D(1) v ok C(1) by (simp add: st cong: option.case_cong)
  qed
  moreover have "ext s s' (set_option q)" using ext_trans' [OF i e1 C(2)] by simp
  ultimately show thesis using that [of rem s'] C(3,4) V N(3,4) al1(2) by simp
qed

text \<open>The remainder of a negative number is taken from the modulus, also when it is zero.\<close>

lemma BN_ModLimb_ok:
  assumes i: "opt_inv s" and al: "\<forall>n. allocOk s n" and w: "bn_wf (heap s a)" "room (heap s a) < BITS_TO_BN_UNIT BN_MAX_BITS" and m: "m \<noteq> 0"
  obtains s' r where "BN_ModLimb s True (Some a) m = (CRYPT_SUCCESS, Some r, s')" "ext s s' {}" "pos s' = pos s"
    "int (unat r) = (if bval (heap s a) < 0 \<and> int (unat m) dvd bval (heap s a) then int (unat m) else bval (heap s a) mod int (unat m))"
proof -
  let ?a = "heap s a"
  have bv: "bval ?a < 0 \<longleftrightarrow> sign ?a" using mag_0 [OF w(1)] w(1) by (auto simp: bval_def bn_wf_def)
  have mn: "0 < unat m" using m by (simp add: unat_gt_0)
  show thesis
  proof (cases "bnsize ?a = 0")
    case True
    then have z: "bval ?a = 0" using mag_0 [OF w(1)] by (simp add: bval_def)
    have "BN_ModLimb s True (Some a) m = (CRYPT_SUCCESS, Some 0, s)" using True m by (simp add: BN_ModLimb_def)
    then show thesis using that [of 0 s] ext_refl [OF i] z by simp
  next
    case False
    obtain s' rem where D: "BN_DivLimb s None True (Some a) m = (CRYPT_SUCCESS, if True then Some rem else None, s')" "ext s s' (set_option None)" "pos s' = pos s"
      "unat rem = mag ?a mod unat m"
      by (rule BN_DivLimb_ok [where q = None and r = True, OF i al w m]) auto
    define r where "r = (if sign ?a then m - rem else rem)"
    have run: "BN_ModLimb s True (Some a) m = (CRYPT_SUCCESS, Some r, s')" using False m D(1) by (simp add: BN_ModLimb_def r_def)
    have lt: "unat rem < unat m" using D(4) mn by simp
    have "int (unat r) = (if bval ?a < 0 \<and> int (unat m) dvd bval ?a then int (unat m) else bval ?a mod int (unat m))"
    proof (cases "sign ?a")
      case True
      have ba: "bval ?a = - int (mag ?a)" using True by (simp add: bval_def)
      have "unat r = unat m - unat rem" using True lt by (simp add: r_def unat_sub word_le_nat_alt)
      then have r: "int (unat r) = int (unat m) - int (mag ?a mod unat m)" using lt D(4) by simp
      have dv: "int (unat m) dvd bval ?a \<longleftrightarrow> mag ?a mod unat m = 0" unfolding ba dvd_minus_iff of_nat_dvd_iff by (simp add: dvd_eq_mod_eq_0)
      have "bval ?a mod int (unat m) = (if int (mag ?a) mod int (unat m) = 0 then 0 else int (unat m) - int (mag ?a) mod int (unat m))"
        unfolding ba by (rule zmod_zminus1_eq_if)
      also have "int (mag ?a) mod int (unat m) = int (mag ?a mod unat m)" by (rule zmod_int [symmetric])
      finally show ?thesis using r dv bv True by (simp only: of_nat_eq_0_iff) simp
    next
      case False
      then show ?thesis using D(4) bv by (simp add: r_def bval_def zmod_int)
    qed
    then show thesis using that [OF run] D(2,3) by simp
  qed
qed

end
