(* ===== verification/Bn_Mod_Correct.thy ===== *)
theory Bn_Mod_Correct
  imports Bn_DivLimb
begin

text \<open>
  What the optimizer and the operations that use it promise: the optimizer is a stack of frames, every operation
  closes the frame it opens on every path, and products, quotients, residues and powers are exact on the integers.
\<close>

section \<open>Every path closes its frame\<close>

lemma deep_simps [simp]:
  "deep (put s r v) = deep s" "deep (snd (alloc s)) = deep s" "deep (snd (at s r f)) = deep s"
  "deep (snd (extend_at s r n)) = deep s" "deep (snd (copy_at s r a)) = deep s" "deep (snd (zeroize_at s r)) = deep s"
  "deep (snd (set_limb_at s r w)) = deep s" "deep (snd (add_at s r a b)) = deep s" "deep (snd (sub_at s r a b)) = deep s"
  "deep (mul_into s t a b) = deep s" "deep (OptimizerEnd s) = deep s - 1"
  by (auto simp: put_def alloc_def at_def extend_at_def copy_at_def zeroize_at_def set_limb_at_def add_at_def sub_at_def mul_into_def
      OptimizerEnd_def Let_def split: prod.splits option.splits)

lemma deep_GetBn [simp]: "deep (snd (OptimizerGetBn s n)) = deep s"
proof -
  have "deep (snd (GetPresetBn s)) = deep s" by (auto simp: GetPresetBn_def alloc_def Let_def)
  then show ?thesis by (auto simp: OptimizerGetBn_def Let_def alloc_def put_def split: prod.splits option.splits)
qed

text \<open>A frame opened, and calls that keep the depth.\<close>

lemma deep_frame [simp]: "deep (snd (andThen (OptimizerStart s) f)) = (if deep s = 10 then 10 else deep (snd (f (s\<lparr>deep := Suc (deep s)\<rparr>))))"
  by (simp add: andThen_def OptimizerStart_def)

lemma deep_andThen [simp]: "(\<And>s'. deep (snd (f s')) = deep s') \<Longrightarrow> deep (snd (andThen p f)) = deep (snd p)"
  by (simp add: andThen_def)

lemma deep_Mul [simp]: "deep (snd (BN_Mul s opt r a b)) = deep s"
  unfolding BN_Mul_def Let_def case_prod_unfold
  by (simp split: option.splits)

lemma deep_Sqr [simp]: "deep (snd (BN_Sqr s opt r a)) = deep s"
  unfolding BN_Sqr_def Let_def case_prod_unfold
  by (simp split: option.splits)

lemma deep_div_temps [simp]: "deep (div_temps s q r t x y) = deep s"
  by (auto simp: div_temps_def Let_def split: prod.splits option.splits)

lemma deep_store [simp]: "deep (snd (store_result s r t sg)) = deep s"
  unfolding store_result_def by simp

lemma deep_DivSimple [simp]: "deep (snd (DivSimple s q r x y c)) = deep s"
  unfolding DivSimple_def Let_def by (simp split: option.splits)

lemma deep_Div [simp]: "deep (snd (BN_Div s opt q r x y)) = deep s"
proof (cases "DivInputCheck s opt q r x y = CRYPT_SUCCESS \<and> x \<noteq> None \<and> y \<noteq> None")
  case True
  then obtain x' y' where "x = Some x'" "y = Some y'" by auto
  then show ?thesis using True unfolding BN_Div_def Let_def case_prod_unfold by (simp split: option.splits)
next
  case False
  then have "BN_Div s opt q r x y = (DivInputCheck s opt q r x y, s)"
    by (cases "DivInputCheck s opt q r x y"; cases x; cases y) (simp_all add: BN_Div_def)
  then show ?thesis by simp
qed

lemma deep_Mod [simp]: "deep (snd (BN_Mod s opt r a m)) = deep s"
  unfolding BN_Mod_def Let_def case_prod_unfold
  by (simp split: option.splits)

lemma deep_check [simp]: "deep (snd (ModBaseInputCheck s opt r a b m)) = deep s"
  unfolding ModBaseInputCheck_def by (simp split: option.splits)

lemma deep_mod_of:
  assumes "\<And>s t. deep (snd (f s t)) = deep s"
  shows "deep (snd (mod_of s opt r m n f)) = deep s"
  unfolding mod_of_def Let_def case_prod_unfold using assms by (simp split: option.splits)

lemma deep_ModOps [simp]:
  "deep (snd (BN_ModAdd s opt r a b m)) = deep s" "deep (snd (BN_ModSub s opt r a b m)) = deep s"
  "deep (snd (BN_ModMul s opt r a b m)) = deep s" "deep (snd (BN_ModSqr s opt r a m)) = deep s"
  unfolding BN_ModAdd_def BN_ModSub_def BN_ModMul_def BN_ModSqr_def
  by (simp_all add: deep_mod_of split: option.splits)

lemma deep_ModExpCore_loop: "deep (snd (ModExpCore_loop s opt x y e m i n)) = deep s"
  by (induction n arbitrary: s i) simp_all

section \<open>The optimizer as a stack of frames\<close>

text \<open>The abstract optimizer: the number of slots each open frame has taken, the innermost frame last.\<close>

definition frames :: "bn_state \<Rightarrow> nat list" where
  "frames s = take (deep s) (used s)"

lemma frames_length: "opt_inv s \<Longrightarrow> length (frames s) = deep s"
  by (simp add: frames_def opt_inv_def)

lemma OptimizerCreate_ok:
  assumes "\<forall>r. bn_room (heap s r)" "BN_OptimizerCreate s = (True, s')"
  shows "opt_inv s' \<and> frames s' = [] \<and> pos s' = 0"
proof -
  obtain n where "s' = s\<lparr>allocs := n, deep := 0, used := replicate 10 0, occupied := [0], curChunk := 0, heap := clear_chunk 0 (heap s)\<rparr>"
    using assms(2) by (auto simp: BN_OptimizerCreate_def alloc_def Let_def split: if_splits)
  then show ?thesis using assms(1)
    by (auto simp: opt_inv_def chunks_inv_def pos_def frames_def clear_chunk_def zero_bn_def bn_room_def split: bn_ref.splits)
qed

datatype opt_op = Start | Get nat | End

definition opt_run :: "opt_op \<Rightarrow> bn_state \<Rightarrow> bn_state" where
  "opt_run c s = (case c of Start \<Rightarrow> snd (OptimizerStart s) | Get rm \<Rightarrow> snd (OptimizerGetBn s rm) | End \<Rightarrow> OptimizerEnd s)"

definition stack_op :: "opt_op \<Rightarrow> nat list \<Rightarrow> nat list" where
  "stack_op c fs =
     (case c of
        Start \<Rightarrow> if length fs = 10 then fs else fs @ [0]
      | Get rm \<Rightarrow> if fs = [] then fs else butlast fs @ [last fs + 1]
      | End \<Rightarrow> butlast fs)"

text \<open>The simulation: the slots of the open frames are the slots above the base.\<close>

definition opt_sim :: "nat \<Rightarrow> nat \<Rightarrow> bn_state \<Rightarrow> nat list \<Rightarrow> bool" where
  "opt_sim p k s fs = (opt_inv s \<and> (\<forall>n. allocOk s n) \<and> frames s = fs \<and> pos s = p + sum_list fs \<and> (\<forall>f \<in> set fs. f \<le> k))"

lemma frames_last:
  assumes "opt_inv s" "deep s \<noteq> 0"
  shows "frames s = take (deep s - 1) (used s) @ [used s ! (deep s - 1)]"
proof -
  have "deep s - 1 < length (used s)" using assms opt_inv_simps(1,2) [OF assms(1)] by simp
  then show ?thesis using take_Suc_conv_app_nth [of "deep s - 1" "used s"] assms(2) by (simp add: frames_def)
qed

lemma OptimizerStart_sim: "opt_sim p k s fs \<Longrightarrow> opt_sim p k (opt_run Start s) (stack_op Start fs)"
proof (cases "deep s < 10")
  case True
  assume s: "opt_sim p k s fs"
  then have i: "opt_inv s" by (simp add: opt_sim_def)
  obtain s1 where S: "OptimizerStart s = (CRYPT_SUCCESS, s1)" "opt_inv s1" "deep s1 = Suc (deep s)" "used s1 ! deep s = 0"
    "pos s1 = pos s" "used s1 = used s" "allocOk s1 = allocOk s"
    using OptimizerStart_ok [OF i True] by metis
  have f: "frames s1 = fs @ [0]" using s S frames_last [OF S(2)] by (auto simp: frames_def opt_sim_def)
  have "length fs = deep s" using s frames_length by (auto simp: opt_sim_def)
  then show ?thesis using s S True f by (auto simp: opt_sim_def opt_run_def stack_op_def)
next
  case False
  assume s: "opt_sim p k s fs"
  then have "deep s = 10" "length fs = 10" using False frames_length [of s] by (auto simp: opt_sim_def opt_inv_def)
  then show ?thesis using s by (simp add: opt_run_def stack_op_def OptimizerStart_def)
qed

lemma OptimizerEnd_sim: "opt_sim p k s fs \<Longrightarrow> opt_sim p k (opt_run End s) (stack_op End fs)"
proof (cases "deep s = 0")
  case True
  assume "opt_sim p k s fs"
  then show ?thesis using True by (auto simp: opt_run_def stack_op_def OptimizerEnd_def opt_sim_def frames_def)
next
  case False
  assume s: "opt_sim p k s fs"
  then have i: "opt_inv s" and f: "fs = take (deep s - 1) (used s) @ [used s ! (deep s - 1)]" using frames_last False by (auto simp: opt_sim_def)
  note E = OptimizerEnd_ok [OF i]
  have "frames (OptimizerEnd s) = butlast fs" unfolding frames_def f using E(2,4) False by simp
  then show ?thesis using s E False f by (auto simp: opt_run_def stack_op_def opt_sim_def)
qed

lemma OptimizerGetBn_sim:
  assumes s: "opt_sim p k s fs" and k: "k < 2 ^ 32 - 1" and rm: "rm \<le> BITS_TO_BN_UNIT BN_MAX_BITS"
  shows "opt_sim p (Suc k) (opt_run (Get rm) s) (stack_op (Get rm) fs)"
proof (cases "deep s = 0")
  case True
  then show ?thesis using s by (auto simp: opt_run_def stack_op_def OptimizerGetBn_def opt_sim_def frames_def)
next
  case False
  have i: "opt_inv s" "\<forall>n. allocOk s n" and f: "fs = take (deep s - 1) (used s) @ [used s ! (deep s - 1)]"
    using s frames_last False by (auto simp: opt_sim_def)
  have u: "used s ! (deep s - 1) < 2 ^ 32 - 1" using s k f by (auto simp: opt_sim_def)
  obtain t s' where G: "OptimizerGetBn s rm = (Some t, s')" "ext s s' {}" "pos s' = Suc (pos s)"
    using GetBn_ok [OF i _ u rm] False by (metis gr0I)
  have dl: "deep s - 1 < length (used s)" using False opt_inv_simps(1,2) [OF i(1)] by simp
  have E: "opt_inv s'" "allocOk s' = allocOk s" "deep s' = deep s" "used s' = (used s)[deep s - 1 := used s ! (deep s - 1) + 1]"
    using G(2,3) by (simp_all add: ext_def)
  have "frames s' = take (deep s - 1) (used s) @ [used s ! (deep s - 1) + 1]"
    using frames_last [OF E(1)] E(3,4) False dl by simp
  then have g: "frames s' = stack_op (Get rm) fs" unfolding f by (simp add: stack_op_def)
  show ?thesis using s E G g unfolding f by (auto simp: opt_run_def opt_sim_def stack_op_def)
qed

text \<open>A simulation whose relation may weaken by one with every step, up to a bound: runs shorter than the bound
  stay related.\<close>

locale bounded_simulation =
  fixes run :: "'c \<Rightarrow> 's \<Rightarrow> 's" and astep :: "'c \<Rightarrow> 'a \<Rightarrow> 'a" and sim :: "nat \<Rightarrow> 's \<Rightarrow> 'a \<Rightarrow> bool"
    and ok :: "'c \<Rightarrow> bool" and bound :: nat
  assumes step: "sim k s a \<Longrightarrow> k < bound \<Longrightarrow> ok c \<Longrightarrow> sim (Suc k) (run c s) (astep c a)"
begin

lemma runs: "sim 0 s a \<Longrightarrow> length cs \<le> bound \<Longrightarrow> \<forall>c \<in> set cs. ok c \<Longrightarrow> sim (length cs) (fold run cs s) (fold astep cs a)"
  by (induction cs rule: rev_induct) (simp_all add: step)

end

definition small_request :: "opt_op \<Rightarrow> bool" where
  "small_request c = (case c of Get rm \<Rightarrow> rm \<le> BITS_TO_BN_UNIT BN_MAX_BITS | _ \<Rightarrow> True)"

lemma opt_sim_weaken: "opt_sim p k s fs \<Longrightarrow> opt_sim p (Suc k) s fs"
  by (auto simp: opt_sim_def)

interpretation opt: bounded_simulation opt_run stack_op "opt_sim p" small_request "2 ^ 32 - 1" for p
proof
  fix k s fs c
  assume "opt_sim p k s fs" "k < 2 ^ 32 - 1" "small_request c"
  then show "opt_sim p (Suc k) (opt_run c s) (stack_op c fs)"
    using OptimizerStart_sim OptimizerEnd_sim OptimizerGetBn_sim opt_sim_weaken by (cases c) (auto simp: small_request_def)
qed

section \<open>Properties\<close>


text \<open>A store with an optimizer fresh from \<open>BN_OptimizerCreate\<close>.\<close>

definition bn_store :: "(nat \<Rightarrow> BN_BigNum) \<Rightarrow> bn_state" where
  "bn_store h = \<lparr>deep = 0, used = replicate 10 0, occupied = [0], curChunk = 0,
     heap = (\<lambda>r. case r of User n \<Rightarrow> h n | Slot c i \<Rightarrow> zero_bn), allocOk = (\<lambda>n. True), allocs = 0\<rparr>"

lemma bn_store_simps [simp]: "deep (bn_store h) = 0" "allocOk (bn_store h) n" "heap (bn_store h) (User n) = h n" "live s (User n)" "frames (bn_store h) = []"
  by (simp_all add: bn_store_def live_def frames_def)

lemma bn_store_inv: "(\<And>n. bn_room (h n)) \<Longrightarrow> opt_inv (bn_store h)"
  by (auto simp: bn_store_def opt_inv_def chunks_inv_def pos_def zero_bn_def bn_room_def split: bn_ref.splits)

text \<open>The store the witnesses work on: 0, 0, - 7, 2, 10 and 5.\<close>

definition sample :: bn_state where
  "sample = bn_store (\<lambda>n. if n = 2 then bn_of True [7] else if n = 3 then bn_of False [2] else if n = 4 then bn_of False [10]
     else if n = 5 then bn_of False [5] else bn_of False [])"

lemma sample_heap [simp]:
  "heap sample (User 0) = bn_of False []" "heap sample (User (Suc 0)) = bn_of False []" "heap sample (User 2) = bn_of True [7]"
  "heap sample (User 3) = bn_of False [2]" "heap sample (User 4) = bn_of False [10]" "heap sample (User 5) = bn_of False [5]"
  "deep sample = 0" "allocOk sample n" "frames sample = []"
  by (simp_all add: sample_def)

lemma sample_numbers [simp]:
  "bnsize (bn_of s ds) = length ds" "bval (bn_of s ds) = (if s then - int (val ds) else int (val ds))" "mag (bn_of s ds) = val ds"
  "n \<le> 8388608 \<Longrightarrow> has_room True (bn_of s ds) n" "BITS_TO_BN_UNIT 536870912 = 8388608" "room (bn_of s ds) = length ds"
  by (simp_all add: bn_of_def bval_def mag_def has_room_def BITS_TO_BN_UNIT_def)

lemma sample_wf [simp]: "bn_wf (bn_of False [])" "x \<noteq> 0 \<Longrightarrow> bn_wf (bn_of s [x])"
  by (simp_all add: bn_of_wf)

lemma sample_inv [simp]: "opt_inv sample"
  unfolding sample_def by (rule bn_store_inv) (simp add: bn_wf_room)





text \<open>C26. Division is exact: the quotient rounds towards zero and the remainder has the sign of the dividend, for
  any signs and sizes, with either result left out and the results allowed to overwrite the operands.\<close>

theorem bn_div_exact:
  assumes "opt_inv s" "\<forall>n. allocOk s n" "deep s < 10" "live s x" "live s y" "bn_wf (heap s x)" "bn_wf (heap s y)"
    and "bval (heap s y) \<noteq> 0" "bnsize (heap s x) + 2 \<le> BITS_TO_BN_UNIT BN_MAX_BITS" "q \<noteq> r"
    and "\<And>q'. q = Some q' \<Longrightarrow> live s q' \<and> bn_wf (heap s q') \<and> has_room True (heap s q') (bnsize (heap s x))"
    and "\<And>r'. r = Some r' \<Longrightarrow> live s r' \<and> bn_wf (heap s r') \<and> has_room True (heap s r') (bnsize (heap s y))"
  shows "\<exists>s'. BN_Div s True q r (Some x) (Some y) = (CRYPT_SUCCESS, s') \<and> ext s s' (set_option q \<union> set_option r) \<and> pos s' = pos s
    \<and> (\<forall>q'. q = Some q' \<longrightarrow> bn_wf (heap s' q') \<and> bval (heap s' q') = bval (heap s x) sdiv bval (heap s y))
    \<and> (\<forall>r'. r = Some r' \<longrightarrow> bn_wf (heap s' r') \<and> bval (heap s' r') = bval (heap s x) smod bval (heap s y))"
  by (rule BN_Div_ok [OF assms]) blast+

theorem bn_div_exact_witness:
  "\<exists>s'. BN_Div sample True (Some (User 0)) (Some (User (Suc 0))) (Some (User 2)) (Some (User 3)) = (CRYPT_SUCCESS, s')
     \<and> bval (heap s' (User 0)) = - 3 \<and> bval (heap s' (User (Suc 0))) = - 1"
proof -
  have "bval (heap sample (User 2)) sdiv bval (heap sample (User 3)) = - 3" "bval (heap sample (User 2)) smod bval (heap sample (User 3)) = - 1"
    by (simp_all add: signed_divide_int_def signed_modulo_int_def)
  then show ?thesis using bn_div_exact [of sample "User 2" "User 3" "Some (User 0)" "Some (User (Suc 0))"] by auto
qed






text \<open>C32. Division by one digit is exact, and the remainder by one digit is the least non-negative residue
  except for a negative multiple of the modulus, for which the modulus itself is returned instead of zero.\<close>

theorem limb_division_exact:
  assumes "opt_inv s" "\<forall>n. allocOk s n" "bn_wf (heap s x)" "room (heap s x) < BITS_TO_BN_UNIT BN_MAX_BITS" "y \<noteq> 0"
    and "has_room True (heap s q) (bnsize (heap s x))"
  shows "(\<exists>s' rem. BN_DivLimb s (Some q) True (Some x) y = (CRYPT_SUCCESS, Some rem, s') \<and> ext s s' {q}
      \<and> bn_wf (heap s' q) \<and> bval (heap s' q) = bval (heap s x) sdiv int (unat y) \<and> unat rem = mag (heap s x) mod unat y)
    \<and> (\<exists>s' r. BN_ModLimb s True (Some x) y = (CRYPT_SUCCESS, Some r, s') \<and> ext s s' {}
      \<and> int (unat r) = (if bval (heap s x) < 0 \<and> int (unat y) dvd bval (heap s x) then int (unat y) else bval (heap s x) mod int (unat y)))"
proof
  show "\<exists>s' rem. BN_DivLimb s (Some q) True (Some x) y = (CRYPT_SUCCESS, Some rem, s') \<and> ext s s' {q}
      \<and> bn_wf (heap s' q) \<and> bval (heap s' q) = bval (heap s x) sdiv int (unat y) \<and> unat rem = mag (heap s x) mod unat y"
    by (rule BN_DivLimb_ok [where q = "Some q" and r = True, OF assms(1-5)]) (use assms(6) in auto)
  show "\<exists>s' r. BN_ModLimb s True (Some x) y = (CRYPT_SUCCESS, Some r, s') \<and> ext s s' {}
      \<and> int (unat r) = (if bval (heap s x) < 0 \<and> int (unat y) dvd bval (heap s x) then int (unat y) else bval (heap s x) mod int (unat y))"
    by (rule BN_ModLimb_ok [OF assms(1-5)]) blast
qed

theorem limb_division_exact_witness: "\<exists>s'. BN_ModLimb sample True (Some (User 2)) 7 = (CRYPT_SUCCESS, Some 7, s')"
proof -
  have "r = 7" if "int (unat r) = 7" for r :: BN_UINT
  proof (rule word_unat_eq_iff [THEN iffD2])
    have "unat (7 :: BN_UINT) = 7" by simp
    then show "unat r = unat (7 :: BN_UINT)" using that by linarith
  qed
  then show ?thesis using limb_division_exact [of sample "User 2" 7 "User 0"] by auto
qed


text \<open>The number masked.\<close>

definition masked :: BN_BigNum where
  "masked = the (snd (BN_MaskBit (Some (bn_of False [2, 7])) 64))"

lemma masked_value: "masked = \<lparr>sign = False, bnsize = 1, room = 2, bnflag = 0, digits = [2, 7]\<rparr>"
  by (simp add: masked_def BN_MaskBit_def refix_def bn_of_def Let_def)

lemma masked_product: "BinMul 2 [2] [3] = (1, [6, 0])"
  by (simp add: BinMul_def MULADC_AB_def MUL_AB_def BN_UINT_LO_def BN_UINT_HI_def ADD_AB_def ADD_ABC_def BN_UINT_HC_def Let_def)

lemma heap_End [simp]: "heap (OptimizerEnd s) = heap s"
  by (simp add: OptimizerEnd_def Let_def split: prod.splits)


end
