(* ===== verification/Md_Method.thy ===== *)
theory Md_Method
  imports Crypt_Base
begin

text \<open>
  The interface of the hashes: the table of functions \<open>EAL_MdMethod\<close>
  (\<^verbatim>\<open>crypto/include/crypt_local_types.h\<close>) its clients call through, and what a hash promises about
  the entries of its table. The functions take the context by value and return it, a null pointer is
  \<open>None\<close>, and so is a null entry of the table. Whether an allocation succeeds is an argument.
\<close>

record 'c EAL_MdMethod =
  mdBlockSize :: nat
  mdSize :: nat
  mdNewCtx :: "(bool \<Rightarrow> 'c option) option"
  mdInit :: "('c option \<Rightarrow> crypt_ret \<times> 'c option) option"
  mdUpdate :: "('c option \<Rightarrow> bytes option \<Rightarrow> u32 \<Rightarrow> crypt_ret \<times> 'c option) option"
  mdFinal :: "('c option \<Rightarrow> bytes option \<Rightarrow> nat option \<Rightarrow>
               crypt_ret \<times> 'c option \<times> bytes option \<times> nat option) option"
  mdDeinit :: "('c option \<Rightarrow> crypt_ret \<times> 'c option) option"
  mdCopyCtx :: "('c option \<Rightarrow> 'c option \<Rightarrow> crypt_ret \<times> 'c option) option"
  mdDupCtx :: "(bool \<Rightarrow> 'c option \<Rightarrow> 'c option) option"
  mdFreeCtx :: "('c option \<Rightarrow> unit) option"

text \<open>A caller that hands over a message in pieces and stops at the first error.\<close>

fun run_updates :: "('c option \<Rightarrow> bytes option \<Rightarrow> u32 \<Rightarrow> crypt_ret \<times> 'c option) \<Rightarrow>
  'c option \<Rightarrow> bytes list \<Rightarrow> crypt_ret \<times> 'c option" where
  "run_updates upd c [] = (CRYPT_SUCCESS, c)"
| "run_updates upd c (d # ds) =
    (case upd c (Some d) (of_nat (length d)) of
       (ret, c') \<Rightarrow> if ret \<noteq> CRYPT_SUCCESS then (ret, c') else run_updates upd c' ds)"

lemma run_updates_ok:
  assumes step: "\<And>c msg d. A c msg \<Longrightarrow> length d < 2 ^ 32 \<Longrightarrow> length msg + length d < M \<Longrightarrow>
      \<exists>c'. upd (Some c) (Some d) (of_nat (length d)) = (CRYPT_SUCCESS, Some c') \<and> A c' (msg @ d)"
    and "A c msg" "list_all (\<lambda>d. length d < 2 ^ 32) ds" "length msg + length (concat ds) < M"
  shows "\<exists>c'. run_updates upd (Some c) ds = (CRYPT_SUCCESS, Some c') \<and> A c' (msg @ concat ds)"
  using assms(2-)
proof (induction ds arbitrary: c msg)
  case (Cons d ds)
  then obtain c' where c': "upd (Some c) (Some d) (of_nat (length d)) = (CRYPT_SUCCESS, Some c')" "A c' (msg @ d)"
    using step [of c msg d] by auto
  then show ?case using Cons.IH [of c' "msg @ d"] Cons.prems by auto
qed simp

text \<open>The contract of a hash: a context that has absorbed a message, and the digest of a message.\<close>

locale md_method =
  fixes m :: "'c EAL_MdMethod"
    and absorbed :: "'c \<Rightarrow> bytes \<Rightarrow> bool"
    and hash :: "bytes \<Rightarrow> bytes"
    and maxlen :: nat
    and newc :: "bool \<Rightarrow> 'c option"
    and init :: "'c option \<Rightarrow> crypt_ret \<times> 'c option"
    and update :: "'c option \<Rightarrow> bytes option \<Rightarrow> u32 \<Rightarrow> crypt_ret \<times> 'c option"
    and final :: "'c option \<Rightarrow> bytes option \<Rightarrow> nat option \<Rightarrow> crypt_ret \<times> 'c option \<times> bytes option \<times> nat option"
    and deinit :: "'c option \<Rightarrow> crypt_ret \<times> 'c option"
    and copy :: "'c option \<Rightarrow> 'c option \<Rightarrow> crypt_ret \<times> 'c option"
  assumes table: "mdNewCtx m = Some newc" "mdInit m = Some init" "mdUpdate m = Some update"
      "mdFinal m = Some final" "mdDeinit m = Some deinit" "mdCopyCtx m = Some copy" "mdFreeCtx m \<noteq> None"
    and sizes: "mdSize m \<le> 64" "mdSize m \<le> mdBlockSize m" "mdBlockSize m \<le> 144"
      "mdBlockSize m + 64 < maxlen" "2 ^ 33 < maxlen" "0 < mdSize m"
    and new_ok: "\<exists>c. newc True = Some c"
    and new_fail: "newc False = None"
    and init_ok: "\<exists>c'. init (Some c) = (CRYPT_SUCCESS, Some c') \<and> absorbed c' []"
    and update_ok: "absorbed c msg \<Longrightarrow> ptr_ok p (unat n) \<Longrightarrow> length msg + unat n < maxlen \<Longrightarrow>
      \<exists>c'. update (Some c) p n = (CRYPT_SUCCESS, Some c') \<and> absorbed c' (msg @ ptr_bytes p (unat n))"
    and final_ok: "absorbed c msg \<Longrightarrow> length msg < maxlen \<Longrightarrow> mdSize m \<le> length out \<Longrightarrow> mdSize m \<le> l \<Longrightarrow>
      \<exists>c'. final (Some c) (Some out) (Some l) =
        (CRYPT_SUCCESS, Some c', Some (hash msg @ drop (mdSize m) out), Some (mdSize m))"
    and hash_length: "length (hash msg) = mdSize m"
    and copy_ok: "copy (Some c0) (Some c) = (CRYPT_SUCCESS, Some c)"
    and deinit_ok: "\<exists>c'. deinit (Some c) = (CRYPT_SUCCESS, Some c')"
    and deinit_null: "deinit None = (CRYPT_NULL_INPUT, None)"
begin

lemma update_all:
  assumes "absorbed c msg" "length d < 2 ^ 32" "length msg + length d < maxlen"
  shows "\<exists>c'. update (Some c) (Some d) (of_nat (length d)) = (CRYPT_SUCCESS, Some c') \<and> absorbed c' (msg @ d)"
proof -
  have "unat (of_nat (length d) :: u32) = length d"
    using assms(2) by (simp add: unat_of_nat)
  then show ?thesis using update_ok [OF assms(1), of "Some d" "of_nat (length d)"] assms(3) by simp
qed

lemma stream_digest:
  assumes "list_all (\<lambda>d. length d < 2 ^ 32) ds" "length (concat ds) < maxlen"
    and "mdSize m \<le> length out" "mdSize m \<le> l"
  shows "\<exists>c1 c2 c3. init (Some c) = (CRYPT_SUCCESS, Some c1) \<and>
    run_updates update (Some c1) ds = (CRYPT_SUCCESS, Some c2) \<and>
    final (Some c2) (Some out) (Some l) =
      (CRYPT_SUCCESS, Some c3, Some (hash (concat ds) @ drop (mdSize m) out), Some (mdSize m))"
proof -
  obtain c1 where c1: "init (Some c) = (CRYPT_SUCCESS, Some c1)" "absorbed c1 []" using init_ok by blast
  from run_updates_ok [of absorbed maxlen update c1 "[]" ds, OF update_all c1(2) assms(1)] assms(2)
  obtain c2 where "run_updates update (Some c1) ds = (CRYPT_SUCCESS, Some c2)" "absorbed c2 (concat ds)" by auto
  with c1 final_ok [OF this(2) assms(2-4)] show ?thesis by blast
qed

end

end
