(* ===== verification/Sha256.thy ===== *)
theory Sha256
  imports Md_Method
begin

text \<open>
  SHA-256 and SHA-224 (\<^verbatim>\<open>crypto/sha2/src/sha2_256.c\<close>) with both portable compression functions: the
  one whose loop does eight rounds with the working variables renamed from round to round
  (\<^verbatim>\<open>noasm_sha256.c\<close>) and the small one that moves the variables (\<^verbatim>\<open>noasm_sha256_small.c\<close>).
  The block buffer of a context is the array of 64 bytes the code reads it as; a null pointer is
  \<open>None\<close>. Lengths of buffers are natural numbers, the bit counters and the length of an update are
  words, and the subtractions on \<^verbatim>\<open>uint32_t\<close> values wrap. The error stack the functions push their
  code to is modelled apart.
\<close>

section \<open>The compression function with renamed variables\<close>

definition K256 :: "u32 list" where
  "K256 =
  [0x428a2f98, 0x71374491, 0xb5c0fbcf, 0xe9b5dba5, 0x3956c25b, 0x59f111f1, 0x923f82a4, 0xab1c5ed5,
   0xd807aa98, 0x12835b01, 0x243185be, 0x550c7dc3, 0x72be5d74, 0x80deb1fe, 0x9bdc06a7, 0xc19bf174,
   0xe49b69c1, 0xefbe4786, 0x0fc19dc6, 0x240ca1cc, 0x2de92c6f, 0x4a7484aa, 0x5cb0a9dc, 0x76f988da,
   0x983e5152, 0xa831c66d, 0xb00327c8, 0xbf597fc7, 0xc6e00bf3, 0xd5a79147, 0x06ca6351, 0x14292967,
   0x27b70a85, 0x2e1b2138, 0x4d2c6dfc, 0x53380d13, 0x650a7354, 0x766a0abb, 0x81c2c92e, 0x92722c85,
   0xa2bfe8a1, 0xa81a664b, 0xc24b8b70, 0xc76c51a3, 0xd192e819, 0xd6990624, 0xf40e3585, 0x106aa070,
   0x19a4c116, 0x1e376c08, 0x2748774c, 0x34b0bcb5, 0x391c0cb3, 0x4ed8aa4a, 0x5b9cca4f, 0x682e6ff3,
   0x748f82ee, 0x78a5636f, 0x84c87814, 0x8cc70208, 0x90befffa, 0xa4506ceb, 0xbef9a3f7, 0xc67178f2]"

definition ROTR32 :: "u32 \<Rightarrow> nat \<Rightarrow> u32" where
  "ROTR32 x n = push_bit (32 - n) x OR drop_bit n x"

definition S0 :: "u32 \<Rightarrow> u32" where
  "S0 x = (ROTR32 x 7 XOR ROTR32 x 18) XOR drop_bit 3 x"

definition S1 :: "u32 \<Rightarrow> u32" where
  "S1 x = (ROTR32 x 17 XOR ROTR32 x 19) XOR drop_bit 10 x"

definition R :: "u32 list \<Rightarrow> nat \<Rightarrow> u32" where
  "R w t = S1 (w ! (t - 2)) + w ! (t - 7) + S0 (w ! (t - 15)) + w ! (t - 16)"

text \<open>One round; the result is what it leaves in the variables \<open>d\<close> and \<open>h\<close>.\<close>

definition CRYPT_SHA256_ROUND ::
  "u32 \<Rightarrow> u32 \<Rightarrow> u32 \<Rightarrow> u32 \<Rightarrow> u32 \<Rightarrow> u32 \<Rightarrow> u32 \<Rightarrow> u32 \<Rightarrow> u32 \<Rightarrow> u32 \<Rightarrow> u32 \<times> u32" where
  "CRYPT_SHA256_ROUND a b c d e f g h i k =
    (let h = h + ((ROTR32 e 6 XOR ROTR32 e 11 XOR ROTR32 e 25) + (g XOR (e AND (f XOR g))) + k + i);
         d = d + h;
         h = h + ((ROTR32 a 2 XOR ROTR32 a 13 XOR ROTR32 a 22) + ((a AND (b OR c)) OR (b AND c)))
     in (d, h))"

type_synonym sha_vars = "u32 \<times> u32 \<times> u32 \<times> u32 \<times> u32 \<times> u32 \<times> u32 \<times> u32"

text \<open>The bodies of the two loops, eight rounds each; the second one computes the schedule as it
  goes.\<close>

definition CompressBlock_first :: "u32 list \<Rightarrow> sha_vars \<Rightarrow> nat \<Rightarrow> sha_vars" where
  "CompressBlock_first w v i =
    (let (a, b, c, d, e, f, g, h) = v;
     (d, h) = CRYPT_SHA256_ROUND a b c d e f g h (w ! (i + 0)) (K256 ! (i + 0));
     (c, g) = CRYPT_SHA256_ROUND h a b c d e f g (w ! (i + 1)) (K256 ! (i + 1));
     (b, f) = CRYPT_SHA256_ROUND g h a b c d e f (w ! (i + 2)) (K256 ! (i + 2));
     (a, e) = CRYPT_SHA256_ROUND f g h a b c d e (w ! (i + 3)) (K256 ! (i + 3));
     (h, d) = CRYPT_SHA256_ROUND e f g h a b c d (w ! (i + 4)) (K256 ! (i + 4));
     (g, c) = CRYPT_SHA256_ROUND d e f g h a b c (w ! (i + 5)) (K256 ! (i + 5));
     (f, b) = CRYPT_SHA256_ROUND c d e f g h a b (w ! (i + 6)) (K256 ! (i + 6));
     (e, a) = CRYPT_SHA256_ROUND b c d e f g h a (w ! (i + 7)) (K256 ! (i + 7))
     in (a, b, c, d, e, f, g, h))"

definition CompressBlock_second :: "u32 list \<times> sha_vars \<Rightarrow> nat \<Rightarrow> u32 list \<times> sha_vars" where
  "CompressBlock_second s i =
    (let (w, a, b, c, d, e, f, g, h) = s;
     w = w[i + 0 := R w (i + 0)];
     (d, h) = CRYPT_SHA256_ROUND a b c d e f g h (w ! (i + 0)) (K256 ! (i + 0));
     w = w[i + 1 := R w (i + 1)];
     (c, g) = CRYPT_SHA256_ROUND h a b c d e f g (w ! (i + 1)) (K256 ! (i + 1));
     w = w[i + 2 := R w (i + 2)];
     (b, f) = CRYPT_SHA256_ROUND g h a b c d e f (w ! (i + 2)) (K256 ! (i + 2));
     w = w[i + 3 := R w (i + 3)];
     (a, e) = CRYPT_SHA256_ROUND f g h a b c d e (w ! (i + 3)) (K256 ! (i + 3));
     w = w[i + 4 := R w (i + 4)];
     (h, d) = CRYPT_SHA256_ROUND e f g h a b c d (w ! (i + 4)) (K256 ! (i + 4));
     w = w[i + 5 := R w (i + 5)];
     (g, c) = CRYPT_SHA256_ROUND d e f g h a b c (w ! (i + 5)) (K256 ! (i + 5));
     w = w[i + 6 := R w (i + 6)];
     (f, b) = CRYPT_SHA256_ROUND c d e f g h a b (w ! (i + 6)) (K256 ! (i + 6));
     w = w[i + 7 := R w (i + 7)];
     (e, a) = CRYPT_SHA256_ROUND b c d e f g h a (w ! (i + 7)) (K256 ! (i + 7))
     in (w, a, b, c, d, e, f, g, h))"

definition load_vars :: "u32 list \<Rightarrow> sha_vars" where
  "load_vars state = (state ! 0, state ! 1, state ! 2, state ! 3, state ! 4, state ! 5, state ! 6, state ! 7)"

definition add_vars :: "u32 list \<Rightarrow> sha_vars \<Rightarrow> u32 list" where
  "add_vars state v =
    (let (a, b, c, d, e, f, g, h) = v;
         state = state[0 := state ! 0 + a]; state = state[1 := state ! 1 + b];
         state = state[2 := state ! 2 + c]; state = state[3 := state ! 3 + d];
         state = state[4 := state ! 4 + e]; state = state[5 := state ! 5 + f];
         state = state[6 := state ! 6 + g]; state = state[7 := state ! 7 + h]
     in state)"

text \<open>The array \<open>w\<close> of 64 words is not initialised; what it holds before the first store is the
  argument \<open>w0\<close>. The result does not depend on it, and the callers below pass zeros.\<close>

definition load_block :: "u32 list \<Rightarrow> bytes \<Rightarrow> u32 list" where
  "load_block w0 block = foldl (\<lambda>w i. w[i := GET_UINT32_BE block (4 * i)]) w0 [0..<16]"

definition CompressBlock :: "u32 list \<Rightarrow> u32 list \<Rightarrow> bytes \<Rightarrow> u32 list" where
  "CompressBlock w0 state block =
    (let w = load_block w0 block;
         v = load_vars state;
         v = foldl (CompressBlock_first w) v [0, 8];
         (w, v) = foldl CompressBlock_second (w, v) [16, 24, 32, 40, 48, 56]
     in add_vars state v)"

fun SHA256CompressMultiBlocks :: "u32 list \<Rightarrow> bytes \<Rightarrow> nat \<Rightarrow> u32 list" where
  "SHA256CompressMultiBlocks hash p 0 = hash"
| "SHA256CompressMultiBlocks hash p (Suc n) =
     SHA256CompressMultiBlocks (CompressBlock (replicate 64 0) hash p) (drop 64 p) n"

section \<open>The compression function of the small build\<close>

definition small_ROUND :: "sha_vars \<Rightarrow> u32 \<Rightarrow> u32 \<Rightarrow> sha_vars" where
  "small_ROUND v i k =
    (let (a, b, c, d, e, f, g, h) = v;
         t1 = h + (ROTR32 e 6 XOR ROTR32 e 11 XOR ROTR32 e 25) + (g XOR (e AND (f XOR g))) + k + i;
         t2 = (ROTR32 a 2 XOR ROTR32 a 13 XOR ROTR32 a 22) + ((a AND (b OR c)) OR (b AND c));
         h = g; g = f; f = e; e = d + t1; d = c; c = b; b = a; a = t1 + t2
     in (a, b, c, d, e, f, g, h))"

definition small_CompressBlock :: "u32 list \<Rightarrow> u32 list \<Rightarrow> bytes \<Rightarrow> u32 list" where
  "small_CompressBlock w0 state block =
    (let v = load_vars state;
         w = load_block w0 block;
         w = foldl (\<lambda>w i. w[i := R w i]) w [16..<64];
         v = foldl (\<lambda>v i. small_ROUND v (w ! i) (K256 ! i)) v [0..<64]
     in add_vars state v)"

fun small_CompressMultiBlocks :: "u32 list \<Rightarrow> bytes \<Rightarrow> nat \<Rightarrow> u32 list" where
  "small_CompressMultiBlocks hash p 0 = hash"
| "small_CompressMultiBlocks hash p (Suc n) =
     small_CompressMultiBlocks (small_CompressBlock (replicate 64 0) hash p) (drop 64 p) n"

section \<open>Contexts\<close>

record CRYPT_SHA2_256_Ctx =
  hv :: "u32 list"
  block :: bytes
  lNum :: u32
  hNum :: u32
  blocklen :: nat
  outlen :: nat
  errorCode :: crypt_ret

definition SHA256_INIT_STATE :: "u32 list" where
  "SHA256_INIT_STATE =
    [0x6a09e667, 0xbb67ae85, 0x3c6ef372, 0xa54ff53a, 0x510e527f, 0x9b05688c, 0x1f83d9ab, 0x5be0cd19]"

text \<open>A context of zero bytes: what \<open>calloc\<close>, \<open>memset\<close> and the cleansing of a context leave.\<close>

definition zero_ctx :: CRYPT_SHA2_256_Ctx where
  "zero_ctx = \<lparr>hv = replicate 8 0, block = replicate 64 0, lNum = 0, hNum = 0, blocklen = 0, outlen = 0,
     errorCode = CRYPT_SUCCESS\<rparr>"

definition CRYPT_SHA2_256_NewCtx :: "bool \<Rightarrow> CRYPT_SHA2_256_Ctx option" where
  "CRYPT_SHA2_256_NewCtx mem = (if mem then Some zero_ctx else None)"

definition CRYPT_SHA2_256_Init :: "CRYPT_SHA2_256_Ctx option \<Rightarrow> crypt_ret \<times> CRYPT_SHA2_256_Ctx option" where
  "CRYPT_SHA2_256_Init ctx = (case ctx of
      None \<Rightarrow> (CRYPT_NULL_INPUT, None)
    | Some _ \<Rightarrow> (CRYPT_SUCCESS, Some (zero_ctx\<lparr>hv := SHA256_INIT_STATE, outlen := 32\<rparr>)))"

definition CRYPT_SHA2_224_Init :: "CRYPT_SHA2_256_Ctx option \<Rightarrow> crypt_ret \<times> CRYPT_SHA2_256_Ctx option" where
  "CRYPT_SHA2_224_Init ctx = (case ctx of
      None \<Rightarrow> (CRYPT_NULL_INPUT, None)
    | Some _ \<Rightarrow> (CRYPT_SUCCESS, Some (zero_ctx
        \<lparr>hv := [0xc1059ed8, 0x367cd507, 0x3070dd17, 0xf70e5939, 0xffc00b31, 0x68581511, 0x64f98fa7, 0xbefa4fa4],
         outlen := 28\<rparr>)))"

definition CRYPT_SHA2_256_Deinit :: "CRYPT_SHA2_256_Ctx option \<Rightarrow> crypt_ret \<times> CRYPT_SHA2_256_Ctx option" where
  "CRYPT_SHA2_256_Deinit ctx = (case ctx of
      None \<Rightarrow> (CRYPT_NULL_INPUT, None)
    | Some _ \<Rightarrow> (CRYPT_SUCCESS, Some zero_ctx))"

text \<open>Copying returns the new value of the destination.\<close>

definition CRYPT_SHA2_256_CopyCtx ::
  "CRYPT_SHA2_256_Ctx option \<Rightarrow> CRYPT_SHA2_256_Ctx option \<Rightarrow> crypt_ret \<times> CRYPT_SHA2_256_Ctx option" where
  "CRYPT_SHA2_256_CopyCtx dst src =
    (if dst = None \<or> src = None then (CRYPT_NULL_INPUT, dst) else (CRYPT_SUCCESS, src))"

definition CRYPT_SHA2_256_DupCtx :: "bool \<Rightarrow> CRYPT_SHA2_256_Ctx option \<Rightarrow> CRYPT_SHA2_256_Ctx option" where
  "CRYPT_SHA2_256_DupCtx mem src = (case src of
      None \<Rightarrow> None
    | Some c \<Rightarrow> (case CRYPT_SHA2_256_NewCtx mem of None \<Rightarrow> None | Some _ \<Rightarrow> Some c))"

section \<open>Adding data\<close>

definition CheckIsCorrupted :: "CRYPT_SHA2_256_Ctx \<Rightarrow> u32 \<Rightarrow> crypt_ret \<times> CRYPT_SHA2_256_Ctx" where
  "CheckIsCorrupted ctx nbytes =
    (let cnt0 = (lNum ctx + push_bit 3 nbytes) AND 0xffffffff;
         ctx1 = (if cnt0 < lNum ctx then ctx\<lparr>hNum := hNum ctx + 1\<rparr> else ctx)
     in if cnt0 < lNum ctx \<and> hNum ctx1 = 0
        then (CRYPT_SHA2_INPUT_OVERFLOW, ctx1\<lparr>errorCode := CRYPT_SHA2_INPUT_OVERFLOW\<rparr>)
        else let cnt1 = hNum ctx1 + drop_bit (32 - 3) nbytes
             in if cnt1 < hNum ctx1
                then (CRYPT_SHA2_INPUT_OVERFLOW, ctx1\<lparr>errorCode := CRYPT_SHA2_INPUT_OVERFLOW\<rparr>)
                else (CRYPT_SUCCESS, ctx1\<lparr>hNum := cnt1, lNum := cnt0\<rparr>))"

definition UpdateParamIsValid ::
  "CRYPT_SHA2_256_Ctx option \<Rightarrow> bytes option \<Rightarrow> u32 \<Rightarrow> crypt_ret \<times> CRYPT_SHA2_256_Ctx option" where
  "UpdateParamIsValid ctx data nbytes = (case ctx of
      None \<Rightarrow> (CRYPT_NULL_INPUT, None)
    | Some c \<Rightarrow>
        if data = None \<and> nbytes \<noteq> 0 then (CRYPT_NULL_INPUT, ctx)
        else if errorCode c \<noteq> CRYPT_SUCCESS then (CRYPT_SHA2_INPUT_OVERFLOW, ctx)
        else let (ret, c) = CheckIsCorrupted c nbytes
             in if ret \<noteq> CRYPT_SUCCESS then (CRYPT_SHA2_INPUT_OVERFLOW, Some c) else (CRYPT_SUCCESS, Some c))"

text \<open>The body of an update after the checks: fill the pending block, then compress the whole blocks
  of the data in place and keep the rest.\<close>

definition Update_blocks :: "CRYPT_SHA2_256_Ctx \<Rightarrow> bytes \<Rightarrow> nat \<Rightarrow> CRYPT_SHA2_256_Ctx" where
  "Update_blocks ctx d left =
    (let n = left div 64;
         (ctx, d, left) =
           (if n > 0
            then (ctx\<lparr>hv := SHA256CompressMultiBlocks (hv ctx) d n\<rparr>, drop (n * 64) d, u32_sub left (n * 64))
            else (ctx, d, left))
     in if left \<noteq> 0 then ctx\<lparr>blocklen := left, block := memcpy_at (block ctx) 0 (take left d)\<rparr> else ctx)"

definition Update_body :: "CRYPT_SHA2_256_Ctx \<Rightarrow> bytes \<Rightarrow> nat \<Rightarrow> CRYPT_SHA2_256_Ctx" where
  "Update_body ctx d left =
    (let n = blocklen ctx
     in if left < u32_sub 64 n
        then ctx\<lparr>block := memcpy_at (block ctx) n (take left d), blocklen := (blocklen ctx + left) mod 2 ^ 32\<rparr>
        else if n \<noteq> 0 \<and> left \<ge> u32_sub 64 n
        then let p = memcpy_at (block ctx) n (take (u32_sub 64 n) d);
                 hh = SHA256CompressMultiBlocks (hv ctx) p 1;
                 n = u32_sub 64 n
             in Update_blocks (ctx\<lparr>hv := hh, blocklen := 0, block := replicate 64 0\<rparr>) (drop n d) (u32_sub left n)
        else Update_blocks ctx d left)"

definition CRYPT_SHA2_256_Update ::
  "CRYPT_SHA2_256_Ctx option \<Rightarrow> bytes option \<Rightarrow> u32 \<Rightarrow> crypt_ret \<times> CRYPT_SHA2_256_Ctx option" where
  "CRYPT_SHA2_256_Update ctx data nbytes =
    (let (ret, ctx) = UpdateParamIsValid ctx data nbytes
     in if ret \<noteq> CRYPT_SUCCESS then (ret, ctx)
        else if nbytes = 0 then (CRYPT_SUCCESS, ctx)
        else (CRYPT_SUCCESS, map_option (\<lambda>c. Update_body c (the data) (unat nbytes)) ctx))"

section \<open>The digest\<close>

text \<open>The result of the final call: the code, the context, the digest buffer and the reported length.\<close>

definition FinalParamIsValid :: "CRYPT_SHA2_256_Ctx option \<Rightarrow> bytes option \<Rightarrow> nat option \<Rightarrow> crypt_ret" where
  "FinalParamIsValid ctx out outLen = (case (ctx, out, outLen) of
      (Some c, Some _, Some l) \<Rightarrow>
        if l < outlen c then CRYPT_SHA2_OUT_BUFF_LEN_NOT_ENOUGH
        else if errorCode c = CRYPT_SHA2_INPUT_OVERFLOW then CRYPT_SHA2_INPUT_OVERFLOW
        else CRYPT_SUCCESS
    | _ \<Rightarrow> CRYPT_NULL_INPUT)"

definition Final_body :: "CRYPT_SHA2_256_Ctx \<Rightarrow> CRYPT_SHA2_256_Ctx" where
  "Final_body ctx =
    (let p = block ctx;
         n = blocklen ctx;
         p = p[n := 0x80];
         n = n + 1;
         (hh, p, n) =
           (if n > 64 - 8
            then let p = memcpy_at p n (replicate (64 - n) 0) in (SHA256CompressMultiBlocks (hv ctx) p 1, p, 0)
            else (hv ctx, p, n));
         p = memcpy_at p n (replicate (64 - 8 - n) 0);
         p = PUT_UINT32_BE (hNum ctx) p (64 - 8);
         p = PUT_UINT32_BE (lNum ctx) p (64 - 8 + 4);
         hh = SHA256CompressMultiBlocks hh p 1
     in ctx\<lparr>hv := hh, blocklen := 0, block := replicate 64 0\<rparr>)"

definition Final_output :: "CRYPT_SHA2_256_Ctx \<Rightarrow> bytes \<Rightarrow> bytes" where
  "Final_output ctx digest =
     foldl (\<lambda>digest nn. PUT_UINT32_BE (hv ctx ! nn) digest (4 * nn)) digest [0..<outlen ctx div 4]"

definition CRYPT_SHA2_256_Final ::
  "CRYPT_SHA2_256_Ctx option \<Rightarrow> bytes option \<Rightarrow> nat option \<Rightarrow>
   crypt_ret \<times> CRYPT_SHA2_256_Ctx option \<times> bytes option \<times> nat option" where
  "CRYPT_SHA2_256_Final ctx digest outLen =
    (let ret = FinalParamIsValid ctx digest outLen
     in if ret \<noteq> CRYPT_SUCCESS then (ret, ctx, digest, outLen)
        else let c = Final_body (the ctx)
             in (CRYPT_SUCCESS, Some c, Some (Final_output c (the digest)), Some (outlen c)))"

section \<open>The tables of functions\<close>

definition g_mdMethod_SHA2_256 :: "CRYPT_SHA2_256_Ctx EAL_MdMethod" where
  "g_mdMethod_SHA2_256 = \<lparr>mdBlockSize = 64, mdSize = 32, mdNewCtx = Some CRYPT_SHA2_256_NewCtx,
     mdInit = Some CRYPT_SHA2_256_Init, mdUpdate = Some CRYPT_SHA2_256_Update, mdFinal = Some CRYPT_SHA2_256_Final,
     mdDeinit = Some CRYPT_SHA2_256_Deinit, mdCopyCtx = Some CRYPT_SHA2_256_CopyCtx,
     mdDupCtx = Some CRYPT_SHA2_256_DupCtx, mdFreeCtx = Some (\<lambda>_. ())\<rparr>"

definition g_mdMethod_SHA2_224 :: "CRYPT_SHA2_256_Ctx EAL_MdMethod" where
  "g_mdMethod_SHA2_224 = g_mdMethod_SHA2_256\<lparr>mdSize := 28, mdInit := Some CRYPT_SHA2_224_Init\<rparr>"

end
