(* ===== verification/Hash_Blocks.thy ===== *)
theory Hash_Blocks
  imports Crypt_Base
begin

text \<open>
  What the iterated hashes share: the state after all whole blocks of a message, the bytes that wait
  for a block to be filled, and the padding of a message by a one bit, zeros and its length in bits.
\<close>

function absorb :: "nat \<Rightarrow> ('s \<Rightarrow> bytes \<Rightarrow> 's) \<Rightarrow> 's \<Rightarrow> bytes \<Rightarrow> 's" where
  "absorb B f s xs =
     (if 0 < B \<and> B \<le> length xs then absorb B f (f s (take B xs)) (drop B xs) else s)"
  by pat_completeness auto
termination by (relation "measure (\<lambda>(B, f, s, xs). length xs)") auto

declare absorb.simps [simp del]

definition leftover :: "nat \<Rightarrow> bytes \<Rightarrow> bytes" where
  "leftover B xs = drop (length xs div B * B) xs"

definition md_zeros :: "nat \<Rightarrow> nat \<Rightarrow> nat \<Rightarrow> nat" where
  "md_zeros B L len =
     (let n = len mod B + 1 in if n + L \<le> B then B - L - n else 2 * B - L - n)"

definition md_pad :: "nat \<Rightarrow> nat \<Rightarrow> bytes \<Rightarrow> bytes" where
  "md_pad B L msg =
     msg @ [0x80] @ replicate (md_zeros B L (length msg)) 0 @ be_nat L (8 * length msg)"

lemma absorb_short [simp]: "length xs < B \<Longrightarrow> absorb B f s xs = s"
  by (simp add: absorb.simps)

lemma absorb_block: "0 < B \<Longrightarrow> length b = B \<Longrightarrow> absorb B f s (b @ xs) = absorb B f (f s b) xs"
  by (subst absorb.simps) simp

lemma absorb_one: "0 < B \<Longrightarrow> length b = B \<Longrightarrow> absorb B f s b = f s b"
  using absorb_block [of B b f s "[]"] by simp

lemma length_leftover [simp]: "length (leftover B xs) = length xs mod B"
  by (simp add: leftover_def minus_div_mult_eq_mod)

lemma leftover_short [simp]: "length xs < B \<Longrightarrow> leftover B xs = xs"
  by (simp add: leftover_def)

lemma leftover_block: "0 < B \<Longrightarrow> length b = B \<Longrightarrow> leftover B (b @ xs) = leftover B xs"
  by (simp add: leftover_def div_add_self1)

lemma block_induct [consumes 1, case_names short block]:
  assumes "0 < B"
    and "\<And>xs. length xs < B \<Longrightarrow> P xs"
    and "\<And>b xs. length b = B \<Longrightarrow> P xs \<Longrightarrow> P (b @ xs)"
  shows "P xs"
proof (induction "length xs" arbitrary: xs rule: less_induct)
  case less
  show ?case
  proof (cases "length xs < B")
    case False
    then have "P (take B xs @ drop B xs)" using assms(1) less by (intro assms(3)) auto
    then show ?thesis by simp
  qed (rule assms(2))
qed

lemma absorb_append:
  assumes "0 < B"
  shows "absorb B f s (xs @ ys) = absorb B f (absorb B f s xs) (leftover B xs @ ys)"
  by (induction xs arbitrary: s rule: block_induct [OF assms]) (simp_all add: assms absorb_block leftover_block)

lemma leftover_append:
  assumes "0 < B"
  shows "leftover B (xs @ ys) = leftover B (leftover B xs @ ys)"
  by (induction xs rule: block_induct [OF assms]) (simp_all add: assms leftover_block)

lemma leftover_whole: "B dvd length xs \<Longrightarrow> leftover B xs = []"
  by (simp add: leftover_def)

lemma absorb_whole_part:
  assumes "0 < B"
  shows "absorb B f s (take (length xs div B * B) xs) = absorb B f s xs"
  using assms
proof (induction xs arbitrary: s rule: block_induct)
  case (block b xs)
  then have "take (length (b @ xs) div B * B) (b @ xs) = b @ take (length xs div B * B) xs"
    using assms by (simp add: div_add_self1)
  then show ?case using block assms by (simp only: absorb_block)
qed simp_all

lemma absorb_inv:
  assumes "0 < B" "P s" and "\<And>s b. P s \<Longrightarrow> length b = B \<Longrightarrow> P (f s b)"
  shows "P (absorb B f s xs)"
  using assms(2)
  by (induction xs arbitrary: s rule: block_induct [OF assms(1)]) (simp_all add: absorb_block assms(1,3))

text \<open>Filling the waiting block: the three ways an update can go.\<close>

lemma fill_partial:
  assumes "length xs mod B + length d < B"
  shows "absorb B f s (xs @ d) = absorb B f s xs" "leftover B (xs @ d) = leftover B xs @ d"
  using assms by (simp_all add: absorb_append leftover_append)

lemma fill_block:
  assumes B: "0 < B" and n: "n = length xs mod B" and d: "B - n \<le> length d"
  shows "absorb B f s (xs @ d) =
      absorb B f (f (absorb B f s xs) (leftover B xs @ take (B - n) d)) (drop (B - n) d)"
    "leftover B (xs @ d) = leftover B (drop (B - n) d)"
proof -
  let ?b = "leftover B xs @ take (B - n) d"
  have "n < B" using B n by simp
  then have len: "length ?b = B" using n d by simp
  have eq: "leftover B xs @ d = ?b @ drop (B - n) d" by simp
  show "absorb B f s (xs @ d) = absorb B f (f (absorb B f s xs) ?b) (drop (B - n) d)"
    unfolding absorb_append [OF B, of _ _ xs] eq by (rule absorb_block [OF B len])
  show "leftover B (xs @ d) = leftover B (drop (B - n) d)"
    unfolding leftover_append [OF B, of xs] eq by (rule leftover_block [OF B len])
qed

lemma fill_none:
  assumes "0 < B" "length xs mod B = 0"
  shows "absorb B f s (xs @ d) = absorb B f (absorb B f s xs) d" "leftover B (xs @ d) = leftover B d"
proof -
  have "leftover B xs = []" using assms(2) by (intro leftover_whole) auto
  then show "absorb B f s (xs @ d) = absorb B f (absorb B f s xs) d" "leftover B (xs @ d) = leftover B d"
    using absorb_append [OF assms(1), of f s xs d] leftover_append [OF assms(1), of xs d] by simp_all
qed

text \<open>The padded message ends with one block, or with two when the length does not fit the first.\<close>

lemma absorb_pad_one:
  assumes B: "0 < B" and n: "n = length msg mod B" and fit: "n + 1 + L \<le> B"
  shows "absorb B f s (md_pad B L msg) =
    f (absorb B f s msg) (leftover B msg @ [0x80] @ replicate (B - L - (n + 1)) 0 @ be_nat L (8 * length msg))"
  using assms by (simp add: md_pad_def md_zeros_def Let_def absorb_append absorb_one)

lemma absorb_pad_two:
  assumes B: "0 < B" and n: "n = length msg mod B" and fit: "B < n + 1 + L" "L \<le> B"
  shows "absorb B f s (md_pad B L msg) =
    f (f (absorb B f s msg) (leftover B msg @ [0x80] @ replicate (B - (n + 1)) 0))
      (replicate (B - L) 0 @ be_nat L (8 * length msg))"
proof -
  have "n < B" using B n by simp
  then have z: "md_zeros B L (length msg) = (B - (n + 1)) + (B - L)"
    using n fit by (simp add: md_zeros_def Let_def)
  have pad: "leftover B msg @ [0x80] @ replicate (md_zeros B L (length msg)) 0 @ be_nat L (8 * length msg) =
      (leftover B msg @ [0x80] @ replicate (B - (n + 1)) 0) @ (replicate (B - L) 0 @ be_nat L (8 * length msg))"
    unfolding z replicate_add by simp
  have b: "length (leftover B msg @ [0x80] @ replicate (B - (n + 1)) 0) = B" using \<open>n < B\<close> n by simp
  show ?thesis unfolding md_pad_def absorb_append [OF B, of _ _ msg] pad absorb_block [OF B b]
    using B fit by (simp add: absorb_one)
qed

lemma md_pad_whole: "0 < B \<Longrightarrow> 1 + L \<le> B \<Longrightarrow> B dvd length (md_pad B L msg)"
proof -
  assume B: "0 < B" "1 + L \<le> B"
  define k n where "k = length msg div B" and "n = length msg mod B"
  have len: "length msg = k * B + n" and "n < B" using B by (simp_all add: k_def n_def)
  then have "length (md_pad B L msg) = k * B + (if n + 1 + L \<le> B then B else 2 * B)"
    using B unfolding md_pad_def md_zeros_def n_def [symmetric] Let_def by (simp add: len)
  then show ?thesis by simp
qed

section \<open>Buffers of waiting bytes\<close>

text \<open>A hash state \<open>s\<close> and a buffer with \<open>n\<close> waiting bytes that stand for a message, started from \<open>iv\<close>.\<close>

definition holds :: "nat \<Rightarrow> ('s \<Rightarrow> bytes \<Rightarrow> 's) \<Rightarrow> 's \<Rightarrow> 's \<Rightarrow> bytes \<Rightarrow> nat \<Rightarrow> bytes \<Rightarrow> bool" where
  "holds B f iv s buf n msg \<longleftrightarrow> 0 < B \<and> length buf = B \<and> n = length msg mod B \<and>
     take n buf = leftover B msg \<and> s = absorb B f iv msg"

lemma holds_part:
  assumes "holds B f iv s buf n msg" "length d < B - n"
  shows "holds B f iv s (memcpy_at buf n d) (n + length d) (msg @ d)"
proof -
  have "length msg mod B + length d < B" using assms by (simp add: holds_def)
  moreover from this have "(length msg + length d) mod B = length msg mod B + length d"
    by (metis mod_add_left_eq mod_less)
  ultimately show ?thesis
    using assms fill_partial(1) [of msg B d f iv] fill_partial(2) [of msg B d] take_memcpy_at [of n d buf]
    by (auto simp: holds_def)
qed

lemma holds_rest:
  assumes "0 < B" "length buf = B"
  shows "holds B f s (absorb B f s d) (if length d mod B \<noteq> 0 then memcpy_at buf 0 (leftover B d) else buf) (length d mod B) d"
proof -
  have "leftover B d = []" if "length d mod B = 0" using that length_leftover [of B d] by (simp only: length_0_conv)
  moreover have "length d mod B \<le> B" using assms by simp
  ultimately show ?thesis using assms take_memcpy_at [of 0 "leftover B d" buf] by (simp add: holds_def)
qed

lemma holds_fill:
  assumes old: "holds B f iv s buf n msg" and d: "B - n \<le> length d"
    and new: "holds B f (f s (take n buf @ take (B - n) d)) s' buf' n' (drop (B - n) d)"
  shows "holds B f iv s' buf' n' (msg @ d)"
proof -
  have B: "0 < B" and n: "n = length msg mod B" and lo: "take n buf = leftover B msg" and s: "s = absorb B f iv msg"
    using old by (auto simp: holds_def)
  have "length (msg @ d) = length msg div B * B + (B + (length d - (B - n)))"
    using d n B div_mult_mod_eq [of "length msg" B] mod_less_divisor [OF B, of "length msg"] by simp
  then have "length (msg @ d) mod B = (length d - (B - n)) mod B" by (simp only: mod_mult_self3 mod_add_self1)
  then show ?thesis
    using new fill_block(1) [OF B n d, of f iv] fill_block(2) [OF B n d] by (auto simp: holds_def lo s)
qed

lemma holds_whole:
  assumes old: "holds B f iv s buf 0 msg" and new: "holds B f s s' buf' n' d"
  shows "holds B f iv s' buf' n' (msg @ d)"
proof -
  have B: "0 < B" and n: "length msg mod B = 0" and s: "s = absorb B f iv msg" using old by (auto simp: holds_def)
  have "(length msg + length d) mod B = length d mod B" using n by (metis add_0 mod_add_left_eq)
  then show ?thesis using new fill_none(1) [OF B n, of f iv d] fill_none(2) [OF B n, of d] by (auto simp: holds_def s)
qed

lemma holds_buf80:
  assumes "holds B f iv s buf n msg"
  shows "buf[n := 0x80] = leftover B msg @ [0x80] @ drop (n + 1) buf" "n < B"
  using assms by (auto simp: holds_def upd_conv_take_nth_drop)

lemma holds_pad_one:
  assumes h: "holds B f iv s buf n msg" and fit: "n + 1 + L \<le> B"
  shows "f s (take (B - L) (memcpy_at (buf[n := 0x80]) (n + 1) (replicate (B - L - (n + 1)) 0)) @ be_nat L (8 * length msg)) =
    absorb B f iv (md_pad B L msg)"
proof -
  have "take (B - L) (memcpy_at (buf[n := 0x80]) (n + 1) (replicate (B - L - (n + 1)) 0)) =
      leftover B msg @ [0x80] @ replicate (B - L - (n + 1)) 0"
    using h fit unfolding holds_buf80(1) [OF h] by (simp add: memcpy_at_def holds_def Suc_diff_Suc [symmetric])
  then show ?thesis using absorb_pad_one [of B n msg L f iv] h fit by (simp add: holds_def)
qed

lemma holds_pad_two:
  assumes h: "holds B f iv s buf n msg" and fit: "B < n + 1 + L" "L \<le> B"
  shows "f (f s (memcpy_at (buf[n := 0x80]) (n + 1) (replicate (B - (n + 1)) 0)))
      (replicate (B - L) 0 @ be_nat L (8 * length msg)) = absorb B f iv (md_pad B L msg)"
proof -
  have "memcpy_at (buf[n := 0x80]) (n + 1) (replicate (B - (n + 1)) 0) =
      leftover B msg @ [0x80] @ replicate (B - (n + 1)) 0"
    using h unfolding holds_buf80(1) [OF h] by (simp add: memcpy_at_def holds_def)
  then show ?thesis using absorb_pad_two [of B n msg L f iv] h fit by (simp add: holds_def)
qed

end
