(* ===== verification/Sha256_Correct.thy ===== *)
theory Sha256_Correct
  imports Sha256 Hash_Blocks
begin

text \<open>
  SHA-256 and SHA-224 compute the functions of the standard (FIPS 180-4): both compression functions
  are the one of the standard, and a context that is given a message in any pieces holds the state
  after its whole blocks, the bytes of the last one and the length in bits. Rotations and the choice and
  majority functions of the standard are written with the library's operations on words.
\<close>

section \<open>The standard\<close>

definition Ch :: "u32 \<Rightarrow> u32 \<Rightarrow> u32 \<Rightarrow> u32" where
  "Ch x y z = (x AND y) XOR (NOT x AND z)"

definition Maj :: "u32 \<Rightarrow> u32 \<Rightarrow> u32 \<Rightarrow> u32" where
  "Maj x y z = (x AND y) XOR (x AND z) XOR (y AND z)"

definition BSIG0 :: "u32 \<Rightarrow> u32" where
  "BSIG0 x = word_rotr 2 x XOR word_rotr 13 x XOR word_rotr 22 x"

definition BSIG1 :: "u32 \<Rightarrow> u32" where
  "BSIG1 x = word_rotr 6 x XOR word_rotr 11 x XOR word_rotr 25 x"

definition SSIG0 :: "u32 \<Rightarrow> u32" where
  "SSIG0 x = word_rotr 7 x XOR word_rotr 18 x XOR drop_bit 3 x"

definition SSIG1 :: "u32 \<Rightarrow> u32" where
  "SSIG1 x = word_rotr 17 x XOR word_rotr 19 x XOR drop_bit 10 x"

fun Wt :: "bytes \<Rightarrow> nat \<Rightarrow> u32" where
  "Wt M t = (if t < 16 then word_rcat (blk (4 * t) 4 M)
             else SSIG1 (Wt M (t - 2)) + Wt M (t - 7) + SSIG0 (Wt M (t - 15)) + Wt M (t - 16))"

declare Wt.simps [simp del]

definition fips_round :: "bytes \<Rightarrow> sha_vars \<Rightarrow> nat \<Rightarrow> sha_vars" where
  "fips_round M v t =
    (let (a, b, c, d, e, f, g, h) = v;
         T1 = h + BSIG1 e + Ch e f g + K256 ! t + Wt M t;
         T2 = BSIG0 a + Maj a b c
     in (T1 + T2, a, b, c, d + T1, e, f, g))"

definition fips_compress :: "u32 list \<Rightarrow> bytes \<Rightarrow> u32 list" where
  "fips_compress H M =
    (let (a, b, c, d, e, f, g, h) = foldl (fips_round M) (load_vars H) [0..<64]
     in map2 (+) H [a, b, c, d, e, f, g, h])"

lemma ROTR32_rotr: "0 < n \<Longrightarrow> n < 32 \<Longrightarrow> ROTR32 x n = word_rotr n x"
  by (rule bit_word_eqI)
    (auto simp: ROTR32_def bit_simps mod_if add.commute [of n] dest: bit_imp_le_length)

lemma choose_eq: "g XOR (e AND (f XOR g)) = Ch e f g"
  by (rule bit_word_eqI) (auto simp: Ch_def bit_simps)

lemma majority_eq: "(a AND (b OR c)) OR (b AND c) = Maj a b c"
  by (rule bit_word_eqI) (auto simp: Maj_def bit_simps)

lemmas sigma_eqs = S0_def S1_def SSIG0_def SSIG1_def BSIG0_def BSIG1_def ROTR32_rotr

lemma S0_eq: "S0 = SSIG0" and S1_eq: "S1 = SSIG1"
  by (simp_all add: fun_eq_iff sigma_eqs xor.assoc)

lemma small_ROUND_fips:
  "wi = Wt M t \<Longrightarrow> small_ROUND v wi (K256 ! t) = fips_round M v t"
  by (cases v) (simp add: small_ROUND_def fips_round_def Let_def choose_eq majority_eq
      BSIG0_def BSIG1_def ROTR32_rotr)

lemma ROUND_small:
  "small_ROUND (a, b, c, d, e, f, g, h) i k =
   (case CRYPT_SHA256_ROUND a b c d e f g h i k of (d', h') \<Rightarrow> (h', a, b, c, d', e, f, g))"
  by (simp add: small_ROUND_def CRYPT_SHA256_ROUND_def Let_def ac_simps)

lemma upt_8: "[i..<i + 8] = [i + 0, i + 1, i + 2, i + 3, i + 4, i + 5, i + 6, i + (7::nat)]"
  by (simp add: upt_rec eval_nat_numeral)

lemma CompressBlock_first_rounds:
  "CompressBlock_first w v i = foldl (\<lambda>v j. small_ROUND v (w ! j) (K256 ! j)) v [i..<i + 8]"
  by (cases v) (auto simp only: upt_8 CompressBlock_first_def Let_def ROUND_small foldl.simps
      prod.case split: prod.split)

definition sched_round :: "u32 list \<times> sha_vars \<Rightarrow> nat \<Rightarrow> u32 list \<times> sha_vars" where
  "sched_round s j = (case s of (w, v) \<Rightarrow>
     (w[j := R w j], small_ROUND v (w[j := R w j] ! j) (K256 ! j)))"

lemma CompressBlock_second_rounds:
  "CompressBlock_second s i = foldl sched_round s [i..<i + 8]"
  by (cases s) (auto simp only: upt_8 CompressBlock_second_def sched_round_def Let_def ROUND_small foldl.simps
      prod.case split: prod.split)

text \<open>The schedule is filled up to \<open>n\<close>.\<close>

definition sched :: "bytes \<Rightarrow> u32 list \<Rightarrow> nat \<Rightarrow> bool" where
  "sched M w n \<longleftrightarrow> length w = 64 \<and> (\<forall>t<n. w ! t = Wt M t)"

lemma sched_step: "sched M w j \<Longrightarrow> 16 \<le> j \<Longrightarrow> j < 64 \<Longrightarrow> sched M (w[j := R w j]) (Suc j)"
  by (auto simp: sched_def R_def S0_eq S1_eq less_Suc_eq nth_list_update Wt.simps [of M j])

lemma sched_rounds:
  assumes "sched M w i" "16 \<le> i" "i + n \<le> 64"
  shows "\<exists>w'. foldl sched_round (w, v) [i..<i + n] = (w', foldl (fips_round M) v [i..<i + n]) \<and>
    sched M w' (i + n)"
  using assms(3)
proof (induction n)
  case 0
  then show ?case using assms by simp
next
  case (Suc n)
  then obtain w' where w': "foldl sched_round (w, v) [i..<i + n] = (w', foldl (fips_round M) v [i..<i + n])"
    "sched M w' (i + n)" by auto
  have s: "sched M (w'[i + n := R w' (i + n)]) (Suc (i + n))"
    using w' Suc.prems assms(2) by (intro sched_step) auto
  then have "w'[i + n := R w' (i + n)] ! (i + n) = Wt M (i + n)" by (simp add: sched_def)
  then have "sched_round (w', u) (i + n) = (w'[i + n := R w' (i + n)], fips_round M u (i + n))" for u
    by (simp add: sched_round_def small_ROUND_fips)
  then show ?case using s w' by auto
qed

lemma foldl_upt_join:
  assumes "i \<le> j" "j \<le> k"
  shows "foldl f (foldl f v [i..<j]) [j..<k] = foldl f v [i..<k]"
proof -
  have "[i..<k] = [i..<j] @ [j..<k]" using upt_add_eq_append [of i j "k - j"] assms by simp
  then show ?thesis by simp
qed

lemma sched_rounds_from:
  assumes "sched M w i" "16 \<le> i" "i \<le> k" "k \<le> 64"
  shows "\<exists>w'. foldl sched_round (w, foldl (fips_round M) v [0..<i]) [i..<k] = (w', foldl (fips_round M) v [0..<k])"
  using sched_rounds [OF assms(1,2), of "k - i" "foldl (fips_round M) v [0..<i]"] assms(3,4)
    foldl_upt_join [of 0 i k "fips_round M" v] by auto

lemma foldl_sched_prefix:
  assumes "sched M w n" "n \<le> 64"
  shows "foldl (\<lambda>v j. small_ROUND v (w ! j) (K256 ! j)) v [0..<n] = foldl (fips_round M) v [0..<n]"
  using assms by (intro foldl_cong) (auto simp: sched_def intro!: small_ROUND_fips)

lemma load_block_sched:
  assumes "length w0 = 64" "64 \<le> length p"
  shows "sched (take 64 p) (load_block w0 p) 16"
proof -
  have "length (foldl (\<lambda>w i. w[i := GET_UINT32_BE p (4 * i)]) w0 [0..<n]) = 64 \<and>
      (\<forall>t<n. foldl (\<lambda>w i. w[i := GET_UINT32_BE p (4 * i)]) w0 [0..<n] ! t = GET_UINT32_BE p (4 * t))"
    if "n \<le> 16" for n
    using that assms(1) by (induction n) (auto simp: less_Suc_eq nth_list_update)
  moreover have "blk (4 * t) 4 (take 64 p) = blk (4 * t) 4 p" if "t < 16" for t
    using that assms(2) by (simp add: blk_def drop_take min_def)
  ultimately show ?thesis
    using assms(2) by (auto simp: sched_def load_block_def GET_UINT32_BE_rcat Wt.simps)
qed

lemma add_vars_eq: "length H = 8 \<Longrightarrow>
  add_vars H v = (case v of (a, b, c, d, e, f, g, h) \<Rightarrow> map2 (+) H [a, b, c, d, e, f, g, h])"
  by (cases v, simp, rule nth_equalityI)
    (auto simp: add_vars_def Let_def less_Suc_eq numeral_eq_Suc nth_list_update)

lemma le_numeral_64: "(16::nat) \<le> 64" "(64::nat) \<le> 64"
  by simp_all

lemma CompressBlock_fips:
  assumes "length w0 = 64" "length H = 8" "64 \<le> length p"
  shows "CompressBlock w0 H p = fips_compress H (take 64 p)"
proof -
  let ?M = "take 64 p"
  let ?w = "load_block w0 p"
  have s: "sched ?M ?w 16" by (rule load_block_sched [OF assms(1,3)])
  have "foldl (CompressBlock_first ?w) (load_vars H) [0, 8] =
      foldl (\<lambda>v j. small_ROUND v (?w ! j) (K256 ! j)) (load_vars H) [0..<16]"
    using foldl_upt_join [of 0 8 16 "\<lambda>v j. small_ROUND v (?w ! j) (K256 ! j)" "load_vars H"]
      CompressBlock_first_rounds [of ?w _ 0] CompressBlock_first_rounds [of ?w _ 8] by simp
  also have "\<dots> = foldl (fips_round ?M) (load_vars H) [0..<16]"
    by (rule foldl_sched_prefix [OF s]) simp
  finally have first: "foldl (CompressBlock_first ?w) (load_vars H) [0, 8] =
    foldl (fips_round ?M) (load_vars H) [0..<16]" .
  have second: "foldl CompressBlock_second (w, v) [16, 24, 32, 40, 48, 56] = foldl sched_round (w, v) [16..<64]"
    for w v by (simp add: CompressBlock_second_rounds foldl_upt_join)
  obtain w' where "foldl sched_round (?w, foldl (fips_round ?M) (load_vars H) [0..<16]) [16..<64] =
      (w', foldl (fips_round ?M) (load_vars H) [0..<64])"
    using sched_rounds_from [OF s order_refl, of 64 "load_vars H"] le_numeral_64 by blast
  then show ?thesis
    unfolding CompressBlock_def Let_def first second fips_compress_def
    by (simp only: add_vars_eq assms prod.case)
qed

lemma small_CompressBlock_fips:
  assumes "length w0 = 64" "length H = 8" "64 \<le> length p"
  shows "small_CompressBlock w0 H p = fips_compress H (take 64 p)"
proof -
  let ?M = "take 64 p"
  have "sched ?M (foldl (\<lambda>w i. w[i := R w i]) (load_block w0 p) [16..<j]) j" if "16 \<le> j" "j \<le> 64" for j
    using that
  proof (induction j rule: dec_induct)
    case base
    then show ?case using load_block_sched [OF assms(1,3)] by simp
  next
    case (step j)
    then show ?case by (simp add: sched_step)
  qed
  from foldl_sched_prefix [OF this [OF le_numeral_64] order_refl] show ?thesis
    unfolding small_CompressBlock_def Let_def fips_compress_def
    by (simp only: add_vars_eq assms)
qed

lemma length_fips_compress [simp]: "length H = 8 \<Longrightarrow> length (fips_compress H M) = 8"
  by (simp add: fips_compress_def split: prod.split)

lemma CompressMultiBlocks_absorb:
  "length hash = 8 \<Longrightarrow> n * 64 \<le> length p \<Longrightarrow>
   SHA256CompressMultiBlocks hash p n = absorb 64 fips_compress hash (take (n * 64) p)"
proof (induction n arbitrary: hash p)
  case (Suc n)
  have "CompressBlock (replicate 64 0) hash p = fips_compress hash (take 64 p)"
    using Suc.prems by (simp add: CompressBlock_fips)
  moreover have "take (Suc n * 64) p = take 64 p @ take (n * 64) (drop 64 p)"
    by (simp add: take_add)
  ultimately show ?case using Suc by (simp add: absorb_block)
qed simp

lemma CompressMultiBlocks_one:
  "length hash = 8 \<Longrightarrow> length p = 64 \<Longrightarrow> SHA256CompressMultiBlocks hash p (Suc 0) = fips_compress hash p"
  using CompressMultiBlocks_absorb [of hash "Suc 0" p] by (simp add: absorb_one del: SHA256CompressMultiBlocks.simps)

declare SHA256CompressMultiBlocks.simps [simp del]

definition bit_count :: "CRYPT_SHA2_256_Ctx \<Rightarrow> nat" where
  "bit_count ctx = unat (hNum ctx) * 2 ^ 32 + unat (lNum ctx)"

lemma shift_parts: "unat (push_bit 3 (n :: u32)) + 2 ^ 32 * unat (drop_bit 29 n) = 8 * unat n"
  and drop_29_less: "unat (drop_bit 29 (n :: u32)) < 8"
proof -
  have p: "unat (push_bit 3 n) = 8 * unat n mod 2 ^ 32"
    by (simp add: push_bit_eq_mult unat_word_ariths mult.commute)
  have d: "unat (drop_bit 29 n) = unat n div 2 ^ 29"
    by (simp only: unat_drop_bit_eq drop_bit_eq_div [of 29 "unat n"])
  have "8 * unat n div 2 ^ 32 = unat n div 2 ^ 29"
    using div_mult_mult1 [of 8 "unat n" "2 ^ 29"] by simp
  then show "unat (push_bit 3 n) + 2 ^ 32 * unat (drop_bit 29 n) = 8 * unat n"
    unfolding p d using div_mult_mod_eq [of "8 * unat n" "2 ^ 32"] by (simp add: ac_simps)
  have "unat n < 2 ^ 32" using unsigned_less [where 'a = nat, of n] by simp
  then show "unat (drop_bit 29 n) < 8" unfolding d by (simp add: less_mult_imp_div_less)
qed

lemma CheckIsCorrupted_cases:
  assumes "N = bit_count ctx + 8 * unat nbytes"
  shows "if N < 2 ^ 64
    then \<exists>hn ln. CheckIsCorrupted ctx nbytes = (CRYPT_SUCCESS, ctx\<lparr>hNum := hn, lNum := ln\<rparr>) \<and>
           unat hn * 2 ^ 32 + unat ln = N
    else \<exists>hn. CheckIsCorrupted ctx nbytes =
           (CRYPT_SHA2_INPUT_OVERFLOW, ctx\<lparr>hNum := hn, errorCode := CRYPT_SHA2_INPUT_OVERFLOW\<rparr>)"
proof -
  define x y l h where "x = push_bit 3 nbytes" and "y = drop_bit 29 nbytes"
    and "l = lNum ctx" and "h = hNum ctx"
  have N: "N = (unat h + unat y) * 2 ^ 32 + (unat l + unat x)"
    using assms shift_parts [of nbytes] by (simp add: bit_count_def x_def y_def l_def h_def algebra_simps)
  have bnd: "unat h < 2 ^ 32" "unat l < 2 ^ 32" "unat x < 2 ^ 32" "unat y < 8"
    using unsigned_less [where 'a = nat, of h] unsigned_less [where 'a = nat, of l] unsigned_less [where 'a = nat, of x] drop_29_less [of nbytes] by (simp_all add: y_def)
  have C: "CheckIsCorrupted ctx nbytes =
    (let h1 = (if l + x < l then h + 1 else h);
         ctx1 = (if l + x < l then ctx\<lparr>hNum := h + 1\<rparr> else ctx)
     in if l + x < l \<and> h1 = 0 then (CRYPT_SHA2_INPUT_OVERFLOW, ctx1\<lparr>errorCode := CRYPT_SHA2_INPUT_OVERFLOW\<rparr>)
        else if h1 + y < h1 then (CRYPT_SHA2_INPUT_OVERFLOW, ctx1\<lparr>errorCode := CRYPT_SHA2_INPUT_OVERFLOW\<rparr>)
        else (CRYPT_SUCCESS, ctx\<lparr>hNum := h1 + y, lNum := l + x\<rparr>))"
    unfolding CheckIsCorrupted_def Let_def mask_32 x_def y_def l_def h_def by auto
  have self: "ctx\<lparr>errorCode := e\<rparr> = ctx\<lparr>hNum := h, errorCode := e\<rparr>" for e by (simp add: h_def)
  have z: "h + 1 = 0 \<longleftrightarrow> unat h + 1 = 2 ^ 32"
    using unat_add_carry(2) [of h 1] bnd by (auto simp: unat_eq_zero split: if_splits)
  show ?thesis
  proof (cases "l + x < l")
    case c: True
    then have lx: "unat (l + x) + 2 ^ 32 = unat l + unat x" "2 ^ 32 \<le> unat l + unat x"
      using unat_add_carry [of l x] by (auto split: if_splits)
    show ?thesis
    proof (cases "h + 1 = 0")
      case True
      then have "\<not> N < 2 ^ 64" using z N lx bnd by simp
      then show ?thesis using C c True by auto
    next
      case False
      then have h1: "unat (h + 1) = unat h + 1" using unat_add_carry(2) [of h 1] z bnd by (auto split: if_splits)
      show ?thesis
      proof (cases "h + 1 + y < h + 1")
        case True
        then have "\<not> N < 2 ^ 64" using unat_add_carry(1) [of "h + 1" y] h1 N lx by simp
        then show ?thesis using C c True False by auto
      next
        case nc: False
        then have "unat (h + 1 + y) = unat h + 1 + unat y" "unat h + 1 + unat y < 2 ^ 32"
          using unat_add_carry [of "h + 1" y] h1 by simp_all
        then have "N < 2 ^ 64" "unat (h + 1 + y) * 2 ^ 32 + unat (l + x) = N" using N lx bnd by simp_all
        then show ?thesis using C c False nc by auto
      qed
    qed
  next
    case c: False
    then have lx: "unat (l + x) = unat l + unat x" "unat l + unat x < 2 ^ 32"
      using unat_add_carry [of l x] by simp_all
    show ?thesis
    proof (cases "h + y < h")
      case True
      then have "\<not> N < 2 ^ 64" using unat_add_carry(1) [of h y] N by simp
      then show ?thesis using C c True self by auto
    next
      case nc: False
      then have "unat (h + y) = unat h + unat y" "unat h + unat y < 2 ^ 32"
        using unat_add_carry [of h y] by simp_all
      then have "N < 2 ^ 64" "unat (h + y) * 2 ^ 32 + unat (l + x) = N" using N lx by simp_all
      then show ?thesis using C c nc by auto
    qed
  qed
qed

definition buffered :: "u32 list \<Rightarrow> CRYPT_SHA2_256_Ctx \<Rightarrow> bytes \<Rightarrow> bool" where
  "buffered iv ctx msg \<longleftrightarrow> length iv = 8 \<and> holds 64 fips_compress iv (hv ctx) (block ctx) (blocklen ctx) msg"

lemma length_absorb_fips [simp]: "length iv = 8 \<Longrightarrow> length (absorb 64 fips_compress iv msg) = 8"
  by (rule absorb_inv) simp_all

lemma Update_blocks_rest:
  assumes iv: "length (hv ctx) = 8" and b: "length (block ctx) = 64" "blocklen ctx = 0" and l: "left < 2 ^ 32"
    and d: "left \<le> length d"
  shows "\<exists>hh bb n. Update_blocks ctx d left = ctx\<lparr>hv := hh, block := bb, blocklen := n\<rparr> \<and>
    holds 64 fips_compress (hv ctx) hh bb n (take left d)"
proof -
  let ?D = "take left d" and ?k = "left div 64 * 64"
  have k: "?k \<le> left" by simp
  have lenD: "length ?D = left" using d by simp
  have whole: "absorb 64 fips_compress (hv ctx) (take ?k d) = absorb 64 fips_compress (hv ctx) ?D"
    using absorb_whole_part [of 64 fips_compress "hv ctx" ?D] d k by (simp add: min_absorb1 min_absorb2)
  have sub: "u32_sub left ?k = left mod 64" using l k by (simp add: u32_sub_le minus_div_mult_eq_mod)
  have rest: "take (left mod 64) (drop ?k d) = leftover 64 ?D"
    using d by (simp add: leftover_def min_def drop_take minus_div_mult_eq_mod)
  define ctx1 where "ctx1 = ctx\<lparr>hv := absorb 64 fips_compress (hv ctx) ?D\<rparr>"
  have "Update_blocks ctx d left =
    (if left mod 64 \<noteq> 0 then ctx1\<lparr>blocklen := left mod 64, block := memcpy_at (block ctx) 0 (leftover 64 ?D)\<rparr> else ctx1)"
  proof (cases "left div 64 > 0")
    case True
    then show ?thesis
      using iv d k whole sub rest by (simp add: Update_blocks_def Let_def CompressMultiBlocks_absorb ctx1_def)
  next
    case False
    then have "left < 64" by simp
    then have "ctx1 = ctx" "left mod 64 = left" "leftover 64 ?D = ?D" by (simp_all add: ctx1_def)
    then show ?thesis using False by (simp add: Update_blocks_def Let_def)
  qed
  then show ?thesis
    using b holds_rest [of 64 "block ctx" fips_compress "hv ctx" ?D] unfolding lenD
    by (intro exI [of _ "absorb 64 fips_compress (hv ctx) ?D"] exI [of _ "left mod 64"]
        exI [of _ "if left mod 64 \<noteq> 0 then memcpy_at (block ctx) 0 (leftover 64 ?D) else block ctx"])
      (simp add: ctx1_def)
qed

lemma Update_body_buffered:
  assumes buf: "buffered iv ctx msg" and l: "left < 2 ^ 32" and d: "left \<le> length d"
  shows "\<exists>hh bb n. Update_body ctx d left = ctx\<lparr>hv := hh, block := bb, blocklen := n\<rparr> \<and>
    buffered iv (Update_body ctx d left) (msg @ take left d)"
proof -
  let ?D = "take left d" and ?n = "blocklen ctx"
  have h: "holds 64 fips_compress iv (hv ctx) (block ctx) ?n msg" and iv: "length iv = 8"
    using buf by (simp_all add: buffered_def)
  have n: "?n < 64" "length (block ctx) = 64" and lh: "length (hv ctx) = 8" using h iv by (auto simp: holds_def)
  have sub: "u32_sub 64 ?n = 64 - ?n" using n by (simp add: u32_sub_le)
  have lenD: "length ?D = left" using d by simp
  consider (part) "left < 64 - ?n" | (fill) "64 - ?n \<le> left" "?n \<noteq> 0" | (none) "64 - ?n \<le> left" "?n = 0"
    by linarith
  then show ?thesis
  proof cases
    case part
    then have U: "Update_body ctx d left = ctx\<lparr>hv := hv ctx, block := memcpy_at (block ctx) ?n ?D, blocklen := ?n + left\<rparr>"
      by (simp add: Update_body_def Let_def sub)
    have "buffered iv (Update_body ctx d left) (msg @ ?D)"
      using holds_part [OF h, of ?D] part lenD iv by (simp add: U buffered_def)
    then show ?thesis using U by blast
  next
    case fill
    let ?m = "64 - ?n"
    let ?p = "take ?n (block ctx) @ take ?m ?D"
    define ctx1 where "ctx1 = ctx\<lparr>hv := fips_compress (hv ctx) ?p, blocklen := 0, block := replicate 64 0\<rparr>"
    have D: "take (left - ?m) (drop ?m d) = drop ?m ?D" "take ?m d = take ?m ?D"
      using fill by (simp_all add: drop_take min_def)
    have p: "memcpy_at (block ctx) ?n (take ?m d) = ?p" unfolding D(2) [symmetric] using fill d n by (simp add: memcpy_at_def)
    have "length ?p = 64" using fill d n by simp
    then have "SHA256CompressMultiBlocks (hv ctx) ?p (Suc 0) = fips_compress (hv ctx) ?p"
      by (rule CompressMultiBlocks_one [OF lh])
    then have U: "Update_body ctx d left = Update_blocks ctx1 (drop ?m d) (left - ?m)"
      using fill l by (simp add: Update_body_def Let_def sub p ctx1_def u32_sub_le)
    have "length (hv ctx1) = 8" "length (block ctx1) = 64" "blocklen ctx1 = 0" using lh by (simp_all add: ctx1_def)
    moreover have "left - ?m < 2 ^ 32" "left - ?m \<le> length (drop ?m d)"
      using l d by (simp_all only: length_drop diff_le_mono less_imp_diff_less)
    ultimately obtain hh bb k where R: "Update_body ctx d left = ctx1\<lparr>hv := hh, block := bb, blocklen := k\<rparr>"
      "holds 64 fips_compress (hv ctx1) hh bb k (drop ?m ?D)" unfolding U D(1) [symmetric] using Update_blocks_rest by blast
    have "holds 64 fips_compress iv hh bb k (msg @ ?D)"
      using R(2) fill(1) lenD by (intro holds_fill [OF h]) (simp_all add: ctx1_def)
    then show ?thesis unfolding R(1) using iv by (auto simp: buffered_def ctx1_def)
  next
    case none
    from Update_blocks_rest [OF lh n(2) none(2) l d] obtain hh bb k where
      R: "Update_blocks ctx d left = ctx\<lparr>hv := hh, block := bb, blocklen := k\<rparr>" "holds 64 fips_compress (hv ctx) hh bb k ?D"
      by blast
    have U: "Update_body ctx d left = Update_blocks ctx d left" using none sub by (simp add: Update_body_def Let_def)
    show ?thesis unfolding U R(1) using holds_whole [OF h [unfolded none(2)] R(2)] iv by (auto simp: buffered_def)
  qed
qed

definition absorbed :: "u32 list \<Rightarrow> nat \<Rightarrow> CRYPT_SHA2_256_Ctx \<Rightarrow> bytes \<Rightarrow> bool" where
  "absorbed iv l ctx msg \<longleftrightarrow> buffered iv ctx msg \<and> bit_count ctx = 8 * length msg \<and> outlen ctx = l \<and>
     errorCode ctx = CRYPT_SUCCESS"

lemma Update_absorbed:
  assumes abs: "absorbed iv l ctx msg" and d: "unat nbytes \<le> length d"
    and N: "8 * (length msg + unat nbytes) < 2 ^ 64"
  shows "\<exists>ctx'. CRYPT_SHA2_256_Update (Some ctx) (Some d) nbytes = (CRYPT_SUCCESS, Some ctx') \<and>
    absorbed iv l ctx' (msg @ take (unat nbytes) d)"
proof -
  obtain hn ln where C: "CheckIsCorrupted ctx nbytes = (CRYPT_SUCCESS, ctx\<lparr>hNum := hn, lNum := ln\<rparr>)"
    and cnt: "unat hn * 2 ^ 32 + unat ln = 8 * (length msg + unat nbytes)"
    using CheckIsCorrupted_cases [OF refl, of ctx nbytes] N abs by (auto simp: absorbed_def)
  let ?c = "ctx\<lparr>hNum := hn, lNum := ln\<rparr>"
  have U: "UpdateParamIsValid (Some ctx) (Some d) nbytes = (CRYPT_SUCCESS, Some ?c)"
    using abs C by (simp add: UpdateParamIsValid_def absorbed_def)
  show ?thesis
  proof (cases "nbytes = 0")
    case True
    then show ?thesis using U abs cnt by (auto simp: CRYPT_SHA2_256_Update_def absorbed_def buffered_def bit_count_def)
  next
    case False
    have "buffered iv ?c msg" using abs by (auto simp: absorbed_def buffered_def)
    moreover have "unat nbytes < 2 ^ 32" using unsigned_less [where 'a = nat, of nbytes] by simp
    ultimately obtain hh bb n where B: "Update_body ?c d (unat nbytes) = ?c\<lparr>hv := hh, block := bb, blocklen := n\<rparr>"
      "buffered iv (Update_body ?c d (unat nbytes)) (msg @ take (unat nbytes) d)"
      using Update_body_buffered [OF _ _ d] by blast
    then show ?thesis
      using U False abs cnt d by (auto simp: CRYPT_SHA2_256_Update_def absorbed_def bit_count_def min_def)
  qed
qed

lemma Update_overflow:
  assumes "data = None \<Longrightarrow> nbytes = 0" "errorCode ctx = CRYPT_SUCCESS" "2 ^ 64 \<le> bit_count ctx + 8 * unat nbytes"
  shows "\<exists>hn. CRYPT_SHA2_256_Update (Some ctx) data nbytes =
    (CRYPT_SHA2_INPUT_OVERFLOW, Some (ctx\<lparr>hNum := hn, errorCode := CRYPT_SHA2_INPUT_OVERFLOW\<rparr>))"
  using CheckIsCorrupted_cases [OF refl, of ctx nbytes] assms
  by (auto simp: CRYPT_SHA2_256_Update_def UpdateParamIsValid_def)

lemma Update_refused:
  "data = None \<Longrightarrow> nbytes = 0 \<Longrightarrow> errorCode ctx \<noteq> CRYPT_SUCCESS \<Longrightarrow>
   CRYPT_SHA2_256_Update (Some ctx) data nbytes = (CRYPT_SHA2_INPUT_OVERFLOW, Some ctx)"
  by (auto simp: CRYPT_SHA2_256_Update_def UpdateParamIsValid_def)

section \<open>The digest\<close>

definition fips_sha256 :: "u32 list \<Rightarrow> nat \<Rightarrow> bytes \<Rightarrow> bytes" where
  "fips_sha256 iv l msg =
     take l (concat (map (be_nat 4 \<circ> unat) (absorb 64 fips_compress iv (md_pad 64 8 msg))))"

lemma Final_body_pad:
  assumes abs: "absorbed iv l ctx msg" and N: "8 * length msg < 2 ^ 64"
  shows "hv (Final_body ctx) = absorb 64 fips_compress iv (md_pad 64 8 msg)" "outlen (Final_body ctx) = l"
proof -
  let ?n = "blocklen ctx"
  have h: "holds 64 fips_compress iv (hv ctx) (block ctx) ?n msg" and iv: "length iv = 8"
    and cnt: "unat (hNum ctx) * 2 ^ 32 + unat (lNum ctx) = 8 * length msg" and out: "outlen ctx = l"
    using abs by (auto simp: absorbed_def buffered_def bit_count_def)
  have bl: "length (block ctx) = 64" and lh: "length (hv ctx) = 8" and n64: "?n < 64" using h iv by (auto simp: holds_def)
  have len8: "be_nat 8 (8 * length msg) = be_nat 4 (unat (hNum ctx)) @ be_nat 4 (unat (lNum ctx))"
    using be_nat_append [of "unat (lNum ctx)" 4 4 "unat (hNum ctx)"] cnt unsigned_less [where 'a = nat, of "lNum ctx"]
    by simp
  define put where "put = (\<lambda>p. PUT_UINT32_BE (lNum ctx) (PUT_UINT32_BE (hNum ctx) p 56) 60)"
  have put: "put p = take 56 p @ be_nat 8 (8 * length msg)" if "length p = 64" for p
    using that by (simp add: put_def PUT_UINT32_BE_eq len8 memcpy_at_def)
  show "hv (Final_body ctx) = absorb 64 fips_compress iv (md_pad 64 8 msg)"
  proof (cases "?n + 1 > 56")
    case True
    let ?p = "memcpy_at ((block ctx)[?n := 0x80]) (?n + 1) (replicate (64 - (?n + 1)) 0)"
    have lp: "length ?p = 64" using n64 bl by simp
    then have "put (memcpy_at ?p 0 (replicate 56 0)) = replicate 56 0 @ be_nat 8 (8 * length msg)"
      by (subst put) (simp_all add: memcpy_at_def)
    moreover have "hv (Final_body ctx) = SHA256CompressMultiBlocks
        (SHA256CompressMultiBlocks (hv ctx) ?p (Suc 0)) (put (memcpy_at ?p 0 (replicate 56 0))) (Suc 0)"
      using True by (simp add: Final_body_def Let_def put_def)
    ultimately show ?thesis
      using lh lp True holds_pad_two [OF h, of 8] by (simp add: CompressMultiBlocks_one)
  next
    case False
    let ?p = "memcpy_at ((block ctx)[?n := 0x80]) (?n + 1) (replicate (56 - (?n + 1)) 0)"
    have lp: "length ?p = 64" using False bl by simp
    have "hv (Final_body ctx) = SHA256CompressMultiBlocks (hv ctx) (put ?p) (Suc 0)"
      using False by (simp add: Final_body_def Let_def put_def)
    then show ?thesis
      using lh lp False holds_pad_one [OF h, of 8] put [OF lp] by (simp add: CompressMultiBlocks_one)
  qed
  show "outlen (Final_body ctx) = l" using out by (simp add: Final_body_def Let_def split: prod.split)
qed

lemma Final_output_concat:
  assumes "4 * k \<le> length out" "k \<le> length hs"
  shows "foldl (\<lambda>out i. PUT_UINT32_BE (hs ! i) out (4 * i)) out [0..<k] =
    concat (map (be_nat 4 \<circ> unat) (take k hs)) @ drop (4 * k) out"
  using assms
proof (induction k)
  case (Suc k)
  let ?c = "concat (map (be_nat 4 \<circ> unat) (take k hs))"
  have c: "length ?c = 4 * k" using Suc.prems by (simp add: length_concat comp_def sum_list_triv min_def)
  have "PUT_UINT32_BE (hs ! k) (?c @ drop (4 * k) out) (4 * k) =
      ?c @ be_nat 4 (unat (hs ! k)) @ drop (4 * Suc k) out"
    using c Suc.prems by (subst PUT_UINT32_BE_eq) (simp_all add: memcpy_at_def add.commute)
  then show ?case using Suc by (simp add: take_Suc_conv_app_nth comp_def)
qed simp

lemma length_concat_be: "length (concat (map (be_nat 4 \<circ> unat) hs)) = 4 * length hs"
  by (induction hs) simp_all

lemma take_concat_be:
  "take (4 * k) (concat (map (be_nat 4 \<circ> unat) hs)) = concat (map (be_nat 4 \<circ> unat) (take k hs))"
proof (induction hs arbitrary: k)
  case (Cons a hs)
  then show ?case by (cases k) simp_all
qed simp

lemma Final_absorbed:
  assumes abs: "absorbed iv (4 * k) ctx msg" and N: "8 * length msg < 2 ^ 64" and k: "k \<le> 8"
    and out: "4 * k \<le> length out" "4 * k \<le> l"
  shows "CRYPT_SHA2_256_Final (Some ctx) (Some out) (Some l) =
    (CRYPT_SUCCESS, Some (Final_body ctx), Some (fips_sha256 iv (4 * k) msg @ drop (4 * k) out), Some (4 * k))"
proof -
  have "length iv = 8" using abs by (simp add: absorbed_def buffered_def)
  then show ?thesis
    using Final_body_pad [OF abs N] abs out k
    by (simp add: CRYPT_SHA2_256_Final_def FinalParamIsValid_def absorbed_def Let_def Final_output_def
        Final_output_concat fips_sha256_def take_concat_be)
qed

section \<open>The contract of the interface\<close>

text \<open>Both hashes keep the contract of a table of hash functions, for messages of less than \<open>2\<^sup>6\<^sup>1\<close>
  bytes.\<close>

definition SHA224_INIT_STATE :: "u32 list" where
  "SHA224_INIT_STATE =
    [0xc1059ed8, 0x367cd507, 0x3070dd17, 0xf70e5939, 0xffc00b31, 0x68581511, 0x64f98fa7, 0xbefa4fa4]"

lemma absorbed_start: "length iv = 8 \<Longrightarrow> absorbed iv l (zero_ctx\<lparr>hv := iv, outlen := l\<rparr>) []"
  by (simp add: absorbed_def buffered_def holds_def zero_ctx_def bit_count_def)

lemma Update_pointer:
  assumes "absorbed iv l c msg" "ptr_ok p (unat n)" "length msg + unat n < 2 ^ 61"
  shows "\<exists>c'. CRYPT_SHA2_256_Update (Some c) p n = (CRYPT_SUCCESS, Some c') \<and> absorbed iv l c' (msg @ ptr_bytes p (unat n))"
proof (cases p)
  case None
  then have n: "n = 0" using assms(2) by (simp add: unat_eq_zero)
  then have "CRYPT_SHA2_256_Update (Some c) None n = CRYPT_SHA2_256_Update (Some c) (Some []) n"
    by (simp add: CRYPT_SHA2_256_Update_def UpdateParamIsValid_def Let_def split: prod.split)
  then show ?thesis using Update_absorbed [OF assms(1), of n "[]"] assms(3) None n by simp
next
  case (Some d)
  then show ?thesis using Update_absorbed [OF assms(1), of n d] assms by simp
qed

lemma length_fips_sha256: "length iv = 8 \<Longrightarrow> k \<le> 8 \<Longrightarrow> length (fips_sha256 iv (4 * k) msg) = 4 * k"
  by (simp add: fips_sha256_def length_concat_be)

lemma Final_pointer:
  assumes "absorbed iv (4 * k) c msg" "length msg < 2 ^ 61" "k \<le> 8" "4 * k \<le> length out" "4 * k \<le> l"
  shows "\<exists>c'. CRYPT_SHA2_256_Final (Some c) (Some out) (Some l) =
    (CRYPT_SUCCESS, Some c', Some (fips_sha256 iv (4 * k) msg @ drop (4 * k) out), Some (4 * k))"
  using Final_absorbed [OF assms(1) _ assms(3-5)] assms(2) by auto

lemmas sha256_methods = g_mdMethod_SHA2_256_def g_mdMethod_SHA2_224_def CRYPT_SHA2_256_NewCtx_def
  CRYPT_SHA2_256_Init_def CRYPT_SHA2_224_Init_def CRYPT_SHA2_256_Deinit_def CRYPT_SHA2_256_CopyCtx_def
  SHA256_INIT_STATE_def SHA224_INIT_STATE_def

lemma sha2_contract:
  assumes iv: "length iv = 8" and k: "0 < k" "k \<le> 8"
    and init: "\<And>c. init (Some c) = (CRYPT_SUCCESS, Some (zero_ctx\<lparr>hv := iv, outlen := 4 * k\<rparr>))"
    and m: "m = g_mdMethod_SHA2_256\<lparr>mdSize := 4 * k, mdInit := Some init\<rparr>"
  shows "md_method m (absorbed iv (4 * k)) (fips_sha256 iv (4 * k)) (2 ^ 61) CRYPT_SHA2_256_NewCtx init
    CRYPT_SHA2_256_Update CRYPT_SHA2_256_Final CRYPT_SHA2_256_Deinit CRYPT_SHA2_256_CopyCtx"
proof unfold_locales
  fix c
  show "\<exists>c'. init (Some c) = (CRYPT_SUCCESS, Some c') \<and> absorbed iv (4 * k) c' []"
    using absorbed_start [OF iv] init by auto
next
  fix c msg out l
  show "absorbed iv (4 * k) c msg \<Longrightarrow> length msg < 2 ^ 61 \<Longrightarrow> mdSize m \<le> length out \<Longrightarrow> mdSize m \<le> l \<Longrightarrow>
    \<exists>c'. CRYPT_SHA2_256_Final (Some c) (Some out) (Some l) =
      (CRYPT_SUCCESS, Some c', Some (fips_sha256 iv (4 * k) msg @ drop (mdSize m) out), Some (mdSize m))"
    using Final_pointer [of iv k c msg out l] k m by simp
next
  fix msg
  show "length (fips_sha256 iv (4 * k) msg) = mdSize m" using length_fips_sha256 [OF iv k(2)] m by simp
qed (erule (2) Update_pointer | use k m in \<open>simp add: sha256_methods\<close>)+

interpretation sha256_md: md_method g_mdMethod_SHA2_256 "absorbed SHA256_INIT_STATE (4 * 8)"
  "fips_sha256 SHA256_INIT_STATE (4 * 8)" "2 ^ 61" CRYPT_SHA2_256_NewCtx CRYPT_SHA2_256_Init CRYPT_SHA2_256_Update
  CRYPT_SHA2_256_Final CRYPT_SHA2_256_Deinit CRYPT_SHA2_256_CopyCtx
  by (rule sha2_contract) (simp_all add: sha256_methods)

interpretation sha224_md: md_method g_mdMethod_SHA2_224 "absorbed SHA224_INIT_STATE (4 * 7)"
  "fips_sha256 SHA224_INIT_STATE (4 * 7)" "2 ^ 61" CRYPT_SHA2_256_NewCtx CRYPT_SHA2_224_Init CRYPT_SHA2_256_Update
  CRYPT_SHA2_256_Final CRYPT_SHA2_256_Deinit CRYPT_SHA2_256_CopyCtx
  by (rule sha2_contract) (simp_all add: sha256_methods)

section \<open>Well-formed contexts\<close>

definition sha256_wf :: "CRYPT_SHA2_256_Ctx \<Rightarrow> bool" where
  "sha256_wf ctx \<longleftrightarrow> length (hv ctx) = 8 \<and> length (block ctx) = 64 \<and> blocklen ctx < 64 \<and> outlen ctx \<le> 32"

lemma length_CompressMultiBlocks [simp]: "length (SHA256CompressMultiBlocks hash p n) = length hash"
proof (induction n arbitrary: hash p)
  case (Suc n)
  then show ?case
    by (simp add: SHA256CompressMultiBlocks.simps CompressBlock_def add_vars_def Let_def split: prod.split)
qed (simp add: SHA256CompressMultiBlocks.simps)

lemma wf_buffered: "sha256_wf ctx \<Longrightarrow> buffered (hv ctx) ctx (take (blocklen ctx) (block ctx))"
  by (simp add: sha256_wf_def buffered_def holds_def)

lemma Update_body_wf:
  assumes "sha256_wf ctx" "n < 2 ^ 32" "n \<le> length d"
  shows "sha256_wf (Update_body ctx d n)"
proof -
  obtain hh bb k where "Update_body ctx d n = ctx\<lparr>hv := hh, block := bb, blocklen := k\<rparr>"
    "buffered (hv ctx) (Update_body ctx d n) (take (blocklen ctx) (block ctx) @ take n d)"
    using Update_body_buffered [OF wf_buffered [OF assms(1)] assms(2,3)] by blast
  then show ?thesis using assms(1) by (auto simp: sha256_wf_def buffered_def holds_def)
qed

lemma UpdateParamIsValid_wf:
  assumes "sha256_wf ctx"
  shows "\<exists>ret ctx'. UpdateParamIsValid (Some ctx) p n = (ret, Some ctx') \<and> sha256_wf ctx'"
  using assms by (auto simp: UpdateParamIsValid_def CheckIsCorrupted_def Let_def sha256_wf_def split: prod.split)

lemma Update_wf:
  assumes "sha256_wf ctx" "ptr_ok p (unat n)"
  shows "\<exists>ret ctx'. CRYPT_SHA2_256_Update (Some ctx) p n = (ret, Some ctx') \<and> sha256_wf ctx'"
proof -
  obtain ret ctx1 where U: "UpdateParamIsValid (Some ctx) p n = (ret, Some ctx1)" "sha256_wf ctx1"
    using UpdateParamIsValid_wf [OF assms(1)] by blast
  have "sha256_wf (Update_body ctx1 (the p) (unat n))" if "n \<noteq> 0"
    using Update_body_wf [OF U(2)] assms(2) that unsigned_less [where 'a = nat, of n]
    by (cases p) (simp_all add: unat_eq_zero)
  then show ?thesis using U by (simp add: CRYPT_SHA2_256_Update_def)
qed

lemma Final_wf:
  assumes "sha256_wf ctx"
  shows "\<exists>ret ctx' out' l'. CRYPT_SHA2_256_Final (Some ctx) out l = (ret, Some ctx', out', l') \<and> sha256_wf ctx'"
  using assms by (auto simp: CRYPT_SHA2_256_Final_def Final_body_def Let_def sha256_wf_def split: prod.split)

section \<open>Properties\<close>

text \<open>C35. Both portable compression functions of SHA-256 compute the compression function of FIPS 180-4,
  whatever the uninitialised message schedule holds before the call: the one that renames the working
  variables over eight rounds and extends the schedule as it goes, and the one that moves them.\<close>

theorem sha256_compress_matches_standard:
  assumes "length w0 = 64" "length H = 8" "64 \<le> length p"
  shows "CompressBlock w0 H p = fips_compress H (take 64 p) \<and>
    small_CompressBlock w0 H p = fips_compress H (take 64 p)"
  using assms by (simp add: CompressBlock_fips small_CompressBlock_fips)

theorem sha256_compress_matches_standard_witness:
  "CompressBlock (replicate 64 7) SHA256_INIT_STATE (replicate 70 0x61) = fips_compress SHA256_INIT_STATE (replicate 64 0x61) \<and>
   small_CompressBlock (replicate 64 9) SHA256_INIT_STATE (replicate 70 0x61) = fips_compress SHA256_INIT_STATE (replicate 64 0x61)"
  using sha256_compress_matches_standard [of "replicate 64 7" SHA256_INIT_STATE "replicate 70 0x61"]
    sha256_compress_matches_standard [of "replicate 64 9" SHA256_INIT_STATE "replicate 70 0x61"]
  by (simp add: SHA256_INIT_STATE_def)

text \<open>C34. A message of less than \<open>2\<^sup>6\<^sup>1\<close> bytes handed over in any pieces of less than \<open>2\<^sup>3\<^sup>2\<close> bytes: every
  call succeeds, and the final call stores in the caller's buffer the digest the standard defines of
  the whole message (the padded message compressed block by block, most significant bytes first) and
  leaves the rest of the buffer as it was; for SHA-256 and for SHA-224.\<close>

theorem sha256_stream_digest:
  assumes "list_all (\<lambda>d. length d < 2 ^ 32) ds" "length (concat ds) < 2 ^ 61"
    and "32 \<le> length out" "32 \<le> l"
  shows "(\<exists>c1 c2 c3. CRYPT_SHA2_256_Init (Some c) = (CRYPT_SUCCESS, Some c1) \<and>
      run_updates CRYPT_SHA2_256_Update (Some c1) ds = (CRYPT_SUCCESS, Some c2) \<and>
      CRYPT_SHA2_256_Final (Some c2) (Some out) (Some l) =
        (CRYPT_SUCCESS, Some c3, Some (fips_sha256 SHA256_INIT_STATE 32 (concat ds) @ drop 32 out), Some 32)) \<and>
    (\<exists>c1 c2 c3. CRYPT_SHA2_224_Init (Some c) = (CRYPT_SUCCESS, Some c1) \<and>
      run_updates CRYPT_SHA2_256_Update (Some c1) ds = (CRYPT_SUCCESS, Some c2) \<and>
      CRYPT_SHA2_256_Final (Some c2) (Some out) (Some l) =
        (CRYPT_SUCCESS, Some c3, Some (fips_sha256 SHA224_INIT_STATE 28 (concat ds) @ drop 28 out), Some 28))"
  using sha256_md.stream_digest [OF assms(1,2), of out l c] sha224_md.stream_digest [OF assms(1,2), of out l c] assms(3,4)
  by (simp add: g_mdMethod_SHA2_256_def g_mdMethod_SHA2_224_def)

theorem sha256_stream_digest_witness:
  "(\<exists>c1 c2 c3. CRYPT_SHA2_256_Init (Some zero_ctx) = (CRYPT_SUCCESS, Some c1) \<and>
      run_updates CRYPT_SHA2_256_Update (Some c1) [[0x61], [], [0x62, 0x63]] = (CRYPT_SUCCESS, Some c2) \<and>
      CRYPT_SHA2_256_Final (Some c2) (Some (replicate 33 1)) (Some 33) =
        (CRYPT_SUCCESS, Some c3, Some (fips_sha256 SHA256_INIT_STATE 32 [0x61, 0x62, 0x63] @ [1]), Some 32))"
  using sha256_stream_digest [of "[[0x61], [], [0x62, 0x63]]" "replicate 33 1" 33 zero_ctx] by simp

text \<open>C36. An update that would take the message to \<open>2\<^sup>6\<^sup>4\<close> bits or more is refused with the overflow code
  and leaves the hash state and the waiting bytes alone; from then on every update and every final
  call on the context is refused with that code and changes nothing.\<close>

theorem sha256_overflow_is_final:
  assumes "errorCode ctx = CRYPT_SUCCESS" "ptr_ok p (unat n)" "2 ^ 64 \<le> bit_count ctx + 8 * unat n"
  shows "\<exists>ctx'. CRYPT_SHA2_256_Update (Some ctx) p n = (CRYPT_SHA2_INPUT_OVERFLOW, Some ctx') \<and>
    hv ctx' = hv ctx \<and> block ctx' = block ctx \<and> blocklen ctx' = blocklen ctx \<and>
    (\<forall>q k. CRYPT_SHA2_256_Update (Some ctx') (Some q) k = (CRYPT_SHA2_INPUT_OVERFLOW, Some ctx')) \<and>
    (\<forall>out l. CRYPT_SHA2_256_Final (Some ctx') (Some out) (Some (outlen ctx + l)) =
       (CRYPT_SHA2_INPUT_OVERFLOW, Some ctx', Some out, Some (outlen ctx + l)))"
proof -
  have "p = None \<Longrightarrow> n = 0" using assms(2) by (simp add: unat_eq_zero)
  from Update_overflow [OF this assms(1,3)] obtain hn where "CRYPT_SHA2_256_Update (Some ctx) p n =
    (CRYPT_SHA2_INPUT_OVERFLOW, Some (ctx\<lparr>hNum := hn, errorCode := CRYPT_SHA2_INPUT_OVERFLOW\<rparr>))" by blast
  then show ?thesis
    by (auto simp: CRYPT_SHA2_256_Update_def UpdateParamIsValid_def CRYPT_SHA2_256_Final_def FinalParamIsValid_def)
qed

theorem sha256_overflow_is_final_witness:
  "\<exists>ctx'. CRYPT_SHA2_256_Update (Some (zero_ctx\<lparr>hNum := 0xffffffff, lNum := 0xfffffff8\<rparr>)) (Some [0]) 1 =
      (CRYPT_SHA2_INPUT_OVERFLOW, Some ctx') \<and>
    (\<forall>q k. CRYPT_SHA2_256_Update (Some ctx') (Some q) k = (CRYPT_SHA2_INPUT_OVERFLOW, Some ctx'))"
  using sha256_overflow_is_final [of "zero_ctx\<lparr>hNum := 0xffffffff, lNum := 0xfffffff8\<rparr>" "Some [0]" 1]
  by (auto simp: zero_ctx_def bit_count_def)

text \<open>C37. The type of a context: eight state words, a block of 64 bytes, fewer than 64 waiting bytes and
  a digest of at most 32 bytes. Both initialisations and the release of a context give such a context
  from any context, and a copy, an update and a final call keep it whatever they return.\<close>

theorem sha256_context_type:
  "sha256_wf (the (snd (CRYPT_SHA2_256_Init (Some ctx)))) \<and> sha256_wf (the (snd (CRYPT_SHA2_224_Init (Some ctx)))) \<and>
   sha256_wf (the (snd (CRYPT_SHA2_256_Deinit (Some ctx)))) \<and>
   (sha256_wf src \<longrightarrow>
     (\<exists>ret c. CRYPT_SHA2_256_CopyCtx (Some ctx) (Some src) = (ret, Some c) \<and> sha256_wf c) \<and>
     (ptr_ok p (unat n) \<longrightarrow> (\<exists>ret c. CRYPT_SHA2_256_Update (Some src) p n = (ret, Some c) \<and> sha256_wf c)) \<and>
     (\<exists>ret c out' l'. CRYPT_SHA2_256_Final (Some src) out l = (ret, Some c, out', l') \<and> sha256_wf c))"
  using Update_wf [of src p n] Final_wf [of src out l]
  by (auto simp: sha256_methods sha256_wf_def zero_ctx_def)

theorem sha256_context_type_witness:
  "\<exists>ret c. CRYPT_SHA2_256_Update (Some (zero_ctx\<lparr>blocklen := 63\<rparr>)) (Some [1, 2, 3]) 2 = (ret, Some c) \<and> sha256_wf c"
  using sha256_context_type [where src = "zero_ctx\<lparr>blocklen := 63\<rparr>" and p = "Some [1, 2, 3]" and n = 2]
  by (simp add: sha256_wf_def zero_ctx_def)

end
