(* ===== verification/Hmac.thy ===== *)
theory Hmac
  imports Md_Method
begin

text \<open>
  HMAC (\<^verbatim>\<open>crypto/hmac/src/hmac.c\<close>) over the table of functions of a hash. A context keeps three
  contexts of the hash: the keyed inner one, the keyed outer one, and the one in use. The search for the
  hash of an algorithm (\<open>EAL_MacFindDepMethod\<close>) is the argument \<open>findMd\<close>, which gives a code and
  what is left in the table of the context; \<open>mem\<close> says which of the allocations of a call succeed.
  The buffers on the stack are filled before they are read and start as zeros here.
\<close>

abbreviation (input) HMAC_MAXBLOCKSIZE :: nat where "HMAC_MAXBLOCKSIZE \<equiv> 144"
abbreviation (input) HMAC_MAXOUTSIZE :: nat where "HMAC_MAXOUTSIZE \<equiv> 64"

record 'c CRYPT_HMAC_Ctx =
  hmacId :: nat
  hmacMethod :: "'c EAL_MdMethod"
  mdCtx :: "'c option"
  oCtx :: "'c option"
  iCtx :: "'c option"

definition zero_method :: "'c EAL_MdMethod" where
  "zero_method = \<lparr>mdBlockSize = 0, mdSize = 0, mdNewCtx = None, mdInit = None, mdUpdate = None,
     mdFinal = None, mdDeinit = None, mdCopyCtx = None, mdDupCtx = None, mdFreeCtx = None\<rparr>"

definition CRYPT_HMAC_NewCtx :: "bool \<Rightarrow> nat \<Rightarrow> 'c CRYPT_HMAC_Ctx option" where
  "CRYPT_HMAC_NewCtx mem algId =
    (if mem then Some \<lparr>hmacId = algId, hmacMethod = zero_method, mdCtx = None, oCtx = None, iCtx = None\<rparr> else None)"

definition HmacInitMdCtx :: "(nat \<Rightarrow> crypt_ret \<times> 'c EAL_MdMethod) \<Rightarrow> bool \<times> bool \<times> bool \<Rightarrow>
  'c CRYPT_HMAC_Ctx \<Rightarrow> crypt_ret \<times> 'c CRYPT_HMAC_Ctx" where
  "HmacInitMdCtx findMd mem ctx =
    (if mdCtx ctx \<noteq> None then (CRYPT_SUCCESS, ctx)
     else let (ret, meth) = findMd (hmacId ctx);
              ctx = ctx\<lparr>hmacMethod := meth\<rparr>
          in if ret \<noteq> CRYPT_SUCCESS then (ret, ctx)
             else case (mdNewCtx meth, mdFreeCtx meth) of
               (Some newCtx, Some _) \<Rightarrow>
                 (let (mem1, mem2, mem3) = mem;
                      ctx = ctx\<lparr>mdCtx := newCtx mem1, iCtx := newCtx mem2, oCtx := newCtx mem3\<rparr>
                  in if mdCtx ctx = None \<or> iCtx ctx = None \<or> oCtx ctx = None
                     then (CRYPT_MEM_ALLOC_FAIL, ctx\<lparr>mdCtx := None, iCtx := None, oCtx := None\<rparr>)
                     else (CRYPT_SUCCESS, ctx))
             | _ \<Rightarrow> (CRYPT_NULL_INPUT, ctx))"

definition IsMdMethodValid :: "'c EAL_MdMethod \<Rightarrow> bool" where
  "IsMdMethodValid meth \<longleftrightarrow> mdInit meth \<noteq> None \<and> mdUpdate meth \<noteq> None \<and> mdFinal meth \<noteq> None \<and>
     mdDeinit meth \<noteq> None \<and> mdCopyCtx meth \<noteq> None"

text \<open>\<open>GOTO_ERR_IF\<close>: go on with the next call unless this one failed.\<close>

definition GOTO_ERR_IF :: "crypt_ret \<times> 'x \<Rightarrow> ('x \<Rightarrow> crypt_ret \<times> 'x) \<Rightarrow> crypt_ret \<times> 'x" where
  "GOTO_ERR_IF r k = (case r of (ret, x) \<Rightarrow> if ret \<noteq> CRYPT_SUCCESS then (ret, x) else k x)"

definition on_mdCtx :: "('c option \<Rightarrow> crypt_ret \<times> 'c option) \<Rightarrow> 'c CRYPT_HMAC_Ctx \<Rightarrow> crypt_ret \<times> 'c CRYPT_HMAC_Ctx" where
  "on_mdCtx f ctx = (case f (mdCtx ctx) of (ret, c) \<Rightarrow> (ret, ctx\<lparr>mdCtx := c\<rparr>))"

definition on_iCtx :: "('c option \<Rightarrow> crypt_ret \<times> 'c option) \<Rightarrow> 'c CRYPT_HMAC_Ctx \<Rightarrow> crypt_ret \<times> 'c CRYPT_HMAC_Ctx" where
  "on_iCtx f ctx = (case f (iCtx ctx) of (ret, c) \<Rightarrow> (ret, ctx\<lparr>iCtx := c\<rparr>))"

definition on_oCtx :: "('c option \<Rightarrow> crypt_ret \<times> 'c option) \<Rightarrow> 'c CRYPT_HMAC_Ctx \<Rightarrow> crypt_ret \<times> 'c CRYPT_HMAC_Ctx" where
  "on_oCtx f ctx = (case f (oCtx ctx) of (ret, c) \<Rightarrow> (ret, ctx\<lparr>oCtx := c\<rparr>))"

text \<open>A key longer than a block is replaced by its digest; the digest is left in \<open>tmp\<close>.\<close>

definition hash_key :: "'c CRYPT_HMAC_Ctx \<Rightarrow> bytes option \<Rightarrow> u32 \<Rightarrow> crypt_ret \<times> 'c CRYPT_HMAC_Ctx \<times> bytes" where
  "hash_key ctx key len =
    (let tmp = replicate HMAC_MAXBLOCKSIZE 0;
         (ret, ctx) =
           GOTO_ERR_IF (on_mdCtx (the (mdInit (hmacMethod ctx))) ctx) (\<lambda>ctx.
             on_mdCtx (\<lambda>c. the (mdUpdate (hmacMethod ctx)) c key len) ctx)
     in if ret \<noteq> CRYPT_SUCCESS then (ret, ctx, tmp)
        else case the (mdFinal (hmacMethod ctx)) (mdCtx ctx) (Some tmp) (Some HMAC_MAXBLOCKSIZE) of
               (ret, c, tmp', _) \<Rightarrow> (ret, ctx\<lparr>mdCtx := c\<rparr>, the tmp'))"

definition make_pad :: "u8 \<Rightarrow> bytes \<Rightarrow> nat \<Rightarrow> nat \<Rightarrow> bytes" where
  "make_pad x keyTmp keyLen blockSize =
    (let pad = foldl (\<lambda>pad i. pad[i := x XOR keyTmp ! i]) (replicate HMAC_MAXBLOCKSIZE 0) [0..<keyLen]
     in foldl (\<lambda>pad i. pad[i := x]) pad [keyLen..<blockSize])"

definition HmacKey :: "'c CRYPT_HMAC_Ctx \<Rightarrow> bytes \<Rightarrow> bytes \<Rightarrow> crypt_ret \<times> 'c CRYPT_HMAC_Ctx" where
  "HmacKey ctx ipad opad =
    (let meth = hmacMethod ctx; n = of_nat (mdBlockSize meth)
     in GOTO_ERR_IF (on_iCtx (the (mdInit meth)) ctx) (\<lambda>ctx.
        GOTO_ERR_IF (on_iCtx (\<lambda>c. the (mdUpdate meth) c (Some ipad) n) ctx) (\<lambda>ctx.
        GOTO_ERR_IF (on_oCtx (the (mdInit meth)) ctx) (\<lambda>ctx.
        GOTO_ERR_IF (on_oCtx (\<lambda>c. the (mdUpdate meth) c (Some opad) n) ctx) (\<lambda>ctx.
        on_mdCtx (\<lambda>c. the (mdCopyCtx meth) c (iCtx ctx)) ctx)))))"

definition deinit_all :: "'c CRYPT_HMAC_Ctx \<Rightarrow> 'c CRYPT_HMAC_Ctx" where
  "deinit_all ctx =
    (let f = the (mdDeinit (hmacMethod ctx)); ctx = snd (on_mdCtx f ctx); ctx = snd (on_iCtx f ctx)
     in snd (on_oCtx f ctx))"

definition CRYPT_HMAC_Init :: "(nat \<Rightarrow> crypt_ret \<times> 'c EAL_MdMethod) \<Rightarrow> bool \<times> bool \<times> bool \<Rightarrow>
  'c CRYPT_HMAC_Ctx option \<Rightarrow> bytes option \<Rightarrow> u32 \<Rightarrow> crypt_ret \<times> 'c CRYPT_HMAC_Ctx option" where
  "CRYPT_HMAC_Init findMd mem hctx key len = (case hctx of
      None \<Rightarrow> (CRYPT_NULL_INPUT, None)
    | Some ctx \<Rightarrow>
        if key = None \<and> len \<noteq> 0 then (CRYPT_NULL_INPUT, hctx)
        else
          let (ret, ctx) = HmacInitMdCtx findMd mem ctx
          in if ret \<noteq> CRYPT_SUCCESS then (ret, Some ctx)
             else if \<not> IsMdMethodValid (hmacMethod ctx) then (CRYPT_NULL_INPUT, Some ctx)
             else
               let (ret, ctx, keyTmp, keyLen) =
                     (if unat len > mdBlockSize (hmacMethod ctx)
                      then case hash_key ctx key len of (ret, ctx, tmp) \<Rightarrow> (ret, ctx, tmp, mdSize (hmacMethod ctx))
                      else (CRYPT_SUCCESS, ctx, (case key of Some k \<Rightarrow> k | None \<Rightarrow> []), unat len));
                   bs = mdBlockSize (hmacMethod ctx);
                   (ret, ctx) =
                     (if ret \<noteq> CRYPT_SUCCESS then (ret, ctx)
                      else HmacKey ctx (make_pad 0x36 keyTmp keyLen bs) (make_pad 0x5c keyTmp keyLen bs))
               in if ret \<noteq> CRYPT_SUCCESS then (ret, Some (deinit_all ctx)) else (ret, Some ctx))"

definition CRYPT_HMAC_Update ::
  "'c CRYPT_HMAC_Ctx option \<Rightarrow> bytes option \<Rightarrow> u32 \<Rightarrow> crypt_ret \<times> 'c CRYPT_HMAC_Ctx option" where
  "CRYPT_HMAC_Update hctx inp len = (case hctx of
      None \<Rightarrow> (CRYPT_NULL_INPUT, None)
    | Some ctx \<Rightarrow> (case mdUpdate (hmacMethod ctx) of
        None \<Rightarrow> (CRYPT_NULL_INPUT, hctx)
      | Some update \<Rightarrow> (case on_mdCtx (\<lambda>c. update c inp len) ctx of (ret, ctx) \<Rightarrow> (ret, Some ctx))))"

definition CRYPT_HMAC_Final :: "'c CRYPT_HMAC_Ctx option \<Rightarrow> bytes option \<Rightarrow> nat option \<Rightarrow>
  crypt_ret \<times> 'c CRYPT_HMAC_Ctx option \<times> bytes option \<times> nat option" where
  "CRYPT_HMAC_Final hctx out len = (case (hctx, out, len) of
      (Some ctx, Some _, Some l) \<Rightarrow>
        (let meth = hmacMethod ctx
         in case (mdFinal meth, mdCopyCtx meth, mdUpdate meth) of
           (Some final, Some copyCtx, Some update) \<Rightarrow>
             if l < mdSize meth then (CRYPT_HMAC_OUT_BUFF_LEN_NOT_ENOUGH, hctx, out, len)
             else
               let len = Some (mdSize meth);
                   (ret, c, tmp, tmpLen) = final (mdCtx ctx) (Some (replicate HMAC_MAXOUTSIZE 0)) (Some HMAC_MAXOUTSIZE);
                   ctx = ctx\<lparr>mdCtx := c\<rparr>
               in if ret \<noteq> CRYPT_SUCCESS then (ret, Some ctx, out, len)
                  else
                    let (ret, ctx) = on_mdCtx (\<lambda>c. copyCtx c (oCtx ctx)) ctx
                    in if ret \<noteq> CRYPT_SUCCESS then (ret, Some ctx, out, len)
                       else
                         let (ret, ctx) = on_mdCtx (\<lambda>c. update c tmp (of_nat (the tmpLen))) ctx
                         in if ret \<noteq> CRYPT_SUCCESS then (ret, Some ctx, out, len)
                            else case final (mdCtx ctx) out len of
                              (ret, c, out, len) \<Rightarrow> (ret, Some (ctx\<lparr>mdCtx := c\<rparr>), out, len)
         | _ \<Rightarrow> (CRYPT_NULL_INPUT, hctx, out, len))
    | _ \<Rightarrow> (CRYPT_NULL_INPUT, hctx, out, len))"

definition CRYPT_HMAC_Reinit :: "'c CRYPT_HMAC_Ctx option \<Rightarrow> crypt_ret \<times> 'c CRYPT_HMAC_Ctx option" where
  "CRYPT_HMAC_Reinit hctx = (case hctx of
      None \<Rightarrow> (CRYPT_NULL_INPUT, None)
    | Some ctx \<Rightarrow> (case mdCopyCtx (hmacMethod ctx) of
        None \<Rightarrow> (CRYPT_NULL_INPUT, hctx)
      | Some copyCtx \<Rightarrow> (CRYPT_SUCCESS, Some (snd (on_mdCtx (\<lambda>c. copyCtx c (iCtx ctx)) ctx)))))"

definition CRYPT_HMAC_Deinit :: "'c CRYPT_HMAC_Ctx option \<Rightarrow> crypt_ret \<times> 'c CRYPT_HMAC_Ctx option" where
  "CRYPT_HMAC_Deinit hctx = (case hctx of
      None \<Rightarrow> (CRYPT_NULL_INPUT, None)
    | Some ctx \<Rightarrow> (case mdDeinit (hmacMethod ctx) of
        None \<Rightarrow> (CRYPT_NULL_INPUT, hctx)
      | Some _ \<Rightarrow> (CRYPT_SUCCESS, Some (deinit_all ctx))))"

definition CRYPT_HMAC_GetMacLen :: "(nat \<Rightarrow> crypt_ret \<times> 'c EAL_MdMethod) \<Rightarrow> bool \<times> bool \<times> bool \<Rightarrow>
  'c CRYPT_HMAC_Ctx option \<Rightarrow> nat \<times> 'c CRYPT_HMAC_Ctx option" where
  "CRYPT_HMAC_GetMacLen findMd mem hctx = (case hctx of
      None \<Rightarrow> (0, None)
    | Some ctx \<Rightarrow> (case HmacInitMdCtx findMd mem ctx of
        (ret, ctx) \<Rightarrow> (if ret \<noteq> CRYPT_SUCCESS then 0 else mdSize (hmacMethod ctx), Some ctx)))"

text \<open>The control call; \<open>val\<close> is the word the caller points to.\<close>

definition HMAC_GetMacLen :: "(nat \<Rightarrow> crypt_ret \<times> 'c EAL_MdMethod) \<Rightarrow> bool \<times> bool \<times> bool \<Rightarrow>
  'c CRYPT_HMAC_Ctx \<Rightarrow> nat option \<Rightarrow> nat \<Rightarrow> crypt_ret \<times> 'c CRYPT_HMAC_Ctx \<times> nat option" where
  "HMAC_GetMacLen findMd mem ctx val len =
    (if val = None \<or> len \<noteq> 4 then (CRYPT_NULL_INPUT, ctx, val)
     else case HmacInitMdCtx findMd mem ctx of (ret, ctx) \<Rightarrow>
       if ret \<noteq> CRYPT_SUCCESS then (ret, ctx, val) else (CRYPT_SUCCESS, ctx, Some (mdSize (hmacMethod ctx))))"

datatype hmac_ctrl = CRYPT_CTRL_GET_MACLEN | Other_ctrl nat

definition CRYPT_HMAC_Ctrl :: "(nat \<Rightarrow> crypt_ret \<times> 'c EAL_MdMethod) \<Rightarrow> bool \<times> bool \<times> bool \<Rightarrow>
  'c CRYPT_HMAC_Ctx option \<Rightarrow> hmac_ctrl \<Rightarrow> nat option \<Rightarrow> nat \<Rightarrow> crypt_ret \<times> 'c CRYPT_HMAC_Ctx option \<times> nat option" where
  "CRYPT_HMAC_Ctrl findMd mem hctx opt val len = (case hctx of
      None \<Rightarrow> (CRYPT_NULL_INPUT, None, val)
    | Some ctx \<Rightarrow> (case opt of
        CRYPT_CTRL_GET_MACLEN \<Rightarrow>
          (case HMAC_GetMacLen findMd mem ctx val len of (ret, ctx, val) \<Rightarrow> (ret, Some ctx, val))
      | _ \<Rightarrow> (CRYPT_HMAC_ERR_UNSUPPORTED_CTRL_OPTION, hctx, val)))"

definition HmacFreeMdCtx :: "'c CRYPT_HMAC_Ctx \<Rightarrow> 'c CRYPT_HMAC_Ctx" where
  "HmacFreeMdCtx ctx =
    (if mdFreeCtx (hmacMethod ctx) = None then ctx else ctx\<lparr>mdCtx := None, iCtx := None, oCtx := None\<rparr>)"

text \<open>Copying a context: the allocation of the copy and of the three contexts of the hash.\<close>

definition CRYPT_HMAC_DupCtx :: "bool \<Rightarrow> bool \<times> bool \<times> bool \<Rightarrow> 'c CRYPT_HMAC_Ctx option \<Rightarrow> 'c CRYPT_HMAC_Ctx option" where
  "CRYPT_HMAC_DupCtx mem mems macCtx = (case macCtx of
      None \<Rightarrow> None
    | Some ctx \<Rightarrow> (case mdDupCtx (hmacMethod ctx) of
        None \<Rightarrow> CRYPT_HMAC_NewCtx mem (hmacId ctx)
      | Some dupCtx \<Rightarrow>
          if mdFreeCtx (hmacMethod ctx) = None \<or> \<not> mem then None
          else let (mem1, mem2, mem3) = mems;
                   md = dupCtx mem1 (mdCtx ctx); oc = dupCtx mem2 (oCtx ctx); ic = dupCtx mem3 (iCtx ctx)
               in if md = None \<or> oc = None \<or> ic = None then None
                  else Some (ctx\<lparr>mdCtx := md, oCtx := oc, iCtx := ic\<rparr>)))"

end
