(* ===== verification/Hkdf.thy ===== *)
theory Hkdf
  imports Crypt_Base
begin

text \<open>
  HKDF (\<^verbatim>\<open>crypto/hkdf/src/hkdf.c\<close>, extraction, expansion and their composition) over the table of
  functions of a message authentication code, and what such a code promises about the entries of its
  table (\<open>EAL_MacMethod\<close> of \<^verbatim>\<open>crypto/include/crypt_local_types.h\<close>). Conventions as for the hashes:
  contexts by value, null pointers and null entries as \<open>None\<close>.
\<close>

record 'm EAL_MacMethod =
  macInit :: "('m option \<Rightarrow> bytes option \<Rightarrow> u32 \<Rightarrow> crypt_ret \<times> 'm option) option"
  macUpdate :: "('m option \<Rightarrow> bytes option \<Rightarrow> u32 \<Rightarrow> crypt_ret \<times> 'm option) option"
  macFinal :: "('m option \<Rightarrow> bytes option \<Rightarrow> nat option \<Rightarrow>
                crypt_ret \<times> 'm option \<times> bytes option \<times> nat option) option"
  macDeinit :: "('m option \<Rightarrow> crypt_ret \<times> 'm option) option"
  macReinit :: "('m option \<Rightarrow> crypt_ret \<times> 'm option) option"
  macFreeCtx :: "('m option \<Rightarrow> unit) option"

abbreviation (input) HKDF_MAX_HMACSIZE :: nat where "HKDF_MAX_HMACSIZE \<equiv> 64"

definition CheckMacMethod :: "'m EAL_MacMethod \<Rightarrow> bool" where
  "CheckMacMethod macMeth \<longleftrightarrow> macFreeCtx macMeth \<noteq> None \<and> macInit macMeth \<noteq> None \<and>
     macUpdate macMeth \<noteq> None \<and> macFinal macMeth \<noteq> None \<and> macDeinit macMeth \<noteq> None \<and> macReinit macMeth \<noteq> None"

definition CRYPT_HKDF_Extract :: "'m option \<Rightarrow> 'm EAL_MacMethod option \<Rightarrow> bytes option \<Rightarrow> u32 \<Rightarrow>
  bytes option \<Rightarrow> u32 \<Rightarrow> bytes option \<Rightarrow> nat option \<Rightarrow> crypt_ret \<times> 'm option \<times> bytes option \<times> nat option" where
  "CRYPT_HKDF_Extract macCtx macMeth key keyLen salt saltLen prk prkLen = (case (macCtx, macMeth) of
      (Some _, Some meth) \<Rightarrow>
        if \<not> CheckMacMethod meth then (CRYPT_HKDF_ERR_MAC_METH, macCtx, prk, prkLen)
        else if key = None \<and> keyLen > 0 then (CRYPT_NULL_INPUT, macCtx, prk, prkLen)
        else if salt = None \<and> saltLen > 0 then (CRYPT_NULL_INPUT, macCtx, prk, prkLen)
        else
          let deinit = (\<lambda>c. snd (the (macDeinit meth) c));
              (ret, c) = the (macInit meth) (deinit macCtx) salt saltLen
          in if ret \<noteq> CRYPT_SUCCESS then (ret, deinit c, prk, prkLen)
             else
               let (ret, c) = the (macUpdate meth) c key keyLen
               in if ret \<noteq> CRYPT_SUCCESS then (ret, deinit c, prk, prkLen)
                  else case the (macFinal meth) c prk prkLen of
                    (ret, c, prk, prkLen) \<Rightarrow> (ret, deinit c, prk, prkLen)
    | _ \<Rightarrow> (CRYPT_NULL_INPUT, macCtx, prk, prkLen))"

definition HKDF_ExpandParamCheck :: "'m option \<Rightarrow> 'm EAL_MacMethod option \<Rightarrow> nat \<Rightarrow> bytes option \<Rightarrow> u32 \<Rightarrow>
  bytes option \<Rightarrow> u32 \<Rightarrow> bytes option \<Rightarrow> nat \<Rightarrow> crypt_ret" where
  "HKDF_ExpandParamCheck macCtx macMeth mdsz prk prkLen info infoLen out outLen = (case (macCtx, macMeth) of
      (Some _, Some meth) \<Rightarrow>
        if \<not> CheckMacMethod meth then CRYPT_HKDF_ERR_MAC_METH
        else if prk = None \<and> prkLen > 0 then CRYPT_NULL_INPUT
        else if info = None \<and> infoLen > 0 then CRYPT_NULL_INPUT
        else if out = None \<or> outLen = 0 then CRYPT_NULL_INPUT
        else if mdsz = 0 then CRYPT_HKDF_PARAM_ERROR
        else if outLen > mdsz * 255 then CRYPT_HKDF_DKLEN_OVERFLOW
        else CRYPT_SUCCESS
    | _ \<Rightarrow> CRYPT_NULL_INPUT)"

text \<open>The variables of the loop of the expansion, and the loop with its index \<open>i\<close> and the number \<open>k\<close>
  of rounds that are left.\<close>

record 'm hkdf_vars =
  vCtx :: "'m option"
  vHash :: bytes
  vHashLen :: nat
  vCounter :: u8
  vTotal :: nat
  vOut :: bytes

definition Expand_round :: "'m EAL_MacMethod \<Rightarrow> bytes option \<Rightarrow> u32 \<Rightarrow> nat \<Rightarrow> nat \<Rightarrow>
  'm hkdf_vars \<Rightarrow> crypt_ret \<times> 'm hkdf_vars" where
  "Expand_round meth info infoLen outLen i v =
    (let upd = the (macUpdate meth);
         (ret, c) =
           (if i > 1
            then upd (snd (the (macReinit meth) (vCtx v))) (Some (vHash v)) (of_nat (vHashLen v))
            else (CRYPT_SUCCESS, vCtx v))
     in if ret \<noteq> CRYPT_SUCCESS then (ret, v\<lparr>vCtx := c\<rparr>)
        else
          let (ret, c) = upd c info infoLen
          in if ret \<noteq> CRYPT_SUCCESS then (ret, v\<lparr>vCtx := c\<rparr>)
             else
               let (ret, c) = upd c (Some [vCounter v]) 1
               in if ret \<noteq> CRYPT_SUCCESS then (ret, v\<lparr>vCtx := c\<rparr>)
                  else
                    let (ret, c, hash, hashLen) = the (macFinal meth) c (Some (vHash v)) (Some (vHashLen v));
                        v = v\<lparr>vCtx := c, vHash := the hash, vHashLen := the hashLen\<rparr>
                    in if ret \<noteq> CRYPT_SUCCESS then (ret, v)
                       else
                         let left = u32_sub outLen (vTotal v);
                             hl = (if vHashLen v > left then left else vHashLen v)
                         in (CRYPT_SUCCESS, v\<lparr>vHashLen := hl,
                               vOut := memcpy_at (vOut v) (vTotal v) (take hl (vHash v)),
                               vTotal := vTotal v + hl, vCounter := vCounter v + 1\<rparr>))"

fun Expand_loop :: "'m EAL_MacMethod \<Rightarrow> bytes option \<Rightarrow> u32 \<Rightarrow> nat \<Rightarrow> nat \<Rightarrow> nat \<Rightarrow>
  'm hkdf_vars \<Rightarrow> crypt_ret \<times> 'm hkdf_vars" where
  "Expand_loop meth info infoLen outLen i 0 v = (CRYPT_SUCCESS, v)"
| "Expand_loop meth info infoLen outLen i (Suc k) v =
    (case Expand_round meth info infoLen outLen i v of
       (ret, v') \<Rightarrow>
         if ret \<noteq> CRYPT_SUCCESS then (ret, v') else Expand_loop meth info infoLen outLen (i + 1) k v')"

definition CRYPT_HKDF_Expand :: "'m option \<Rightarrow> 'm EAL_MacMethod option \<Rightarrow> nat \<Rightarrow> bytes option \<Rightarrow> u32 \<Rightarrow>
  bytes option \<Rightarrow> u32 \<Rightarrow> bytes option \<Rightarrow> nat \<Rightarrow> crypt_ret \<times> 'm option \<times> bytes option" where
  "CRYPT_HKDF_Expand macCtx macMeth mdsz prk prkLen info infoLen out outLen =
    (let ret = HKDF_ExpandParamCheck macCtx macMeth mdsz prk prkLen info infoLen out outLen
     in if ret \<noteq> CRYPT_SUCCESS then (ret, macCtx, out)
        else
          let meth = the macMeth;
              deinit = (\<lambda>c. snd (the (macDeinit meth) c));
              (ret, c) = the (macInit meth) (deinit macCtx) prk prkLen
          in if ret \<noteq> CRYPT_SUCCESS then (ret, deinit c, out)
             else
               let n = (outLen + mdsz - 1) mod 2 ^ 32 div mdsz;
                   (ret, v) = Expand_loop meth info infoLen outLen 1 n
                     \<lparr>vCtx = c, vHash = replicate HKDF_MAX_HMACSIZE 0, vHashLen = mdsz, vCounter = 1, vTotal = 0,
                      vOut = the out\<rparr>
               in (ret, deinit (vCtx v), Some (vOut v)))"

definition CRYPT_HKDF :: "'m option \<Rightarrow> 'm EAL_MacMethod option \<Rightarrow> nat \<Rightarrow> bytes option \<Rightarrow> u32 \<Rightarrow>
  bytes option \<Rightarrow> u32 \<Rightarrow> bytes option \<Rightarrow> u32 \<Rightarrow> bytes option \<Rightarrow> nat \<Rightarrow> crypt_ret \<times> 'm option \<times> bytes option" where
  "CRYPT_HKDF macCtx macMeth mdsz key keyLen salt saltLen info infoLen out len =
    (case CRYPT_HKDF_Extract macCtx macMeth key keyLen salt saltLen
        (Some (replicate HKDF_MAX_HMACSIZE 0)) (Some HKDF_MAX_HMACSIZE) of
       (ret, c, prk, prkLen) \<Rightarrow>
         if ret \<noteq> CRYPT_SUCCESS then (ret, c, out)
         else CRYPT_HKDF_Expand c macMeth mdsz prk (of_nat (the prkLen)) info infoLen out len)"

section \<open>The contract of a message authentication code\<close>

primrec hkdf_T :: "(bytes \<Rightarrow> bytes \<Rightarrow> bytes) \<Rightarrow> bytes \<Rightarrow> bytes \<Rightarrow> nat \<Rightarrow> bytes" where
  "hkdf_T mac prk info 0 = []"
| "hkdf_T mac prk info (Suc i) = mac prk (hkdf_T mac prk info i @ info @ [of_nat (Suc i)])"

definition hkdf_expand :: "(bytes \<Rightarrow> bytes \<Rightarrow> bytes) \<Rightarrow> bytes \<Rightarrow> bytes \<Rightarrow> nat \<Rightarrow> nat \<Rightarrow> bytes" where
  "hkdf_expand mac prk info n L = take L (concat (map (hkdf_T mac prk info) [1..<n + 1]))"

lemma ceil_div:
  assumes "0 < L" "0 < (s :: nat)"
  shows "((L + s - 1) div s - 1) * s < L" "L \<le> (L + s - 1) div s * s" "0 < (L + s - 1) div s"
proof -
  define n where "n = (L + s - 1) div s"
  have e: "n * s + (L + s - 1) mod s = L + s - 1" by (simp add: n_def)
  moreover have "(L + s - 1) mod s < s" using assms(2) by simp
  ultimately have "L \<le> n * s" by linarith
  then show "L \<le> (L + s - 1) div s * s" by (simp add: n_def)
  then show "0 < (L + s - 1) div s" using assms(1) by (cases "(L + s - 1) div s") simp_all
  have "(n - 1) * s + s \<le> n * s" using \<open>L \<le> n * s\<close> assms by (cases n) simp_all
  then show "((L + s - 1) div s - 1) * s < L" using e assms unfolding n_def [symmetric] by linarith
qed

locale mac_method =
  fixes mm :: "'m EAL_MacMethod"
    and ready :: "'m \<Rightarrow> bool"
    and keyed :: "'m \<Rightarrow> bytes \<Rightarrow> bool"
    and taken :: "'m \<Rightarrow> bytes \<Rightarrow> bytes \<Rightarrow> bool"
    and mac :: "bytes \<Rightarrow> bytes \<Rightarrow> bytes"
    and size maxmsg :: nat
    and init :: "'m option \<Rightarrow> bytes option \<Rightarrow> u32 \<Rightarrow> crypt_ret \<times> 'm option"
    and update :: "'m option \<Rightarrow> bytes option \<Rightarrow> u32 \<Rightarrow> crypt_ret \<times> 'm option"
    and final :: "'m option \<Rightarrow> bytes option \<Rightarrow> nat option \<Rightarrow> crypt_ret \<times> 'm option \<times> bytes option \<times> nat option"
    and deinit :: "'m option \<Rightarrow> crypt_ret \<times> 'm option"
    and reinit :: "'m option \<Rightarrow> crypt_ret \<times> 'm option"
  assumes table: "macInit mm = Some init" "macUpdate mm = Some update" "macFinal mm = Some final"
      "macDeinit mm = Some deinit" "macReinit mm = Some reinit" "macFreeCtx mm \<noteq> None"
    and sizes: "0 < size" "size \<le> 64" "2 ^ 32 + 128 < maxmsg"
    and mac_length: "length (mac key msg) = size"
    and init_ok: "ready c \<Longrightarrow> ptr_ok p (unat n) \<Longrightarrow>
      \<exists>c'. init (Some c) p n = (CRYPT_SUCCESS, Some c') \<and> taken c' (ptr_bytes p (unat n)) []"
    and update_ok: "taken c key msg \<Longrightarrow> ptr_ok p (unat n) \<Longrightarrow> length msg + unat n < maxmsg \<Longrightarrow>
      \<exists>c'. update (Some c) p n = (CRYPT_SUCCESS, Some c') \<and> taken c' key (msg @ ptr_bytes p (unat n))"
    and final_ok: "taken c key msg \<Longrightarrow> length msg < maxmsg \<Longrightarrow> size \<le> length out \<Longrightarrow> size \<le> l \<Longrightarrow>
      \<exists>c'. final (Some c) (Some out) (Some l) =
        (CRYPT_SUCCESS, Some c', Some (mac key msg @ drop size out), Some size) \<and> keyed c' key"
    and reinit_ok: "keyed c key \<Longrightarrow> \<exists>c'. reinit (Some c) = (CRYPT_SUCCESS, Some c') \<and> taken c' key []"
    and deinit_ok: "ready c \<Longrightarrow> \<exists>ret c'. deinit (Some c) = (ret, Some c') \<and> ready c'"
    and keyed_ready: "keyed c key \<Longrightarrow> ready c"
begin

lemma check_ok: "CheckMacMethod mm"
  using table by (simp add: CheckMacMethod_def)

lemma word_less_max: "unat (n :: u32) < 2 ^ 32"
  using unsigned_less [where 'a = nat, of n] by simp

lemma extract_ok:
  assumes c: "ready c" and key: "ptr_ok key (unat keyLen)" and salt: "ptr_ok salt (unat saltLen)"
    and out: "size \<le> length out" "size \<le> l"
  shows "\<exists>c'. CRYPT_HKDF_Extract (Some c) (Some mm) key keyLen salt saltLen (Some out) (Some l) =
      (CRYPT_SUCCESS, Some c', Some (mac (ptr_bytes salt (unat saltLen)) (ptr_bytes key (unat keyLen)) @ drop size out),
       Some size) \<and> ready c'"
proof -
  have nul: "\<not> (key = None \<and> keyLen > 0)" "\<not> (salt = None \<and> saltLen > 0)"
    using key salt by (cases key; cases salt; simp add: unat_eq_zero)+
  obtain r0 c0 where c0: "deinit (Some c) = (r0, Some c0)" "ready c0" using deinit_ok [OF c] by blast
  obtain c1 where c1: "init (Some c0) salt saltLen = (CRYPT_SUCCESS, Some c1)" "taken c1 (ptr_bytes salt (unat saltLen)) []"
    using init_ok [OF c0(2) salt] by blast
  have l: "unat keyLen < maxmsg" using word_less_max [of keyLen] sizes(3) by simp
  then obtain c2 where c2: "update (Some c1) key keyLen = (CRYPT_SUCCESS, Some c2)"
    "taken c2 (ptr_bytes salt (unat saltLen)) (ptr_bytes key (unat keyLen))" using update_ok [OF c1(2) key] by auto
  obtain c3 where c3: "final (Some c2) (Some out) (Some l) = (CRYPT_SUCCESS, Some c3,
      Some (mac (ptr_bytes salt (unat saltLen)) (ptr_bytes key (unat keyLen)) @ drop size out), Some size)"
    "keyed c3 (ptr_bytes salt (unat saltLen))"
    using final_ok [OF c2(2) _ out] l key by auto
  obtain r4 c4 where "deinit (Some c3) = (r4, Some c4)" "ready c4" using deinit_ok [OF keyed_ready [OF c3(2)]] by blast
  with c0 c1 c2 c3 nul table check_ok show ?thesis by (auto simp: CRYPT_HKDF_Extract_def Let_def)
qed

definition expand_inv :: "bytes \<Rightarrow> bytes \<Rightarrow> nat \<Rightarrow> bytes \<Rightarrow> nat \<Rightarrow> 'm hkdf_vars \<Rightarrow> bool" where
  "expand_inv prk info outLen out i v \<longleftrightarrow>
     (\<exists>c. vCtx v = Some c \<and> (if i = 1 then taken c prk [] else keyed c prk)) \<and>
     size \<le> length (vHash v) \<and> (1 < i \<longrightarrow> take size (vHash v) = hkdf_T mac prk info (i - 1)) \<and>
     vCounter v = of_nat i \<and> vTotal v = min outLen ((i - 1) * size) \<and>
     vOut v = take outLen (concat (map (hkdf_T mac prk info) [1..<i])) @ drop (min outLen ((i - 1) * size)) out \<and>
     ((i - 1) * size < outLen \<longrightarrow> vHashLen v = size)"

lemma length_T: "length (hkdf_T mac prk info i) = (if i = 0 then 0 else size)"
  by (cases i) (simp_all add: mac_length)

lemma length_blocks: "1 \<le> i \<Longrightarrow> length (concat (map (hkdf_T mac prk info) [1..<i])) = (i - 1) * size"
  by (induction i rule: dec_induct) (simp_all add: length_T mult_eq_if)

lemma unat_size: "unat (of_nat size :: u32) = size"
  using sizes by (simp add: unat_of_nat)

lemma round_mac:
  assumes inv: "expand_inv prk (ptr_bytes info (unat infoLen)) outLen out i v" and i: "1 \<le> i" "(i - 1) * size < outLen"
    and info: "ptr_ok info (unat infoLen)"
  shows "\<exists>c0 c1 c2 c3.
    (if i > 1 then update (snd (reinit (vCtx v))) (Some (vHash v)) (of_nat (vHashLen v)) else (CRYPT_SUCCESS, vCtx v)) =
      (CRYPT_SUCCESS, Some c0) \<and>
    update (Some c0) info infoLen = (CRYPT_SUCCESS, Some c1) \<and>
    update (Some c1) (Some [vCounter v]) 1 = (CRYPT_SUCCESS, Some c2) \<and>
    final (Some c2) (Some (vHash v)) (Some (vHashLen v)) = (CRYPT_SUCCESS, Some c3,
      Some (hkdf_T mac prk (ptr_bytes info (unat infoLen)) i @ drop size (vHash v)), Some size) \<and> keyed c3 prk"
proof -
  let ?info = "ptr_bytes info (unat infoLen)"
  let ?t = "hkdf_T mac prk ?info (i - 1)"
  have hl: "vHashLen v = size" and cnt: "vCounter v = of_nat i" and hs: "size \<le> length (vHash v)"
    using inv i by (simp_all add: expand_inv_def)
  obtain c where c: "vCtx v = Some c" "if i = 1 then taken c prk [] else keyed c prk"
    using inv by (auto simp: expand_inv_def)
  obtain c0 where c0: "(if i > 1 then update (snd (reinit (vCtx v))) (Some (vHash v)) (of_nat (vHashLen v))
      else (CRYPT_SUCCESS, vCtx v)) = (CRYPT_SUCCESS, Some c0)" "taken c0 prk ?t"
  proof (cases "i = 1")
    case False
    then have t: "take size (vHash v) = ?t" using inv i by (simp add: expand_inv_def)
    obtain c' where "reinit (Some c) = (CRYPT_SUCCESS, Some c')" "taken c' prk []" using reinit_ok c(2) False by auto
    moreover obtain c'' where "update (Some c') (Some (vHash v)) (of_nat size) = (CRYPT_SUCCESS, Some c'')" "taken c'' prk ?t"
      using update_ok [OF calculation(2), of "Some (vHash v)" "of_nat size"] hs t sizes by (auto simp: unat_size)
    ultimately show ?thesis using that [of c''] False i c(1) hl by simp
  qed (use that [of c] c in auto)
  have li: "unat infoLen < 2 ^ 32" by (rule word_less_max)
  have lt: "length ?t \<le> 64" using sizes by (simp add: length_T)
  obtain c1 where c1: "update (Some c0) info infoLen = (CRYPT_SUCCESS, Some c1)" "taken c1 prk (?t @ ?info)"
    using update_ok [OF c0(2) info] li lt sizes(3) by auto
  obtain c2 where c2: "update (Some c1) (Some [vCounter v]) 1 = (CRYPT_SUCCESS, Some c2)"
    "taken c2 prk (?t @ ?info @ [vCounter v])"
    using update_ok [OF c1(2), of "Some [vCounter v]" 1] li lt sizes(3) info by auto
  have "length (?t @ ?info @ [vCounter v]) < maxmsg" using li lt sizes(3) info by simp
  from final_ok [OF c2(2) this hs order_refl] obtain c3 where "final (Some c2) (Some (vHash v)) (Some size) =
     (CRYPT_SUCCESS, Some c3, Some (mac prk (?t @ ?info @ [vCounter v]) @ drop size (vHash v)), Some size)" "keyed c3 prk"
    by auto
  moreover have "mac prk (?t @ ?info @ [vCounter v]) = hkdf_T mac prk ?info i"
    using i(1) cnt by (cases i) simp_all
  ultimately show ?thesis using c0 c1 c2 hl by auto
qed

lemma expand_round:
  assumes inv: "expand_inv prk (ptr_bytes info (unat infoLen)) outLen out i v" and i: "1 \<le> i" "(i - 1) * size < outLen"
    and info: "ptr_ok info (unat infoLen)" and out: "outLen \<le> length out" "outLen < 2 ^ 32"
  shows "\<exists>v'. Expand_round mm info infoLen outLen i v = (CRYPT_SUCCESS, v') \<and>
    expand_inv prk (ptr_bytes info (unat infoLen)) outLen out (i + 1) v'"
proof -
  let ?T = "hkdf_T mac prk (ptr_bytes info (unat infoLen))"
  define total where "total = (i - 1) * size"
  define hl where "hl = min size (outLen - total)"
  obtain c0 c1 c2 c3 where R:
    "(if i > 1 then update (snd (reinit (vCtx v))) (Some (vHash v)) (of_nat (vHashLen v)) else (CRYPT_SUCCESS, vCtx v)) =
      (CRYPT_SUCCESS, Some c0)" "update (Some c0) info infoLen = (CRYPT_SUCCESS, Some c1)"
    "update (Some c1) (Some [vCounter v]) 1 = (CRYPT_SUCCESS, Some c2)"
    "final (Some c2) (Some (vHash v)) (Some (vHashLen v)) =
      (CRYPT_SUCCESS, Some c3, Some (?T i @ drop size (vHash v)), Some size)" "keyed c3 prk"
    using round_mac [OF inv i info] by blast
  have tot: "vTotal v = total" and le: "total < outLen" using inv i by (simp_all add: expand_inv_def total_def)
  have sub: "u32_sub outLen total = outLen - total" using le out by (simp add: u32_sub_le)
  have E: "Expand_round mm info infoLen outLen i v = (CRYPT_SUCCESS, v\<lparr>vCtx := Some c3, vHash := ?T i @ drop size (vHash v),
      vHashLen := hl, vOut := memcpy_at (vOut v) total (take hl (?T i @ drop size (vHash v))), vTotal := total + hl,
      vCounter := vCounter v + 1\<rparr>)"
    unfolding Expand_round_def Let_def table option.sel R(1-4) prod.case using tot sub
    by (simp add: R(3,4) hl_def min_def)
  have T: "length (?T i) = size" using i by (simp add: length_T)
  have blocks: "length (concat (map ?T [1..<i])) = total" using length_blocks i by (simp add: total_def)
  have "vOut v = concat (map ?T [1..<i]) @ drop total out"
    using inv le blocks by (simp add: expand_inv_def total_def min_def)
  moreover have "take hl (?T i @ drop size (vHash v)) = take (outLen - total) (?T i)"
    using T by (simp add: hl_def min_def)
  moreover have "take outLen (concat (map ?T [1..<i + 1])) = concat (map ?T [1..<i]) @ take (outLen - total) (?T i)"
    using i(1) blocks le by simp
  ultimately have o: "memcpy_at (vOut v) total (take hl (?T i @ drop size (vHash v))) =
      take outLen (concat (map ?T [1..<i + 1])) @ drop (total + hl) out"
    using blocks T by (simp add: memcpy_at_def hl_def min.commute add.commute)
  have isz: "i * size = total + size" using i(1) by (cases i) (simp_all add: total_def)
  have "total + hl = min outLen (i * size)" using le isz by (simp add: hl_def min_def) linarith
  moreover have "i * size < outLen \<Longrightarrow> hl = size" using isz by (simp add: hl_def min_def)
  moreover have "i \<noteq> 0" using i by simp
  ultimately show ?thesis
    unfolding E using R(5) o T inv by (simp add: expand_inv_def)
qed

lemma expand_loop:
  assumes "expand_inv prk (ptr_bytes info (unat infoLen)) outLen out i v" "1 \<le> i" "(i + k - 2) * size < outLen \<or> k = 0"
    and "ptr_ok info (unat infoLen)" "outLen \<le> length out" "outLen < 2 ^ 32"
  shows "\<exists>v'. Expand_loop mm info infoLen outLen i k v = (CRYPT_SUCCESS, v') \<and>
    expand_inv prk (ptr_bytes info (unat infoLen)) outLen out (i + k) v'"
  using assms
proof (induction k arbitrary: i v)
  case (Suc k)
  have "(i - 1) * size \<le> (i + Suc k - 2) * size" using Suc.prems(2) by (intro mult_le_mono1) simp
  moreover have "(i + Suc k - 2) * size < outLen" using Suc.prems(3) by blast
  ultimately have "(i - 1) * size < outLen" by (rule le_less_trans)
  from expand_round [OF Suc.prems(1,2) this Suc.prems(4-6)] obtain v' where
    "Expand_round mm info infoLen outLen i v = (CRYPT_SUCCESS, v')"
    "expand_inv prk (ptr_bytes info (unat infoLen)) outLen out (i + 1) v'" by blast
  then show ?case using Suc.IH [of "i + 1" v'] Suc.prems by auto
qed simp

lemma expand_ok:
  assumes c: "ready c" and prk: "ptr_ok prk (unat prkLen)" and info: "ptr_ok info (unat infoLen)"
    and L: "0 < outLen" "outLen \<le> 255 * size" "outLen \<le> length out"
  shows "\<exists>c'. CRYPT_HKDF_Expand (Some c) (Some mm) size prk prkLen info infoLen (Some out) outLen =
    (CRYPT_SUCCESS, Some c', Some (hkdf_expand mac (ptr_bytes prk (unat prkLen)) (ptr_bytes info (unat infoLen))
       ((outLen + size - 1) div size) outLen @ drop outLen out)) \<and> ready c'"
proof -
  let ?prk = "ptr_bytes prk (unat prkLen)" and ?info = "ptr_bytes info (unat infoLen)"
  define n where "n = (outLen + size - 1) div size"
  have small: "outLen + size - 1 < 2 ^ 32" using L sizes by simp
  have nd: "(outLen + size - Suc 0) div size = n" by (simp add: n_def)
  note n = ceil_div [OF L(1) sizes(1), folded n_def]
  have nul: "\<not> (prk = None \<and> prkLen > 0)" "\<not> (info = None \<and> infoLen > 0)"
    using prk info by (cases prk; cases info; simp add: unat_eq_zero)+
  then have check: "HKDF_ExpandParamCheck (Some c) (Some mm) size prk prkLen info infoLen (Some out) outLen = CRYPT_SUCCESS"
    using L sizes check_ok by (simp add: HKDF_ExpandParamCheck_def mult.commute)
  obtain r0 c0 where c0: "deinit (Some c) = (r0, Some c0)" "ready c0" using deinit_ok [OF c] by blast
  obtain c1 where c1: "init (Some c0) prk prkLen = (CRYPT_SUCCESS, Some c1)" "taken c1 ?prk []"
    using init_ok [OF c0(2) prk] by blast
  let ?v = "\<lparr>vCtx = Some c1, vHash = replicate 64 0, vHashLen = size, vCounter = 1, vTotal = 0, vOut = out\<rparr>"
  have "expand_inv ?prk ?info outLen out 1 ?v" using c1(2) sizes by (simp add: expand_inv_def)
  moreover have "(1 + n - 2) * size < outLen" using n by simp
  moreover have "outLen < 2 ^ 32" using small sizes by simp
  ultimately obtain v where v: "Expand_loop mm info infoLen outLen 1 n ?v = (CRYPT_SUCCESS, v)"
    "expand_inv ?prk ?info outLen out (1 + n) v"
    using expand_loop [of ?prk info infoLen outLen out 1 ?v n] info L(3) by auto
  then obtain c2 where c2: "vCtx v = Some c2" "keyed c2 ?prk" using n(3) by (auto simp: expand_inv_def)
  have "vOut v = hkdf_expand mac ?prk ?info n outLen @ drop outLen out"
    using v(2) n(2) by (simp add: expand_inv_def hkdf_expand_def)
  moreover obtain r3 c3 where "deinit (Some c2) = (r3, Some c3)" "ready c3"
    using deinit_ok [OF keyed_ready [OF c2(2)]] by blast
  ultimately show ?thesis
    using check c0 c1 v(1) c2(1) table small by (simp add: CRYPT_HKDF_Expand_def Let_def nd)
qed

lemma hkdf_ok:
  assumes c: "ready c" and key: "ptr_ok key (unat keyLen)" and salt: "ptr_ok salt (unat saltLen)"
    and info: "ptr_ok info (unat infoLen)"
    and L: "0 < outLen" "outLen \<le> 255 * size" "outLen \<le> length out"
  shows "\<exists>c'. CRYPT_HKDF (Some c) (Some mm) size key keyLen salt saltLen info infoLen (Some out) outLen =
    (CRYPT_SUCCESS, Some c', Some (hkdf_expand mac (mac (ptr_bytes salt (unat saltLen)) (ptr_bytes key (unat keyLen)))
       (ptr_bytes info (unat infoLen)) ((outLen + size - 1) div size) outLen @ drop outLen out)) \<and> ready c'"
proof -
  let ?prk = "mac (ptr_bytes salt (unat saltLen)) (ptr_bytes key (unat keyLen))"
  obtain c1 where c1: "CRYPT_HKDF_Extract (Some c) (Some mm) key keyLen salt saltLen (Some (replicate 64 0)) (Some 64) =
      (CRYPT_SUCCESS, Some c1, Some (?prk @ drop size (replicate 64 0)), Some size)" "ready c1"
    using extract_ok [OF c key salt, of "replicate 64 0" 64] sizes(2) by (auto simp del: drop_replicate)
  have p: "ptr_ok (Some (?prk @ drop size (replicate 64 0))) (unat (of_nat size :: u32))"
    "ptr_bytes (Some (?prk @ drop size (replicate 64 0))) (unat (of_nat size :: u32)) = ?prk"
    by (simp_all add: unat_size mac_length)
  show ?thesis using expand_ok [OF c1(2) p(1) info L] unfolding p(2) CRYPT_HKDF_def c1(1) by simp
qed

end

end
