(* ===== verification/Hmac_Correct.thy ===== *)
theory Hmac_Correct
  imports Hmac Hkdf
begin

text \<open>
  HMAC over any hash that keeps the contract of the interface: the keyed contexts hold the padded key,
  every message handed over in pieces gets the code of RFC 2104, and the context serves any number of
  messages one after the other.
\<close>

definition hmac_key :: "(bytes \<Rightarrow> bytes) \<Rightarrow> nat \<Rightarrow> bytes \<Rightarrow> bytes" where
  "hmac_key H B key =
    (let k = (if length key > B then H key else key) in k @ replicate (B - length k) 0)"

definition hmac_ref :: "(bytes \<Rightarrow> bytes) \<Rightarrow> nat \<Rightarrow> bytes \<Rightarrow> bytes \<Rightarrow> bytes" where
  "hmac_ref H B key msg =
    H (map ((XOR) 0x5c) (hmac_key H B key) @ H (map ((XOR) 0x36) (hmac_key H B key) @ msg))"

text \<open>A context whose inner and outer hash contexts hold the padded key, and one that has also taken
  in a message.\<close>

definition keyed :: "('c \<Rightarrow> bytes \<Rightarrow> bool) \<Rightarrow> (bytes \<Rightarrow> bytes) \<Rightarrow> 'c EAL_MdMethod \<Rightarrow> bytes \<Rightarrow> 'c CRYPT_HMAC_Ctx \<Rightarrow> bool" where
  "keyed A H m key ctx \<longleftrightarrow> hmacMethod ctx = m \<and> mdCtx ctx \<noteq> None \<and>
     (\<exists>ic oc. iCtx ctx = Some ic \<and> oCtx ctx = Some oc \<and>
        A ic (map ((XOR) 0x36) (hmac_key H (mdBlockSize m) key)) \<and>
        A oc (map ((XOR) 0x5c) (hmac_key H (mdBlockSize m) key)))"

definition macing :: "('c \<Rightarrow> bytes \<Rightarrow> bool) \<Rightarrow> (bytes \<Rightarrow> bytes) \<Rightarrow> 'c EAL_MdMethod \<Rightarrow> bytes \<Rightarrow> 'c CRYPT_HMAC_Ctx \<Rightarrow> bytes \<Rightarrow> bool" where
  "macing A H m key ctx msg \<longleftrightarrow> keyed A H m key ctx \<and>
     (\<exists>c. mdCtx ctx = Some c \<and> A c (map ((XOR) 0x36) (hmac_key H (mdBlockSize m) key) @ msg))"

text \<open>A context that can be keyed: a fresh one for which the hash is found, or one that has its hash
  contexts already.\<close>

definition can_key :: "(nat \<Rightarrow> crypt_ret \<times> 'c EAL_MdMethod) \<Rightarrow> 'c EAL_MdMethod \<Rightarrow> 'c CRYPT_HMAC_Ctx \<Rightarrow> bool" where
  "can_key findMd m ctx \<longleftrightarrow>
     (if mdCtx ctx = None
      then findMd (hmacId ctx) = (CRYPT_SUCCESS, m) \<and> (mdDeinit (hmacMethod ctx) = None \<or> hmacMethod ctx = m)
      else hmacMethod ctx = m \<and> iCtx ctx \<noteq> None \<and> oCtx ctx \<noteq> None)"

lemma foldl_store_from:
  "k \<le> n \<Longrightarrow> n \<le> length p \<Longrightarrow> foldl (\<lambda>p i. p[i := x]) p [k..<n] = take k p @ replicate (n - k) x @ drop n p"
proof (induction n)
  case (Suc n)
  show ?case
  proof (cases "k \<le> n")
    case True
    then show ?thesis using Suc
      by (simp add: list_update_append Cons_nth_drop_Suc [symmetric] Suc_diff_le replicate_app_Cons_same)
  next
    case False
    then show ?thesis using Suc by (simp add: not_le le_Suc_eq)
  qed
qed simp

lemma make_pad_key:
  assumes "n \<le> length k" "n \<le> bs" "bs \<le> 144"
  shows "length (make_pad x k n bs) = 144"
    "take bs (make_pad x k n bs) = map ((XOR) x) (take n k @ replicate (bs - n) 0)"
proof -
  let ?p = "map (\<lambda>i. x XOR k ! i) [0..<n] @ drop n (replicate 144 0)"
  have l: "length ?p = 144" using assms by simp
  have pad: "make_pad x k n bs = take n ?p @ replicate (bs - n) x @ drop bs ?p"
    using assms l by (simp only: make_pad_def Let_def foldl_store length_replicate foldl_store_from order_trans)
  have t: "take n ?p = map ((XOR) x) (take n k)"
    using assms(1) by (intro nth_equalityI) (simp_all add: min_def)
  show "length (make_pad x k n bs) = 144" using assms unfolding pad by simp
  show "take bs (make_pad x k n bs) = map ((XOR) x) (take n k @ replicate (bs - n) 0)"
    using assms unfolding pad t by (simp add: min_def)
qed

text \<open>A caller that computes the codes of several messages with one key: each message is handed over in
  pieces, its code is read into a buffer of \<open>n\<close> bytes, and the context is reset to the key.\<close>

fun hmac_session :: "nat \<Rightarrow> 'c CRYPT_HMAC_Ctx option \<Rightarrow> bytes list list \<Rightarrow> (crypt_ret \<times> bytes) list" where
  "hmac_session n ctx [] = []"
| "hmac_session n ctx (ds # dss) =
    (let (ret, ctx) = run_updates CRYPT_HMAC_Update ctx ds
     in if ret \<noteq> CRYPT_SUCCESS then [(ret, [])]
        else let (ret, ctx, out, len) = CRYPT_HMAC_Final ctx (Some (replicate n 0)) (Some n)
             in if ret \<noteq> CRYPT_SUCCESS then [(ret, [])]
                else (ret, take (the len) (the out)) # hmac_session n (snd (CRYPT_HMAC_Reinit ctx)) dss)"

context md_method
begin

lemma unat_block_size: "unat (of_nat (mdBlockSize m) :: u32) = mdBlockSize m"
  using sizes(3) by (simp add: unat_of_nat)

lemma length_hmac_key: "length (hmac_key hash (mdBlockSize m) key) = mdBlockSize m"
  using sizes by (simp add: hmac_key_def Let_def hash_length)

lemma length_hmac_ref: "length (hmac_ref hash (mdBlockSize m) key msg) = mdSize m"
  by (simp add: hmac_ref_def hash_length)

lemma HmacInitMdCtx_ready:
  assumes "can_key findMd m ctx"
  shows "\<exists>ctx' c ic oc. HmacInitMdCtx findMd (True, True, True) ctx = (CRYPT_SUCCESS, ctx') \<and>
    hmacMethod ctx' = m \<and> mdCtx ctx' = Some c \<and> iCtx ctx' = Some ic \<and> oCtx ctx' = Some oc"
  using assms new_ok table by (cases "mdCtx ctx") (auto simp: can_key_def HmacInitMdCtx_def Let_def split: option.splits)

lemma hash_key_ok:
  assumes "hmacMethod ctx = m" "mdCtx ctx = Some c" "ptr_ok key (unat len)"
  shows "\<exists>c'. hash_key ctx key len =
    (CRYPT_SUCCESS, ctx\<lparr>mdCtx := Some c'\<rparr>, hash (ptr_bytes key (unat len)) @ replicate (144 - mdSize m) 0)"
proof -
  obtain c1 where c1: "init (Some c) = (CRYPT_SUCCESS, Some c1)" "absorbed c1 []" using init_ok by blast
  have "unat len < maxlen" using unsigned_less [where 'a = nat, of len] sizes(5) by simp
  with update_ok [OF c1(2) assms(3)] obtain c2 where
    c2: "update (Some c1) key len = (CRYPT_SUCCESS, Some c2)" "absorbed c2 (ptr_bytes key (unat len))" by auto
  with \<open>unat len < maxlen\<close> final_ok [OF c2(2), of "replicate 144 0" 144] assms(3) sizes obtain c3 where
    "final (Some c2) (Some (replicate 144 0)) (Some 144) =
      (CRYPT_SUCCESS, Some c3, Some (hash (ptr_bytes key (unat len)) @ replicate (144 - mdSize m) 0), Some (mdSize m))"
    by auto
  then show ?thesis using c1 c2 assms table
    by (intro exI [of _ c3]) (simp add: hash_key_def Let_def GOTO_ERR_IF_def on_mdCtx_def)
qed

lemma HmacKey_ok:
  assumes ctx: "hmacMethod ctx = m" "mdCtx ctx = Some c" "iCtx ctx = Some ic" "oCtx ctx = Some oc"
    and ip: "length ip = 144" "take (mdBlockSize m) ip = map ((XOR) 0x36) (hmac_key hash (mdBlockSize m) key)"
    and op: "length op = 144" "take (mdBlockSize m) op = map ((XOR) 0x5c) (hmac_key hash (mdBlockSize m) key)"
  shows "\<exists>ctx'. HmacKey ctx ip op = (CRYPT_SUCCESS, ctx') \<and> macing absorbed hash m key ctx' []"
proof -
  let ?n = "of_nat (mdBlockSize m) :: u32"
  have up: "\<exists>c'. update (Some c1) (Some p) ?n = (CRYPT_SUCCESS, Some c') \<and> absorbed c' (take (mdBlockSize m) p)"
    if "absorbed c1 []" "length p = 144" for c1 p
    using update_ok [OF that(1), of "Some p" ?n] that(2) sizes by (simp add: unat_block_size)
  obtain i1 i2 where i: "init (Some ic) = (CRYPT_SUCCESS, Some i1)"
    "update (Some i1) (Some ip) ?n = (CRYPT_SUCCESS, Some i2)" "absorbed i2 (take (mdBlockSize m) ip)"
    using init_ok [of ic] up ip(1) by blast
  obtain o1 o2 where o: "init (Some oc) = (CRYPT_SUCCESS, Some o1)"
    "update (Some o1) (Some op) ?n = (CRYPT_SUCCESS, Some o2)" "absorbed o2 (take (mdBlockSize m) op)"
    using init_ok [of oc] up op(1) by blast
  show ?thesis using ctx i o ip op table
    by (simp add: HmacKey_def Let_def GOTO_ERR_IF_def on_iCtx_def on_oCtx_def on_mdCtx_def copy_ok macing_def keyed_def)
qed

lemma hmac_init_ok:
  assumes "can_key findMd m ctx" "ptr_ok key (unat len)"
  shows "\<exists>ctx'. CRYPT_HMAC_Init findMd (True, True, True) (Some ctx) key len = (CRYPT_SUCCESS, Some ctx') \<and>
    macing absorbed hash m (ptr_bytes key (unat len)) ctx' []"
proof -
  let ?bs = "mdBlockSize m" and ?key = "ptr_bytes key (unat len)"
  let ?kp = "case key of Some k \<Rightarrow> k | None \<Rightarrow> []"
  obtain ctx1 c ic oc where H: "HmacInitMdCtx findMd (True, True, True) ctx = (CRYPT_SUCCESS, ctx1)"
    and ctx1: "hmacMethod ctx1 = m" "mdCtx ctx1 = Some c" "iCtx ctx1 = Some ic" "oCtx ctx1 = Some oc"
    using HmacInitMdCtx_ready [OF assms(1)] by blast
  have valid: "IsMdMethodValid m" using table by (simp add: IsMdMethodValid_def)
  define r where "r = (if unat len > ?bs
     then case hash_key ctx1 key len of (ret, ctx, tmp) \<Rightarrow> (ret, ctx, tmp, mdSize (hmacMethod ctx))
     else (CRYPT_SUCCESS, ctx1, ?kp, unat len))"
  obtain ctx2 c2 kt kl where r: "r = (CRYPT_SUCCESS, ctx2, kt, kl)" and ctx2: "ctx2 = ctx1\<lparr>mdCtx := Some c2\<rparr>"
    and kl: "kl \<le> length kt" "kl \<le> ?bs" "take kl kt @ replicate (?bs - kl) 0 = hmac_key hash ?bs ?key"
  proof (cases "unat len > ?bs")
    case True
    obtain c' where "hash_key ctx1 key len =
        (CRYPT_SUCCESS, ctx1\<lparr>mdCtx := Some c'\<rparr>, hash ?key @ replicate (144 - mdSize m) 0)"
      using hash_key_ok [OF ctx1(1,2) assms(2)] by blast
    then have r: "r = (CRYPT_SUCCESS, ctx1\<lparr>mdCtx := Some c'\<rparr>, hash ?key @ replicate (144 - mdSize m) 0, mdSize m)"
      using True ctx1 by (simp add: r_def)
    have "length ?key > ?bs" using True assms(2) by simp
    then show ?thesis using sizes(2) by (intro that [OF r refl]) (simp_all add: hash_length hmac_key_def Let_def)
  next
    case False
    then have r: "r = (CRYPT_SUCCESS, ctx1, ?kp, unat len)" by (simp add: r_def)
    have c: "ctx1 = ctx1\<lparr>mdCtx := Some c\<rparr>" using ctx1 by simp
    have "length ?key = unat len" using assms(2) by simp
    moreover have "unat len \<le> length ?kp" "take (unat len) ?kp = ?key" using assms(2) by (cases key; simp)+
    ultimately show ?thesis using False by (intro that [OF r c]) (simp_all add: hmac_key_def Let_def)
  qed
  have "hmacMethod ctx2 = m" "mdCtx ctx2 = Some c2" "iCtx ctx2 = Some ic" "oCtx ctx2 = Some oc"
    using ctx1 ctx2 by simp_all
  from HmacKey_ok [OF this, of "make_pad 0x36 kt kl ?bs" ?key "make_pad 0x5c kt kl ?bs"]
  obtain ctx3 where "HmacKey ctx2 (make_pad 0x36 kt kl ?bs) (make_pad 0x5c kt kl ?bs) = (CRYPT_SUCCESS, ctx3)"
    "macing absorbed hash m ?key ctx3 []"
    using make_pad_key [OF kl(1,2) sizes(3)] kl(3) by auto
  moreover have "\<not> (key = None \<and> len \<noteq> 0)" using assms(2) by (cases key) (simp_all add: unat_eq_zero)
  ultimately show ?thesis
    using H valid ctx1(1) r \<open>hmacMethod ctx2 = m\<close> by (simp add: CRYPT_HMAC_Init_def Let_def r_def cong: if_cong)
qed

lemma hmac_update_ok:
  assumes mac: "macing absorbed hash m key ctx msg" and p: "ptr_ok p (unat n)"
    and l: "length msg + unat n < maxlen - mdBlockSize m"
  shows "\<exists>ctx'. CRYPT_HMAC_Update (Some ctx) p n = (CRYPT_SUCCESS, Some ctx') \<and>
    macing absorbed hash m key ctx' (msg @ ptr_bytes p (unat n))"
proof -
  let ?k = "map ((XOR) 0x36) (hmac_key hash (mdBlockSize m) key)"
  obtain c where c: "mdCtx ctx = Some c" "absorbed c (?k @ msg)" using mac by (auto simp: macing_def)
  have "length (?k @ msg) + unat n < maxlen" using l by (simp add: length_hmac_key)
  from update_ok [OF c(2) p this] obtain c' where
    "update (Some c) p n = (CRYPT_SUCCESS, Some c')" "absorbed c' (?k @ msg @ ptr_bytes p (unat n))" by auto
  then show ?thesis using mac c table
    by (auto simp: CRYPT_HMAC_Update_def on_mdCtx_def macing_def keyed_def)
qed

lemma hmac_final_ok:
  assumes mac: "macing absorbed hash m key ctx msg" and l: "length msg < maxlen - mdBlockSize m"
    and out: "mdSize m \<le> length out" "mdSize m \<le> n"
  shows "\<exists>ctx'. CRYPT_HMAC_Final (Some ctx) (Some out) (Some n) =
      (CRYPT_SUCCESS, Some ctx', Some (hmac_ref hash (mdBlockSize m) key msg @ drop (mdSize m) out), Some (mdSize m)) \<and>
    keyed absorbed hash m key ctx'"
proof -
  let ?i = "map ((XOR) 0x36) (hmac_key hash (mdBlockSize m) key) @ msg"
  let ?o = "map ((XOR) 0x5c) (hmac_key hash (mdBlockSize m) key)"
  let ?t = "hash ?i @ drop (mdSize m) (replicate 64 0)"
  obtain c oc where c: "mdCtx ctx = Some c" "absorbed c ?i" and oc: "oCtx ctx = Some oc" "absorbed oc ?o"
    using mac by (auto simp: macing_def keyed_def)
  have "length ?i < maxlen" using l by (simp add: length_hmac_key)
  from final_ok [OF c(2) this, of "replicate 64 0" 64] sizes(1) obtain c1 where
    f1: "final (Some c) (Some (replicate 64 0)) (Some 64) = (CRYPT_SUCCESS, Some c1, Some ?t, Some (mdSize m))"
    by (auto simp del: drop_replicate)
  have "unat (of_nat (mdSize m) :: u32) = mdSize m" using sizes(1) by (simp add: unat_of_nat)
  moreover have "take (mdSize m) ?t = hash ?i" by (simp add: hash_length)
  moreover have "length ?o + mdSize m < maxlen" using sizes by (simp add: length_hmac_key)
  ultimately obtain c2 where
    u: "update (Some oc) (Some ?t) (of_nat (mdSize m)) = (CRYPT_SUCCESS, Some c2)" "absorbed c2 (?o @ hash ?i)"
    using update_ok [OF oc(2), of "Some ?t" "of_nat (mdSize m)"] by (auto simp: hash_length)
  have "length (?o @ hash ?i) < maxlen" using sizes by (simp add: length_hmac_key hash_length)
  from final_ok [OF u(2) this out(1) order_refl] obtain c3 where
    f2: "final (Some c2) (Some out) (Some (mdSize m)) =
      (CRYPT_SUCCESS, Some c3, Some (hash (?o @ hash ?i) @ drop (mdSize m) out), Some (mdSize m))" by auto
  have "hmacMethod ctx = m" using mac by (simp add: macing_def keyed_def)
  then have "CRYPT_HMAC_Final (Some ctx) (Some out) (Some n) =
      (CRYPT_SUCCESS, Some (ctx\<lparr>mdCtx := Some c3\<rparr>), Some (hash (?o @ hash ?i) @ drop (mdSize m) out), Some (mdSize m))"
    using f1 u(1) f2 c(1) oc(1) table out(2)
    by (simp add: CRYPT_HMAC_Final_def Let_def on_mdCtx_def copy_ok del: drop_replicate)
  then show ?thesis using mac by (auto simp: hmac_ref_def macing_def keyed_def)
qed

lemma hmac_reinit_ok:
  assumes "keyed absorbed hash m key ctx"
  shows "\<exists>ctx'. CRYPT_HMAC_Reinit (Some ctx) = (CRYPT_SUCCESS, Some ctx') \<and> macing absorbed hash m key ctx' []"
  using assms table copy_ok by (auto simp: CRYPT_HMAC_Reinit_def on_mdCtx_def macing_def keyed_def)

lemma hmac_deinit_ok:
  assumes "can_key findMd m ctx"
  shows "\<exists>ret ctx'. CRYPT_HMAC_Deinit (Some ctx) = (ret, Some ctx') \<and> can_key findMd m ctx'"
proof (cases "mdDeinit (hmacMethod ctx)")
  case None
  then show ?thesis using assms by (simp add: CRYPT_HMAC_Deinit_def)
next
  case (Some f)
  show ?thesis
  proof (cases "mdCtx ctx")
    case None
    then show ?thesis using Some assms table deinit_null
      by (auto simp: CRYPT_HMAC_Deinit_def deinit_all_def Let_def on_mdCtx_def on_iCtx_def on_oCtx_def can_key_def
          split: prod.splits)
  next
    case (Some c)
    then obtain ic oc where "iCtx ctx = Some ic" "oCtx ctx = Some oc" "hmacMethod ctx = m"
      using assms by (auto simp: can_key_def)
    moreover obtain c1 i1 o1 where "deinit (Some c) = (CRYPT_SUCCESS, Some c1)"
      "deinit (Some ic) = (CRYPT_SUCCESS, Some i1)" "deinit (Some oc) = (CRYPT_SUCCESS, Some o1)"
      using deinit_ok by meson
    ultimately show ?thesis using Some table
      by (simp add: CRYPT_HMAC_Deinit_def deinit_all_def Let_def on_mdCtx_def on_iCtx_def on_oCtx_def can_key_def)
  qed
qed

end

text \<open>The table of HMAC, with the search for the hash and the outcome of the allocations of an
  initialisation.\<close>

definition g_macMethod_HMAC :: "(nat \<Rightarrow> crypt_ret \<times> 'c EAL_MdMethod) \<Rightarrow> bool \<times> bool \<times> bool \<Rightarrow>
  'c CRYPT_HMAC_Ctx EAL_MacMethod" where
  "g_macMethod_HMAC findMd mem = \<lparr>macInit = Some (CRYPT_HMAC_Init findMd mem), macUpdate = Some CRYPT_HMAC_Update,
     macFinal = Some CRYPT_HMAC_Final, macDeinit = Some CRYPT_HMAC_Deinit, macReinit = Some CRYPT_HMAC_Reinit,
     macFreeCtx = Some (\<lambda>_. ())\<rparr>"

text \<open>A hash that keeps its contract gives, through HMAC, a message authentication code that keeps
  its own.\<close>

locale hmac_provider = md_method m absorbed hash maxlen newc init update final deinit copy
  for m :: "'c EAL_MdMethod" and absorbed hash maxlen newc init update final deinit copy +
  fixes findMd :: "nat \<Rightarrow> crypt_ret \<times> 'c EAL_MdMethod"

sublocale hmac_provider < hm: mac_method "g_macMethod_HMAC findMd (True, True, True)" "can_key findMd m"
  "\<lambda>c key. keyed absorbed hash m key c" "\<lambda>c key msg. macing absorbed hash m key c msg"
  "hmac_ref hash (mdBlockSize m)" "mdSize m" "maxlen - mdBlockSize m"
  "CRYPT_HMAC_Init findMd (True, True, True)" CRYPT_HMAC_Update CRYPT_HMAC_Final CRYPT_HMAC_Deinit CRYPT_HMAC_Reinit
proof unfold_locales
  fix c key
  show "keyed absorbed hash m key c \<Longrightarrow> can_key findMd m c" by (auto simp: keyed_def can_key_def)
qed (use sizes in \<open>simp_all add: g_macMethod_HMAC_def length_hmac_ref hmac_init_ok hmac_update_ok
  hmac_final_ok hmac_reinit_ok hmac_deinit_ok\<close>)

context hmac_provider
begin

lemma hmac_updates_ok:
  assumes "macing absorbed hash m key ctx []" "list_all (\<lambda>d. length d < 2 ^ 32) ds"
    and "length (concat ds) < maxlen - mdBlockSize m"
  shows "\<exists>ctx'. run_updates CRYPT_HMAC_Update (Some ctx) ds = (CRYPT_SUCCESS, Some ctx') \<and>
    macing absorbed hash m key ctx' (concat ds)"
proof -
  have "\<exists>ctx'. CRYPT_HMAC_Update (Some ctx) (Some d) (of_nat (length d)) = (CRYPT_SUCCESS, Some ctx') \<and>
      macing absorbed hash m key ctx' (msg @ d)"
    if "macing absorbed hash m key ctx msg" "length d < 2 ^ 32" "length msg + length d < maxlen - mdBlockSize m"
    for ctx msg d
    using hmac_update_ok [OF that(1), of "Some d" "of_nat (length d)"] that(2,3) by (simp add: unat_of_nat)
  from run_updates_ok [where A = "macing absorbed hash m key" and upd = CRYPT_HMAC_Update and c = ctx and msg = "[]",
      OF this assms(1,2)] assms(3) show ?thesis by simp
qed

lemma hmac_session_ok:
  assumes "macing absorbed hash m key ctx []" "mdSize m \<le> n"
    and "list_all (\<lambda>ds. list_all (\<lambda>d. length d < 2 ^ 32) ds \<and> length (concat ds) < maxlen - mdBlockSize m) dss"
  shows "hmac_session n (Some ctx) dss = map (\<lambda>ds. (CRYPT_SUCCESS, hmac_ref hash (mdBlockSize m) key (concat ds))) dss"
  using assms
proof (induction dss arbitrary: ctx)
  case (Cons ds dss)
  obtain c1 where c1: "run_updates CRYPT_HMAC_Update (Some ctx) ds = (CRYPT_SUCCESS, Some c1)"
    "macing absorbed hash m key c1 (concat ds)" using hmac_updates_ok [OF Cons.prems(1)] Cons.prems(3) by auto
  obtain c2 where c2: "CRYPT_HMAC_Final (Some c1) (Some (replicate n 0)) (Some n) = (CRYPT_SUCCESS, Some c2,
      Some (hmac_ref hash (mdBlockSize m) key (concat ds) @ drop (mdSize m) (replicate n 0)), Some (mdSize m))"
    "keyed absorbed hash m key c2"
    using hmac_final_ok [OF c1(2), of "replicate n 0" n] Cons.prems by auto
  obtain c3 where "CRYPT_HMAC_Reinit (Some c2) = (CRYPT_SUCCESS, Some c3)" "macing absorbed hash m key c3 []"
    using hmac_reinit_ok [OF c2(2)] by blast
  then show ?case using c1 c2 Cons by (simp add: length_hmac_ref)
qed simp

end

end
