(* ===== verification/Hmac_Sha256.thy ===== *)
theory Hmac_Sha256
  imports Sha256_Correct Hmac_Correct
begin

text \<open>
  The composition: SHA-256 as the hash of HMAC, and HMAC with SHA-256 as the code of HKDF. The search for
  the hash of an algorithm is a parameter; what is used of it is that it finds SHA-256.
\<close>

interpretation hmac_sha256: hmac_provider g_mdMethod_SHA2_256 "absorbed SHA256_INIT_STATE (4 * 8)"
  "fips_sha256 SHA256_INIT_STATE (4 * 8)" "2 ^ 61" CRYPT_SHA2_256_NewCtx CRYPT_SHA2_256_Init CRYPT_SHA2_256_Update
  CRYPT_SHA2_256_Final CRYPT_SHA2_256_Deinit CRYPT_SHA2_256_CopyCtx findMd for findMd
  by unfold_locales

lemma sha256_sizes [simp]: "mdBlockSize g_mdMethod_SHA2_256 = 64" "mdSize g_mdMethod_SHA2_256 = 32"
  by (simp_all add: g_mdMethod_SHA2_256_def)

lemma new_can_key:
  "findMd algId = (CRYPT_SUCCESS, m) \<Longrightarrow> can_key findMd m (the (CRYPT_HMAC_NewCtx True algId))"
  by (simp add: can_key_def CRYPT_HMAC_NewCtx_def zero_method_def)

definition sha256 :: "bytes \<Rightarrow> bytes" where
  "sha256 = fips_sha256 SHA256_INIT_STATE 32"

text \<open>C39. HMAC with SHA-256: initialising a new context, or one that was used before, with any key
  succeeds, and the context then computes the code of RFC 2104 under that key for any number of messages,
  each handed over in any pieces, one after the other with a reset in between. The messages are shorter
  than \<open>2\<^sup>6\<^sup>1 - 64\<close> bytes, and the caller's buffer holds the 32 bytes of a code.\<close>

theorem hmac_sha256_session:
  assumes "can_key findMd g_mdMethod_SHA2_256 ctx" "ptr_ok key (unat len)" "32 \<le> n"
    and "list_all (\<lambda>ds. list_all (\<lambda>d. length d < 2 ^ 32) ds \<and> length (concat ds) < 2 ^ 61 - 64) dss"
  shows "\<exists>ctx'. CRYPT_HMAC_Init findMd (True, True, True) (Some ctx) key len = (CRYPT_SUCCESS, Some ctx') \<and>
    hmac_session n (Some ctx') dss =
      map (\<lambda>ds. (CRYPT_SUCCESS, hmac_ref sha256 64 (ptr_bytes key (unat len)) (concat ds))) dss"
proof -
  obtain ctx' where "CRYPT_HMAC_Init findMd (True, True, True) (Some ctx) key len = (CRYPT_SUCCESS, Some ctx')"
    "macing (absorbed SHA256_INIT_STATE (4 * 8)) (fips_sha256 SHA256_INIT_STATE (4 * 8)) g_mdMethod_SHA2_256
       (ptr_bytes key (unat len)) ctx' []"
    using hmac_sha256.hm.init_ok [OF assms(1,2)] by blast
  then show ?thesis using hmac_sha256.hmac_session_ok [of _ ctx' n dss] assms(3,4)
    by (auto simp: sha256_def)
qed

theorem hmac_sha256_session_witness:
  "\<exists>ctx'. CRYPT_HMAC_Init (\<lambda>_. (CRYPT_SUCCESS, g_mdMethod_SHA2_256)) (True, True, True) (CRYPT_HMAC_NewCtx True 3)
      (Some [0x4b, 0x65, 0x79]) 3 = (CRYPT_SUCCESS, Some ctx') \<and>
    hmac_session 64 (Some ctx') [[[0x61], [0x62]], []] =
      [(CRYPT_SUCCESS, hmac_ref sha256 64 [0x4b, 0x65, 0x79] [0x61, 0x62]),
       (CRYPT_SUCCESS, hmac_ref sha256 64 [0x4b, 0x65, 0x79] [])]"
  using hmac_sha256_session [of "\<lambda>_. (CRYPT_SUCCESS, g_mdMethod_SHA2_256)" "the (CRYPT_HMAC_NewCtx True 3)"
      "Some [0x4b, 0x65, 0x79]" 3 64 "[[[0x61], [0x62]], []]"]
    new_can_key [of "\<lambda>_. (CRYPT_SUCCESS, g_mdMethod_SHA2_256)" 3]
  by (simp add: CRYPT_HMAC_NewCtx_def)

text \<open>C40. HKDF over HMAC with SHA-256 computes RFC 5869: extracting stores the code of the key under the
  salt, also with no salt, and extraction followed by expansion fills the first \<open>outLen\<close> bytes of the
  caller's buffer with the blocks of the standard under the extracted key, for every length up to 255
  digests, and leaves the rest of the buffer as it was; the context can be used again.\<close>

theorem hkdf_sha256_matches_rfc:
  fixes findMd :: "nat \<Rightarrow> crypt_ret \<times> CRYPT_SHA2_256_Ctx EAL_MdMethod"
  assumes "can_key findMd g_mdMethod_SHA2_256 ctx" "ptr_ok key (unat keyLen)" "ptr_ok salt (unat saltLen)"
    and "ptr_ok info (unat infoLen)" "0 < outLen" "outLen \<le> 255 * 32" "outLen \<le> length out"
  shows "let mm = g_macMethod_HMAC findMd (True, True, True); mac = hmac_ref sha256 64;
             prk = mac (ptr_bytes salt (unat saltLen)) (ptr_bytes key (unat keyLen))
    in (\<exists>ctx'. CRYPT_HKDF_Extract (Some ctx) (Some mm) key keyLen salt saltLen (Some (replicate 64 0)) (Some 64) =
           (CRYPT_SUCCESS, Some ctx', Some (prk @ replicate 32 0), Some 32)) \<and>
       (\<exists>ctx'. CRYPT_HKDF (Some ctx) (Some mm) 32 key keyLen salt saltLen info infoLen (Some out) outLen =
           (CRYPT_SUCCESS, Some ctx', Some (hkdf_expand mac prk (ptr_bytes info (unat infoLen))
              ((outLen + 31) div 32) outLen @ drop outLen out)) \<and> can_key findMd g_mdMethod_SHA2_256 ctx')"
  using hmac_sha256.hm.extract_ok [OF assms(1-3), of "replicate 64 0" 64]
    hmac_sha256.hm.hkdf_ok [OF assms(1-4), of outLen out] assms(5-7)
  by (auto simp: sha256_def Let_def add.commute [of 31])

theorem hkdf_sha256_matches_rfc_witness:
  "\<exists>ctx'. CRYPT_HKDF (CRYPT_HMAC_NewCtx True 3)
      (Some (g_macMethod_HMAC (\<lambda>_. (CRYPT_SUCCESS, g_mdMethod_SHA2_256)) (True, True, True)))
      32 (Some [1, 2]) 2 None 0 (Some [3]) 1 (Some (replicate 41 0)) 40 =
    (CRYPT_SUCCESS, ctx', Some (hkdf_expand (hmac_ref sha256 64) (hmac_ref sha256 64 [] [1, 2]) [3] 2 40 @ [0]))"
  using hkdf_sha256_matches_rfc [of "\<lambda>_. (CRYPT_SUCCESS, g_mdMethod_SHA2_256)" "the (CRYPT_HMAC_NewCtx True 3)"
      "Some [1, 2]" 2 None 0 "Some [3]" 1 40 "replicate 41 0"]
    new_can_key [of "\<lambda>_. (CRYPT_SUCCESS, g_mdMethod_SHA2_256)" 3]
  by (auto simp: CRYPT_HMAC_NewCtx_def Let_def)

end
