(* ===== verification/Sha512.thy ===== *)
theory Sha512
  imports Md_Method
begin

text \<open>
  SHA-512 and SHA-384 (\<^verbatim>\<open>crypto/sha2/src/sha2_512.c\<close>) with both portable compression functions
  (\<^verbatim>\<open>noasm_sha512.c\<close>, \<^verbatim>\<open>noasm_sha512_small.c\<close>). They keep only the last sixteen words of the message
  schedule, in an array that is overwritten in a circle; the array is not initialised, and what it
  holds before the first store is the argument \<open>w0\<close> of a compression. Conventions as for SHA-256.
\<close>

section \<open>Words of 64 bits\<close>

definition Uint64FromBeBytes :: "bytes \<Rightarrow> u64" where
  "Uint64FromBeBytes bytes =
     push_bit 56 (ucast (bytes ! 0)) OR push_bit 48 (ucast (bytes ! 1)) OR push_bit 40 (ucast (bytes ! 2)) OR
     push_bit 32 (ucast (bytes ! 3)) OR push_bit 24 (ucast (bytes ! 4)) OR push_bit 16 (ucast (bytes ! 5)) OR
     push_bit 8 (ucast (bytes ! 6)) OR ucast (bytes ! 7)"

text \<open>The eight bytes that are stored.\<close>

definition Uint64ToBeBytes :: "u64 \<Rightarrow> bytes" where
  "Uint64ToBeBytes v =
     [ucast (drop_bit 56 v), ucast (drop_bit 48 v), ucast (drop_bit 40 v), ucast (drop_bit 32 v),
      ucast (drop_bit 24 v), ucast (drop_bit 16 v), ucast (drop_bit 8 v), ucast (v AND 0xff)]"

definition ROTR64 :: "u64 \<Rightarrow> nat \<Rightarrow> u64" where
  "ROTR64 x n = push_bit (64 - n) x OR drop_bit n x"

section \<open>The compression function with renamed variables\<close>

definition K512 :: "u64 list" where
  "K512 =
  [0x428a2f98d728ae22, 0x7137449123ef65cd, 0xb5c0fbcfec4d3b2f, 0xe9b5dba58189dbbc,
   0x3956c25bf348b538, 0x59f111f1b605d019, 0x923f82a4af194f9b, 0xab1c5ed5da6d8118,
   0xd807aa98a3030242, 0x12835b0145706fbe, 0x243185be4ee4b28c, 0x550c7dc3d5ffb4e2,
   0x72be5d74f27b896f, 0x80deb1fe3b1696b1, 0x9bdc06a725c71235, 0xc19bf174cf692694,
   0xe49b69c19ef14ad2, 0xefbe4786384f25e3, 0x0fc19dc68b8cd5b5, 0x240ca1cc77ac9c65,
   0x2de92c6f592b0275, 0x4a7484aa6ea6e483, 0x5cb0a9dcbd41fbd4, 0x76f988da831153b5,
   0x983e5152ee66dfab, 0xa831c66d2db43210, 0xb00327c898fb213f, 0xbf597fc7beef0ee4,
   0xc6e00bf33da88fc2, 0xd5a79147930aa725, 0x06ca6351e003826f, 0x142929670a0e6e70,
   0x27b70a8546d22ffc, 0x2e1b21385c26c926, 0x4d2c6dfc5ac42aed, 0x53380d139d95b3df,
   0x650a73548baf63de, 0x766a0abb3c77b2a8, 0x81c2c92e47edaee6, 0x92722c851482353b,
   0xa2bfe8a14cf10364, 0xa81a664bbc423001, 0xc24b8b70d0f89791, 0xc76c51a30654be30,
   0xd192e819d6ef5218, 0xd69906245565a910, 0xf40e35855771202a, 0x106aa07032bbd1b8,
   0x19a4c116b8d2d0c8, 0x1e376c085141ab53, 0x2748774cdf8eeb99, 0x34b0bcb5e19b48a8,
   0x391c0cb3c5c95a63, 0x4ed8aa4ae3418acb, 0x5b9cca4f7763e373, 0x682e6ff3d6b2b8a3,
   0x748f82ee5defb2fc, 0x78a5636f43172f60, 0x84c87814a1f0ab72, 0x8cc702081a6439ec,
   0x90befffa23631e28, 0xa4506cebde82bde9, 0xbef9a3f7b2c67915, 0xc67178f2e372532b,
   0xca273eceea26619c, 0xd186b8c721c0c207, 0xeada7dd6cde0eb1e, 0xf57d4f7fee6ed178,
   0x06f067aa72176fba, 0x0a637dc5a2c898a6, 0x113f9804bef90dae, 0x1b710b35131c471b,
   0x28db77f523047d84, 0x32caab7b40c72493, 0x3c9ebe0a15c9bebc, 0x431d67c49c100d4c,
   0x4cc5d4becb3e42b6, 0x597f299cfc657e2a, 0x5fcb6fab3ad6faec, 0x6c44198c4a475817]"

definition SHA512_CH :: "u64 \<Rightarrow> u64 \<Rightarrow> u64 \<Rightarrow> u64" where
  "SHA512_CH x y z = (x AND y) XOR (NOT x AND z)"

definition SHA512_MAJ :: "u64 \<Rightarrow> u64 \<Rightarrow> u64 \<Rightarrow> u64" where
  "SHA512_MAJ x y z = (x AND y) XOR (x AND z) XOR (y AND z)"

definition SHA512_BSIG0 :: "u64 \<Rightarrow> u64" where
  "SHA512_BSIG0 x = ROTR64 x 28 XOR ROTR64 x 34 XOR ROTR64 x 39"

definition SHA512_BSIG1 :: "u64 \<Rightarrow> u64" where
  "SHA512_BSIG1 x = ROTR64 x 14 XOR ROTR64 x 18 XOR ROTR64 x 41"

definition SHA512_SSIG0 :: "u64 \<Rightarrow> u64" where
  "SHA512_SSIG0 x = ROTR64 x 1 XOR ROTR64 x 8 XOR drop_bit 7 x"

definition SHA512_SSIG1 :: "u64 \<Rightarrow> u64" where
  "SHA512_SSIG1 x = ROTR64 x 19 XOR ROTR64 x 61 XOR drop_bit 6 x"

text \<open>One round; the result is what it leaves in the variables \<open>d\<close> and \<open>h\<close>, with the array \<open>w\<close> before
  them when the macro stores into it.\<close>

definition SHA512_ROUND :: "u64 \<Rightarrow> u64 \<Rightarrow> u64 \<Rightarrow> u64 \<Rightarrow> u64 \<Rightarrow> u64 \<Rightarrow> u64 \<Rightarrow> u64 \<Rightarrow> nat \<Rightarrow> nat \<Rightarrow> u64 list \<Rightarrow> u64 \<times> u64" where
  "SHA512_ROUND a b c d e f g h t s w =
    (let h = h + (SHA512_BSIG1 e + SHA512_CH e f g + K512 ! t + w ! s);
         d = d + h;
         h = h + (SHA512_BSIG0 a + SHA512_MAJ a b c)
     in (d, h))"

definition ROUND00_15 :: "u64 list \<Rightarrow> u64 \<Rightarrow> u64 \<Rightarrow> u64 \<Rightarrow> u64 \<Rightarrow> u64 \<Rightarrow> u64 \<Rightarrow> u64 \<Rightarrow> u64 \<Rightarrow> nat \<Rightarrow> bytes \<Rightarrow>
  u64 list \<times> u64 \<times> u64" where
  "ROUND00_15 w a b c d e f g h t M =
    (let w = w[t := Uint64FromBeBytes (drop (t * 8) M)]
     in (w, SHA512_ROUND a b c d e f g h t t w))"

definition ROUND16_79 :: "u64 list \<Rightarrow> u64 \<Rightarrow> u64 \<Rightarrow> u64 \<Rightarrow> u64 \<Rightarrow> u64 \<Rightarrow> u64 \<Rightarrow> u64 \<Rightarrow> u64 \<Rightarrow> nat \<Rightarrow> nat \<Rightarrow>
  u64 list \<times> u64 \<times> u64" where
  "ROUND16_79 w a b c d e f g h t s =
    (let w = w[s := w ! s + (SHA512_SSIG1 (w ! ((s + 14) mod 16)) + w ! ((s + 9) mod 16) +
                             SHA512_SSIG0 (w ! ((s + 1) mod 16)))]
     in (w, SHA512_ROUND a b c d e f g h (t + s) s w))"

type_synonym sha512_vars = "u64 \<times> u64 \<times> u64 \<times> u64 \<times> u64 \<times> u64 \<times> u64 \<times> u64"

definition rounds_first :: "bytes \<Rightarrow> u64 list \<times> sha512_vars \<Rightarrow> u64 list \<times> sha512_vars" where
  "rounds_first M s =
    (let (w, a, b, c, d, e, f, g, h) = s;
     (w, d, h) = ROUND00_15 w a b c d e f g h 0 M;
     (w, c, g) = ROUND00_15 w h a b c d e f g 1 M;
     (w, b, f) = ROUND00_15 w g h a b c d e f 2 M;
     (w, a, e) = ROUND00_15 w f g h a b c d e 3 M;
     (w, h, d) = ROUND00_15 w e f g h a b c d 4 M;
     (w, g, c) = ROUND00_15 w d e f g h a b c 5 M;
     (w, f, b) = ROUND00_15 w c d e f g h a b 6 M;
     (w, e, a) = ROUND00_15 w b c d e f g h a 7 M;
     (w, d, h) = ROUND00_15 w a b c d e f g h 8 M;
     (w, c, g) = ROUND00_15 w h a b c d e f g 9 M;
     (w, b, f) = ROUND00_15 w g h a b c d e f 10 M;
     (w, a, e) = ROUND00_15 w f g h a b c d e 11 M;
     (w, h, d) = ROUND00_15 w e f g h a b c d 12 M;
     (w, g, c) = ROUND00_15 w d e f g h a b c 13 M;
     (w, f, b) = ROUND00_15 w c d e f g h a b 14 M;
     (w, e, a) = ROUND00_15 w b c d e f g h a 15 M
     in (w, a, b, c, d, e, f, g, h))"

definition rounds_next :: "u64 list \<times> sha512_vars \<Rightarrow> nat \<Rightarrow> u64 list \<times> sha512_vars" where
  "rounds_next s t =
    (let (w, a, b, c, d, e, f, g, h) = s;
     (w, d, h) = ROUND16_79 w a b c d e f g h t 0;
     (w, c, g) = ROUND16_79 w h a b c d e f g t 1;
     (w, b, f) = ROUND16_79 w g h a b c d e f t 2;
     (w, a, e) = ROUND16_79 w f g h a b c d e t 3;
     (w, h, d) = ROUND16_79 w e f g h a b c d t 4;
     (w, g, c) = ROUND16_79 w d e f g h a b c t 5;
     (w, f, b) = ROUND16_79 w c d e f g h a b t 6;
     (w, e, a) = ROUND16_79 w b c d e f g h a t 7;
     (w, d, h) = ROUND16_79 w a b c d e f g h t 8;
     (w, c, g) = ROUND16_79 w h a b c d e f g t 9;
     (w, b, f) = ROUND16_79 w g h a b c d e f t 10;
     (w, a, e) = ROUND16_79 w f g h a b c d e t 11;
     (w, h, d) = ROUND16_79 w e f g h a b c d t 12;
     (w, g, c) = ROUND16_79 w d e f g h a b c t 13;
     (w, f, b) = ROUND16_79 w c d e f g h a b t 14;
     (w, e, a) = ROUND16_79 w b c d e f g h a t 15
     in (w, a, b, c, d, e, f, g, h))"

definition load_vars512 :: "u64 list \<Rightarrow> sha512_vars" where
  "load_vars512 hash = (hash ! 0, hash ! 1, hash ! 2, hash ! 3, hash ! 4, hash ! 5, hash ! 6, hash ! 7)"

definition add_vars512 :: "u64 list \<Rightarrow> sha512_vars \<Rightarrow> u64 list" where
  "add_vars512 hash v =
    (let (a, b, c, d, e, f, g, h) = v;
         hash = hash[0 := hash ! 0 + a]; hash = hash[1 := hash ! 1 + b];
         hash = hash[2 := hash ! 2 + c]; hash = hash[3 := hash ! 3 + d];
         hash = hash[4 := hash ! 4 + e]; hash = hash[5 := hash ! 5 + f];
         hash = hash[6 := hash ! 6 + g]; hash = hash[7 := hash ! 7 + h]
     in hash)"

text \<open>The body of the loop over the blocks, and the loop; the array \<open>w\<close> is shared by the blocks.\<close>

definition CompressBlock512 :: "u64 list \<Rightarrow> u64 list \<Rightarrow> bytes \<Rightarrow> u64 list \<times> u64 list" where
  "CompressBlock512 w hash block =
    (let s = (w, load_vars512 hash);
         s = rounds_first block s;
         (w, v) = foldl rounds_next s [16, 32, 48, 64]
     in (w, add_vars512 hash v))"

fun SHA512CompressMultiBlocks_loop :: "u64 list \<Rightarrow> u64 list \<Rightarrow> bytes \<Rightarrow> nat \<Rightarrow> u64 list" where
  "SHA512CompressMultiBlocks_loop w hash block 0 = hash"
| "SHA512CompressMultiBlocks_loop w hash block (Suc blockn) =
    (case CompressBlock512 w hash block of
       (w, hash) \<Rightarrow> SHA512CompressMultiBlocks_loop w hash (drop 128 block) blockn)"

definition SHA512CompressMultiBlocks :: "u64 list \<Rightarrow> bytes \<Rightarrow> nat \<Rightarrow> u64 list" where
  "SHA512CompressMultiBlocks hash bl bcnt = SHA512CompressMultiBlocks_loop (replicate 16 0) hash bl bcnt"

section \<open>The compression function of the small build\<close>

definition Sha512ExtendMessage :: "u64 list \<Rightarrow> nat \<Rightarrow> u64 list" where
  "Sha512ExtendMessage w t =
     w[t mod 16 := w ! (t mod 16) + (SHA512_SSIG1 (w ! ((t - 2) mod 16)) + w ! ((t - 7) mod 16) +
                                     SHA512_SSIG0 (w ! ((t - 15) mod 16)))]"

definition Sha512Compress :: "u64 list \<Rightarrow> u64 \<Rightarrow> u64 \<Rightarrow> u64 list" where
  "Sha512Compress state w k =
    (let t1 = state ! 7 + SHA512_BSIG1 (state ! 4) + SHA512_CH (state ! 4) (state ! 5) (state ! 6) + k + w;
         t2 = SHA512_BSIG0 (state ! 0) + SHA512_MAJ (state ! 0) (state ! 1) (state ! 2);
         state = state[7 := state ! 6];
         state = state[6 := state ! 5];
         state = state[5 := state ! 4];
         state = state[4 := state ! 3 + t1];
         state = state[3 := state ! 2];
         state = state[2 := state ! 1];
         state = state[1 := state ! 0]
     in state[0 := t1 + t2])"

definition small_first512 :: "bytes \<Rightarrow> u64 list \<times> u64 list \<Rightarrow> nat \<Rightarrow> u64 list \<times> u64 list" where
  "small_first512 block s t = (case s of (w, state) \<Rightarrow>
     let w = w[t := Uint64FromBeBytes (drop (t * 8) block)] in (w, Sha512Compress state (w ! t) (K512 ! t)))"

definition small_next512 :: "u64 list \<times> u64 list \<Rightarrow> nat \<Rightarrow> u64 list \<times> u64 list" where
  "small_next512 s t = (case s of (w, state) \<Rightarrow>
     let w = Sha512ExtendMessage w t in (w, Sha512Compress state (w ! (t mod 16)) (K512 ! t)))"

text \<open>The body of the loop over the blocks; the arrays \<open>w\<close> and \<open>state\<close> are shared by the blocks.\<close>

definition small_CompressBlock512 :: "u64 list \<Rightarrow> u64 list \<Rightarrow> u64 list \<Rightarrow> bytes \<Rightarrow> u64 list \<times> u64 list \<times> u64 list" where
  "small_CompressBlock512 w state hash block =
    (let state = foldl (\<lambda>state t. state[t := hash ! t]) state [0..<8];
         s = foldl (small_first512 block) (w, state) [0..<16];
         (w, state) = foldl small_next512 s [16..<80];
         hash = foldl (\<lambda>hash t. hash[t := hash ! t + state ! t]) hash [0..<8]
     in (w, state, hash))"

fun small_CompressMultiBlocks512 :: "u64 list \<Rightarrow> u64 list \<Rightarrow> u64 list \<Rightarrow> bytes \<Rightarrow> nat \<Rightarrow> u64 list" where
  "small_CompressMultiBlocks512 w state hash block 0 = hash"
| "small_CompressMultiBlocks512 w state hash block (Suc blockn) =
    (case small_CompressBlock512 w state hash block of
       (w, state, hash) \<Rightarrow> small_CompressMultiBlocks512 w state hash (drop 128 block) blockn)"

section \<open>Contexts\<close>

record CRYPT_SHA2_512_Ctx =
  h512 :: "u64 list"
  block512 :: bytes
  lNum512 :: u64
  hNum512 :: u64
  num512 :: nat
  mdlen512 :: nat
  errorCode512 :: crypt_ret

definition zero_ctx512 :: CRYPT_SHA2_512_Ctx where
  "zero_ctx512 = \<lparr>h512 = replicate 8 0, block512 = replicate 128 0, lNum512 = 0, hNum512 = 0, num512 = 0,
     mdlen512 = 0, errorCode512 = CRYPT_SUCCESS\<rparr>"

definition CRYPT_SHA2_512_NewCtx :: "bool \<Rightarrow> CRYPT_SHA2_512_Ctx option" where
  "CRYPT_SHA2_512_NewCtx mem = (if mem then Some zero_ctx512 else None)"

definition CRYPT_SHA2_512_Init :: "CRYPT_SHA2_512_Ctx option \<Rightarrow> crypt_ret \<times> CRYPT_SHA2_512_Ctx option" where
  "CRYPT_SHA2_512_Init ctx = (case ctx of
      None \<Rightarrow> (CRYPT_NULL_INPUT, None)
    | Some _ \<Rightarrow> (CRYPT_SUCCESS, Some (zero_ctx512
        \<lparr>h512 := [0x6a09e667f3bcc908, 0xbb67ae8584caa73b, 0x3c6ef372fe94f82b, 0xa54ff53a5f1d36f1,
                 0x510e527fade682d1, 0x9b05688c2b3e6c1f, 0x1f83d9abfb41bd6b, 0x5be0cd19137e2179],
         mdlen512 := 64\<rparr>)))"

definition CRYPT_SHA2_384_Init :: "CRYPT_SHA2_512_Ctx option \<Rightarrow> crypt_ret \<times> CRYPT_SHA2_512_Ctx option" where
  "CRYPT_SHA2_384_Init ctx = (case ctx of
      None \<Rightarrow> (CRYPT_NULL_INPUT, None)
    | Some _ \<Rightarrow> (CRYPT_SUCCESS, Some (zero_ctx512
        \<lparr>h512 := [0xcbbb9d5dc1059ed8, 0x629a292a367cd507, 0x9159015a3070dd17, 0x152fecd8f70e5939,
                 0x67332667ffc00b31, 0x8eb44a8768581511, 0xdb0c2e0d64f98fa7, 0x47b5481dbefa4fa4],
         mdlen512 := 48\<rparr>)))"

definition CRYPT_SHA2_512_Deinit :: "CRYPT_SHA2_512_Ctx option \<Rightarrow> crypt_ret \<times> CRYPT_SHA2_512_Ctx option" where
  "CRYPT_SHA2_512_Deinit ctx = (case ctx of
      None \<Rightarrow> (CRYPT_NULL_INPUT, None)
    | Some _ \<Rightarrow> (CRYPT_SUCCESS, Some zero_ctx512))"

definition CRYPT_SHA2_512_CopyCtx ::
  "CRYPT_SHA2_512_Ctx option \<Rightarrow> CRYPT_SHA2_512_Ctx option \<Rightarrow> crypt_ret \<times> CRYPT_SHA2_512_Ctx option" where
  "CRYPT_SHA2_512_CopyCtx dst src =
    (if dst = None \<or> src = None then (CRYPT_NULL_INPUT, dst) else (CRYPT_SUCCESS, src))"

definition CRYPT_SHA2_512_DupCtx :: "bool \<Rightarrow> CRYPT_SHA2_512_Ctx option \<Rightarrow> CRYPT_SHA2_512_Ctx option" where
  "CRYPT_SHA2_512_DupCtx mem src = (case src of
      None \<Rightarrow> None
    | Some c \<Rightarrow> (case CRYPT_SHA2_512_NewCtx mem of None \<Rightarrow> None | Some _ \<Rightarrow> Some c))"

section \<open>Adding data\<close>

text \<open>Addition of two numbers of 128 bits; \<open>None\<close> when the sum overflows, and then nothing is stored.\<close>

definition Add128Bit :: "u64 \<Rightarrow> u64 \<Rightarrow> u64 \<Rightarrow> u64 \<Rightarrow> (u64 \<times> u64) option" where
  "Add128Bit num1h num1l num2h num2l =
    (let suml = num1l + num2l;
         carry = (if suml < num1l then 1 else 0);
         sumh = num1h + carry;
         sumh = sumh + num2h
     in if (carry > 0 \<or> num2h > 0) \<and> sumh \<le> num1h then None else Some (sumh, suml))"

definition CheckIsCorrupted512 :: "CRYPT_SHA2_512_Ctx \<Rightarrow> u32 \<Rightarrow> crypt_ret \<times> CRYPT_SHA2_512_Ctx" where
  "CheckIsCorrupted512 ctx nbytes =
    (let bitLenl = push_bit 3 (ucast nbytes :: u64);
         bitLenh = 0
     in case Add128Bit (hNum512 ctx) (lNum512 ctx) bitLenh bitLenl of
          None \<Rightarrow> (CRYPT_SHA2_INPUT_OVERFLOW, ctx\<lparr>errorCode512 := CRYPT_SHA2_INPUT_OVERFLOW\<rparr>)
        | Some (hn, ln) \<Rightarrow> (CRYPT_SUCCESS, ctx\<lparr>hNum512 := hn, lNum512 := ln\<rparr>))"

definition UpdateParamIsValid512 ::
  "CRYPT_SHA2_512_Ctx option \<Rightarrow> bytes option \<Rightarrow> u32 \<Rightarrow> crypt_ret \<times> CRYPT_SHA2_512_Ctx option" where
  "UpdateParamIsValid512 ctx data nbytes = (case ctx of
      None \<Rightarrow> (CRYPT_NULL_INPUT, None)
    | Some c \<Rightarrow>
        if data = None \<and> nbytes \<noteq> 0 then (CRYPT_NULL_INPUT, ctx)
        else if errorCode512 c = CRYPT_SHA2_INPUT_OVERFLOW then (CRYPT_SHA2_INPUT_OVERFLOW, ctx)
        else map_prod id Some (CheckIsCorrupted512 c nbytes))"

definition Update_blocks512 :: "CRYPT_SHA2_512_Ctx \<Rightarrow> bytes \<Rightarrow> nat \<Rightarrow> CRYPT_SHA2_512_Ctx" where
  "Update_blocks512 ctx d dataLen =
    (let ctx = ctx\<lparr>h512 := SHA512CompressMultiBlocks (h512 ctx) d (dataLen div 128)\<rparr>;
         rest = dataLen mod 128;
         d = drop (dataLen - rest) d
     in if rest \<noteq> 0 then ctx\<lparr>block512 := memcpy_at (block512 ctx) 0 (take rest d), num512 := rest\<rparr> else ctx)"

definition Update_body512 :: "CRYPT_SHA2_512_Ctx \<Rightarrow> bytes \<Rightarrow> nat \<Rightarrow> CRYPT_SHA2_512_Ctx" where
  "Update_body512 ctx data nbytes =
    (let n = u32_sub 128 (num512 ctx)
     in if nbytes < n
        then ctx\<lparr>block512 := memcpy_at (block512 ctx) (num512 ctx) (take nbytes data),
                 num512 := (num512 ctx + nbytes) mod 2 ^ 32\<rparr>
        else if num512 ctx \<noteq> 0
        then let p = memcpy_at (block512 ctx) (num512 ctx) (take n data)
             in Update_blocks512 (ctx\<lparr>block512 := p, num512 := 0, h512 := SHA512CompressMultiBlocks (h512 ctx) p 1\<rparr>)
                  (drop n data) (u32_sub nbytes n)
        else Update_blocks512 ctx data nbytes)"

definition CRYPT_SHA2_512_Update ::
  "CRYPT_SHA2_512_Ctx option \<Rightarrow> bytes option \<Rightarrow> u32 \<Rightarrow> crypt_ret \<times> CRYPT_SHA2_512_Ctx option" where
  "CRYPT_SHA2_512_Update ctx data nbytes =
    (let (ret, ctx) = UpdateParamIsValid512 ctx data nbytes
     in if ret \<noteq> CRYPT_SUCCESS then (ret, ctx)
        else if nbytes = 0 then (CRYPT_SUCCESS, ctx)
        else (CRYPT_SUCCESS, map_option (\<lambda>c. Update_body512 c (the data) (unat nbytes)) ctx))"

section \<open>The digest\<close>

definition FinalParamIsValid512 :: "CRYPT_SHA2_512_Ctx option \<Rightarrow> bytes option \<Rightarrow> nat option \<Rightarrow> crypt_ret" where
  "FinalParamIsValid512 ctx out outLen = (case (ctx, out, outLen) of
      (Some c, Some _, Some l) \<Rightarrow>
        if l < mdlen512 c then CRYPT_SHA2_OUT_BUFF_LEN_NOT_ENOUGH
        else if errorCode512 c = CRYPT_SHA2_INPUT_OVERFLOW then CRYPT_SHA2_INPUT_OVERFLOW
        else CRYPT_SUCCESS
    | _ \<Rightarrow> CRYPT_NULL_INPUT)"

definition Final_body512 :: "CRYPT_SHA2_512_Ctx \<Rightarrow> CRYPT_SHA2_512_Ctx" where
  "Final_body512 ctx =
    (let n = num512 ctx;
         p = (block512 ctx)[n := 0x80];
         n = n + 1;
         (hh, p, n, pad) =
           (if n > 112
            then let pad = 128 - n; p = memcpy_at p n (replicate pad 0)
                 in (SHA512CompressMultiBlocks (h512 ctx) p 1, p, 0, 112)
            else (h512 ctx, p, n, 112 - n));
         p = memcpy_at p n (replicate pad 0);
         p = memcpy_at p 112 (Uint64ToBeBytes (hNum512 ctx));
         p = memcpy_at p (112 + 8) (Uint64ToBeBytes (lNum512 ctx))
     in ctx\<lparr>block512 := p, h512 := SHA512CompressMultiBlocks hh p 1\<rparr>)"

definition Final_output512 :: "CRYPT_SHA2_512_Ctx \<Rightarrow> bytes \<Rightarrow> bytes" where
  "Final_output512 ctx digest =
     foldl (\<lambda>out n. memcpy_at out (8 * n) (Uint64ToBeBytes (h512 ctx ! n))) digest [0..<drop_bit 3 (mdlen512 ctx)]"

definition CRYPT_SHA2_512_Final ::
  "CRYPT_SHA2_512_Ctx option \<Rightarrow> bytes option \<Rightarrow> nat option \<Rightarrow>
   crypt_ret \<times> CRYPT_SHA2_512_Ctx option \<times> bytes option \<times> nat option" where
  "CRYPT_SHA2_512_Final ctx digest len =
    (let ret = FinalParamIsValid512 ctx digest len
     in if ret \<noteq> CRYPT_SUCCESS then (ret, ctx, digest, len)
        else let c = Final_body512 (the ctx)
             in (CRYPT_SUCCESS, Some c, Some (Final_output512 c (the digest)), Some (mdlen512 c)))"

section \<open>The tables of functions\<close>

definition g_mdMethod_SHA2_512 :: "CRYPT_SHA2_512_Ctx EAL_MdMethod" where
  "g_mdMethod_SHA2_512 = \<lparr>mdBlockSize = 128, mdSize = 64, mdNewCtx = Some CRYPT_SHA2_512_NewCtx,
     mdInit = Some CRYPT_SHA2_512_Init, mdUpdate = Some CRYPT_SHA2_512_Update, mdFinal = Some CRYPT_SHA2_512_Final,
     mdDeinit = Some CRYPT_SHA2_512_Deinit, mdCopyCtx = Some CRYPT_SHA2_512_CopyCtx,
     mdDupCtx = Some CRYPT_SHA2_512_DupCtx, mdFreeCtx = Some (\<lambda>_. ())\<rparr>"

definition g_mdMethod_SHA2_384 :: "CRYPT_SHA2_512_Ctx EAL_MdMethod" where
  "g_mdMethod_SHA2_384 = g_mdMethod_SHA2_512\<lparr>mdSize := 48, mdInit := Some CRYPT_SHA2_384_Init\<rparr>"

end
