(* ===== verification/Sha512_Correct.thy ===== *)
theory Sha512_Correct
  imports Sha512 Hash_Blocks
begin

text \<open>
  Both portable compression functions of SHA-512 are the one of the standard (FIPS 180-4): the circular
  array always holds the last sixteen words of the message schedule, and the renamed variables of the
  unrolled rounds are the moved ones.
\<close>

section \<open>The standard\<close>

definition BSIG0_512 :: "u64 \<Rightarrow> u64" where
  "BSIG0_512 x = word_rotr 28 x XOR word_rotr 34 x XOR word_rotr 39 x"

definition BSIG1_512 :: "u64 \<Rightarrow> u64" where
  "BSIG1_512 x = word_rotr 14 x XOR word_rotr 18 x XOR word_rotr 41 x"

definition SSIG0_512 :: "u64 \<Rightarrow> u64" where
  "SSIG0_512 x = word_rotr 1 x XOR word_rotr 8 x XOR drop_bit 7 x"

definition SSIG1_512 :: "u64 \<Rightarrow> u64" where
  "SSIG1_512 x = word_rotr 19 x XOR word_rotr 61 x XOR drop_bit 6 x"

fun Wt512 :: "bytes \<Rightarrow> nat \<Rightarrow> u64" where
  "Wt512 M t = (if t < 16 then word_rcat (blk (8 * t) 8 M)
             else SSIG1_512 (Wt512 M (t - 2)) + Wt512 M (t - 7) + SSIG0_512 (Wt512 M (t - 15)) + Wt512 M (t - 16))"

declare Wt512.simps [simp del]

definition round512 :: "sha512_vars \<Rightarrow> u64 \<Rightarrow> u64 \<Rightarrow> sha512_vars" where
  "round512 v x k =
    (let (a, b, c, d, e, f, g, h) = v;
         T1 = h + BSIG1_512 e + SHA512_CH e f g + k + x;
         T2 = BSIG0_512 a + SHA512_MAJ a b c
     in (T1 + T2, a, b, c, d + T1, e, f, g))"

definition fips512_round :: "bytes \<Rightarrow> sha512_vars \<Rightarrow> nat \<Rightarrow> sha512_vars" where
  "fips512_round M v t = round512 v (Wt512 M t) (K512 ! t)"

definition fips512_compress :: "u64 list \<Rightarrow> bytes \<Rightarrow> u64 list" where
  "fips512_compress H M =
    (let (a, b, c, d, e, f, g, h) = foldl (fips512_round M) (load_vars512 H) [0..<80]
     in map2 (+) H [a, b, c, d, e, f, g, h])"

lemma ROTR64_rotr: "0 < n \<Longrightarrow> n < 64 \<Longrightarrow> ROTR64 x n = word_rotr n x"
  by (rule bit_word_eqI)
    (auto simp: ROTR64_def bit_simps mod_if add.commute [of n] dest: bit_imp_le_length)

lemma sigma512: "SHA512_BSIG0 = BSIG0_512" "SHA512_BSIG1 = BSIG1_512" "SHA512_SSIG0 = SSIG0_512" "SHA512_SSIG1 = SSIG1_512"
  by (simp_all add: fun_eq_iff SHA512_BSIG0_def SHA512_BSIG1_def SHA512_SSIG0_def SHA512_SSIG1_def
      BSIG0_512_def BSIG1_512_def SSIG0_512_def SSIG1_512_def ROTR64_rotr)

lemma SHA512_ROUND_moves:
  "round512 (a, b, c, d, e, f, g, h) (w ! s) (K512 ! t) =
   (case SHA512_ROUND a b c d e f g h t s w of (d', h') \<Rightarrow> (h', a, b, c, d', e, f, g))"
  by (simp add: round512_def SHA512_ROUND_def Let_def sigma512 ac_simps)

definition step_first :: "bytes \<Rightarrow> u64 list \<times> sha512_vars \<Rightarrow> nat \<Rightarrow> u64 list \<times> sha512_vars" where
  "step_first M s t = (case s of (w, v) \<Rightarrow>
     (w[t := Uint64FromBeBytes (drop (t * 8) M)], round512 v (w[t := Uint64FromBeBytes (drop (t * 8) M)] ! t) (K512 ! t)))"

definition step_next :: "u64 list \<times> sha512_vars \<Rightarrow> nat \<Rightarrow> u64 list \<times> sha512_vars" where
  "step_next s t = (case s of (w, v) \<Rightarrow>
     (Sha512ExtendMessage w t, round512 v (Sha512ExtendMessage w t ! (t mod 16)) (K512 ! t)))"

lemma ROUND00_15_step:
  "step_first M (w, a, b, c, d, e, f, g, h) t =
   (case ROUND00_15 w a b c d e f g h t M of (w', d', h') \<Rightarrow> (w', h', a, b, c, d', e, f, g))"
  by (simp add: step_first_def ROUND00_15_def Let_def SHA512_ROUND_moves split: prod.split)

lemma ROUND16_79_step:
  assumes "t mod 16 = 0" "16 \<le> t" "s < 16"
  shows "step_next (w, a, b, c, d, e, f, g, h) (t + s) =
   (case ROUND16_79 w a b c d e f g h t s of (w', d', h') \<Rightarrow> (w', h', a, b, c, d', e, f, g))"
proof -
  define q where "q = t div 16 - 1"
  have "t = t div 16 * 16" using assms(1) div_mult_mod_eq [of t 16] by simp
  then have t: "t = q * 16 + 16" using assms(2) by (simp add: q_def algebra_simps)
  have m: "(q * 16 + x) mod 16 = x mod 16" for x by simp
  have "t + s - 2 = q * 16 + (s + 14)" "t + s - 7 = q * 16 + (s + 9)" "t + s - 15 = q * 16 + (s + 1)" "t + s = q * 16 + (s + 16)"
    unfolding t by simp_all
  then have e: "(t + s - 2) mod 16 = (s + 14) mod 16" "(t + s - 7) mod 16 = (s + 9) mod 16"
    "(t + s - 15) mod 16 = (s + 1) mod 16" "(t + s) mod 16 = s" using assms(3) by (simp_all only: m) simp
  show ?thesis
    by (simp add: step_next_def Sha512ExtendMessage_def ROUND16_79_def e Let_def SHA512_ROUND_moves split: prod.split)
qed

lemma upt_16: "[i..<i + 16] = [i + 0, i + 1, i + 2, i + 3, i + 4, i + 5, i + 6, i + 7,
    i + 8, i + 9, i + 10, i + 11, i + 12, i + 13, i + 14, i + (15::nat)]"
  by (simp add: upt_rec eval_nat_numeral)

lemma less_16: "(0::nat) < 16" "(1::nat) < 16" "(2::nat) < 16" "(3::nat) < 16" "(4::nat) < 16" "(5::nat) < 16" "(6::nat) < 16" "(7::nat) < 16" "(8::nat) < 16" "(9::nat) < 16" "(10::nat) < 16" "(11::nat) < 16" "(12::nat) < 16" "(13::nat) < 16" "(14::nat) < 16" "(15::nat) < 16"
  by simp_all

lemma rounds_next_steps:
  assumes "t mod 16 = 0" "16 \<le> t"
  shows "rounds_next s t = foldl step_next s [t..<t + 16]"
  by (cases s) (auto simp only: upt_16 rounds_next_def Let_def ROUND16_79_step [OF assms] less_16 foldl.simps
      prod.case split: prod.split)

lemma rounds_first_steps: "rounds_first M s = foldl (step_first M) s [0..<16]"
proof -
  have u: "[0..<16] = [0, 1, 2, 3, 4, 5, 6, 7, 8, 9, 10, 11, 12, 13, 14, (15::nat)]"
    using upt_16 [of 0] by (simp only: add_0)
  show ?thesis
    by (cases s) (auto simp only: u rounds_first_def Let_def ROUND00_15_step foldl.simps prod.case split: prod.split)
qed

text \<open>The array holds the words of the schedule from \<open>n - 16\<close> to below \<open>n\<close>, each at its index modulo 16.\<close>

definition circ :: "bytes \<Rightarrow> u64 list \<Rightarrow> nat \<Rightarrow> bool" where
  "circ M w n \<longleftrightarrow> length w = 16 \<and> (\<forall>t. t < n \<and> n \<le> t + 16 \<longrightarrow> w ! (t mod 16) = Wt512 M t)"

lemma circ_set:
  assumes "circ M w n" "x = Wt512 M n"
  shows "circ M (w[n mod 16 := x]) (Suc n)"
proof -
  have "w[n mod 16 := x] ! (t mod 16) = Wt512 M t" if "t < Suc n" "Suc n \<le> t + 16" for t
  proof (cases "t = n")
    case True
    then show ?thesis using assms by (simp add: circ_def)
  next
    case False
    then have t: "t < n" "n \<le> t + 16" "n - t < 16" "0 < n - t" using that by simp_all
    have "n mod 16 \<noteq> t mod 16"
    proof
      assume "n mod 16 = t mod 16"
      then have "16 dvd n - t" using t(1) by (simp add: mod_eq_dvd_iff_nat)
      then show False using t(3,4) nat_dvd_not_less by blast
    qed
    with t(1,2) show ?thesis using assms by (simp add: circ_def)
  qed
  then show ?thesis using assms by (simp add: circ_def)
qed

lemma or_add_bytes8:
  fixes a b c d e f g h :: u8
  shows "push_bit 56 (ucast a :: u64) OR push_bit 48 (ucast b) OR push_bit 40 (ucast c) OR push_bit 32 (ucast d) OR push_bit 24 (ucast e) OR push_bit 16 (ucast f) OR push_bit 8 (ucast g) OR ucast h =
    ucast h + 256 * ucast g + 65536 * ucast f + 16777216 * ucast e + 4294967296 * ucast d + 1099511627776 * ucast c + 281474976710656 * ucast b + 72057594037927936 * ucast a"
proof -
  have "((ucast h :: u64)) + push_bit 8 (ucast g) = (ucast h :: u64) OR push_bit 8 (ucast g)"
    by (subst disjunctive_add_eq_or, rule bit_word_eqI) (auto simp: bit_simps or.assoc dest: bit_imp_le_length)
  moreover have "((ucast h :: u64) OR push_bit 8 (ucast g)) + push_bit 16 (ucast f) = (ucast h :: u64) OR push_bit 8 (ucast g) OR push_bit 16 (ucast f)"
    by (subst disjunctive_add_eq_or, rule bit_word_eqI) (auto simp: bit_simps or.assoc dest: bit_imp_le_length)
  moreover have "((ucast h :: u64) OR push_bit 8 (ucast g) OR push_bit 16 (ucast f)) + push_bit 24 (ucast e) = (ucast h :: u64) OR push_bit 8 (ucast g) OR push_bit 16 (ucast f) OR push_bit 24 (ucast e)"
    by (subst disjunctive_add_eq_or, rule bit_word_eqI) (auto simp: bit_simps or.assoc dest: bit_imp_le_length)
  moreover have "((ucast h :: u64) OR push_bit 8 (ucast g) OR push_bit 16 (ucast f) OR push_bit 24 (ucast e)) + push_bit 32 (ucast d) = (ucast h :: u64) OR push_bit 8 (ucast g) OR push_bit 16 (ucast f) OR push_bit 24 (ucast e) OR push_bit 32 (ucast d)"
    by (subst disjunctive_add_eq_or, rule bit_word_eqI) (auto simp: bit_simps or.assoc dest: bit_imp_le_length)
  moreover have "((ucast h :: u64) OR push_bit 8 (ucast g) OR push_bit 16 (ucast f) OR push_bit 24 (ucast e) OR push_bit 32 (ucast d)) + push_bit 40 (ucast c) = (ucast h :: u64) OR push_bit 8 (ucast g) OR push_bit 16 (ucast f) OR push_bit 24 (ucast e) OR push_bit 32 (ucast d) OR push_bit 40 (ucast c)"
    by (subst disjunctive_add_eq_or, rule bit_word_eqI) (auto simp: bit_simps or.assoc dest: bit_imp_le_length)
  moreover have "((ucast h :: u64) OR push_bit 8 (ucast g) OR push_bit 16 (ucast f) OR push_bit 24 (ucast e) OR push_bit 32 (ucast d) OR push_bit 40 (ucast c)) + push_bit 48 (ucast b) = (ucast h :: u64) OR push_bit 8 (ucast g) OR push_bit 16 (ucast f) OR push_bit 24 (ucast e) OR push_bit 32 (ucast d) OR push_bit 40 (ucast c) OR push_bit 48 (ucast b)"
    by (subst disjunctive_add_eq_or, rule bit_word_eqI) (auto simp: bit_simps or.assoc dest: bit_imp_le_length)
  moreover have "((ucast h :: u64) OR push_bit 8 (ucast g) OR push_bit 16 (ucast f) OR push_bit 24 (ucast e) OR push_bit 32 (ucast d) OR push_bit 40 (ucast c) OR push_bit 48 (ucast b)) + push_bit 56 (ucast a) = (ucast h :: u64) OR push_bit 8 (ucast g) OR push_bit 16 (ucast f) OR push_bit 24 (ucast e) OR push_bit 32 (ucast d) OR push_bit 40 (ucast c) OR push_bit 48 (ucast b) OR push_bit 56 (ucast a)"
    by (subst disjunctive_add_eq_or, rule bit_word_eqI) (auto simp: bit_simps or.assoc dest: bit_imp_le_length)
  ultimately have "push_bit 56 (ucast a :: u64) OR push_bit 48 (ucast b) OR push_bit 40 (ucast c) OR push_bit 32 (ucast d) OR push_bit 24 (ucast e) OR push_bit 16 (ucast f) OR push_bit 8 (ucast g) OR ucast h =
    (ucast h :: u64) + push_bit 8 (ucast g) + push_bit 16 (ucast f) + push_bit 24 (ucast e) + push_bit 32 (ucast d) + push_bit 40 (ucast c) + push_bit 48 (ucast b) + push_bit 56 (ucast a)" by (simp only: ac_simps)
  then show ?thesis by (simp add: push_bit_eq_mult ac_simps)
qed

lemma take_8: "8 \<le> length p \<Longrightarrow> take 8 p = [p ! 0, p ! 1, p ! 2, p ! 3, p ! 4, p ! 5, p ! 6, p ! 7]"
  by (intro nth_equalityI) (auto simp: less_Suc_eq numeral_eq_Suc)

lemma Uint64FromBeBytes_rcat: "8 \<le> length p \<Longrightarrow> Uint64FromBeBytes p = word_rcat (take 8 p)"
  by (simp only: take_8 Uint64FromBeBytes_def or_add_bytes8) (simp add: word_rcat_def)

lemma circ_first:
  assumes "circ M w n" "n < 16" "128 \<le> length p" "M = take 128 p"
  shows "circ M (w[n := Uint64FromBeBytes (drop (n * 8) p)]) (Suc n)"
proof -
  have "take 8 (drop (n * 8) p) = blk (8 * n) 8 M"
    using assms by (simp add: blk_def drop_take min_def mult.commute)
  moreover have "8 \<le> length (drop (n * 8) p)" using assms by simp
  ultimately have "Uint64FromBeBytes (drop (n * 8) p) = Wt512 M n"
    using assms(2) by (simp add: Uint64FromBeBytes_rcat Wt512.simps)
  from circ_set [OF assms(1) this] assms(2) show ?thesis by simp
qed

lemma circ_next:
  assumes c: "circ M w n" and n: "16 \<le> n"
  shows "circ M (Sha512ExtendMessage w n) (Suc n)" "Sha512ExtendMessage w n ! (n mod 16) = Wt512 M n"
proof -
  have w: "w ! ((n - k) mod 16) = Wt512 M (n - k)" if "0 < k" "k \<le> 16" for k
    using c n that by (simp add: circ_def)
  have "(n - 16) mod 16 = n mod 16" using n by (simp add: le_mod_geq [symmetric])
  then have "w ! (n mod 16) = Wt512 M (n - 16)" using w [of 16] by simp
  then have e: "w ! (n mod 16) + (SHA512_SSIG1 (w ! ((n - 2) mod 16)) + w ! ((n - 7) mod 16) +
      SHA512_SSIG0 (w ! ((n - 15) mod 16))) = Wt512 M n"
    using w [of 2] w [of 7] w [of 15] n by (simp add: Wt512.simps [of M n] sigma512 ac_simps)
  show "circ M (Sha512ExtendMessage w n) (Suc n)"
    unfolding Sha512ExtendMessage_def by (rule circ_set [OF c e])
  then show "Sha512ExtendMessage w n ! (n mod 16) = Wt512 M n" by (simp add: circ_def)
qed

lemma steps_first:
  assumes w: "length w = 16" and p: "128 \<le> length p" and k: "k \<le> 16"
  shows "\<exists>w'. foldl (step_first p) (w, v) [0..<k] = (w', foldl (fips512_round (take 128 p)) v [0..<k]) \<and>
    circ (take 128 p) w' k"
  using k
proof (induction k)
  case 0
  then show ?case using w by (simp add: circ_def)
next
  case (Suc k)
  then obtain w' where w': "foldl (step_first p) (w, v) [0..<k] = (w', foldl (fips512_round (take 128 p)) v [0..<k])"
    "circ (take 128 p) w' k" by auto
  have c: "circ (take 128 p) (w'[k := Uint64FromBeBytes (drop (k * 8) p)]) (Suc k)"
    using circ_first [OF w'(2) _ p refl] Suc.prems by simp
  then have "w'[k := Uint64FromBeBytes (drop (k * 8) p)] ! (k mod 16) = Wt512 (take 128 p) k"
    unfolding circ_def by simp
  then have "step_first p (w', u) k = (w'[k := Uint64FromBeBytes (drop (k * 8) p)], fips512_round (take 128 p) u k)" for u
    using Suc.prems by (simp add: step_first_def fips512_round_def)
  then show ?case using c w' by auto
qed

lemma steps_next:
  assumes c: "circ M w i" and i: "16 \<le> i" "i \<le> k"
  shows "\<exists>w'. foldl step_next (w, foldl (fips512_round M) v [0..<i]) [i..<k] = (w', foldl (fips512_round M) v [0..<k]) \<and>
    circ M w' k"
  using i(2)
proof (induction k rule: dec_induct)
  case base
  then show ?case using c by simp
next
  case (step k)
  then obtain w' where w': "foldl step_next (w, foldl (fips512_round M) v [0..<i]) [i..<k] = (w', foldl (fips512_round M) v [0..<k])"
    "circ M w' k" by auto
  note n = circ_next [OF w'(2)]
  have "16 \<le> k" using i step by simp
  then have "step_next (w', u) k = (Sha512ExtendMessage w' k, fips512_round M u k)" for u
    using n by (simp add: step_next_def fips512_round_def)
  then show ?case using w' n \<open>16 \<le> k\<close> step by auto
qed

lemma all_steps:
  assumes "length w = 16" "128 \<le> length p" "16 \<le> k"
  shows "\<exists>w'. foldl step_next (foldl (step_first p) (w, v) [0..<16]) [16..<k] = (w', foldl (fips512_round (take 128 p)) v [0..<k]) \<and>
    length w' = 16"
proof -
  obtain w1 where w1: "foldl (step_first p) (w, v) [0..<16] = (w1, foldl (fips512_round (take 128 p)) v [0..<16])"
    "circ (take 128 p) w1 16" using steps_first [OF assms(1,2) order_refl] by blast
  show ?thesis unfolding w1(1) using steps_next [OF w1(2) order_refl assms(3), of v] unfolding circ_def by blast
qed

lemma foldl_upt_join512:
  "i \<le> j \<Longrightarrow> j \<le> k \<Longrightarrow> foldl f (foldl f v [i..<j]) [j..<k] = foldl f v [i..<k]"
  by (metis foldl_append le_Suc_ex upt_add_eq_append)

lemma add_vars512_eq: "length H = 8 \<Longrightarrow>
  add_vars512 H v = (case v of (a, b, c, d, e, f, g, h) \<Rightarrow> map2 (+) H [a, b, c, d, e, f, g, h])"
  by (cases v, simp, rule nth_equalityI)
    (auto simp: add_vars512_def Let_def less_Suc_eq numeral_eq_Suc nth_list_update)

lemma CompressBlock512_fips:
  assumes "length w = 16" "length H = 8" "128 \<le> length p"
  shows "\<exists>w'. CompressBlock512 w H p = (w', fips512_compress H (take 128 p)) \<and> length w' = 16"
proof -
  have le: "(16::nat) \<le> 32" "(32::nat) \<le> 48" "(48::nat) \<le> 64" "(64::nat) \<le> 80" "(16::nat) \<le> 48" "(16::nat) \<le> 64"
    "(16::nat) \<le> 80" by simp_all
  have r: "rounds_next s 16 = foldl step_next s [16..<32]" "rounds_next s 32 = foldl step_next s [32..<48]"
    "rounds_next s 48 = foldl step_next s [48..<64]" "rounds_next s 64 = foldl step_next s [64..<80]" for s
    using rounds_next_steps [of 16 s] rounds_next_steps [of 32 s] rounds_next_steps [of 48 s] rounds_next_steps [of 64 s]
    by simp_all
  have l: "foldl rounds_next s [16, 32, 48, 64] = foldl step_next s [16..<80]" for s
    by (simp only: foldl.simps r foldl_upt_join512 [OF le(1,2)] foldl_upt_join512 [OF le(5,3)] foldl_upt_join512 [OF le(6,4)])
  obtain w' where "foldl step_next (foldl (step_first p) (w, load_vars512 H) [0..<16]) [16..<80] =
      (w', foldl (fips512_round (take 128 p)) (load_vars512 H) [0..<80])" "length w' = 16"
    using all_steps [OF assms(1,3) le(7), of "load_vars512 H"] by blast
  then show ?thesis
    by (simp only: CompressBlock512_def Let_def rounds_first_steps fips512_compress_def add_vars512_eq assms(2) prod.case l) blast
qed

text \<open>The small build keeps the eight variables in an array.\<close>

definition vars_list :: "sha512_vars \<Rightarrow> u64 list" where
  "vars_list v = (case v of (a, b, c, d, e, f, g, h) \<Rightarrow> [a, b, c, d, e, f, g, h])"

lemma Sha512Compress_round: "Sha512Compress (vars_list v) x k = vars_list (round512 v x k)"
proof -
  obtain a b c d e f g h where "v = (a, b, c, d, e, f, g, h)" by (metis surj_pair)
  then show ?thesis by (simp add: Sha512Compress_def vars_list_def round512_def Let_def sigma512)
qed

lemma foldl_simulation:
  assumes "\<And>s t. f (g s) t = g (h s t)"
  shows "foldl f (g s) ts = g (foldl h s ts)"
  by (induction ts arbitrary: s) (simp_all add: assms)

lemma small_first512_step: "small_first512 p (map_prod id vars_list s) t = map_prod id vars_list (step_first p s t)"
  by (cases s) (simp only: small_first512_def step_first_def map_prod_simp prod.case Let_def id_apply Sha512Compress_round)

lemma small_next512_step: "small_next512 (map_prod id vars_list s) t = map_prod id vars_list (step_next s t)"
  by (cases s) (simp only: small_next512_def step_next_def map_prod_simp prod.case Let_def id_apply Sha512Compress_round)

lemma upt_8_list: "[0..<8] = [0, 1, 2, 3, 4, 5, 6, (7::nat)]"
  by (simp add: upt_rec eval_nat_numeral)

lemma small_CompressBlock512_fips:
  assumes "length w = 16" "length st = 8" "length H = 8" "128 \<le> length p"
  shows "\<exists>w' st'. small_CompressBlock512 w st H p = (w', st', fips512_compress H (take 128 p)) \<and>
    length w' = 16 \<and> length st' = 8"
proof -
  have le: "(16::nat) \<le> 80" by simp
  have st: "foldl (\<lambda>state t. state[t := H ! t]) st [0..<8] = vars_list (load_vars512 H)"
    using assms(2) foldl_store [of 8 st "(!) H"]
    by (simp only: vars_list_def load_vars512_def prod.case drop_all order_refl append_Nil2) (simp only: upt_8_list list.map)
  have add: "foldl (\<lambda>hash t. hash[t := hash ! t + vars_list v ! t]) H [0..<8] = add_vars512 H v" for v
  proof -
    obtain a b c d e f g h where "v = (a, b, c, d, e, f, g, h)" by (metis surj_pair)
    then show ?thesis by (simp add: upt_8_list vars_list_def add_vars512_def Let_def)
  qed
  obtain w' where w': "foldl step_next (foldl (step_first p) (w, load_vars512 H) [0..<16]) [16..<80] =
      (w', foldl (fips512_round (take 128 p)) (load_vars512 H) [0..<80])" "length w' = 16"
    using all_steps [OF assms(1,4) le, of "load_vars512 H"] by blast
  let ?v = "foldl (fips512_round (take 128 p)) (load_vars512 H) [0..<80]"
  have first: "foldl (small_first512 p) (w, vars_list (load_vars512 H)) [0..<16] =
      map_prod id vars_list (foldl (step_first p) (w, load_vars512 H) [0..<16])"
    using foldl_simulation [of "small_first512 p", OF small_first512_step, of "(w, load_vars512 H)"]
    by (simp only: map_prod_simp id_def)
  have "foldl small_next512 (foldl (small_first512 p) (w, vars_list (load_vars512 H)) [0..<16]) [16..<80] = (w', vars_list ?v)"
    unfolding first foldl_simulation [of small_next512, OF small_next512_step] w'(1) by (simp only: map_prod_simp id_apply)
  then have "small_CompressBlock512 w st H p = (w', vars_list ?v, add_vars512 H ?v)"
    by (simp only: small_CompressBlock512_def Let_def st prod.case add)
  moreover have "add_vars512 H ?v = fips512_compress H (take 128 p)"
    by (simp only: fips512_compress_def Let_def add_vars512_eq [OF assms(3)])
  moreover have "length (vars_list v) = 8" for v by (simp add: vars_list_def split: prod.split)
  ultimately show ?thesis using w'(2) by (intro exI [of _ w'] exI [of _ "vars_list ?v"] conjI) (simp_all only:)
qed

end
