(* ===== verification/Sha512_Stream.thy ===== *)
theory Sha512_Stream
  imports Sha512_Correct
begin

text \<open>
  SHA-512 and SHA-384 contexts hold the message they were given in pieces, keep the contract of a table
  of hash functions for messages of less than \<open>2\<^sup>1\<^sup>2\<^sup>5\<close> bytes, and compute the digests of the standard.
\<close>

lemma length_fips512_compress [simp]: "length H = 8 \<Longrightarrow> length (fips512_compress H M) = 8"
  by (simp add: fips512_compress_def split: prod.split)

lemma CompressMultiBlocks512_loop:
  "length w = 16 \<Longrightarrow> length hash = 8 \<Longrightarrow> n * 128 \<le> length p \<Longrightarrow>
   SHA512CompressMultiBlocks_loop w hash p n = absorb 128 fips512_compress hash (take (n * 128) p)"
proof (induction n arbitrary: w hash p)
  case (Suc n)
  obtain w' where "CompressBlock512 w hash p = (w', fips512_compress hash (take 128 p))" "length w' = 16"
    using CompressBlock512_fips [of w hash p] Suc.prems by auto
  moreover have "take (Suc n * 128) p = take 128 p @ take (n * 128) (drop 128 p)" by (simp add: take_add)
  ultimately show ?case using Suc by (simp add: absorb_block)
qed simp

lemma small_CompressMultiBlocks512_absorb:
  "length w = 16 \<Longrightarrow> length st = 8 \<Longrightarrow> length hash = 8 \<Longrightarrow> n * 128 \<le> length p \<Longrightarrow>
   small_CompressMultiBlocks512 w st hash p n = absorb 128 fips512_compress hash (take (n * 128) p)"
proof (induction n arbitrary: w st hash p)
  case (Suc n)
  obtain w' st' where "small_CompressBlock512 w st hash p = (w', st', fips512_compress hash (take 128 p))"
    "length w' = 16" "length st' = 8" using small_CompressBlock512_fips [of w st hash p] Suc.prems by auto
  moreover have "take (Suc n * 128) p = take 128 p @ take (n * 128) (drop 128 p)" by (simp add: take_add)
  ultimately show ?case using Suc by (simp add: absorb_block)
qed simp

lemma CompressMultiBlocks512_absorb:
  "length hash = 8 \<Longrightarrow> n * 128 \<le> length p \<Longrightarrow>
   SHA512CompressMultiBlocks hash p n = absorb 128 fips512_compress hash (take (n * 128) p)"
  by (simp add: SHA512CompressMultiBlocks_def CompressMultiBlocks512_loop)

lemma CompressMultiBlocks512_one:
  "length hash = 8 \<Longrightarrow> length p = 128 \<Longrightarrow> SHA512CompressMultiBlocks hash p (Suc 0) = fips512_compress hash p"
  by (simp add: CompressMultiBlocks512_absorb absorb_one)

section \<open>The length counter\<close>

definition bit_count512 :: "CRYPT_SHA2_512_Ctx \<Rightarrow> nat" where
  "bit_count512 ctx = unat (hNum512 ctx) * 2 ^ 64 + unat (lNum512 ctx)"

lemma unat_u64_less: "unat (x :: u64) < 2 ^ 64"
  using unsigned_less [where 'a = nat, of x] by simp

lemma Add128Bit_small:
  assumes "N = unat hh * 2 ^ 64 + unat l + unat x"
  shows "if N < 2 ^ 128 then \<exists>hn ln. Add128Bit hh l 0 x = Some (hn, ln) \<and> unat hn * 2 ^ 64 + unat ln = N
    else Add128Bit hh l 0 x = None"
proof (cases "l + x < l")
  case True
  then have lx: "unat (l + x) + 2 ^ 64 = unat l + unat x" using unat_add_carry [of l x] by (auto split: if_splits)
  show ?thesis
  proof (cases "hh + 1 \<le> hh")
    case ov: True
    then have "unat hh + 1 = 2 ^ 64"
      using unat_add_carry(2) [of hh 1] unat_u64_less [of hh] by (auto simp: word_le_nat_alt split: if_splits)
    then have "2 ^ 128 \<le> N" using assms lx by simp
    then show ?thesis using True ov by (simp add: Add128Bit_def Let_def)
  next
    case False
    then have h1: "unat (hh + 1) = unat hh + 1"
      using unat_add_carry(2) [of hh 1] unat_u64_less [of hh] by (auto simp: word_le_nat_alt split: if_splits)
    have "unat (hh + 1) < 2 ^ 64" "unat (l + x) < 2 ^ 64" by (rule unat_u64_less)+
    then have "N < 2 ^ 128" "unat (hh + 1) * 2 ^ 64 + unat (l + x) = N" using assms lx h1 by simp_all
    then show ?thesis using True False by (simp add: Add128Bit_def Let_def)
  qed
next
  case False
  then have "unat (l + x) = unat l + unat x" "unat l + unat x < 2 ^ 64" using unat_add_carry [of l x] by simp_all
  moreover from this have "N < 2 ^ 128" using assms unat_u64_less [of hh] by simp
  ultimately show ?thesis using assms False by (simp add: Add128Bit_def Let_def)
qed

lemma unat_shift3: "unat (push_bit 3 (ucast (n :: u32) :: u64)) = 8 * unat n"
proof -
  have "unat n < 2 ^ 32" using unsigned_less [where 'a = nat, of n] by simp
  then show ?thesis by (simp add: push_bit_eq_mult unat_word_ariths unsigned_ucast_eq take_bit_eq_mod mult.commute)
qed

lemma CheckIsCorrupted512_cases:
  assumes "N = bit_count512 ctx + 8 * unat nbytes"
  shows "if N < 2 ^ 128
    then \<exists>hn ln. CheckIsCorrupted512 ctx nbytes = (CRYPT_SUCCESS, ctx\<lparr>hNum512 := hn, lNum512 := ln\<rparr>) \<and>
           unat hn * 2 ^ 64 + unat ln = N
    else CheckIsCorrupted512 ctx nbytes =
           (CRYPT_SHA2_INPUT_OVERFLOW, ctx\<lparr>errorCode512 := CRYPT_SHA2_INPUT_OVERFLOW\<rparr>)"
proof -
  have "N = unat (hNum512 ctx) * 2 ^ 64 + unat (lNum512 ctx) + unat (push_bit 3 (ucast nbytes :: u64))"
    using assms by (simp add: bit_count512_def unat_shift3)
  note A = Add128Bit_small [OF this]
  show ?thesis
  proof (cases "N < 2 ^ 128")
    case True
    then obtain hn ln where "Add128Bit (hNum512 ctx) (lNum512 ctx) 0 (push_bit 3 (ucast nbytes)) = Some (hn, ln)"
      "unat hn * 2 ^ 64 + unat ln = N" using A by auto
    then have "CheckIsCorrupted512 ctx nbytes = (CRYPT_SUCCESS, ctx\<lparr>hNum512 := hn, lNum512 := ln\<rparr>) \<and>
      unat hn * 2 ^ 64 + unat ln = N" by (simp add: CheckIsCorrupted512_def)
    then show ?thesis using True by auto
  next
    case False
    then show ?thesis using A by (simp add: CheckIsCorrupted512_def)
  qed
qed

section \<open>Contexts that hold a message\<close>

definition buffered512 :: "u64 list \<Rightarrow> CRYPT_SHA2_512_Ctx \<Rightarrow> bytes \<Rightarrow> bool" where
  "buffered512 iv ctx msg \<longleftrightarrow>
     length iv = 8 \<and> holds 128 fips512_compress iv (h512 ctx) (block512 ctx) (num512 ctx) msg"

definition absorbed512 :: "u64 list \<Rightarrow> nat \<Rightarrow> CRYPT_SHA2_512_Ctx \<Rightarrow> bytes \<Rightarrow> bool" where
  "absorbed512 iv l ctx msg \<longleftrightarrow> buffered512 iv ctx msg \<and> bit_count512 ctx = 8 * length msg \<and> mdlen512 ctx = l \<and>
     errorCode512 ctx = CRYPT_SUCCESS"

lemma length_absorb_fips512 [simp]: "length iv = 8 \<Longrightarrow> length (absorb 128 fips512_compress iv msg) = 8"
  by (rule absorb_inv) simp_all

lemma Update_blocks512_rest:
  assumes iv: "length (h512 ctx) = 8" and b: "length (block512 ctx) = 128" "num512 ctx = 0" and d: "left \<le> length d"
  shows "\<exists>hh bb n. Update_blocks512 ctx d left = ctx\<lparr>h512 := hh, block512 := bb, num512 := n\<rparr> \<and>
    holds 128 fips512_compress (h512 ctx) hh bb n (take left d)"
proof -
  let ?D = "take left d" and ?k = "left div 128 * 128"
  have k: "?k \<le> left" by simp
  have lenD: "length ?D = left" using d by simp
  have whole: "absorb 128 fips512_compress (h512 ctx) (take ?k d) = absorb 128 fips512_compress (h512 ctx) ?D"
    using absorb_whole_part [of 128 fips512_compress "h512 ctx" ?D] d k by (simp add: min_absorb1 min_absorb2)
  have "left - left mod 128 = ?k" by (simp add: minus_mod_eq_div_mult)
  then have rest: "take (left mod 128) (drop (left - left mod 128) d) = leftover 128 ?D"
    using d by (simp add: leftover_def min_def drop_take minus_div_mult_eq_mod)
  have U: "Update_blocks512 ctx d left = ctx\<lparr>h512 := absorb 128 fips512_compress (h512 ctx) ?D,
      block512 := (if left mod 128 \<noteq> 0 then memcpy_at (block512 ctx) 0 (leftover 128 ?D) else block512 ctx),
      num512 := left mod 128\<rparr>"
    using b(2) iv d k whole rest by (simp add: Update_blocks512_def Let_def CompressMultiBlocks512_absorb)
  have "holds 128 fips512_compress (h512 ctx) (absorb 128 fips512_compress (h512 ctx) ?D)
      (if left mod 128 \<noteq> 0 then memcpy_at (block512 ctx) 0 (leftover 128 ?D) else block512 ctx) (left mod 128) ?D"
    using holds_rest [of 128 "block512 ctx" fips512_compress "h512 ctx" ?D] b(1) unfolding lenD by simp
  then show ?thesis using U by blast
qed

lemma Update_body512_buffered:
  assumes buf: "buffered512 iv ctx msg" and l: "left < 2 ^ 32" and d: "left \<le> length d"
  shows "\<exists>hh bb n. Update_body512 ctx d left = ctx\<lparr>h512 := hh, block512 := bb, num512 := n\<rparr> \<and>
    buffered512 iv (Update_body512 ctx d left) (msg @ take left d)"
proof -
  let ?D = "take left d" and ?n = "num512 ctx"
  have h: "holds 128 fips512_compress iv (h512 ctx) (block512 ctx) ?n msg" and iv: "length iv = 8"
    using buf by (simp_all add: buffered512_def)
  have n: "?n < 128" "length (block512 ctx) = 128" and lh: "length (h512 ctx) = 8" using h iv by (auto simp: holds_def)
  have sub: "u32_sub 128 ?n = 128 - ?n" using n by (simp add: u32_sub_le)
  have lenD: "length ?D = left" using d by simp
  consider (part) "left < 128 - ?n" | (fill) "128 - ?n \<le> left" "?n \<noteq> 0" | (none) "128 - ?n \<le> left" "?n = 0"
    by linarith
  then show ?thesis
  proof cases
    case part
    then have U: "Update_body512 ctx d left =
        ctx\<lparr>h512 := h512 ctx, block512 := memcpy_at (block512 ctx) ?n ?D, num512 := ?n + left\<rparr>"
      by (simp add: Update_body512_def Let_def sub)
    have "buffered512 iv (Update_body512 ctx d left) (msg @ ?D)"
      using holds_part [OF h, of ?D] part lenD iv by (simp add: U buffered512_def)
    then show ?thesis using U by blast
  next
    case fill
    let ?m = "128 - ?n"
    let ?p = "take ?n (block512 ctx) @ take ?m ?D"
    define ctx1 where "ctx1 = ctx\<lparr>block512 := ?p, num512 := 0, h512 := fips512_compress (h512 ctx) ?p\<rparr>"
    have D: "take (left - ?m) (drop ?m d) = drop ?m ?D" "take ?m d = take ?m ?D"
      using fill by (simp_all add: drop_take min_def)
    have p: "memcpy_at (block512 ctx) ?n (take ?m d) = ?p"
      unfolding D(2) [symmetric] using fill d n by (simp add: memcpy_at_def)
    have lp: "length ?p = 128" using fill d n by simp
    then have "SHA512CompressMultiBlocks (h512 ctx) ?p (Suc 0) = fips512_compress (h512 ctx) ?p"
      by (rule CompressMultiBlocks512_one [OF lh])
    then have U: "Update_body512 ctx d left = Update_blocks512 ctx1 (drop ?m d) (left - ?m)"
      using fill l by (simp add: Update_body512_def Let_def sub p ctx1_def u32_sub_le)
    have "length (h512 ctx1) = 8" "length (block512 ctx1) = 128" "num512 ctx1 = 0" using lh lp by (simp_all add: ctx1_def)
    moreover have "left - ?m \<le> length (drop ?m d)" using d by (simp only: length_drop diff_le_mono)
    ultimately obtain hh bb k where R: "Update_body512 ctx d left = ctx1\<lparr>h512 := hh, block512 := bb, num512 := k\<rparr>"
      "holds 128 fips512_compress (h512 ctx1) hh bb k (drop ?m ?D)"
      unfolding U D(1) [symmetric] using Update_blocks512_rest by blast
    have "holds 128 fips512_compress iv hh bb k (msg @ ?D)"
      using R(2) fill(1) lenD by (intro holds_fill [OF h]) (simp_all add: ctx1_def)
    then show ?thesis unfolding R(1) using iv by (auto simp: buffered512_def ctx1_def)
  next
    case none
    from Update_blocks512_rest [OF lh n(2) none(2) d] obtain hh bb k where
      R: "Update_blocks512 ctx d left = ctx\<lparr>h512 := hh, block512 := bb, num512 := k\<rparr>"
        "holds 128 fips512_compress (h512 ctx) hh bb k ?D" by blast
    have U: "Update_body512 ctx d left = Update_blocks512 ctx d left"
      using none sub by (simp add: Update_body512_def Let_def)
    show ?thesis unfolding U R(1) using holds_whole [OF h [unfolded none(2)] R(2)] iv by (auto simp: buffered512_def)
  qed
qed

lemma Update512_pointer:
  assumes abs: "absorbed512 iv l ctx msg" and d: "ptr_ok p (unat nbytes)" and N: "length msg + unat nbytes < 2 ^ 125"
  shows "\<exists>ctx'. CRYPT_SHA2_512_Update (Some ctx) p nbytes = (CRYPT_SUCCESS, Some ctx') \<and>
    absorbed512 iv l ctx' (msg @ ptr_bytes p (unat nbytes))"
proof -
  have "8 * (length msg + unat nbytes) < 2 ^ 128" using N by simp
  then obtain hn ln where C: "CheckIsCorrupted512 ctx nbytes = (CRYPT_SUCCESS, ctx\<lparr>hNum512 := hn, lNum512 := ln\<rparr>)"
    and cnt: "unat hn * 2 ^ 64 + unat ln = 8 * (length msg + unat nbytes)"
    using CheckIsCorrupted512_cases [OF refl, of ctx nbytes] abs by (auto simp: absorbed512_def)
  let ?c = "ctx\<lparr>hNum512 := hn, lNum512 := ln\<rparr>"
  have U: "UpdateParamIsValid512 (Some ctx) p nbytes = (CRYPT_SUCCESS, Some ?c)"
    using abs C d by (cases p) (simp_all add: UpdateParamIsValid512_def absorbed512_def unat_eq_zero)
  show ?thesis
  proof (cases "nbytes = 0")
    case True
    then have "ptr_bytes p (unat nbytes) = []" by (cases p) simp_all
    then show ?thesis
      using U abs cnt True by (auto simp: CRYPT_SHA2_512_Update_def absorbed512_def buffered512_def bit_count512_def)
  next
    case False
    then obtain dd where dd: "p = Some dd" "unat nbytes \<le> length dd" using d by (cases p) (simp_all add: unat_eq_zero)
    have "buffered512 iv ?c msg" using abs by (auto simp: absorbed512_def buffered512_def)
    moreover have "unat nbytes < 2 ^ 32" using unsigned_less [where 'a = nat, of nbytes] by simp
    ultimately obtain hh bb n where "Update_body512 ?c dd (unat nbytes) = ?c\<lparr>h512 := hh, block512 := bb, num512 := n\<rparr>"
      "buffered512 iv (Update_body512 ?c dd (unat nbytes)) (msg @ take (unat nbytes) dd)"
      using Update_body512_buffered [OF _ _ dd(2)] by blast
    then show ?thesis
      using U False abs cnt dd by (auto simp: CRYPT_SHA2_512_Update_def absorbed512_def bit_count512_def min_def)
  qed
qed

section \<open>The digest\<close>

definition fips_sha512 :: "u64 list \<Rightarrow> nat \<Rightarrow> bytes \<Rightarrow> bytes" where
  "fips_sha512 iv l msg =
     take l (concat (map (be_nat 8 \<circ> unat) (absorb 128 fips512_compress iv (md_pad 128 16 msg))))"

lemma be_nat_8: "be_nat 8 x = be_nat 4 (x div 2 ^ 32) @ be_nat 4 x"
  using be_nat_split [of 4 4 x] by simp

lemma Uint64ToBeBytes_nat: "Uint64ToBeBytes v = be_nat 8 (unat v)"
proof -
  have "(ucast (v AND 0xff) :: u8) = ucast (drop_bit 0 v)"
  proof -
    have m: "(0xff :: u64) = mask 8" by (simp add: mask_eq_exp_minus_1)
    show ?thesis unfolding m take_bit_eq_mask [symmetric] by (intro bit_word_eqI) (simp add: bit_simps)
  qed
  then show ?thesis
    unfolding Uint64ToBeBytes_def be_nat_8 be_nat_4 by (simp only: ucast_drop_bit_nat div_mult2_eq [symmetric])
      (simp add: div_mult2_eq [symmetric])
qed

lemma length_Uint64ToBeBytes [simp]: "length (Uint64ToBeBytes v) = 8"
  by (simp add: Uint64ToBeBytes_def)

lemma Final_body512_pad:
  assumes abs: "absorbed512 iv l ctx msg"
  shows "h512 (Final_body512 ctx) = absorb 128 fips512_compress iv (md_pad 128 16 msg)" "mdlen512 (Final_body512 ctx) = l"
proof -
  let ?n = "num512 ctx"
  have h: "holds 128 fips512_compress iv (h512 ctx) (block512 ctx) ?n msg" and iv: "length iv = 8"
    and cnt: "unat (hNum512 ctx) * 2 ^ 64 + unat (lNum512 ctx) = 8 * length msg" and out: "mdlen512 ctx = l"
    using abs by (auto simp: absorbed512_def buffered512_def bit_count512_def)
  have bl: "length (block512 ctx) = 128" and lh: "length (h512 ctx) = 8" and n128: "?n < 128"
    using h iv by (auto simp: holds_def)
  have len16: "be_nat 16 (8 * length msg) = Uint64ToBeBytes (hNum512 ctx) @ Uint64ToBeBytes (lNum512 ctx)"
    using be_nat_append [of "unat (lNum512 ctx)" 8 8 "unat (hNum512 ctx)"] cnt unat_u64_less [of "lNum512 ctx"]
    by (simp add: Uint64ToBeBytes_nat)
  define put where "put = (\<lambda>p. memcpy_at (memcpy_at p 112 (Uint64ToBeBytes (hNum512 ctx))) 120 (Uint64ToBeBytes (lNum512 ctx)))"
  have put: "put p = take 112 p @ be_nat 16 (8 * length msg)" if "length p = 128" for p
    using that by (simp add: put_def len16 memcpy_at_def)
  show "h512 (Final_body512 ctx) = absorb 128 fips512_compress iv (md_pad 128 16 msg)"
  proof (cases "?n + 1 > 112")
    case True
    let ?p = "memcpy_at ((block512 ctx)[?n := 0x80]) (?n + 1) (replicate (128 - (?n + 1)) 0)"
    have lp: "length ?p = 128" using n128 bl by simp
    then have "put (memcpy_at ?p 0 (replicate 112 0)) = replicate 112 0 @ be_nat 16 (8 * length msg)"
      by (subst put) (simp_all add: memcpy_at_def)
    moreover have "h512 (Final_body512 ctx) = SHA512CompressMultiBlocks
        (SHA512CompressMultiBlocks (h512 ctx) ?p (Suc 0)) (put (memcpy_at ?p 0 (replicate 112 0))) (Suc 0)"
      using True by (simp add: Final_body512_def Let_def put_def)
    ultimately show ?thesis
      using lh lp True holds_pad_two [OF h, of 16] by (simp add: CompressMultiBlocks512_one)
  next
    case False
    let ?p = "memcpy_at ((block512 ctx)[?n := 0x80]) (?n + 1) (replicate (112 - (?n + 1)) 0)"
    have lp: "length ?p = 128" using False bl by simp
    have "h512 (Final_body512 ctx) = SHA512CompressMultiBlocks (h512 ctx) (put ?p) (Suc 0)"
      using False by (simp add: Final_body512_def Let_def put_def)
    then show ?thesis
      using lh lp False holds_pad_one [OF h, of 16] put [OF lp] by (simp add: CompressMultiBlocks512_one)
  qed
  show "mdlen512 (Final_body512 ctx) = l" using out by (simp add: Final_body512_def Let_def split: prod.split)
qed

lemma Final_output512_concat:
  assumes "8 * k \<le> length out" "k \<le> length hs"
  shows "foldl (\<lambda>out i. memcpy_at out (8 * i) (Uint64ToBeBytes (hs ! i))) out [0..<k] =
    concat (map (be_nat 8 \<circ> unat) (take k hs)) @ drop (8 * k) out"
  using assms
proof (induction k)
  case (Suc k)
  let ?c = "concat (map (be_nat 8 \<circ> unat) (take k hs))"
  have c: "length ?c = 8 * k" using Suc.prems by (simp add: length_concat comp_def sum_list_triv min_def)
  have "memcpy_at (?c @ drop (8 * k) out) (8 * k) (Uint64ToBeBytes (hs ! k)) =
      ?c @ be_nat 8 (unat (hs ! k)) @ drop (8 * Suc k) out"
    using c Suc.prems by (simp add: memcpy_at_def Uint64ToBeBytes_nat add.commute)
  then show ?case using Suc by (simp add: take_Suc_conv_app_nth comp_def)
qed simp

lemma length_concat_be8: "length (concat (map (be_nat 8 \<circ> unat) hs)) = 8 * length hs"
  by (induction hs) simp_all

lemma take_concat_be8:
  "take (8 * k) (concat (map (be_nat 8 \<circ> unat) hs)) = concat (map (be_nat 8 \<circ> unat) (take k hs))"
proof (induction hs arbitrary: k)
  case (Cons a hs)
  then show ?case by (cases k) simp_all
qed simp

lemma Final512_absorbed:
  assumes abs: "absorbed512 iv (8 * k) ctx msg" and k: "k \<le> 8" and out: "8 * k \<le> length out" "8 * k \<le> l"
  shows "CRYPT_SHA2_512_Final (Some ctx) (Some out) (Some l) =
    (CRYPT_SUCCESS, Some (Final_body512 ctx), Some (fips_sha512 iv (8 * k) msg @ drop (8 * k) out), Some (8 * k))"
proof -
  have iv: "length iv = 8" using abs by (simp add: absorbed512_def buffered512_def)
  have "drop_bit 3 (8 * k) = k" by (simp add: drop_bit_eq_div)
  then show ?thesis
    using Final_body512_pad [OF abs] abs out k iv
    by (simp add: CRYPT_SHA2_512_Final_def FinalParamIsValid512_def absorbed512_def Let_def Final_output512_def
        Final_output512_concat fips_sha512_def take_concat_be8)
qed

section \<open>The contract of the interface\<close>

definition SHA512_INIT_STATE :: "u64 list" where
  "SHA512_INIT_STATE =
    [0x6a09e667f3bcc908, 0xbb67ae8584caa73b, 0x3c6ef372fe94f82b, 0xa54ff53a5f1d36f1,
     0x510e527fade682d1, 0x9b05688c2b3e6c1f, 0x1f83d9abfb41bd6b, 0x5be0cd19137e2179]"

definition SHA384_INIT_STATE :: "u64 list" where
  "SHA384_INIT_STATE =
    [0xcbbb9d5dc1059ed8, 0x629a292a367cd507, 0x9159015a3070dd17, 0x152fecd8f70e5939,
     0x67332667ffc00b31, 0x8eb44a8768581511, 0xdb0c2e0d64f98fa7, 0x47b5481dbefa4fa4]"

lemma absorbed512_start: "length iv = 8 \<Longrightarrow> absorbed512 iv l (zero_ctx512\<lparr>h512 := iv, mdlen512 := l\<rparr>) []"
  by (simp add: absorbed512_def buffered512_def holds_def zero_ctx512_def bit_count512_def)

lemma length_fips_sha512: "length iv = 8 \<Longrightarrow> k \<le> 8 \<Longrightarrow> length (fips_sha512 iv (8 * k) msg) = 8 * k"
  by (simp add: fips_sha512_def length_concat_be8)

lemmas sha512_methods = g_mdMethod_SHA2_512_def g_mdMethod_SHA2_384_def CRYPT_SHA2_512_NewCtx_def
  CRYPT_SHA2_512_Init_def CRYPT_SHA2_384_Init_def CRYPT_SHA2_512_Deinit_def CRYPT_SHA2_512_CopyCtx_def
  SHA512_INIT_STATE_def SHA384_INIT_STATE_def

lemma sha512_contract:
  assumes iv: "length iv = 8" and k: "0 < k" "k \<le> 8"
    and init: "\<And>c. init (Some c) = (CRYPT_SUCCESS, Some (zero_ctx512\<lparr>h512 := iv, mdlen512 := 8 * k\<rparr>))"
    and m: "m = g_mdMethod_SHA2_512\<lparr>mdSize := 8 * k, mdInit := Some init\<rparr>"
  shows "md_method m (absorbed512 iv (8 * k)) (fips_sha512 iv (8 * k)) (2 ^ 125) CRYPT_SHA2_512_NewCtx init
    CRYPT_SHA2_512_Update CRYPT_SHA2_512_Final CRYPT_SHA2_512_Deinit CRYPT_SHA2_512_CopyCtx"
proof unfold_locales
  fix c
  show "\<exists>c'. init (Some c) = (CRYPT_SUCCESS, Some c') \<and> absorbed512 iv (8 * k) c' []"
    using absorbed512_start [OF iv] init by auto
next
  fix c msg out l
  show "absorbed512 iv (8 * k) c msg \<Longrightarrow> length msg < 2 ^ 125 \<Longrightarrow> mdSize m \<le> length out \<Longrightarrow> mdSize m \<le> l \<Longrightarrow>
    \<exists>c'. CRYPT_SHA2_512_Final (Some c) (Some out) (Some l) =
      (CRYPT_SUCCESS, Some c', Some (fips_sha512 iv (8 * k) msg @ drop (mdSize m) out), Some (mdSize m))"
    using Final512_absorbed [of iv k c msg out l] k m by simp
next
  fix msg
  show "length (fips_sha512 iv (8 * k) msg) = mdSize m" using length_fips_sha512 [OF iv k(2)] m by simp
qed (erule (2) Update512_pointer | use k m in \<open>simp add: sha512_methods\<close>)+

interpretation sha512_md: md_method g_mdMethod_SHA2_512 "absorbed512 SHA512_INIT_STATE (8 * 8)"
  "fips_sha512 SHA512_INIT_STATE (8 * 8)" "2 ^ 125" CRYPT_SHA2_512_NewCtx CRYPT_SHA2_512_Init CRYPT_SHA2_512_Update
  CRYPT_SHA2_512_Final CRYPT_SHA2_512_Deinit CRYPT_SHA2_512_CopyCtx
  by (rule sha512_contract) (simp_all add: sha512_methods)

interpretation sha384_md: md_method g_mdMethod_SHA2_384 "absorbed512 SHA384_INIT_STATE (8 * 6)"
  "fips_sha512 SHA384_INIT_STATE (8 * 6)" "2 ^ 125" CRYPT_SHA2_512_NewCtx CRYPT_SHA2_384_Init CRYPT_SHA2_512_Update
  CRYPT_SHA2_512_Final CRYPT_SHA2_512_Deinit CRYPT_SHA2_512_CopyCtx
  by (rule sha512_contract) (simp_all add: sha512_methods)

section \<open>Properties\<close>

text \<open>C38. A message handed over to SHA-512 or SHA-384 in any pieces of less than \<open>2\<^sup>3\<^sup>2\<close> bytes: every call
  succeeds, and the final call stores in the caller's buffer the digest the standard defines of the whole
  message and leaves the rest of the buffer as it was. The compression with a circular message schedule of
  sixteen words that renames its variables, the one of the small build that moves them in an array, and
  the compression of the standard give the same state over any number of blocks.\<close>

theorem sha512_stream_digest:
  assumes "list_all (\<lambda>d. length d < 2 ^ 32) ds" "length (concat ds) < 2 ^ 125"
    and "64 \<le> length out" "64 \<le> l"
    and "length w = 16" "length st = 8" "length H = 8" "n * 128 \<le> length p"
  shows "(\<exists>c1 c2 c3. CRYPT_SHA2_512_Init (Some c) = (CRYPT_SUCCESS, Some c1) \<and>
      run_updates CRYPT_SHA2_512_Update (Some c1) ds = (CRYPT_SUCCESS, Some c2) \<and>
      CRYPT_SHA2_512_Final (Some c2) (Some out) (Some l) =
        (CRYPT_SUCCESS, Some c3, Some (fips_sha512 SHA512_INIT_STATE 64 (concat ds) @ drop 64 out), Some 64)) \<and>
    (\<exists>c1 c2 c3. CRYPT_SHA2_384_Init (Some c) = (CRYPT_SUCCESS, Some c1) \<and>
      run_updates CRYPT_SHA2_512_Update (Some c1) ds = (CRYPT_SUCCESS, Some c2) \<and>
      CRYPT_SHA2_512_Final (Some c2) (Some out) (Some l) =
        (CRYPT_SUCCESS, Some c3, Some (fips_sha512 SHA384_INIT_STATE 48 (concat ds) @ drop 48 out), Some 48)) \<and>
    SHA512CompressMultiBlocks H p n = absorb 128 fips512_compress H (take (n * 128) p) \<and>
    small_CompressMultiBlocks512 w st H p n = absorb 128 fips512_compress H (take (n * 128) p)"
  using sha512_md.stream_digest [OF assms(1,2), of out l c] sha384_md.stream_digest [OF assms(1,2), of out l c] assms(3-)
  by (simp add: g_mdMethod_SHA2_512_def g_mdMethod_SHA2_384_def CompressMultiBlocks512_absorb
      small_CompressMultiBlocks512_absorb)

theorem sha512_stream_digest_witness:
  "(\<exists>c1 c2 c3. CRYPT_SHA2_384_Init (Some zero_ctx512) = (CRYPT_SUCCESS, Some c1) \<and>
      run_updates CRYPT_SHA2_512_Update (Some c1) [[0x61], [], [0x62, 0x63]] = (CRYPT_SUCCESS, Some c2) \<and>
      CRYPT_SHA2_512_Final (Some c2) (Some (replicate 64 1)) (Some 64) =
        (CRYPT_SUCCESS, Some c3, Some (fips_sha512 SHA384_INIT_STATE 48 [0x61, 0x62, 0x63] @ replicate 16 1), Some 48)) \<and>
    small_CompressMultiBlocks512 (replicate 16 3) (replicate 8 4) SHA512_INIT_STATE (replicate 256 7) 2 =
      absorb 128 fips512_compress SHA512_INIT_STATE (replicate 256 7)"
  using sha512_stream_digest [of "[[0x61], [], [0x62, 0x63]]" "replicate 64 1" 64 "replicate 16 3" "replicate 8 4"
      SHA512_INIT_STATE 2 "replicate 256 7" zero_ctx512]
  by (simp add: SHA512_INIT_STATE_def del: small_CompressMultiBlocks512.simps)

end
