(* ===== verification/Spec2Isabelle.thy ===== *)
theory Spec2Isabelle
  imports Base64_Stream Tlv Err_Correct Anti_Replay Conn_Correct Bn_Mod_Correct Hmac_Sha256 Sha512_Stream
begin

text \<open>
  Verification of openHiTLS, a TLS and cryptography library in C.

  \<^bold>\<open>The program.\<close> A base library \<^verbatim>\<open>bsl\<close> (bytes, Base64, TLV, error stacks, lists, hash tables, ASN.1, I/O),
  a cryptography library \<^verbatim>\<open>crypto\<close> (big numbers, ciphers, hashes, public keys, providers), a certificate
  library \<^verbatim>\<open>pki\<close>, the protocol library \<^verbatim>\<open>tls\<close> and authentication protocols \<^verbatim>\<open>auth\<close>. Every layer reports
  failures through the error stacks of \<^verbatim>\<open>bsl/err\<close>. In \<^verbatim>\<open>tls\<close> a connection (\<^verbatim>\<open>tls/cm\<close>) is a state machine
  that calls the handshake and the record layer; these report errors to it by return codes and by the
  one pending alert of the alert module; the change-cipher-spec module switches the read keys; the
  record layer filters replayed datagrams.

  \<^bold>\<open>Theories, bottom up.\<close>

  \<^item> \<open>Prelude\<close>: C integer types, copying into arrays, \<open>repeat_round\<close> (a loop that may run for ever:
    \<open>None\<close> is not returning), return codes of \<^verbatim>\<open>bsl\<close>.

  \<^item> \<open>Bytes\<close> (\<^verbatim>\<open>bsl/include/bsl_bytes.h\<close>): conversions and constant-time primitives.

  \<^item> \<open>Base64\<close>, \<open>Base64_Correct\<close>, \<open>Base64_Stream\<close> (\<^verbatim>\<open>bsl/base64\<close>): the coder function by function; the round
    trip, the accepted language, and that streaming over any chunking equals the one-shot functions.

  \<^item> \<open>Tlv\<close> (\<^verbatim>\<open>bsl/tlv\<close>): packing, parsing and searching records; parsing stays inside its input.

  \<^item> \<open>Avl\<close> (\<^verbatim>\<open>bsl/err/src/avl.c\<close>): the balanced tree, a tree value with the stored 32-bit heights. The
    locale \<open>keyed_store\<close> is the contract the error module relies on; the tree is its instance as long
    as it has at most \<open>2\<^sup>3\<^sup>2 - 1\<close> nodes, which bounds the height below 64.

  \<^item> \<open>Err_Stack\<close>, \<open>Err_Correct\<close> (\<^verbatim>\<open>bsl/err/src/err.c\<close>): one ring of twenty entries per thread. The ring
    refines a bounded list; the operations on all threads refine a map from threads to lists. The
    thread id, the result of the lock and of the allocations are arguments.

  \<^item> \<open>Tls_Base\<close>, \<open>Alert\<close>, \<open>Ccs\<close>, \<open>Conn\<close>, \<open>Conn_Correct\<close> (\<^verbatim>\<open>tls/alert\<close>, \<^verbatim>\<open>tls/ccs\<close>, \<^verbatim>\<open>tls/cm\<close>): the connection
    record \<open>TLS_Ctx\<close> with the fields these modules use, and the record \<open>tls_ops\<close> of the calls they make
    into the handshake and the record layer, which may do anything to their own part of the state
    (type parameter \<open>'e\<close>). What is relied on are the predicates \<open>lower_ok\<close> (they do not write the fields
    of the state machine), \<open>keeps_warnings\<close>, \<open>never_completes\<close> and \<open>counts_activations\<close>, each a hypothesis
    of the theorems that use it. The locale \<open>state_class\<close> proves for a set of states what every
    handler keeps; it is instantiated for the final and for the unestablished states.

  \<^item> \<open>Anti_Replay\<close> (\<^verbatim>\<open>tls/record\<close>): the 64-entry window and its use on the receiving path. Sequence
    numbers have 48 bits, so the 64-bit arithmetic does not wrap on the path; it does near \<open>2\<^sup>6\<^sup>4\<close>.

  \<^item> \<open>Bn_Word\<close>, \<open>Bn_Bin\<close>, \<open>Bn_Shift\<close>, \<open>Bn_Basic\<close>, \<open>Bn_Correct\<close>, \<open>Bn_Limb\<close> (\<^verbatim>\<open>crypto/bn\<close>, the portable 64-bit
    build): the digit macros, the loops on digit arrays with their unrolling by four, and the signed
    numbers. The locales \<open>accumulating_loop\<close>, \<open>subtracting_loop\<close> and \<open>unrolled_loop\<close> hold the invariants
    of the digit loops once; the five loops of the code are instances. Numbers have fewer than \<open>2\<^sup>2\<^sup>3\<close>
    digits (\<open>BN_MAX_BITS\<close>), so the 32-bit sizes are natural numbers; digits wrap at 64 bits.

  \<^item> \<open>Bn_Div\<close>, \<open>Bn_Sqr\<close> (\<^verbatim>\<open>bn_bincal.c\<close>): the long division with its trial quotient from three and two digits and
    the squaring, exact on digit arrays.

  \<^item> \<open>Bn_Opt\<close> (\<^verbatim>\<open>bn_optimizer.c\<close>): the store of temporary numbers. The state \<open>bn_state\<close> holds every number of a
    computation under a reference, a number of the caller or a slot of a chunk, so that equal pointers are
    equal references and overlapping results and operands are part of the model; \<open>allocOk\<close> says which
    requests for memory are granted. \<open>ext s s' W\<close> says that of the numbers in use only those in \<open>W\<close> changed.

  \<^item> \<open>Bn_Mod\<close> (\<^verbatim>\<open>bn_operation.c\<close>): products, division, reduction, modular arithmetic and the exponentiation loop
    on the store; \<open>Bn_Arith\<close>, \<open>Bn_Quot\<close>, \<open>Bn_Modular\<close>, \<open>Bn_Exp\<close>, \<open>Bn_DivLimb\<close> prove them on the integers, and
    \<open>Bn_Mod_Correct\<close> states the result: exactness when memory is granted, the optimizer as a stack of frames
    (the locale \<open>bounded_simulation\<close>), and, whatever memory is refused, that every operation closes its frame.

  \<^item> \<open>Crypt_Base\<close>, \<open>Hash_Blocks\<close>: return codes and big-endian helpers of \<^verbatim>\<open>crypto\<close>; messages cut into blocks and
    padded, as the iterated hashes do.

  \<^item> \<open>Md_Method\<close>, \<open>Sha256\<close>, \<open>Sha256_Correct\<close> (\<^verbatim>\<open>crypto/sha2\<close>): the table of functions of a hash and its contract, the
    locale \<open>md_method\<close>; SHA-256 and SHA-224 with both portable compression functions, equal to the functions of
    FIPS 180-4 over every cutting of a message below \<open>2\<^sup>6\<^sup>1\<close> bytes, and instances of the contract.

  \<^item> \<open>Sha512\<close>, \<open>Sha512_Correct\<close>, \<open>Sha512_Stream\<close> (\<^verbatim>\<open>crypto/sha2\<close>): the same for SHA-512 and SHA-384, whose message schedule
    is a circular array of sixteen words, for messages below \<open>2\<^sup>1\<^sup>2\<^sup>5\<close> bytes.

  \<^item> \<open>Hmac\<close>, \<open>Hkdf\<close>, \<open>Hmac_Correct\<close>, \<open>Hmac_Sha256\<close> (\<^verbatim>\<open>crypto/hmac\<close>, \<^verbatim>\<open>crypto/hkdf\<close>): HMAC over any table of hash
    functions and HKDF over any table of functions of a code (the locale \<open>mac_method\<close>, a sublocale of
    \<open>md_method\<close> through HMAC); with SHA-256 they compute RFC 2104 and RFC 5869.

  \<^bold>\<open>Conventions.\<close> A null pointer argument is \<open>None\<close>. A function that returns a code and writes through
  pointers returns the code with the new values; arrays are lists, and a write outside the caller's
  room is a branch of the definition. Error reporting by \<^verbatim>\<open>BSL_ERR_PUSH_ERROR\<close> and logging have no effect
  on the values and are left out of the callers. All optional features of the modelled files are
  compiled in, except the assembler variants and the comba products (\<^verbatim>\<open>HITLS_CRYPTO_BN_COMBA\<close>).

  \<^bold>\<open>Not modelled.\<close> The handshake and the record layer below the connection, reading from a connection,
  configuration, sessions, ciphers, the other hashes, public keys, ASN.1, certificates, the operating system layer
  and the command line tool: see the component list of the manifest. Next in the plan: Montgomery
  arithmetic, DTLS reassembly, lists, reading, and the handshake state machine.
\<close>

end
